(* ===== verification/Zeros_Prelude.thy ===== *)
theory Zeros_Prelude
  imports Main "HOL-Library.Word" "HOL-Library.Monad_Syntax"
begin

unbundle bit_operations_syntax

text \<open>
  Shared vocabulary of the development: the machine types of the 32-bit target, object
  addresses, the reading of a missing result, and the generic facts on lists, options and
  words that the component theories use.

  A C++ operation that can fail to have a defined result (it walks a chain of pointers that
  may be cyclic, or it indexes an array with a value nobody checked) is modelled with result
  type \<open>option\<close>: \<open>None\<close> means that the call runs forever or is undefined, never an error code
  of the program. Error codes of the program are values of their own data types.
\<close>

type_synonym u8 = "8 word"
type_synonym u16 = "16 word"
type_synonym u32 = "32 word"

text \<open>Addresses of objects (task control blocks, waiters, nodes). A pointer is \<open>addr option\<close>,
  with \<open>None\<close> for \<open>nullptr\<close>.\<close>

type_synonym addr = nat

text \<open>Collections: equations of the model's operations that read well as rewrite rules, facts
  that every operation keeps an invariant, and frame facts (what an operation leaves alone).\<close>

named_theorems op_simps
named_theorems inv_intros
named_theorems frame_simps

section \<open>Lists\<close>

lemma last_append_if: "last (xs @ ys) = (if ys = [] then last xs else last ys)"
  by simp

lemma nth_list_update_if:
  "i < length xs \<Longrightarrow> xs[i := v] ! j = (if i = j then v else xs ! j)"
  by simp

lemma takeWhile_Not_upt_length:
  assumes "p k" and "k < n" and "\<And>j. j < k \<Longrightarrow> \<not> p j"
  shows "length (takeWhile (\<lambda>i. \<not> p i) [0..<n]) = k"
proof -
  have "takeWhile (\<lambda>i. \<not> p i) ([0..<k] @ k # [Suc k..<n]) = [0..<k]"
    using assms by (subst takeWhile_append2) auto
  moreover have "[0..<n] = [0..<k] @ k # [Suc k..<n]"
    using assms(2) upt_add_eq_append [of 0 k "n - k"] by (simp add: upt_conv_Cons)
  ultimately show ?thesis by simp
qed

section \<open>Words\<close>

lemma word32_eqI: "(\<And>n. n < 32 \<Longrightarrow> bit x n = bit y n) \<Longrightarrow> x = y" for x y :: u32
  by (rule bit_word_eqI) simp

lemma word32_nonzero_bit: "x \<noteq> 0 \<Longrightarrow> \<exists>n<32. bit x n" for x :: u32
  using word32_eqI [of x 0] by auto

lemma bit_mask_word32: "bit (push_bit k 1 - 1 :: u32) n \<longleftrightarrow> n < k \<and> n < 32" if "k < 32"
proof -
  have "(push_bit k 1 - 1 :: u32) = mask k"
    by (simp add: mask_eq_exp_minus_1 push_bit_eq_mult)
  then show ?thesis by (auto simp: bit_mask_iff)
qed

end
