(* ===== verification/Bitmap.thy ===== *)
theory Bitmap
  imports Zeros_Prelude
begin

text \<open>
  The bare-word bitmap of \<^verbatim>\<open>include/ZerOS/base/bitmap.hpp\<close>, used by the scheduler (which
  priority levels hold a task) and by the block pool (which blocks are taken). The words are
  32 bits wide, indices are natural numbers, and \<open>npos\<close> is the all-ones \<open>size_t\<close> of the
  32-bit target. \<open>shift right by 5\<close> and \<open>and with 31\<close> on an index are \<open>div 32\<close> and \<open>mod 32\<close>.
  An index outside the bitmap is undefined in the source; here it reads an unspecified word,
  so every fact about an index asks for it to be in range.
\<close>

section \<open>Counting trailing zeros\<close>

text \<open>The portable loop; it never ends on zero.\<close>

partial_function (option) ctz_loop :: "u32 \<Rightarrow> nat \<Rightarrow> nat option" where
  "ctz_loop x n = (if x AND 1 = 0 then ctz_loop (drop_bit 1 x) (n + 1) else Some n)"

text \<open>The compiler builtin: the index of the lowest set bit of a nonzero word.\<close>

definition builtin_ctz :: "u32 \<Rightarrow> nat" where
  "builtin_ctz x = length (takeWhile (\<lambda>i. \<not> bit x i) [0..<32])"

definition ctz :: "u32 \<Rightarrow> nat" where
  "ctz x = builtin_ctz x"

lemma ctz_least:
  assumes "x \<noteq> 0"
  shows "bit x (ctz x)" and "ctz x < 32" and "j < ctz x \<Longrightarrow> \<not> bit x j"
proof -
  define k where "k = (LEAST i. bit x i)"
  from word32_nonzero_bit [OF assms] obtain i where i: "i < 32" "bit x i" by blast
  have "bit x k" unfolding k_def using i(2) by (rule LeastI)
  moreover have "k < 32" using i Least_le [of "bit x" i] by (simp add: k_def)
  moreover have "\<And>j. j < k \<Longrightarrow> \<not> bit x j" unfolding k_def by (rule not_less_Least)
  moreover have "ctz x = k"
    unfolding ctz_def builtin_ctz_def using calculation by (intro takeWhile_Not_upt_length) auto
  ultimately show "bit x (ctz x)" "ctz x < 32" "j < ctz x \<Longrightarrow> \<not> bit x j" by auto
qed

lemma ctz_unique:
  assumes "bit x k" and "k < 32" and "\<And>j. j < k \<Longrightarrow> \<not> bit x j"
  shows "ctz x = k"
  unfolding ctz_def builtin_ctz_def using assms by (intro takeWhile_Not_upt_length) auto

lemma and_one_zero_iff: "x AND 1 = 0 \<longleftrightarrow> \<not> bit x 0" for x :: u32
  by (simp add: and_one_eq mod_2_eq_odd bit_0)

lemma ctz_loop_shift:
  "bit x k \<Longrightarrow> k < 32 \<Longrightarrow> (\<And>j. j < k \<Longrightarrow> \<not> bit x j) \<Longrightarrow> ctz_loop x n = Some (n + k)"
proof (induction k arbitrary: x n)
  case 0
  then show ?case by (simp add: ctz_loop.simps and_one_zero_iff)
next
  case (Suc k)
  have "ctz_loop (drop_bit 1 x) (n + 1) = Some (n + 1 + k)"
    using Suc.prems by (intro Suc.IH) (auto simp: bit_drop_bit_eq)
  moreover have "x AND 1 = 0" using Suc.prems by (simp add: and_one_zero_iff)
  ultimately show ?case by (simp add: ctz_loop.simps [of x])
qed

section \<open>The bitmap and its operations\<close>

record bitmap =
  words :: "u32 list"

definition npos :: nat where
  "npos = 4294967295"

definition WORDS :: "nat \<Rightarrow> nat" where
  "WORDS bit_count = (bit_count + 31) div 32"

definition Bitmap_new :: "nat \<Rightarrow> bitmap" where
  "Bitmap_new bit_count = \<lparr>words = replicate (WORDS bit_count) 0\<rparr>"

definition one_hot :: "nat \<Rightarrow> u32" where
  "one_hot i = push_bit (i mod 32) 1"

definition tail_mask :: "nat \<Rightarrow> u32" where
  "tail_mask bit_count =
     (if bit_count mod 32 \<noteq> 0 then push_bit (bit_count mod 32) 1 - 1 else NOT 0)"

definition valid_mask :: "nat \<Rightarrow> nat \<Rightarrow> u32" where
  "valid_mask bit_count w = (if w + 1 = WORDS bit_count then tail_mask bit_count else NOT 0)"

definition Bitmap_set :: "nat \<Rightarrow> bitmap \<Rightarrow> bitmap" where
  "Bitmap_set i b = b\<lparr>words := (words b)[i div 32 := words b ! (i div 32) OR one_hot i]\<rparr>"

definition Bitmap_clear :: "nat \<Rightarrow> bitmap \<Rightarrow> bitmap" where
  "Bitmap_clear i b =
     b\<lparr>words := (words b)[i div 32 := words b ! (i div 32) AND NOT (one_hot i)]\<rparr>"

definition Bitmap_test :: "bitmap \<Rightarrow> nat \<Rightarrow> bool" where
  "Bitmap_test b i = (words b ! (i div 32) AND one_hot i \<noteq> 0)"

definition word_full :: "nat \<Rightarrow> bitmap \<Rightarrow> nat \<Rightarrow> bool" where
  "word_full bit_count b w = (words b ! w = valid_mask bit_count w)"

definition word_empty :: "bitmap \<Rightarrow> nat \<Rightarrow> bool" where
  "word_empty b w = (words b ! w = 0)"

definition first_zero_in_word :: "nat \<Rightarrow> bitmap \<Rightarrow> nat \<Rightarrow> nat" where
  "first_zero_in_word bit_count b w =
     (let free_bits = NOT (words b ! w) AND valid_mask bit_count w
      in if free_bits \<noteq> 0 then 32 * w + ctz free_bits else npos)"

function find_first_zero_from :: "nat \<Rightarrow> bitmap \<Rightarrow> nat \<Rightarrow> nat" where
  "find_first_zero_from bit_count b w =
     (if w < WORDS bit_count then
        let bit = first_zero_in_word bit_count b w
        in if bit \<noteq> npos then bit else find_first_zero_from bit_count b (w + 1)
      else npos)"
  by pat_completeness auto
termination by (relation "measure (\<lambda>(n, b, w). WORDS n - w)") auto

definition find_first_zero :: "nat \<Rightarrow> bitmap \<Rightarrow> nat" where
  "find_first_zero bit_count b = find_first_zero_from bit_count b 0"

function find_first_set_from :: "nat \<Rightarrow> bitmap \<Rightarrow> nat \<Rightarrow> nat" where
  "find_first_set_from bit_count b w =
     (if w < WORDS bit_count then
        if words b ! w \<noteq> 0 then 32 * w + ctz (words b ! w)
        else find_first_set_from bit_count b (w + 1)
      else npos)"
  by pat_completeness auto
termination by (relation "measure (\<lambda>(n, b, w). WORDS n - w)") auto

definition find_first_set :: "nat \<Rightarrow> bitmap \<Rightarrow> nat" where
  "find_first_set bit_count b = find_first_set_from bit_count b 0"

declare find_first_zero_from.simps [simp del] find_first_set_from.simps [simp del]

text \<open>The compile-time self checks of the header.\<close>

definition self_check_first_zero :: bool where
  "self_check_first_zero = (let b = Bitmap_set 1 (Bitmap_set 0 (Bitmap_new 8)) in find_first_zero 8 b = 2)"

definition self_check_tail :: bool where
  "self_check_tail = (let b = fold Bitmap_set [0..<5] (Bitmap_new 5) in find_first_zero 5 b = npos)"

definition self_check_first_set :: bool where
  "self_check_first_set =
     (let b = Bitmap_set 7 (Bitmap_new 8) in find_first_set 8 b = 7 \<and> Bitmap_test b 7 \<and> \<not> Bitmap_test b 0)"

definition self_check_empty :: bool where
  "self_check_empty = (find_first_set 8 (Bitmap_new 8) = npos)"

section \<open>Well-formedness: the right number of words, clean padding\<close>

definition bitmap_wf :: "nat \<Rightarrow> bitmap \<Rightarrow> bool" where
  "bitmap_wf n b \<longleftrightarrow> length (words b) = WORDS n \<and>
     (\<forall>i < 32 * WORDS n. n \<le> i \<longrightarrow> \<not> Bitmap_test b i)"

lemma Bitmap_test_bit: "Bitmap_test b i = bit (words b ! (i div 32)) (i mod 32)"
proof -
  have "words b ! (i div 32) AND push_bit (i mod 32) 1 \<noteq> 0
      \<longleftrightarrow> bit (words b ! (i div 32)) (i mod 32)"
    by (metis and.commute and_exp_eq_0_iff_not_bit push_bit_of_1)
  then show ?thesis by (simp add: Bitmap_test_def one_hot_def)
qed

lemma div_less_WORDS: "i < n \<Longrightarrow> i div 32 < WORDS n"
  by (simp add: WORDS_def less_mult_imp_div_less)

lemma WORDS_bounds: "n \<le> 32 * WORDS n" "32 * WORDS n < n + 32"
  by (auto simp: WORDS_def)

lemma div_mod_32_eq: "(i div 32 = j div 32 \<and> i mod 32 = j mod 32) \<longleftrightarrow> i = (j::nat)"
  by (metis div_mult_mod_eq)

lemma bit_one_hot: "bit (one_hot i) k \<longleftrightarrow> k = i mod 32"
  by (auto simp: one_hot_def bit_exp_iff possible_bit_word)

lemma Bitmap_test_set [simp]:
  assumes "i div 32 < length (words b)"
  shows "Bitmap_test (Bitmap_set i b) j \<longleftrightarrow> j = i \<or> Bitmap_test b j"
  using assms div_mod_32_eq [of i j]
  by (auto simp: Bitmap_test_bit Bitmap_set_def nth_list_update bit_or_iff bit_one_hot)

lemma Bitmap_test_clear [simp]:
  assumes "i div 32 < length (words b)"
  shows "Bitmap_test (Bitmap_clear i b) j \<longleftrightarrow> j \<noteq> i \<and> Bitmap_test b j"
  using assms div_mod_32_eq [of i j]
  by (auto simp: Bitmap_test_bit Bitmap_clear_def nth_list_update bit_and_iff bit_not_iff
      bit_one_hot)

lemma length_words_ops [simp]:
  "length (words (Bitmap_set i b)) = length (words b)"
  "length (words (Bitmap_clear i b)) = length (words b)"
  by (simp_all add: Bitmap_set_def Bitmap_clear_def)

lemma bitmap_wf_length: "bitmap_wf n b \<Longrightarrow> i < n \<Longrightarrow> i div 32 < length (words b)"
  by (simp add: bitmap_wf_def div_less_WORDS)

lemma bitmap_wf_new [inv_intros]: "bitmap_wf n (Bitmap_new n)"
  by (auto simp: bitmap_wf_def Bitmap_new_def Bitmap_test_bit)

lemma Bitmap_test_new: "i < n \<Longrightarrow> \<not> Bitmap_test (Bitmap_new n) i"
  by (simp add: Bitmap_new_def Bitmap_test_bit div_less_WORDS)

lemma bitmap_wf_set [inv_intros]: "bitmap_wf n b \<Longrightarrow> i < n \<Longrightarrow> bitmap_wf n (Bitmap_set i b)"
  by (auto simp: bitmap_wf_def div_less_WORDS)

lemma bitmap_wf_clear [inv_intros]: "bitmap_wf n b \<Longrightarrow> i < n \<Longrightarrow> bitmap_wf n (Bitmap_clear i b)"
  by (auto simp: bitmap_wf_def div_less_WORDS)

lemma bit_valid_mask:
  assumes "w < WORDS n" and "k < 32"
  shows "bit (valid_mask n w) k \<longleftrightarrow> 32 * w + k < n"
proof (cases "w + 1 = WORDS n")
  case True
  then have "32 * w < n" "n \<le> 32 * w + 32" using WORDS_bounds [of n] by linarith+
  then obtain r where r: "n = r + 32 * w" "0 < r" "r \<le> 32"
    by (metis add.commute add_le_cancel_left le_add_diff_inverse less_imp_le_nat zero_less_diff)
  show ?thesis
  proof (cases "r = 32")
    case True
    with r have "n mod 32 = 0" by simp
    then show ?thesis using assms r \<open>w + 1 = WORDS n\<close> True
      by (simp add: valid_mask_def tail_mask_def bit_not_iff)
  next
    case False
    with r have "n mod 32 = r" by simp
    moreover have "bit (push_bit r 1 - 1 :: u32) k \<longleftrightarrow> k < r"
      using False r(3) assms(2) bit_mask_word32 [of r k] by simp
    ultimately show ?thesis using r \<open>w + 1 = WORDS n\<close>
      by (simp add: valid_mask_def tail_mask_def add.commute [of r])
  qed
next
  case False
  with assms have "32 * w + k < n" using WORDS_bounds [of n] by linarith
  then show ?thesis using False assms by (simp add: valid_mask_def bit_not_iff)
qed

lemma Bitmap_test_word: "k < 32 \<Longrightarrow> Bitmap_test b (32 * w + k) = bit (words b ! w) k"
  by (simp add: Bitmap_test_bit)

section \<open>The word-level predicates\<close>

lemma word_full_iff:
  assumes "bitmap_wf n b" and "w < WORDS n"
  shows "word_full n b w \<longleftrightarrow> (\<forall>i < n. i div 32 = w \<longrightarrow> Bitmap_test b i)"
proof
  assume "word_full n b w"
  then show "\<forall>i < n. i div 32 = w \<longrightarrow> Bitmap_test b i"
    using bit_valid_mask [OF assms(2)] by (auto simp: word_full_def Bitmap_test_bit)
next
  assume all: "\<forall>i < n. i div 32 = w \<longrightarrow> Bitmap_test b i"
  have "bit (words b ! w) k = bit (valid_mask n w) k" if "k < 32" for k
  proof (cases "32 * w + k < n")
    case True
    with all that have "Bitmap_test b (32 * w + k)" by simp
    then show ?thesis using True bit_valid_mask [OF assms(2) that] by (simp add: Bitmap_test_word that)
  next
    case False
    moreover have "32 * w + k < 32 * WORDS n" using assms(2) that by linarith
    ultimately have "\<not> Bitmap_test b (32 * w + k)" using assms(1) by (simp add: bitmap_wf_def)
    then show ?thesis using False bit_valid_mask [OF assms(2) that] by (simp add: Bitmap_test_word that)
  qed
  then show "word_full n b w" unfolding word_full_def by (rule word32_eqI)
qed

lemma word_empty_iff: "word_empty b w \<longleftrightarrow> (\<forall>i. i div 32 = w \<longrightarrow> \<not> Bitmap_test b i)"
proof
  assume "\<forall>i. i div 32 = w \<longrightarrow> \<not> Bitmap_test b i"
  then have "bit (words b ! w) k = bit 0 k" if "k < 32" for k
    using Bitmap_test_word [OF that, of b w] that by simp
  then have "words b ! w = 0" by (rule word32_eqI)
  then show "word_empty b w" by (simp add: word_empty_def)
qed (auto simp: word_empty_def Bitmap_test_bit)

section \<open>Searches\<close>

text \<open>The index \<open>k\<close> is the least index from \<open>lo\<close> on, below \<open>hi\<close>, with property \<open>p\<close>.\<close>

definition least_in :: "(nat \<Rightarrow> bool) \<Rightarrow> nat \<Rightarrow> nat \<Rightarrow> nat \<Rightarrow> bool" where
  "least_in p lo hi k \<longleftrightarrow> lo \<le> k \<and> k < hi \<and> p k \<and> (\<forall>j. lo \<le> j \<and> j < k \<longrightarrow> \<not> p j)"

lemma least_in_unique: "least_in p lo hi k \<Longrightarrow> least_in p lo hi k' \<Longrightarrow> k = k'"
  unfolding least_in_def by (meson linorder_neqE_nat)

lemma first_zero_in_word_spec:
  assumes "w < WORDS n" and "n \<le> npos"
  shows "if first_zero_in_word n b w \<noteq> npos
    then least_in (\<lambda>i. \<not> Bitmap_test b i) (32 * w) (min n (32 * w + 32)) (first_zero_in_word n b w)
    else (\<forall>i < n. i div 32 = w \<longrightarrow> Bitmap_test b i)"
proof -
  define free where "free = (NOT (words b ! w) AND valid_mask n w)"
  have bit_free: "bit free k \<longleftrightarrow> \<not> Bitmap_test b (32 * w + k) \<and> 32 * w + k < n" if "k < 32" for k
    using that bit_valid_mask [OF assms(1) that]
    by (simp add: free_def bit_and_iff bit_not_iff Bitmap_test_word)
  show ?thesis
  proof (cases "free = 0")
    case True
    have "Bitmap_test b i" if "i < n" "i div 32 = w" for i
    proof -
      have "i = 32 * w + i mod 32" using that(2) by presburger
      then show ?thesis using bit_free [of "i mod 32"] True that(1) by simp
    qed
    then show ?thesis by (simp add: first_zero_in_word_def free_def [symmetric] True)
  next
    case False
    define k where "k = ctz free"
    have k: "k < 32" "bit free k" "\<And>j. j < k \<Longrightarrow> \<not> bit free j"
      using ctz_least [OF False] by (auto simp: k_def)
    have eq: "first_zero_in_word n b w = 32 * w + k"
      using False by (simp add: first_zero_in_word_def free_def [symmetric] k_def)
    have "Bitmap_test b j" if "32 * w \<le> j" "j < 32 * w + k" for j
      using k(3) [of "j - 32 * w"] bit_free [of "j - 32 * w"] bit_free [of k] k that by auto
    then have "least_in (\<lambda>i. \<not> Bitmap_test b i) (32 * w) (min n (32 * w + 32)) (32 * w + k)"
      using k bit_free [of k] by (auto simp: least_in_def)
    moreover have "32 * w + k \<noteq> npos" using k bit_free [of k] assms(2) by simp
    ultimately show ?thesis by (simp add: eq)
  qed
qed

lemma least_in_extend:
  "least_in p lo hi k \<Longrightarrow> lo' \<le> lo \<Longrightarrow> hi \<le> hi' \<Longrightarrow> (\<And>j. lo' \<le> j \<Longrightarrow> j < lo \<Longrightarrow> \<not> p j)
    \<Longrightarrow> least_in p lo' hi' k"
  unfolding least_in_def by (meson le_trans less_le_trans not_le_imp_less)

lemma word_range_div: "32 * w \<le> i \<Longrightarrow> i < 32 * Suc w \<Longrightarrow> i div 32 = w"
  by (metis div_nat_eqI mult.commute)

lemma find_first_zero_from_spec:
  assumes "n \<le> npos"
  shows "if find_first_zero_from n b w \<noteq> npos
    then least_in (\<lambda>i. \<not> Bitmap_test b i) (32 * w) n (find_first_zero_from n b w)
    else (\<forall>i < n. 32 * w \<le> i \<longrightarrow> Bitmap_test b i)"
proof (induction "WORDS n - w" arbitrary: w)
  case 0
  then have "n \<le> 32 * w" using WORDS_bounds [of n] by linarith
  then show ?case using 0 by (simp add: find_first_zero_from.simps [of n b w])
next
  case (Suc m)
  then have w: "w < WORDS n" by linarith
  note here = first_zero_in_word_spec [OF w assms, of b]
  show ?case
  proof (cases "first_zero_in_word n b w = npos")
    case False
    then have "find_first_zero_from n b w = first_zero_in_word n b w"
      using w by (simp add: find_first_zero_from.simps [of n b w])
    then show ?thesis using False here by (auto intro: least_in_extend)
  next
    case True
    then have eq: "find_first_zero_from n b w = find_first_zero_from n b (Suc w)"
      using w by (simp add: find_first_zero_from.simps [of n b w])
    have taken: "Bitmap_test b i" if "32 * w \<le> i" "i < 32 * Suc w" "i < n" for i
      using here True that word_range_div [OF that(1,2)] by simp
    have "if find_first_zero_from n b (Suc w) \<noteq> npos
      then least_in (\<lambda>i. \<not> Bitmap_test b i) (32 * Suc w) n (find_first_zero_from n b (Suc w))
      else (\<forall>i < n. 32 * Suc w \<le> i \<longrightarrow> Bitmap_test b i)"
      using Suc.hyps(2) by (intro Suc.hyps(1)) linarith
    then show ?thesis
      unfolding eq using taken
      by (auto simp: least_in_def not_le split: if_splits) (metis not_le)+
  qed
qed

lemma find_first_set_from_spec:
  assumes "n \<le> npos" and "bitmap_wf n b"
  shows "if find_first_set_from n b w \<noteq> npos
    then least_in (Bitmap_test b) (32 * w) n (find_first_set_from n b w)
    else (\<forall>i < n. 32 * w \<le> i \<longrightarrow> \<not> Bitmap_test b i)"
proof (induction "WORDS n - w" arbitrary: w)
  case 0
  then have "n \<le> 32 * w" using WORDS_bounds [of n] by linarith
  then show ?case using 0 by (simp add: find_first_set_from.simps [of n b w])
next
  case (Suc m)
  then have w: "w < WORDS n" by linarith
  show ?case
  proof (cases "words b ! w = 0")
    case False
    let ?k = "ctz (words b ! w)"
    note k = ctz_least [OF False]
    have eq: "find_first_set_from n b w = 32 * w + ?k"
      using w False by (simp add: find_first_set_from.simps [of n b w])
    have "Bitmap_test b (32 * w + ?k)" using k by (simp add: Bitmap_test_word)
    moreover have "32 * w + ?k < 32 * WORDS n" using w k(2) by linarith
    ultimately have "32 * w + ?k < n" using assms(2) by (meson bitmap_wf_def not_le_imp_less)
    moreover have "\<not> Bitmap_test b j" if "32 * w \<le> j" "j < 32 * w + ?k" for j
      using k(3) [of "j - 32 * w"] k(2) Bitmap_test_word [of "j - 32 * w" b w] that by simp
    ultimately show ?thesis
      using \<open>Bitmap_test b (32 * w + ?k)\<close> assms(1) by (simp add: eq least_in_def)
  next
    case True
    then have eq: "find_first_set_from n b w = find_first_set_from n b (Suc w)"
      using w by (simp add: find_first_set_from.simps [of n b w])
    have clear: "\<not> Bitmap_test b i" if "32 * w \<le> i" "i < 32 * Suc w" for i
      using True word_range_div [OF that] by (simp add: Bitmap_test_bit)
    have "if find_first_set_from n b (Suc w) \<noteq> npos
      then least_in (Bitmap_test b) (32 * Suc w) n (find_first_set_from n b (Suc w))
      else (\<forall>i < n. 32 * Suc w \<le> i \<longrightarrow> \<not> Bitmap_test b i)"
      using Suc.hyps(2) by (intro Suc.hyps(1)) linarith
    then show ?thesis
      unfolding eq using clear
      by (auto simp: least_in_def not_le split: if_splits) (metis not_le)+
  qed
qed

section \<open>The interface the kernel uses\<close>

text \<open>
  What the scheduler and the block pool rely on: a map of \<open>n\<close> flags with point updates and
  the two searches. Everything a client proves about the searches follows from these laws.
\<close>

locale flag_map =
  fixes n :: nat
    and wf :: "'b \<Rightarrow> bool"
    and flag :: "'b \<Rightarrow> nat \<Rightarrow> bool"
    and raise :: "nat \<Rightarrow> 'b \<Rightarrow> 'b"
    and lower :: "nat \<Rightarrow> 'b \<Rightarrow> 'b"
    and first_raised :: "'b \<Rightarrow> nat"
    and first_lowered :: "'b \<Rightarrow> nat"
  assumes flag_raise: "n \<le> npos \<Longrightarrow> wf b \<Longrightarrow> i < n \<Longrightarrow> flag (raise i b) j \<longleftrightarrow> j = i \<or> flag b j"
    and flag_lower: "n \<le> npos \<Longrightarrow> wf b \<Longrightarrow> i < n \<Longrightarrow> flag (lower i b) j \<longleftrightarrow> j \<noteq> i \<and> flag b j"
    and wf_raise: "n \<le> npos \<Longrightarrow> wf b \<Longrightarrow> i < n \<Longrightarrow> wf (raise i b)"
    and wf_lower: "n \<le> npos \<Longrightarrow> wf b \<Longrightarrow> i < n \<Longrightarrow> wf (lower i b)"
    and first_raised_law: "n \<le> npos \<Longrightarrow> wf b \<Longrightarrow>
      if first_raised b \<noteq> npos then least_in (flag b) 0 n (first_raised b)
      else (\<forall>i < n. \<not> flag b i)"
    and first_lowered_law: "n \<le> npos \<Longrightarrow> wf b \<Longrightarrow>
      if first_lowered b \<noteq> npos then least_in (\<lambda>i. \<not> flag b i) 0 n (first_lowered b)
      else (\<forall>i < n. flag b i)"
begin

lemma first_raised_eqI:
  assumes "n \<le> npos" "wf b" "k < n" "flag b k" "\<And>j. j < k \<Longrightarrow> \<not> flag b j"
  shows "first_raised b = k"
proof -
  have "first_raised b \<noteq> npos" using first_raised_law [OF assms(1,2)] assms(3,4) by auto
  then have "least_in (flag b) 0 n (first_raised b)" using first_raised_law [OF assms(1,2)] by simp
  moreover have "least_in (flag b) 0 n k" using assms(3-5) by (simp add: least_in_def)
  ultimately show ?thesis by (rule least_in_unique)
qed

lemma first_lowered_eqI:
  assumes "n \<le> npos" "wf b" "least_in (\<lambda>i. \<not> flag b i) 0 n k"
  shows "first_lowered b = k"
proof -
  have "first_lowered b \<noteq> npos"
    using first_lowered_law [OF assms(1,2)] assms(3) by (auto simp: least_in_def)
  then have "least_in (\<lambda>i. \<not> flag b i) 0 n (first_lowered b)"
    using first_lowered_law [OF assms(1,2)] by simp
  then show ?thesis using assms(3) by (rule least_in_unique)
qed

lemma first_raised_none: "n \<le> npos \<Longrightarrow> wf b \<Longrightarrow> first_raised b = npos \<longleftrightarrow> (\<forall>i < n. \<not> flag b i)"
  using first_raised_law [of b] by (auto simp: least_in_def split: if_splits)

lemma first_raised_some:
  "n \<le> npos \<Longrightarrow> wf b \<Longrightarrow> first_raised b \<noteq> npos \<Longrightarrow>
     first_raised b < n \<and> flag b (first_raised b) \<and> (\<forall>j < first_raised b. \<not> flag b j)"
  using first_raised_law [of b] by (simp add: least_in_def)

lemma first_lowered_none: "n \<le> npos \<Longrightarrow> wf b \<Longrightarrow> first_lowered b = npos \<longleftrightarrow> (\<forall>i < n. flag b i)"
  using first_lowered_law [of b] by (auto simp: least_in_def split: if_splits)

lemma first_lowered_some:
  "n \<le> npos \<Longrightarrow> wf b \<Longrightarrow> first_lowered b \<noteq> npos \<Longrightarrow>
     first_lowered b < n \<and> \<not> flag b (first_lowered b) \<and> (\<forall>j < first_lowered b. flag b j)"
  using first_lowered_law [of b] by (simp add: least_in_def)

lemma first_lowered_is:
  assumes "n \<le> npos" "wf b" "k < n" "\<not> flag b k" "\<forall>j < k. flag b j"
  shows "first_lowered b = k"
proof -
  have "first_lowered b \<noteq> npos" using assms first_lowered_none by blast
  then show ?thesis using assms(4,5) first_lowered_some [OF assms(1,2)] by (meson linorder_neqE_nat)
qed

lemma first_raised_is:
  assumes "n \<le> npos" "wf b" "k < n" "flag b k" "\<forall>j < k. \<not> flag b j"
  shows "first_raised b = k"
proof -
  have "first_raised b \<noteq> npos" using assms first_raised_none by blast
  then show ?thesis using assms(4,5) first_raised_some [OF assms(1,2)] by (meson linorder_neqE_nat)
qed

lemma first_raised_after_raise:
  assumes "n \<le> npos" "wf b" "i < n"
  shows "first_raised (raise i b) = min i (first_raised b)"
proof (rule first_raised_eqI)
  show "min i (first_raised b) < n" using assms(3) by simp
  show "flag (raise i b) (min i (first_raised b))"
    using assms first_raised_some [OF assms(1,2)] by (simp add: flag_raise min_def)
  show "\<not> flag (raise i b) j" if "j < min i (first_raised b)" for j
    using assms that first_raised_some [OF assms(1,2)] first_raised_none [OF assms(1,2)]
    by (auto simp: flag_raise)
qed (use assms wf_raise in auto)

end

interpretation bm: flag_map n "bitmap_wf n" Bitmap_test Bitmap_set Bitmap_clear
  "find_first_set n" "find_first_zero n" for n
proof
  show "if find_first_set n b \<noteq> npos then least_in (Bitmap_test b) 0 n (find_first_set n b)
      else \<forall>i<n. \<not> Bitmap_test b i" if "n \<le> npos" "bitmap_wf n b" for b
    using find_first_set_from_spec [OF that, of 0] by (auto simp: find_first_set_def split: if_splits)
  show "if find_first_zero n b \<noteq> npos then least_in (\<lambda>i. \<not> Bitmap_test b i) 0 n (find_first_zero n b)
      else \<forall>i<n. Bitmap_test b i" if "n \<le> npos" "bitmap_wf n b" for b
    using find_first_zero_from_spec [OF that(1), of b 0] by (auto simp: find_first_zero_def split: if_splits)
qed (auto intro: inv_intros simp: bitmap_wf_length)

section \<open>Properties\<close>

text \<open>C24: the two searches are exact for every bitmap size: each returns \<open>npos\<close> only when there
  is no such bit, and otherwise the least index, never a padding bit of the tail word.\<close>

theorem bitmap_searches_exact:
  assumes "bitmap_wf n b" and "n \<le> npos"
  shows "(find_first_set n b = npos \<longleftrightarrow> (\<forall>i < n. \<not> Bitmap_test b i))
    \<and> (find_first_zero n b = npos \<longleftrightarrow> (\<forall>i < n. Bitmap_test b i))
    \<and> (find_first_set n b \<noteq> npos \<longrightarrow> find_first_set n b < n \<and> Bitmap_test b (find_first_set n b)
        \<and> (\<forall>j < find_first_set n b. \<not> Bitmap_test b j))
    \<and> (find_first_zero n b \<noteq> npos \<longrightarrow> find_first_zero n b < n \<and> \<not> Bitmap_test b (find_first_zero n b)
        \<and> (\<forall>j < find_first_zero n b. Bitmap_test b j))"
  using assms bm.first_raised_none [of n b] bm.first_lowered_none [of n b]
    bm.first_raised_some [of n b] bm.first_lowered_some [of n b] by blast

theorem bitmap_searches_exact_witness:
  "find_first_zero 5 (Bitmap_set 4 (Bitmap_set 3 (Bitmap_set 2 (Bitmap_set 1 (Bitmap_set 0 (Bitmap_new 5))))))
     = npos"
proof -
  let ?b = "Bitmap_set 4 (Bitmap_set 3 (Bitmap_set 2 (Bitmap_set 1 (Bitmap_set 0 (Bitmap_new 5)))))"
  have wf: "bitmap_wf 5 ?b" by (intro inv_intros) simp_all
  have "list_all (Bitmap_test ?b) [0..<5]" by code_simp
  then have all: "\<forall>i < 5. Bitmap_test ?b i" by (simp add: list_all_iff)
  have small: "5 \<le> npos" by (simp add: npos_def)
  from bitmap_searches_exact [OF wf small] all show ?thesis by blast
qed

text \<open>All four compile-time self checks hold.\<close>

theorem self_checks_hold: "self_check_first_zero \<and> self_check_tail \<and> self_check_first_set \<and> self_check_empty"
proof -
  have small: "n \<le> npos" if "n \<le> 8" for n using that by (simp add: npos_def)
  let ?two = "Bitmap_set 1 (Bitmap_set 0 (Bitmap_new 8))" and ?all = "fold Bitmap_set [0..<5] (Bitmap_new 5)"
    and ?seven = "Bitmap_set 7 (Bitmap_new 8)"
  have wf: "bitmap_wf 8 ?two" "bitmap_wf 5 ?all" "bitmap_wf 8 ?seven" "bitmap_wf 8 (Bitmap_new 8)"
    by (auto intro!: inv_intros simp: upt_rec)
  have test: "Bitmap_test ?two 0" "Bitmap_test ?two 1" "\<not> Bitmap_test ?two 2" "Bitmap_test ?seven 7" "list_all (Bitmap_test ?all) [0..<5]"
    "list_all (\<lambda>i. \<not> Bitmap_test ?seven i) [0..<7]" by code_simp+
  have "find_first_zero 8 ?two = 2"
    using bm.first_lowered_is [OF small wf(1), of 2] test(1-3) by (auto simp: numeral_2_eq_2 less_Suc_eq)
  moreover have "find_first_zero 5 ?all = npos"
    using bm.first_lowered_none [OF small wf(2)] test(5) by (simp add: list_all_iff)
  moreover have "find_first_set 8 ?seven = 7"
    using bm.first_raised_is [OF small wf(3), of 7] test(4,6) by (simp add: list_all_iff)
  moreover have "find_first_set 8 (Bitmap_new 8) = npos"
    using bm.first_raised_none [OF small wf(4)] Bitmap_test_new by simp
  moreover have "\<not> Bitmap_test ?seven 0" using test(6) by (simp add: list_all_iff)
  ultimately show ?thesis using test(4)
    by (simp add: self_check_first_zero_def self_check_tail_def self_check_first_set_def self_check_empty_def)
qed

text \<open>The portable trailing-zero loop ends on every nonzero word with the builtin's answer
  (both preprocessor branches of \<^verbatim>\<open>ctz\<close> agree), and that answer is the lowest set bit.\<close>

theorem ctz_branches_agree:
  assumes "x \<noteq> 0"
  shows "ctz_loop x 0 = Some (ctz x) \<and> bit x (ctz x) \<and> ctz x < 32 \<and> (\<forall>j < ctz x. \<not> bit x j)"
  using ctz_least [OF assms] ctz_loop_shift [of x "ctz x" 0] by auto

theorem ctz_branches_agree_witness: "(40 :: u32) \<noteq> 0 \<and> ctz_loop 40 0 = Some 3"
proof -
  have "ctz 40 = 3" by (simp add: ctz_def builtin_ctz_def upt_rec)
  with ctz_branches_agree [of 40] show ?thesis by simp
qed

end
