(* ===== verification/Memory_Pool.thy ===== *)
theory Memory_Pool
  imports Bitmap
begin

text \<open>
  The block pool of \<^verbatim>\<open>include/ZerOS/kernel/mem/bitmap_allocate.hpp\<close> (two bitmaps: one bit per
  block, one bit per full word of the first), its error codes from \<^verbatim>\<open>pool.hpp\<close> and the typed
  face \<open>Make\<close>/\<open>Destroy\<close> of \<^verbatim>\<open>typeable.hpp\<close>. The template parameters are the record \<open>pool_cfg\<close>,
  which also holds the address of the buffer; pointers are natural numbers. The two-level search
  is proved equal to a flat search, every operation keeps the invariant that ties the two bitmaps
  and the counter together, and allocation and release meet the contract of a pool.
\<close>

section \<open>The pool\<close>

datatype MemoryAllocationError = Mem_Ok | Mem_OutOfMemory | Mem_Poisoned | Mem_NotOwned

record pool_cfg =
  block_size :: nat
  block_cnt :: nat
  owns_poison_policy :: bool
  buffer_at :: addr

record pool =
  buffer :: "u8 list"
  bitmap_l2 :: bitmap
  bitmap_l1 :: bitmap
  ever_poisoned :: bitmap
  used :: u32

definition BUFFER_SIZE :: "pool_cfg \<Rightarrow> nat" where
  "BUFFER_SIZE c = block_size c * block_cnt c"

definition BITMAP_L2_SIZE :: "pool_cfg \<Rightarrow> nat" where
  "BITMAP_L2_SIZE c = (block_cnt c + 31) div 32"

definition POISON_VALUE :: u8 where
  "POISON_VALUE = 0x67"

definition BitmapPool_new :: "pool_cfg \<Rightarrow> pool" where
  "BitmapPool_new c = \<lparr>buffer = replicate (BUFFER_SIZE c) 0,
     bitmap_l2 = Bitmap_new (block_cnt c), bitmap_l1 = Bitmap_new (BITMAP_L2_SIZE c),
     ever_poisoned = Bitmap_new (block_cnt c), used = 0\<rparr>"

definition IsAvailableIndex :: "nat \<Rightarrow> bool" where
  "IsAvailableIndex index = (index \<noteq> npos)"

definition available_block_index :: "pool_cfg \<Rightarrow> pool \<Rightarrow> nat" where
  "available_block_index c p =
     (let word_index = find_first_zero (BITMAP_L2_SIZE c) (bitmap_l1 p)
      in if word_index = npos then npos
         else first_zero_in_word (block_cnt c) (bitmap_l2 p) word_index)"

definition set_as_in_used :: "pool_cfg \<Rightarrow> nat \<Rightarrow> pool \<Rightarrow> pool" where
  "set_as_in_used c index p =
     (let p1 = p\<lparr>bitmap_l2 := Bitmap_set index (bitmap_l2 p)\<rparr>;
          p2 = (if word_full (block_cnt c) (bitmap_l2 p1) (index div 32)
                then p1\<lparr>bitmap_l1 := Bitmap_set (index div 32) (bitmap_l1 p1)\<rparr> else p1)
      in p2\<lparr>used := used p2 + 1\<rparr>)"

definition release_block :: "pool_cfg \<Rightarrow> nat \<Rightarrow> pool \<Rightarrow> bool \<times> pool" where
  "release_block c index p =
     (if index \<ge> block_cnt c then (False, p)
      else if \<not> Bitmap_test (bitmap_l2 p) index then (False, p)
      else (True, p\<lparr>bitmap_l2 := Bitmap_clear index (bitmap_l2 p),
                    bitmap_l1 := Bitmap_clear (index div 32) (bitmap_l1 p),
                    used := used p - 1\<rparr>))"

definition fetch_target_block :: "pool_cfg \<Rightarrow> nat \<Rightarrow> addr" where
  "fetch_target_block c index = buffer_at c + index * block_size c"

definition index_of_given_ptr :: "pool_cfg \<Rightarrow> addr \<Rightarrow> nat" where
  "index_of_given_ptr c ptr =
     (if ptr < buffer_at c \<or> ptr \<ge> buffer_at c + BUFFER_SIZE c then npos
      else let off = ptr - buffer_at c
           in if off mod block_size c \<noteq> 0 then npos else off div block_size c)"

text \<open>The bytes of one block, and the same block overwritten.\<close>

definition block_bytes :: "pool_cfg \<Rightarrow> nat \<Rightarrow> pool \<Rightarrow> u8 list" where
  "block_bytes c index p = take (block_size c) (drop (index * block_size c) (buffer p))"

definition fill_block :: "pool_cfg \<Rightarrow> nat \<Rightarrow> u8 \<Rightarrow> u8 list \<Rightarrow> u8 list" where
  "fill_block c index v bs =
     take (index * block_size c) bs @ replicate (block_size c) v @ drop (index * block_size c + block_size c) bs"

definition poison_block :: "pool_cfg \<Rightarrow> nat \<Rightarrow> pool \<Rightarrow> pool" where
  "poison_block c index p =
     (if owns_poison_policy c
      then p\<lparr>buffer := fill_block c index POISON_VALUE (buffer p),
             ever_poisoned := Bitmap_set index (ever_poisoned p)\<rparr>
      else p)"

definition detected_poison :: "pool_cfg \<Rightarrow> nat \<Rightarrow> pool \<Rightarrow> bool" where
  "detected_poison c index p =
     (owns_poison_policy c \<and> list_ex (\<lambda>b. b \<noteq> POISON_VALUE) (block_bytes c index p))"

definition raw_allocate :: "pool_cfg \<Rightarrow> pool \<Rightarrow> (MemoryAllocationError + addr) \<times> pool" where
  "raw_allocate c p =
     (let index = available_block_index c p
      in if \<not> IsAvailableIndex index then (Inl Mem_OutOfMemory, p)
         else if owns_poison_policy c \<and> Bitmap_test (ever_poisoned p) index \<and> detected_poison c index p
         then (Inl Mem_Poisoned, p)
         else (Inr (fetch_target_block c index), set_as_in_used c index p))"

definition raw_deallocate :: "pool_cfg \<Rightarrow> addr \<Rightarrow> pool \<Rightarrow> MemoryAllocationError \<times> pool" where
  "raw_deallocate c block p =
     (let index = index_of_given_ptr c block
      in if \<not> IsAvailableIndex index then (Mem_NotOwned, p)
         else case release_block c index p of
                (False, p') \<Rightarrow> (Mem_NotOwned, p')
              | (True, p') \<Rightarrow> (Mem_Ok, poison_block c index p'))"

definition try_allocate :: "pool_cfg \<Rightarrow> pool \<Rightarrow> addr option \<times> pool" where
  "try_allocate c p =
     (case raw_allocate c p of (Inl e, p') \<Rightarrow> (None, p') | (Inr a, p') \<Rightarrow> (Some a, p'))"

section \<open>The typed face\<close>

text \<open>\<open>Make\<close> and \<open>Destroy\<close> work over any pool (\<open>alloc\<close>, \<open>dealloc\<close>); the object's constructor and
  destructor are the functions \<open>construct\<close> and \<open>destroy_at\<close> on the memory at an address.\<close>

definition Make :: "('p \<Rightarrow> (MemoryAllocationError + addr) \<times> 'p) \<Rightarrow> (addr \<Rightarrow> 'p \<Rightarrow> 'p)
    \<Rightarrow> 'p \<Rightarrow> (MemoryAllocationError + addr) \<times> 'p" where
  "Make alloc construct p =
     (case alloc p of
        (Inl e, p') \<Rightarrow> (Inl e, p')
      | (Inr raw_buffer, p') \<Rightarrow> (Inr raw_buffer, construct raw_buffer p'))"

definition Destroy :: "(addr \<Rightarrow> 'p \<Rightarrow> MemoryAllocationError \<times> 'p) \<Rightarrow> (addr \<Rightarrow> 'p \<Rightarrow> 'p)
    \<Rightarrow> addr option \<Rightarrow> 'p \<Rightarrow> MemoryAllocationError \<times> 'p" where
  "Destroy dealloc destroy_at obj p =
     (case obj of None \<Rightarrow> (Mem_Ok, p) | Some a \<Rightarrow> dealloc a (destroy_at a p))"

text \<open>Placement new of an object given by its bytes, into the buffer at an address.\<close>

definition placement_new :: "pool_cfg \<Rightarrow> u8 list \<Rightarrow> addr \<Rightarrow> pool \<Rightarrow> pool" where
  "placement_new c bytes a p =
     (let off = a - buffer_at c
      in p\<lparr>buffer := take off (buffer p) @ bytes @ drop (off + length bytes) (buffer p)\<rparr>)"

section \<open>The invariant\<close>

text \<open>A geometry the compiler accepts on a 32-bit target.\<close>

definition cfg_ok :: "pool_cfg \<Rightarrow> bool" where
  "cfg_ok c \<longleftrightarrow> 0 < block_size c \<and> 0 < block_cnt c \<and> BUFFER_SIZE c < 2 ^ 32"

text \<open>The indices of the blocks that are handed out.\<close>

definition taken :: "pool_cfg \<Rightarrow> pool \<Rightarrow> nat set" where
  "taken c p = {i. i < block_cnt c \<and> Bitmap_test (bitmap_l2 p) i}"

definition pool_inv :: "pool_cfg \<Rightarrow> pool \<Rightarrow> bool" where
  "pool_inv c p \<longleftrightarrow> cfg_ok c
     \<and> bitmap_wf (block_cnt c) (bitmap_l2 p) \<and> bitmap_wf (WORDS (block_cnt c)) (bitmap_l1 p)
     \<and> bitmap_wf (block_cnt c) (ever_poisoned p)
     \<and> (\<forall>w < WORDS (block_cnt c). Bitmap_test (bitmap_l1 p) w \<longleftrightarrow> word_full (block_cnt c) (bitmap_l2 p) w)
     \<and> used p = of_nat (card (taken c p))
     \<and> length (buffer p) = BUFFER_SIZE c"

lemma BITMAP_L2_SIZE_WORDS: "BITMAP_L2_SIZE c = WORDS (block_cnt c)"
  by (simp add: BITMAP_L2_SIZE_def WORDS_def)

lemma cfg_ok_sizes:
  assumes "cfg_ok c"
  shows "block_cnt c \<le> npos" and "WORDS (block_cnt c) \<le> npos"
proof -
  have "block_cnt c \<le> BUFFER_SIZE c" using assms by (simp add: cfg_ok_def BUFFER_SIZE_def)
  then show "block_cnt c \<le> npos" using assms by (simp add: cfg_ok_def npos_def)
  then show "WORDS (block_cnt c) \<le> npos" by (simp add: WORDS_def npos_def)
qed

lemma finite_taken [simp]: "finite (taken c p)"
  by (simp add: taken_def)

lemma pool_inv_new: "cfg_ok c \<Longrightarrow> pool_inv c (BitmapPool_new c)"
proof -
  assume c: "cfg_ok c"
  let ?n = "block_cnt c"
  have free: "\<not> Bitmap_test (Bitmap_new ?n) i" if "i < ?n" for i using that by (rule Bitmap_test_new)
  have "\<not> word_full ?n (Bitmap_new ?n) w" if "w < WORDS ?n" for w
  proof -
    have "32 * w < ?n" using that WORDS_bounds(2) [of ?n] by linarith
    then show ?thesis using word_full_iff [OF bitmap_wf_new that] free [of "32 * w"] by auto
  qed
  moreover have "taken c (BitmapPool_new c) = {}" using free by (simp add: taken_def BitmapPool_new_def)
  ultimately show ?thesis
    unfolding pool_inv_def
    using c bitmap_wf_new Bitmap_test_new by (simp add: BitmapPool_new_def BITMAP_L2_SIZE_WORDS)
qed

section \<open>The two-level search is the flat search\<close>

lemma available_block_index_flat:
  assumes "pool_inv c p"
  shows "available_block_index c p = find_first_zero (block_cnt c) (bitmap_l2 p)"
proof -
  let ?n = "block_cnt c" and ?l1 = "bitmap_l1 p" and ?l2 = "bitmap_l2 p"
  have n: "?n \<le> npos" "WORDS ?n \<le> npos" using assms cfg_ok_sizes by (auto simp: pool_inv_def)
  have wf: "bitmap_wf ?n ?l2" "bitmap_wf (WORDS ?n) ?l1"
    and l1: "\<And>w. w < WORDS ?n \<Longrightarrow> Bitmap_test ?l1 w \<longleftrightarrow> word_full ?n ?l2 w"
    using assms by (auto simp: pool_inv_def)
  have full: "Bitmap_test ?l2 i" if "i < ?n" "Bitmap_test ?l1 (i div 32)" for i
    using that l1 [of "i div 32"] word_full_iff [OF wf(1), of "i div 32"] div_less_WORDS by auto
  define w where "w = find_first_zero (WORDS ?n) ?l1"
  show ?thesis
  proof (cases "w = npos")
    case True
    then have "\<forall>v < WORDS ?n. Bitmap_test ?l1 v"
      using bm.first_lowered_none [OF n(2) wf(2)] by (simp add: w_def)
    then have "\<forall>i < ?n. Bitmap_test ?l2 i" using full div_less_WORDS by blast
    then have "find_first_zero ?n ?l2 = npos" using bm.first_lowered_none [OF n(1) wf(1)] by simp
    then show ?thesis using True by (simp add: available_block_index_def BITMAP_L2_SIZE_WORDS w_def)
  next
    case False
    then have w: "w < WORDS ?n" "\<not> Bitmap_test ?l1 w" "\<forall>v < w. Bitmap_test ?l1 v"
      using bm.first_lowered_some [OF n(2) wf(2)] by (auto simp: w_def)
    let ?k = "first_zero_in_word ?n ?l2 w"
    have "\<not> (\<forall>i < ?n. i div 32 = w \<longrightarrow> Bitmap_test ?l2 i)"
      using word_full_iff [OF wf(1) w(1)] l1 [OF w(1)] w(2) by simp
    then have here: "least_in (\<lambda>i. \<not> Bitmap_test ?l2 i) (32 * w) (min ?n (32 * w + 32)) ?k"
      using first_zero_in_word_spec [OF w(1) n(1), of ?l2] by argo
    have below: "\<not> \<not> Bitmap_test ?l2 j" if "j < 32 * w" for j
      using full [of j] w(1,3) that WORDS_bounds(2) [of ?n] less_mult_imp_div_less [of j w 32]
      by (simp add: mult.commute)
    have "least_in (\<lambda>i. \<not> Bitmap_test ?l2 i) 0 ?n ?k"
      using least_in_extend [OF here, of 0 ?n] below by simp
    then have "find_first_zero ?n ?l2 = ?k" by (rule bm.first_lowered_eqI [OF n(1) wf(1)])
    then show ?thesis using False by (simp add: available_block_index_def BITMAP_L2_SIZE_WORDS w_def)
  qed
qed

section \<open>Allocation and release keep the invariant\<close>

lemma taken_less: "i \<in> taken c p \<Longrightarrow> i < block_cnt c"
  by (simp add: taken_def)

lemma pool_invD:
  assumes "pool_inv c p"
  shows "bitmap_wf (block_cnt c) (bitmap_l2 p)" "bitmap_wf (WORDS (block_cnt c)) (bitmap_l1 p)"
    "bitmap_wf (block_cnt c) (ever_poisoned p)" "block_cnt c \<le> npos" "cfg_ok c"
    "w < WORDS (block_cnt c) \<Longrightarrow> Bitmap_test (bitmap_l1 p) w \<longleftrightarrow> word_full (block_cnt c) (bitmap_l2 p) w"
    "used p = of_nat (card (taken c p))" "length (buffer p) = BUFFER_SIZE c"
  using assms cfg_ok_sizes by (auto simp: pool_inv_def)

lemma taken_set_as_in_used:
  assumes "pool_inv c p" "i < block_cnt c"
  shows "taken c (set_as_in_used c i p) = insert i (taken c p)"
  using assms(2) bitmap_wf_length [OF pool_invD(1) [OF assms(1)] assms(2)]
  by (auto simp: taken_def set_as_in_used_def Let_def)

lemma word_full_update_other:
  assumes "bitmap_wf n b" "bitmap_wf n b'" "w < WORDS n"
    and "\<And>i. i < n \<Longrightarrow> i div 32 = w \<Longrightarrow> Bitmap_test b' i = Bitmap_test b i"
  shows "word_full n b' w = word_full n b w"
  using assms by (auto simp: word_full_iff)

lemma pool_inv_set_as_in_used [inv_intros]:
  assumes inv: "pool_inv c p" and i: "i < block_cnt c" and free: "i \<notin> taken c p"
  shows "pool_inv c (set_as_in_used c i p)"
proof -
  let ?n = "block_cnt c" and ?w = "i div 32" and ?l2 = "Bitmap_set i (bitmap_l2 p)"
  note D = pool_invD [OF inv]
  have wf2: "bitmap_wf ?n ?l2" using D(1) i by (rule bitmap_wf_set)
  have w: "?w < WORDS ?n" using i by (rule div_less_WORDS)
  have test2: "Bitmap_test ?l2 j \<longleftrightarrow> j = i \<or> Bitmap_test (bitmap_l2 p) j" for j
    using bitmap_wf_length [OF D(1) i] by simp
  have "\<not> word_full ?n (bitmap_l2 p) ?w"
    using free i word_full_iff [OF D(1) w] by (auto simp: taken_def)
  then have not_l1: "\<not> Bitmap_test (bitmap_l1 p) ?w" using D(6) [OF w] by simp
  have other: "word_full ?n ?l2 v = word_full ?n (bitmap_l2 p) v" if "v < WORDS ?n" "v \<noteq> ?w" for v
    using that test2 by (intro word_full_update_other [OF D(1) wf2]) auto
  have test1: "Bitmap_test (Bitmap_set ?w (bitmap_l1 p)) v \<longleftrightarrow> v = ?w \<or> Bitmap_test (bitmap_l1 p) v" for v
    using bitmap_wf_length [OF D(2) w] by simp
  have wf1: "bitmap_wf (WORDS ?n) (Bitmap_set ?w (bitmap_l1 p))" using D(2) w by (rule bitmap_wf_set)
  have count: "used p + 1 = of_nat (card (insert i (taken c p)))"
    using free D(7) by (simp add: add.commute)
  have "taken c (set_as_in_used c i p) = insert i (taken c p)"
    using inv i by (rule taken_set_as_in_used)
  then show ?thesis
    using D wf2 wf1 w other not_l1 test1 count
    by (auto simp: pool_inv_def set_as_in_used_def Let_def)
qed

lemma release_block_cases:
  "release_block c i p = (if i \<in> taken c p
     then (True, p\<lparr>bitmap_l2 := Bitmap_clear i (bitmap_l2 p),
                    bitmap_l1 := Bitmap_clear (i div 32) (bitmap_l1 p), used := used p - 1\<rparr>)
     else (False, p))"
  by (auto simp: release_block_def taken_def)

lemma pool_inv_released:
  assumes inv: "pool_inv c p" and i: "i \<in> taken c p"
    and p': "p' = p\<lparr>bitmap_l2 := Bitmap_clear i (bitmap_l2 p),
                    bitmap_l1 := Bitmap_clear (i div 32) (bitmap_l1 p), used := used p - 1\<rparr>"
  shows "pool_inv c p'" and "taken c p' = taken c p - {i}"
proof -
  let ?n = "block_cnt c" and ?w = "i div 32" and ?l2 = "Bitmap_clear i (bitmap_l2 p)"
  note D = pool_invD [OF inv]
  have lt: "i < ?n" using i by (rule taken_less)
  have wf2: "bitmap_wf ?n ?l2" using D(1) lt by (rule bitmap_wf_clear)
  have w: "?w < WORDS ?n" using lt by (rule div_less_WORDS)
  have test2: "Bitmap_test ?l2 j \<longleftrightarrow> j \<noteq> i \<and> Bitmap_test (bitmap_l2 p) j" for j
    using bitmap_wf_length [OF D(1) lt] by simp
  have "\<not> word_full ?n ?l2 ?w" using word_full_iff [OF wf2 w] lt test2 by auto
  moreover have "word_full ?n ?l2 v = word_full ?n (bitmap_l2 p) v" if "v < WORDS ?n" "v \<noteq> ?w" for v
    using that test2 by (intro word_full_update_other [OF D(1) wf2]) auto
  moreover have "Bitmap_test (Bitmap_clear ?w (bitmap_l1 p)) v \<longleftrightarrow> v \<noteq> ?w \<and> Bitmap_test (bitmap_l1 p) v" for v
    using bitmap_wf_length [OF D(2) w] by simp
  moreover have "bitmap_wf (WORDS ?n) (Bitmap_clear ?w (bitmap_l1 p))" using D(2) w by (rule bitmap_wf_clear)
  moreover show taken': "taken c p' = taken c p - {i}" using test2 by (auto simp: taken_def p')
  moreover have "card (taken c p) = Suc (card (taken c p - {i}))"
    using i by (intro card.remove) auto
  then have "used p - 1 = of_nat (card (taken c p - {i}))" using D(7) by simp
  ultimately show "pool_inv c p'" using D wf2 by (auto simp: pool_inv_def p')
qed

section \<open>Blocks in the buffer\<close>

lemma block_end: "i < block_cnt c \<Longrightarrow> i * block_size c + block_size c \<le> BUFFER_SIZE c"
proof -
  assume "i < block_cnt c"
  then have "Suc i * block_size c \<le> block_cnt c * block_size c" by (intro mult_le_mono1) simp
  then show ?thesis by (simp add: BUFFER_SIZE_def mult.commute)
qed

lemma pool_inv_buffer:
  "pool_inv c p \<Longrightarrow> length bs = BUFFER_SIZE c \<Longrightarrow> pool_inv c (p\<lparr>buffer := bs\<rparr>)"
  by (simp add: pool_inv_def taken_def)

lemma taken_buffer [simp]:
  "taken c (p\<lparr>buffer := bs\<rparr>) = taken c p" "taken c (p\<lparr>ever_poisoned := e\<rparr>) = taken c p"
  by (simp_all add: taken_def)

lemma length_fill_block: "i < block_cnt c \<Longrightarrow> length bs = BUFFER_SIZE c \<Longrightarrow>
    length (fill_block c i v bs) = BUFFER_SIZE c"
  using block_end [of i c] by (simp add: fill_block_def)

lemma block_bytes_fill:
  "i < block_cnt c \<Longrightarrow> length bs = BUFFER_SIZE c \<Longrightarrow>
    block_bytes c i (p\<lparr>buffer := fill_block c i v bs\<rparr>) = replicate (block_size c) v"
  using block_end [of i c] by (simp add: fill_block_def block_bytes_def)

lemma poison_block_keeps:
  assumes "pool_inv c p" "i < block_cnt c"
  shows "pool_inv c (poison_block c i p)" "taken c (poison_block c i p) = taken c p"
proof -
  note D = pool_invD [OF assms(1)]
  have "pool_inv c (p\<lparr>buffer := fill_block c i POISON_VALUE (buffer p)\<rparr>)"
    using assms D(8) by (intro pool_inv_buffer) (auto simp: length_fill_block)
  then show "pool_inv c (poison_block c i p)"
    using assms bitmap_wf_set [OF D(3) assms(2)] by (auto simp: poison_block_def pool_inv_def taken_def)
  show "taken c (poison_block c i p) = taken c p" by (simp add: poison_block_def)
qed

lemma index_of_fetch:
  assumes "cfg_ok c" "i < block_cnt c"
  shows "index_of_given_ptr c (fetch_target_block c i) = i"
proof -
  have "i * block_size c < BUFFER_SIZE c" using assms by (simp add: cfg_ok_def BUFFER_SIZE_def)
  then show ?thesis using assms by (simp add: index_of_given_ptr_def fetch_target_block_def cfg_ok_def)
qed

lemma fetch_of_index:
  assumes "cfg_ok c" "index_of_given_ptr c a \<noteq> npos"
  shows "index_of_given_ptr c a < block_cnt c" "fetch_target_block c (index_of_given_ptr c a) = a"
proof -
  from assms(2) have range: "buffer_at c \<le> a" "a - buffer_at c < BUFFER_SIZE c"
    and al: "(a - buffer_at c) mod block_size c = 0"
    and eq: "index_of_given_ptr c a = (a - buffer_at c) div block_size c"
    by (auto simp: index_of_given_ptr_def Let_def split: if_splits)
  show "index_of_given_ptr c a < block_cnt c"
    using range(2) by (simp add: eq BUFFER_SIZE_def less_mult_imp_div_less mult.commute)
  show "fetch_target_block c (index_of_given_ptr c a) = a"
    using range(1) al by (simp add: eq fetch_target_block_def mod_0_imp_dvd)
qed

lemma fetch_inj: "cfg_ok c \<Longrightarrow> fetch_target_block c i = fetch_target_block c j \<longleftrightarrow> i = j"
  by (auto simp: fetch_target_block_def cfg_ok_def)

text \<open>The addresses that are handed out.\<close>

definition live :: "pool_cfg \<Rightarrow> pool \<Rightarrow> addr set" where
  "live c p = fetch_target_block c ` taken c p"

lemma available_cases:
  assumes "pool_inv c p"
  obtains (full) "available_block_index c p = npos" "taken c p = {..<block_cnt c}"
  | (free) "available_block_index c p \<noteq> npos" "available_block_index c p < block_cnt c"
      "available_block_index c p \<notin> taken c p" "\<And>j. j < available_block_index c p \<Longrightarrow> j \<in> taken c p"
proof (cases "available_block_index c p = npos")
  case True
  then show thesis
    using full bm.first_lowered_none [OF pool_invD(4) [OF assms] pool_invD(1) [OF assms]]
    by (auto simp: taken_def available_block_index_flat [OF assms])
next
  case False
  then show thesis
    using free bm.first_lowered_some [OF pool_invD(4) [OF assms] pool_invD(1) [OF assms]]
    by (auto simp: taken_def available_block_index_flat [OF assms])
qed

lemma raw_allocate_Inr:
  assumes "pool_inv c p" "raw_allocate c p = (Inr a, p')"
  shows "a \<notin> live c p \<and> live c p' = insert a (live c p) \<and> pool_inv c p' \<and> buffer p' = buffer p"
  using assms(1)
proof (cases rule: available_cases)
  case full
  then show ?thesis using assms(2) by (simp add: raw_allocate_def IsAvailableIndex_def)
next
  case free
  let ?i = "available_block_index c p"
  have eq: "a = fetch_target_block c ?i" "p' = set_as_in_used c ?i p"
    using assms(2) free(1) by (auto simp: raw_allocate_def IsAvailableIndex_def Let_def split: if_splits)
  have "a \<notin> live c p"
    using free(3) fetch_inj [OF pool_invD(5) [OF assms(1)]] by (auto simp: live_def eq)
  moreover have "live c p' = insert a (live c p)"
    using taken_set_as_in_used [OF assms(1) free(2)] by (simp add: live_def eq)
  moreover have "pool_inv c p'" unfolding eq using assms(1) free(2,3) by (rule pool_inv_set_as_in_used)
  moreover have "buffer p' = buffer p" by (simp add: eq set_as_in_used_def Let_def)
  ultimately show ?thesis by blast
qed

lemma raw_allocate_Inl:
  "raw_allocate c p = (Inl e, p') \<Longrightarrow> p' = p"
  by (auto simp: raw_allocate_def Let_def split: if_splits)

lemma raw_deallocate_live:
  assumes "pool_inv c p" "i \<in> taken c p"
  obtains p' where "raw_deallocate c (fetch_target_block c i) p = (Mem_Ok, p')" "pool_inv c p'"
    "taken c p' = taken c p - {i}"
    "owns_poison_policy c \<Longrightarrow> block_bytes c i p' = replicate (block_size c) POISON_VALUE"
proof -
  note D = pool_invD [OF assms(1)]
  have lt: "i < block_cnt c" using assms(2) by (rule taken_less)
  define p1 where "p1 = p\<lparr>bitmap_l2 := Bitmap_clear i (bitmap_l2 p),
    bitmap_l1 := Bitmap_clear (i div 32) (bitmap_l1 p), used := used p - 1\<rparr>"
  have rel: "release_block c i p = (True, p1)" using assms(2) by (simp add: release_block_cases p1_def)
  note p1 = pool_inv_released [OF assms p1_def]
  have idx: "index_of_given_ptr c (fetch_target_block c i) = i" using D(5) lt by (rule index_of_fetch)
  have "i \<noteq> npos" using lt D(4) by simp
  then have "raw_deallocate c (fetch_target_block c i) p = (Mem_Ok, poison_block c i p1)"
    by (simp add: raw_deallocate_def idx rel IsAvailableIndex_def)
  moreover have "block_bytes c i (poison_block c i p1) = replicate (block_size c) POISON_VALUE"
    if "owns_poison_policy c"
    using block_bytes_fill [OF lt pool_invD(8) [OF p1(1)], where v = POISON_VALUE and p = p1] that
    by (simp add: poison_block_def block_bytes_def)
  ultimately show thesis using that poison_block_keeps [OF p1(1) lt] p1(2) by simp
qed

lemma raw_deallocate_dead:
  assumes "pool_inv c p" "a \<notin> live c p"
  shows "raw_deallocate c a p = (Mem_NotOwned, p)"
proof (cases "index_of_given_ptr c a = npos")
  case False
  then have "index_of_given_ptr c a \<notin> taken c p"
    using fetch_of_index(2) [OF pool_invD(5) [OF assms(1)]] assms(2) by (metis imageI live_def)
  then show ?thesis using False by (simp add: raw_deallocate_def IsAvailableIndex_def release_block_cases)
qed (simp add: raw_deallocate_def IsAvailableIndex_def)

section \<open>The interface of a pool\<close>

text \<open>
  The contract behind the concept \<^verbatim>\<open>MemoryPool\<close>: what \<open>Make\<close>, \<open>Destroy\<close> and any other client of a
  pool may rely on, in terms of the set of addresses that are handed out.
\<close>

locale block_pool =
  fixes inv :: "'p \<Rightarrow> bool"
    and held :: "'p \<Rightarrow> addr set"
    and alloc :: "'p \<Rightarrow> (MemoryAllocationError + addr) \<times> 'p"
    and dealloc :: "addr \<Rightarrow> 'p \<Rightarrow> MemoryAllocationError \<times> 'p"
  assumes alloc_ok: "inv p \<Longrightarrow> alloc p = (Inr a, p') \<Longrightarrow>
      a \<notin> held p \<and> held p' = insert a (held p) \<and> inv p'"
    and alloc_err: "alloc p = (Inl e, p') \<Longrightarrow> p' = p"
    and dealloc_held: "inv p \<Longrightarrow> a \<in> held p \<Longrightarrow>
      \<exists>p'. dealloc a p = (Mem_Ok, p') \<and> held p' = held p - {a} \<and> inv p'"
    and dealloc_other: "inv p \<Longrightarrow> a \<notin> held p \<Longrightarrow> dealloc a p = (Mem_NotOwned, p)"
begin

text \<open>A block can be released exactly once.\<close>

lemma double_free_refused:
  assumes "inv p" "a \<in> held p" "dealloc a p = (r, p')"
  shows "r = Mem_Ok \<and> dealloc a p' = (Mem_NotOwned, p')"
  using dealloc_held [OF assms(1,2)] dealloc_other [of p' a] assms(3) by auto

text \<open>What \<open>Make\<close> hands out, \<open>Destroy\<close> takes back, for any constructor and destructor that leave
  the pool's bookkeeping alone.\<close>

lemma Make_Destroy:
  assumes "inv p" and "Make alloc construct p = (Inr a, p1)"
    and cons: "\<And>a q. inv q \<Longrightarrow> a \<in> held q \<Longrightarrow> inv (construct a q) \<and> held (construct a q) = held q"
    and dest: "\<And>a q. inv q \<Longrightarrow> a \<in> held q \<Longrightarrow> inv (destroy_at a q) \<and> held (destroy_at a q) = held q"
  shows "\<exists>p2. Destroy dealloc destroy_at (Some a) p1 = (Mem_Ok, p2) \<and> held p2 = held p \<and> inv p2"
proof -
  from assms(2) obtain q where q: "alloc p = (Inr a, q)" "p1 = construct a q"
    by (auto simp: Make_def split: prod.splits sum.splits)
  note al = alloc_ok [OF assms(1) q(1)]
  have p1: "inv p1" "held p1 = insert a (held p)" using al cons [of q a] q(2) by auto
  have d: "inv (destroy_at a p1)" "held (destroy_at a p1) = insert a (held p)"
    using dest [of p1 a] p1 by auto
  obtain p2 where "dealloc a (destroy_at a p1) = (Mem_Ok, p2)" "held p2 = insert a (held p) - {a}" "inv p2"
    using dealloc_held [OF d(1), of a] d(2) by auto
  then show ?thesis using al by (auto simp: Destroy_def)
qed

lemma Make_failed: "Make alloc construct p = (Inl e, p') \<Longrightarrow> p' = p"
  using alloc_err by (auto simp: Make_def split: prod.splits sum.splits)

end

interpretation pool: block_pool "pool_inv c" "live c" "raw_allocate c" "raw_deallocate c" for c
proof
  show "\<exists>p'. raw_deallocate c a p = (Mem_Ok, p') \<and> live c p' = live c p - {a} \<and> pool_inv c p'"
    if inv: "pool_inv c p" and a: "a \<in> live c p" for p a
  proof -
    from a obtain i where i: "i \<in> taken c p" "a = fetch_target_block c i" by (auto simp: live_def)
    obtain p' where "raw_deallocate c (fetch_target_block c i) p = (Mem_Ok, p')" "pool_inv c p'"
      "taken c p' = taken c p - {i}" using raw_deallocate_live [OF inv i(1)] by metis
    then show ?thesis using i fetch_inj [OF pool_invD(5) [OF inv]] by (auto simp: live_def)
  qed
qed (use raw_allocate_Inr raw_allocate_Inl raw_deallocate_dead in blast)+

text \<open>Placement new inside a block changes neither the bookkeeping nor any other block.\<close>

lemma placement_new_keeps:
  assumes "pool_inv c p" and "a \<in> live c p" and "length bytes \<le> block_size c"
  shows "pool_inv c (placement_new c bytes a p) \<and> live c (placement_new c bytes a p) = live c p"
proof -
  from assms(2) obtain i where i: "i < block_cnt c" "a = fetch_target_block c i"
    by (auto simp: live_def dest: taken_less)
  have "i * block_size c + length bytes \<le> length (buffer p)"
    using block_end [OF i(1)] assms(3) pool_invD(8) [OF assms(1)] by simp
  then have "pool_inv c (placement_new c bytes a p)"
    using pool_invD(8) [OF assms(1)] unfolding placement_new_def Let_def
    by (intro pool_inv_buffer [OF assms(1)]) (simp add: i(2) fetch_target_block_def)
  then show ?thesis by (simp add: placement_new_def live_def Let_def)
qed

lemma live_range:
  assumes "pool_inv c p" "a \<in> live c p"
  shows "buffer_at c \<le> a" "a + block_size c \<le> buffer_at c + BUFFER_SIZE c"
    "(a - buffer_at c) mod block_size c = 0"
  using assms(2) block_end [of _ c] by (auto simp: live_def fetch_target_block_def dest!: taken_less)

section \<open>Runs of a pool\<close>

text \<open>Any sequence of allocations, releases of arbitrary addresses, and arbitrary writes of the
  program into the buffer. Beside the pool stands the client's own account: the addresses that \<open>raw_allocate\<close>
  returned to it, in order, less those whose release was answered with \<open>Ok\<close>.\<close>

datatype pool_op = Allocate | Release addr | Scribble "u8 list"

fun pool_step :: "pool_cfg \<Rightarrow> pool_op \<Rightarrow> addr list \<times> pool \<Rightarrow> addr list \<times> pool" where
  "pool_step c Allocate (hs, p) =
     (case raw_allocate c p of (Inr a, p') \<Rightarrow> (hs @ [a], p') | (Inl e, p') \<Rightarrow> (hs, p'))"
| "pool_step c (Release a) (hs, p) =
     (case raw_deallocate c a p of (r, p') \<Rightarrow> (if r = Mem_Ok then remove1 a hs else hs, p'))"
| "pool_step c (Scribble bs) (hs, p) = (hs, if length bs = BUFFER_SIZE c then p\<lparr>buffer := bs\<rparr> else p)"

definition account_ok :: "pool_cfg \<Rightarrow> addr list \<times> pool \<Rightarrow> bool" where
  "account_ok c = (\<lambda>(hs, p). pool_inv c p \<and> distinct hs \<and> set hs = live c p)"

lemma pool_step_ok: "account_ok c (hs, p) \<Longrightarrow> account_ok c (pool_step c opn (hs, p))"
proof (cases opn)
  case Allocate
  assume ok: "account_ok c (hs, p)"
  then have inv: "pool_inv c p" by (simp add: account_ok_def)
  show ?thesis using ok Allocate pool.alloc_ok [OF inv] pool.alloc_err [of c p]
    by (force simp: account_ok_def split: prod.splits sum.splits)
next
  case (Release a)
  assume ok: "account_ok c (hs, p)"
  then have inv: "pool_inv c p" by (simp add: account_ok_def)
  show ?thesis using ok Release pool.dealloc_held [OF inv, of a] pool.dealloc_other [OF inv, of a]
    by (cases "a \<in> live c p") (auto simp: account_ok_def)
qed (auto simp: account_ok_def pool_inv_buffer live_def)

lemma pool_run_ok: "account_ok c hp \<Longrightarrow> account_ok c (fold (pool_step c) ops hp)"
proof (induction ops arbitrary: hp)
  case (Cons opn ops)
  have "account_ok c (pool_step c opn hp)" using pool_step_ok [of c "fst hp" "snd hp"] Cons.prems by simp
  then show ?case using Cons.IH by simp
qed simp

lemma pool_new_ok: "cfg_ok c \<Longrightarrow> account_ok c ([], BitmapPool_new c)"
  using pool_inv_new [of c] by (auto simp: account_ok_def live_def taken_def BitmapPool_new_def dest: Bitmap_test_new)

lemma live_disjoint:
  assumes "pool_inv c p" "a \<in> live c p" "b \<in> live c p" "a < b"
  shows "a + block_size c \<le> b"
proof -
  from assms obtain i j where ij: "a = fetch_target_block c i" "b = fetch_target_block c j"
    by (auto simp: live_def)
  then have "i < j" using assms(4) by (simp add: fetch_target_block_def)
  then have "Suc i * block_size c \<le> j * block_size c" by (intro mult_le_mono1) simp
  then show ?thesis by (simp add: ij fetch_target_block_def)
qed

section \<open>Properties\<close>

text \<open>C31: the two-level bitmap search of the pool finds the same block as a plain scan for the
  first clear bit of the block bitmap, in every state that satisfies the invariant.\<close>

theorem pool_search_two_level:
  assumes "pool_inv c p"
  shows "available_block_index c p = find_first_zero (block_cnt c) (bitmap_l2 p)"
  by (rule available_block_index_flat [OF assms])

theorem pool_search_two_level_witness:
  "available_block_index \<lparr>block_size = 16, block_cnt = 40, owns_poison_policy = True, buffer_at = 64\<rparr>
     (BitmapPool_new \<lparr>block_size = 16, block_cnt = 40, owns_poison_policy = True, buffer_at = 64\<rparr>)
   = find_first_zero 40 (Bitmap_new 40)"
  using pool_search_two_level [OF pool_inv_new,
      of "\<lparr>block_size = 16, block_cnt = 40, owns_poison_policy = True, buffer_at = 64\<rparr>"]
  by (simp add: cfg_ok_def BUFFER_SIZE_def BitmapPool_new_def)

text \<open>C11: no block is ever handed out twice. Whatever sequence of allocations, releases of arbitrary addresses (foreign,
  interior, already released) and writes into the buffer a program performs, the addresses that \<open>raw_allocate\<close> has
  returned and that were not taken back since are all different and are exactly the blocks the bitmaps count as
  taken, the counter is their number, their blocks lie inside the buffer and do not overlap, and exactly for
  them a release is answered with \<open>Ok\<close>.\<close>

theorem pool_run_safe:
  assumes "cfg_ok c" and "fold (pool_step c) ops ([], BitmapPool_new c) = (hs, p)"
  shows "pool_inv c p \<and> distinct hs \<and> set hs = live c p \<and> used p = of_nat (length hs)
    \<and> (\<forall>a \<in> set hs. buffer_at c \<le> a \<and> a + block_size c \<le> buffer_at c + BUFFER_SIZE c)
    \<and> (\<forall>i < length hs. \<forall>j < length hs. i \<noteq> j \<longrightarrow> {hs ! i..<hs ! i + block_size c} \<inter> {hs ! j..<hs ! j + block_size c} = {})
    \<and> (\<forall>a. fst (raw_deallocate c a p) = Mem_Ok \<longleftrightarrow> a \<in> set hs)"
proof -
  have ok: "pool_inv c p" "distinct hs" "set hs = live c p"
    using pool_run_ok [OF pool_new_ok [OF assms(1)], of ops] unfolding assms(2) by (simp_all add: account_ok_def)
  have "inj_on (fetch_target_block c) (taken c p)" using fetch_inj [OF assms(1)] by (simp add: inj_on_def)
  then have "card (taken c p) = length hs" using ok(3) distinct_card [OF ok(2)] by (simp add: live_def card_image)
  then have n: "used p = of_nat (length hs)" using pool_invD(7) [OF ok(1)] by simp
  have d: "{hs ! i..<hs ! i + block_size c} \<inter> {hs ! j..<hs ! j + block_size c} = {}"
    if "i < length hs" "j < length hs" "i \<noteq> j" for i j
  proof -
    have "hs ! i \<in> live c p" "hs ! j \<in> live c p" "hs ! i \<noteq> hs ! j"
      unfolding ok(3) [symmetric] using that ok(2) by (simp_all add: nth_eq_iff_index_eq)
    then have "hs ! i + block_size c \<le> hs ! j \<or> hs ! j + block_size c \<le> hs ! i"
      using live_disjoint [OF ok(1)] by (metis linorder_neqE_nat)
    then show ?thesis by auto
  qed
  have r: "fst (raw_deallocate c a p) = Mem_Ok \<longleftrightarrow> a \<in> set hs" for a
    using pool.dealloc_held [OF ok(1), of a] pool.dealloc_other [OF ok(1), of a] ok(3) by (cases "a \<in> live c p") auto
  have b: "\<forall>a \<in> set hs. buffer_at c \<le> a \<and> a + block_size c \<le> buffer_at c + BUFFER_SIZE c"
    unfolding ok(3) using live_range [OF ok(1)] by blast
  show ?thesis by (intro conjI allI impI) (rule ok n b d r; assumption)+
qed

text \<open>Three blocks of 16 bytes at address 64, one release repeated.\<close>

theorem pool_run_safe_witness:
  "let c = \<lparr>block_size = 16, block_cnt = 3, owns_poison_policy = False, buffer_at = 64\<rparr>;
       (hs, p) = fold (pool_step c) [Allocate, Allocate, Release 64, Release 64, Allocate] ([], BitmapPool_new c)
   in distinct hs \<and> set hs = live c p \<and> used p = of_nat (length hs)"
proof -
  let ?c = "\<lparr>block_size = 16, block_cnt = 3, owns_poison_policy = False, buffer_at = 64\<rparr>"
  let ?r = "fold (pool_step ?c) [Allocate, Allocate, Release 64, Release 64, Allocate] ([], BitmapPool_new ?c)"
  have ok: "cfg_ok ?c" by (simp add: cfg_ok_def BUFFER_SIZE_def)
  have "?r = (fst ?r, snd ?r)" by (rule surjective_pairing)
  from pool_run_safe [OF ok this] show ?thesis unfolding Let_def case_prod_beta by blast
qed

text \<open>C32: allocation and release, branch by branch. Allocation fails with \<open>OutOfMemory\<close> exactly when every
  block is taken, fails with \<open>Poisoned\<close> exactly when the first free block was released before and one
  of its bytes is not the poison byte any more, and otherwise hands out the first free block and marks
  exactly it; a failed call changes nothing. Release answers \<open>Ok\<close> exactly for an address that is handed
  out, takes exactly that block back and fills it with the poison byte if the policy is on; for any
  other address it answers \<open>NotOwned\<close> and changes nothing.\<close>

theorem pool_allocate_release:
  assumes "pool_inv c p"
  shows "(let i = available_block_index c p in
      if taken c p = {..<block_cnt c} then raw_allocate c p = (Inl Mem_OutOfMemory, p)
      else i < block_cnt c \<and> i \<notin> taken c p \<and> (\<forall>j < i. j \<in> taken c p) \<and>
        (if owns_poison_policy c \<and> Bitmap_test (ever_poisoned p) i
            \<and> block_bytes c i p \<noteq> replicate (block_size c) POISON_VALUE
         then raw_allocate c p = (Inl Mem_Poisoned, p)
         else \<exists>p'. raw_allocate c p = (Inr (fetch_target_block c i), p') \<and> taken c p' = insert i (taken c p)))
    \<and> (if a \<in> live c p
       then \<exists>p'. raw_deallocate c a p = (Mem_Ok, p') \<and> live c p' = live c p - {a}
         \<and> (owns_poison_policy c \<longrightarrow>
              block_bytes c (index_of_given_ptr c a) p' = replicate (block_size c) POISON_VALUE)
       else raw_deallocate c a p = (Mem_NotOwned, p))"
  (is "?alloc \<and> ?release")
proof
  show ?alloc using assms
  proof (cases rule: available_cases)
    case full
    then show ?thesis by (simp add: raw_allocate_def IsAvailableIndex_def)
  next
    case free
    let ?i = "available_block_index c p"
    have "taken c p \<noteq> {..<block_cnt c}" using free(2,3) by auto
    moreover have "length (block_bytes c ?i p) = block_size c"
      using block_end [OF free(2)] pool_invD(8) [OF assms] by (simp add: block_bytes_def)
    then have "list_ex (\<lambda>b. b \<noteq> POISON_VALUE) (block_bytes c ?i p)
        \<longleftrightarrow> block_bytes c ?i p \<noteq> replicate (block_size c) POISON_VALUE"
      by (auto simp: list_ex_iff replicate_length_same [symmetric])
        (metis in_set_replicate replicate_eqI)+
    ultimately show ?thesis
      using free taken_set_as_in_used [OF assms free(2)]
      by (auto simp: raw_allocate_def IsAvailableIndex_def detected_poison_def Let_def)
  qed
next
  show ?release
  proof (cases "a \<in> live c p")
    case True
    then obtain i where i: "i \<in> taken c p" "a = fetch_target_block c i" by (auto simp: live_def)
    have idx: "index_of_given_ptr c a = i"
      using i taken_less [OF i(1)] index_of_fetch [OF pool_invD(5) [OF assms]] by simp
    show ?thesis using raw_deallocate_live [OF assms i(1)] pool.dealloc_held [OF assms True] True i(2) idx
      by (metis (no_types, lifting) prod.inject)
  qed (simp add: raw_deallocate_dead [OF assms])
qed

theorem pool_allocate_release_witness:
  "raw_deallocate \<lparr>block_size = 16, block_cnt = 3, owns_poison_policy = True, buffer_at = 64\<rparr> 80
     (BitmapPool_new \<lparr>block_size = 16, block_cnt = 3, owns_poison_policy = True, buffer_at = 64\<rparr>)
   = (Mem_NotOwned, BitmapPool_new \<lparr>block_size = 16, block_cnt = 3, owns_poison_policy = True, buffer_at = 64\<rparr>)"
proof -
  let ?c = "\<lparr>block_size = 16, block_cnt = 3, owns_poison_policy = True, buffer_at = 64\<rparr>"
  have ok: "cfg_ok ?c" by (simp add: cfg_ok_def BUFFER_SIZE_def)
  have "live ?c (BitmapPool_new ?c) = {}"
    by (auto simp: live_def taken_def BitmapPool_new_def dest: Bitmap_test_new)
  then show ?thesis using pool_allocate_release [OF pool_inv_new [OF ok], of 80] by simp
qed

text \<open>An object that \<open>Make\<close> places in a block can be destroyed exactly once: \<open>Destroy\<close> on the address
  that \<open>Make\<close> returned succeeds and leaves the pool with the blocks it had before, a second release of
  the same address is refused, and a failed \<open>Make\<close> changes nothing.\<close>

theorem make_destroy_roundtrip:
  assumes "pool_inv c p" and "length bytes \<le> block_size c"
  shows "case Make (raw_allocate c) (placement_new c bytes) p of
      (Inl e, p1) \<Rightarrow> p1 = p
    | (Inr a, p1) \<Rightarrow> a \<notin> live c p \<and>
        (\<exists>p2. Destroy (raw_deallocate c) (\<lambda>_ q. q) (Some a) p1 = (Mem_Ok, p2) \<and> pool_inv c p2
          \<and> live c p2 = live c p \<and> raw_deallocate c a p2 = (Mem_NotOwned, p2))"
proof -
  obtain r p1 where mk: "Make (raw_allocate c) (placement_new c bytes) p = (r, p1)" by (meson surj_pair)
  show ?thesis
  proof (cases r)
    case (Inl e)
    then show ?thesis using mk pool.Make_failed by fastforce
  next
    case (Inr a)
    then have fresh: "a \<notin> live c p"
      using mk pool.alloc_ok [OF assms(1)] by (auto simp: Make_def split: prod.splits sum.splits)
    obtain p2 where "Destroy (raw_deallocate c) (\<lambda>_ q. q) (Some a) p1 = (Mem_Ok, p2)"
      "live c p2 = live c p" "pool_inv c p2"
      using pool.Make_Destroy [OF assms(1), of "placement_new c bytes" a p1 "\<lambda>_ q. q"] mk Inr
        placement_new_keeps [OF _ _ assms(2)] by blast
    then show ?thesis using mk Inr fresh pool.dealloc_other by auto
  qed
qed

theorem make_destroy_roundtrip_witness:
  "case Make (raw_allocate \<lparr>block_size = 4, block_cnt = 2, owns_poison_policy = True, buffer_at = 64\<rparr>)
      (placement_new \<lparr>block_size = 4, block_cnt = 2, owns_poison_policy = True, buffer_at = 64\<rparr> [1, 2])
      (BitmapPool_new \<lparr>block_size = 4, block_cnt = 2, owns_poison_policy = True, buffer_at = 64\<rparr>) of
      (Inl e, p1) \<Rightarrow> p1 = BitmapPool_new \<lparr>block_size = 4, block_cnt = 2, owns_poison_policy = True, buffer_at = 64\<rparr>
    | (Inr a, p1) \<Rightarrow> a \<notin> live \<lparr>block_size = 4, block_cnt = 2, owns_poison_policy = True, buffer_at = 64\<rparr>
        (BitmapPool_new \<lparr>block_size = 4, block_cnt = 2, owns_poison_policy = True, buffer_at = 64\<rparr>)"
proof -
  let ?c = "\<lparr>block_size = 4, block_cnt = 2, owns_poison_policy = True, buffer_at = 64\<rparr>"
  have "cfg_ok ?c" by (simp add: cfg_ok_def BUFFER_SIZE_def)
  from make_destroy_roundtrip [OF pool_inv_new [OF this], of "[1, 2]"] show ?thesis
    by (auto split: prod.splits sum.splits)
qed

end
