(* ===== verification/Self_List.thy ===== *)
theory Self_List
  imports Zeros_Prelude
begin

text \<open>
  The intrusive singly linked list of \<^verbatim>\<open>include/ZerOS/base/self_list.hpp\<close>. The nodes live
  inside their owners, so the list header holds two pointers only and the \<open>next\<close> field of every
  node is one shared store \<open>links\<close>: an operation takes the header and that store and returns both.
  The walks of \<open>insert\<close> and \<open>remove\<close> carry a pointer to a pointer (\<^verbatim>\<open>Stuff** slot\<close>), which is
  either the header's \<open>stuff\<close> field or the \<open>next\<close> field of a node. A walk over a cyclic chain never
  ends, so both are partial functions with result \<open>None\<close> there.

  The lemmas relate every operation to the plain list of the nodes in order (\<open>rep\<close>), give the
  frame (which \<open>next\<close> fields change), and show what happens when a node is inserted while it is
  still linked, which the list does not guard against.
\<close>

section \<open>The list and its operations\<close>

type_synonym 'p links = "'p \<Rightarrow> 'p option"

record 'p self_list =
  stuff :: "'p option"
  tail :: "'p option"

type_synonym 'p list_state = "'p self_list \<times> 'p links"

definition SelfList_new :: "'p self_list" where
  "SelfList_new = \<lparr>stuff = None, tail = None\<rparr>"

text \<open>The default comparator \<^verbatim>\<open>traits::AlwaysFalse\<close>.\<close>

definition AlwaysFalse :: "'p \<Rightarrow> 'p \<Rightarrow> bool" where
  "AlwaysFalse lhs rhs = False"

datatype 'p slot = SlotHead | SlotNext 'p

fun read_slot :: "'p list_state \<Rightarrow> 'p slot \<Rightarrow> 'p option" where
  "read_slot (l, nx) SlotHead = stuff l"
| "read_slot (l, nx) (SlotNext p) = nx p"

fun write_slot :: "'p slot \<Rightarrow> 'p option \<Rightarrow> 'p list_state \<Rightarrow> 'p list_state" where
  "write_slot SlotHead v (l, nx) = (l\<lparr>stuff := v\<rparr>, nx)"
| "write_slot (SlotNext p) v (l, nx) = (l, nx(p := v))"

definition SelfList_head :: "'p list_state \<Rightarrow> 'p option" where
  "SelfList_head st = stuff (fst st)"

definition SelfList_empty :: "'p list_state \<Rightarrow> bool" where
  "SelfList_empty st = (stuff (fst st) = None)"

partial_function (option) insert_walk ::
  "('p \<Rightarrow> 'p \<Rightarrow> bool) \<Rightarrow> 'p \<Rightarrow> 'p list_state \<Rightarrow> 'p slot \<Rightarrow> 'p slot option" where
  "insert_walk lt new_stuff st slot =
     (case read_slot st slot of
        None \<Rightarrow> Some slot
      | Some p \<Rightarrow> if lt new_stuff p then Some slot else insert_walk lt new_stuff st (SlotNext p))"

definition SelfList_insert ::
  "('p \<Rightarrow> 'p \<Rightarrow> bool) \<Rightarrow> 'p \<Rightarrow> 'p list_state \<Rightarrow> 'p list_state option" where
  "SelfList_insert lt new_stuff st =
     do {
       slot \<leftarrow> insert_walk lt new_stuff st SlotHead;
       let st1 = write_slot (SlotNext new_stuff) (read_slot st slot) st;
       let st2 = write_slot slot (Some new_stuff) st1;
       Some (if read_slot st2 (SlotNext new_stuff) = None
             then ((fst st2)\<lparr>tail := Some new_stuff\<rparr>, snd st2) else st2)
     }"

definition SelfList_push_back :: "'p \<Rightarrow> 'p list_state \<Rightarrow> 'p list_state" where
  "SelfList_push_back new_stuff st =
     (let st1 = write_slot (SlotNext new_stuff) None st;
          st2 = (case tail (fst st1) of
                   None \<Rightarrow> write_slot SlotHead (Some new_stuff) st1
                 | Some p \<Rightarrow> write_slot (SlotNext p) (Some new_stuff) st1)
      in ((fst st2)\<lparr>tail := Some new_stuff\<rparr>, snd st2))"

partial_function (option) remove_walk ::
  "'p \<Rightarrow> 'p list_state \<Rightarrow> 'p slot \<Rightarrow> 'p option \<Rightarrow> ('p slot \<times> 'p option) option option" where
  "remove_walk w st slot prev =
     (case read_slot st slot of
        None \<Rightarrow> Some None
      | Some p \<Rightarrow> if p = w then Some (Some (slot, prev))
                  else remove_walk w st (SlotNext p) (Some p))"

definition SelfList_remove :: "'p \<Rightarrow> 'p list_state \<Rightarrow> (bool \<times> 'p list_state) option" where
  "SelfList_remove w st =
     do {
       found \<leftarrow> remove_walk w st SlotHead None;
       Some (case found of
         None \<Rightarrow> (False, st)
       | Some (slot, prev) \<Rightarrow>
           let st1 = write_slot slot (read_slot st (SlotNext w)) st;
               st2 = (if tail (fst st1) = Some w then ((fst st1)\<lparr>tail := prev\<rparr>, snd st1) else st1)
           in (True, write_slot (SlotNext w) None st2))
     }"

definition SelfList_push_front :: "'p \<Rightarrow> 'p list_state \<Rightarrow> 'p list_state" where
  "SelfList_push_front new_stuff st =
     (let st1 = write_slot (SlotNext new_stuff) (stuff (fst st)) st;
          st2 = write_slot SlotHead (Some new_stuff) st1
      in if tail (fst st2) = None then ((fst st2)\<lparr>tail := Some new_stuff\<rparr>, snd st2) else st2)"

definition SelfList_pop_head :: "'p list_state \<Rightarrow> 'p option \<times> 'p list_state" where
  "SelfList_pop_head st =
     (case stuff (fst st) of
        None \<Rightarrow> (None, st)
      | Some out \<Rightarrow>
          let st1 = write_slot SlotHead (snd st out) st;
              st2 = (if stuff (fst st1) = None then ((fst st1)\<lparr>tail := None\<rparr>, snd st1) else st1)
          in (Some out, write_slot (SlotNext out) None st2))"

section \<open>Chains of links and the list they represent\<close>

fun chain :: "'p links \<Rightarrow> 'p option \<Rightarrow> 'p list \<Rightarrow> 'p option \<Rightarrow> bool" where
  "chain nx p [] q \<longleftrightarrow> p = q"
| "chain nx p (x # xs) q \<longleftrightarrow> p = Some x \<and> chain nx (nx x) xs q"

definition rep :: "'p list_state \<Rightarrow> 'p list \<Rightarrow> bool" where
  "rep st xs \<longleftrightarrow> chain (snd st) (stuff (fst st)) xs None \<and> distinct xs \<and>
     tail (fst st) = (if xs = [] then None else Some (last xs))"

lemma chain_append: "chain nx p (xs @ ys) q \<longleftrightarrow> (\<exists>r. chain nx p xs r \<and> chain nx r ys q)"
  by (induction xs arbitrary: p) auto

lemma chain_cong: "(\<And>x. x \<in> set xs \<Longrightarrow> nx x = nx' x) \<Longrightarrow> chain nx p xs q = chain nx' p xs q"
  by (induction xs arbitrary: p) auto

lemma chain_upd_other [simp]: "u \<notin> set xs \<Longrightarrow> chain (nx(u := v)) p xs q = chain nx p xs q"
  by (rule chain_cong) auto

lemma chain_start: "chain nx p xs None \<Longrightarrow> p = (if xs = [] then None else Some (hd xs))"
  by (cases xs) auto

lemma chain_from_unique: "chain nx p xs None \<Longrightarrow> chain nx p ys None \<Longrightarrow> xs = ys"
proof (induction xs arbitrary: p ys)
  case Nil
  then show ?case by (cases ys) auto
next
  case (Cons x xs)
  then show ?case by (cases ys) auto
qed

lemma rep_unique: "rep st xs \<Longrightarrow> rep st ys \<Longrightarrow> xs = ys"
  by (auto simp: rep_def intro: chain_from_unique)

lemma rep_distinct: "rep st xs \<Longrightarrow> distinct xs"
  by (simp add: rep_def)

lemma rep_new: "rep (SelfList_new, nx) []"
  by (simp add: rep_def SelfList_new_def)

lemma rep_head: "rep st xs \<Longrightarrow> SelfList_head st = (if xs = [] then None else Some (hd xs))"
  by (auto simp: rep_def SelfList_head_def dest: chain_start)

lemma rep_empty: "rep st xs \<Longrightarrow> SelfList_empty st \<longleftrightarrow> xs = []"
  using chain_start [of "snd st" "stuff (fst st)" xs]
  by (auto simp: rep_def SelfList_empty_def split: if_splits)

text \<open>Links of nodes that are not in the list do not matter.\<close>

lemma rep_frame:
  assumes "rep (l, nx) xs" and "\<And>x. x \<in> set xs \<Longrightarrow> nx' x = nx x"
  shows "rep (l, nx') xs"
  using assms chain_cong [of xs nx' nx] by (simp add: rep_def)

text \<open>The node before a position, as the slot that points there.\<close>

definition slot_after :: "'p list \<Rightarrow> 'p slot \<Rightarrow> 'p slot" where
  "slot_after as s = (if as = [] then s else SlotNext (last as))"

lemma chain_last_link:
  "chain nx p as r \<Longrightarrow> as \<noteq> [] \<Longrightarrow> nx (last as) = r"
  by (induction as arbitrary: p) auto

lemma chain_redirect:
  assumes "chain nx p as r" and "as \<noteq> []" and "distinct as"
  shows "chain (nx(last as := r')) p as r'"
proof -
  obtain bs b where as: "as = bs @ [b]" using assms(2) by (metis rev_exhaust)
  then show ?thesis using assms by (auto simp: chain_append)
qed

section \<open>The operations on the represented list\<close>

text \<open>Sorted insertion on plain lists: before the first element that \<open>x\<close> is less than.\<close>

definition ins_by :: "('p \<Rightarrow> 'p \<Rightarrow> bool) \<Rightarrow> 'p \<Rightarrow> 'p list \<Rightarrow> 'p list" where
  "ins_by lt x xs = takeWhile (\<lambda>y. \<not> lt x y) xs @ x # dropWhile (\<lambda>y. \<not> lt x y) xs"

lemma set_ins_by [simp]: "set (ins_by lt x xs) = insert x (set xs)"
proof -
  have "set (ins_by lt x xs) =
      insert x (set (takeWhile (\<lambda>y. \<not> lt x y) xs @ dropWhile (\<lambda>y. \<not> lt x y) xs))"
    by (simp only: ins_by_def set_append list.set(2)) blast
  then show ?thesis by (simp only: takeWhile_dropWhile_id)
qed

lemma ins_by_AlwaysFalse: "ins_by AlwaysFalse x xs = xs @ [x]"
  by (simp add: ins_by_def AlwaysFalse_def takeWhile_eq_all_conv [THEN iffD2])

lemma insert_walk_chain:
  assumes "chain (snd st) (read_slot st slot) ys None"
  shows "insert_walk lt x st slot = Some (slot_after (takeWhile (\<lambda>y. \<not> lt x y) ys) slot)"
  using assms
proof (induction ys arbitrary: slot)
  case Nil
  then show ?case by (simp add: insert_walk.simps [of lt x st slot] slot_after_def)
next
  case (Cons y ys)
  then have "read_slot st slot = Some y" and rest: "chain (snd st) (read_slot st (SlotNext y)) ys None"
    by (cases st; simp)+
  with Cons.IH [OF rest] show ?case
    by (simp add: insert_walk.simps [of lt x st slot] slot_after_def)
qed

text \<open>Splicing a fresh node after the prefix \<open>as\<close> of a chain.\<close>

lemma splice_rep:
  assumes "rep (l, nx) (as @ bs)" and "x \<notin> set (as @ bs)"
    and "st1 = write_slot (slot_after as SlotHead) (Some x) (l, nx(x := if bs = [] then None else Some (hd bs)))"
  shows "rep (if bs = [] then ((fst st1)\<lparr>tail := Some x\<rparr>, snd st1) else st1) (as @ x # bs)"
    and "snd st1 x = (if bs = [] then None else Some (hd bs))"
    and "y \<noteq> x \<Longrightarrow> y \<notin> set as \<Longrightarrow> snd st1 y = nx y"
proof -
  let ?n = "if bs = [] then None else Some (hd bs)"
  from assms(1) obtain r where as: "chain nx (stuff l) as r" and bs: "chain nx r bs None"
    and d: "distinct (as @ bs)" by (auto simp: rep_def chain_append)
  have r: "r = ?n" using chain_start [OF bs] .
  have "rep (if bs = [] then ((fst st1)\<lparr>tail := Some x\<rparr>, snd st1) else st1) (as @ x # bs)
      \<and> snd st1 x = ?n \<and> (\<forall>y. y \<noteq> x \<longrightarrow> y \<notin> set as \<longrightarrow> snd st1 y = nx y)"
  proof (cases "as = []")
    case True
    then have st1: "st1 = (l\<lparr>stuff := Some x\<rparr>, nx(x := ?n))" using assms(3) by (simp add: slot_after_def)
    have "chain (nx(x := ?n)) ?n bs None" using bs r assms(2) by (simp del: fun_upd_apply)
    then show ?thesis using True assms(1,2) d by (auto simp: st1 rep_def)
  next
    case False
    then have st1: "st1 = (l, nx(x := ?n, last as := Some x))"
      using assms(3) by (simp add: slot_after_def)
    have x: "x \<notin> set as" "x \<notin> set bs" and last_bs: "last as \<notin> set bs" "last as \<noteq> x"
      using assms(2) d False by (auto dest: last_in_set)
    have "chain (nx(x := ?n, last as := Some x)) (stuff l) as (Some x)"
      using as x(1) d False by (intro chain_redirect [of _ _ _ r]) auto
    moreover have "chain (nx(x := ?n, last as := Some x)) ?n bs None"
      using bs r x last_bs by (simp del: fun_upd_apply)
    ultimately have "chain (snd st1) (stuff l) (as @ x # bs) None"
      using last_bs by (auto simp: st1 chain_append)
    then show ?thesis using False assms(1,2) d last_bs last_in_set [of as] by (auto simp: st1 rep_def)
  qed
  then show "rep (if bs = [] then ((fst st1)\<lparr>tail := Some x\<rparr>, snd st1) else st1) (as @ x # bs)"
    "snd st1 x = ?n" "y \<noteq> x \<Longrightarrow> y \<notin> set as \<Longrightarrow> snd st1 y = nx y" by blast+
qed

lemma rep_insert:
  assumes "rep st xs" and "x \<notin> set xs"
  obtains st' where "SelfList_insert lt x st = Some st'" and "rep st' (ins_by lt x xs)"
    and "\<And>y. y \<noteq> x \<Longrightarrow> y \<notin> set xs \<Longrightarrow> snd st' y = snd st y"
proof -
  obtain l nx where st: "st = (l, nx)" by (cases st)
  define as where "as = takeWhile (\<lambda>y. \<not> lt x y) xs"
  define bs where "bs = dropWhile (\<lambda>y. \<not> lt x y) xs"
  have xs: "xs = as @ bs" by (simp add: as_def bs_def)
  define n where "n = (if bs = [] then None else Some (hd bs))"
  have "chain (snd st) (read_slot st SlotHead) xs None" using assms(1) by (simp add: rep_def st)
  then have walk: "insert_walk lt x st SlotHead = Some (slot_after as SlotHead)"
    unfolding as_def by (rule insert_walk_chain)
  have read: "read_slot st (slot_after as SlotHead) = n"
  proof -
    from assms(1) obtain r where "chain nx (stuff l) as r" "chain nx r bs None"
      by (auto simp: rep_def chain_append xs st)
    then show ?thesis
      using chain_start [of nx r bs] chain_last_link [of nx "stuff l" as r]
      by (cases "as = []") (auto simp: slot_after_def st n_def)
  qed
  define st1 where "st1 = write_slot (slot_after as SlotHead) (Some x) (l, nx(x := n))"
  have "rep (l, nx) (as @ bs)" "x \<notin> set (as @ bs)" using assms by (simp_all add: st xs)
  note spliced = splice_rep [OF this st1_def [unfolded n_def]]
  have fresh: "write_slot (SlotNext x) n st = (l, nx(x := n))" by (simp add: st)
  have linked: "read_slot st1 (SlotNext x) = n" using spliced(2) by (cases st1) (simp add: n_def)
  have "SelfList_insert lt x st =
      Some (if n = None then ((fst st1)\<lparr>tail := Some x\<rparr>, snd st1) else st1)"
    unfolding SelfList_insert_def walk bind.bind_lunit Let_def read fresh st1_def [symmetric] linked ..
  moreover have "n = None \<longleftrightarrow> bs = []" by (simp add: n_def)
  ultimately have "SelfList_insert lt x st =
      Some (if bs = [] then ((fst st1)\<lparr>tail := Some x\<rparr>, snd st1) else st1)" by simp
  moreover have "ins_by lt x xs = as @ x # bs" by (simp add: ins_by_def as_def bs_def)
  moreover have "snd st1 y = nx y" if "y \<noteq> x" "y \<notin> set xs" for y
    using spliced(3) [of y] that by (simp add: xs)
  ultimately show thesis
    using spliced(1) by (intro that) (auto simp: st)
qed

lemma rep_push_back:
  assumes "rep st xs" and "x \<notin> set xs"
  shows "rep (SelfList_push_back x st) (xs @ [x])"
    and "y \<noteq> x \<Longrightarrow> y \<notin> set xs \<Longrightarrow> snd (SelfList_push_back x st) y = snd st y"
proof -
  obtain l nx where st: "st = (l, nx)" by (cases st)
  define st1 where "st1 = write_slot (slot_after xs SlotHead) (Some x) (l, nx(x := None))"
  have eq: "SelfList_push_back x st = ((fst st1)\<lparr>tail := Some x\<rparr>, snd st1)"
    using assms(1) by (auto simp: SelfList_push_back_def st st1_def rep_def slot_after_def)
  note spliced = splice_rep [of l nx xs "[]" x st1]
  show "rep (SelfList_push_back x st) (xs @ [x])"
    unfolding eq using spliced(1) assms by (simp add: st st1_def)
  show "snd (SelfList_push_back x st) y = snd st y" if "y \<noteq> x" "y \<notin> set xs"
    unfolding eq using spliced(3) assms that by (simp add: st st1_def)
qed

lemma rep_push_front:
  assumes "rep st xs" and "x \<notin> set xs"
  shows "rep (SelfList_push_front x st) (x # xs)"
    and "y \<noteq> x \<Longrightarrow> snd (SelfList_push_front x st) y = snd st y"
  using assms by (cases st; auto simp: SelfList_push_front_def rep_def Let_def)+

lemma rep_pop_head:
  assumes "rep st (x # xs)"
  obtains st' where "SelfList_pop_head st = (Some x, st')" and "rep st' xs"
    and "\<And>y. y \<noteq> x \<Longrightarrow> snd st' y = snd st y" and "snd st' x = None"
  using assms chain_start [of "snd st" "snd st x" xs]
  by (cases st) (auto simp: SelfList_pop_head_def rep_def Let_def split: if_splits)

lemma rep_pop_head_Nil: "rep st [] \<Longrightarrow> SelfList_pop_head st = (None, st)"
  by (simp add: SelfList_pop_head_def rep_def)

lemma remove_walk_chain:
  assumes "chain (snd st) (read_slot st slot) ys None"
  shows "w \<notin> set ys \<Longrightarrow> remove_walk w st slot prev = Some None"
    and "ys = as @ w # bs \<Longrightarrow> w \<notin> set as \<Longrightarrow> remove_walk w st slot prev =
      Some (Some (slot_after as slot, if as = [] then prev else Some (last as)))"
  using assms
proof (induction ys arbitrary: slot prev as)
  case Nil
  {
    case 1
    then show ?case by (simp add: remove_walk.simps [of w st slot])
  next
    case 2
    then show ?case by simp
  }
next
  case (Cons y ys)
  have step: "read_slot st slot = Some y" "chain (snd st) (read_slot st (SlotNext y)) ys None"
    if "chain (snd st) (read_slot st slot) (y # ys) None" for slot
    using that by (cases st; simp)+
  {
    case 1
    then show ?case
      using step [OF 1(2)] Cons.IH(1) by (auto simp: remove_walk.simps [of w st slot])
  next
    case 2
    show ?case
    proof (cases as)
      case Nil
      then show ?thesis using 2 step [OF 2(3)] by (simp add: remove_walk.simps [of w st slot] slot_after_def)
    next
      case (Cons a as')
      then have "remove_walk w st (SlotNext y) (Some y) =
          Some (Some (slot_after as' (SlotNext y), if as' = [] then Some y else Some (last as')))"
        using 2 step(2) [OF 2(3)] by (intro Cons.IH(2)) auto
      then show ?thesis
        using 2 Cons step(1) [OF 2(3)]
        by (auto simp: remove_walk.simps [of w st slot] slot_after_def)
    qed
  }
qed

lemma rep_remove_absent: "rep st xs \<Longrightarrow> w \<notin> set xs \<Longrightarrow> SelfList_remove w st = Some (False, st)"
  using remove_walk_chain(1) [of st SlotHead xs w None]
  by (cases st) (simp add: SelfList_remove_def rep_def)

lemma rep_remove:
  assumes "rep st xs" and "w \<in> set xs"
  obtains st' where "SelfList_remove w st = Some (True, st')" and "rep st' (remove1 w xs)"
    and "\<And>y. y \<notin> set xs \<Longrightarrow> snd st' y = snd st y" and "snd st' w = None"
proof -
  obtain l nx where st: "st = (l, nx)" by (cases st)
  obtain as bs where xs: "xs = as @ w # bs" and w_as: "w \<notin> set as"
    using assms(2) by (meson split_list_first)
  from assms(1) have d: "distinct (as @ w # bs)" and tl: "tail l = Some (last (as @ w # bs))"
    and as: "chain nx (stuff l) as (Some w)" and bs: "chain nx (nx w) bs None"
    by (auto simp: rep_def st xs chain_append)
  have walk: "remove_walk w st SlotHead None =
      Some (Some (slot_after as SlotHead, if as = [] then None else Some (last as)))"
    using assms(1) remove_walk_chain(2) [of st SlotHead xs as w bs None] w_as
    by (simp add: rep_def st xs)
  have rem: "remove1 w xs = as @ bs" using w_as by (simp add: xs remove1_append)
  show thesis
  proof (cases "as = []")
    case True
    then show ?thesis
      using walk bs d tl rem last_in_set [of bs]
      by (intro that [of "(if bs = [] then l\<lparr>stuff := nx w, tail := None\<rparr> else l\<lparr>stuff := nx w\<rparr>,
            nx(w := None))"])
        (auto simp: SelfList_remove_def st rep_def xs slot_after_def Let_def)
  next
    case False
    let ?nx = "nx(last as := nx w, w := None)"
    let ?l = "if bs = [] then l\<lparr>tail := Some (last as)\<rparr> else l"
    have last: "last as \<noteq> w" "last as \<notin> set bs" using d last_in_set [OF False] by auto
    have "chain (nx(last as := nx w)) (stuff l) as (nx w)"
      using as False d by (intro chain_redirect [of _ _ _ "Some w"]) auto
    then have "chain ?nx (stuff l) (as @ bs) None"
      using bs d last by (auto simp: chain_append simp del: fun_upd_apply)
    then have "rep (?l, ?nx) (remove1 w xs)"
      using d tl False by (auto simp: rem rep_def)
    moreover have "SelfList_remove w st = Some (True, (?l, ?nx))"
      using walk False tl last d last_in_set [of bs]
      by (auto simp: SelfList_remove_def st slot_after_def Let_def)
    ultimately show ?thesis
      using last_in_set [OF False] by (intro that) (auto simp: st xs)
  qed
qed

section \<open>The interface of the list\<close>

text \<open>
  What the ready queues, the timer queue and the wait lists of the kernel rely on: the list of
  nodes before and after each operation, for nodes that are not linked yet, and that the \<open>next\<close>
  fields of foreign nodes stay as they are.
\<close>

locale intrusive_list =
  fixes holds :: "'st \<Rightarrow> 'p list \<Rightarrow> bool"
    and link :: "'st \<Rightarrow> 'p \<Rightarrow> 'p option"
    and enq :: "'p \<Rightarrow> 'st \<Rightarrow> 'st"
    and enq_front :: "'p \<Rightarrow> 'st \<Rightarrow> 'st"
    and deq :: "'st \<Rightarrow> 'p option \<times> 'st"
    and sorted_in :: "('p \<Rightarrow> 'p \<Rightarrow> bool) \<Rightarrow> 'p \<Rightarrow> 'st \<Rightarrow> 'st option"
    and unlink :: "'p \<Rightarrow> 'st \<Rightarrow> (bool \<times> 'st) option"
  assumes holds_distinct: "holds st xs \<Longrightarrow> distinct xs"
    and holds_enq: "holds st xs \<Longrightarrow> x \<notin> set xs \<Longrightarrow> holds (enq x st) (xs @ [x])"
    and holds_enq_front: "holds st xs \<Longrightarrow> x \<notin> set xs \<Longrightarrow> holds (enq_front x st) (x # xs)"
    and holds_deq: "holds st (x # xs) \<Longrightarrow> \<exists>st'. deq st = (Some x, st') \<and> holds st' xs"
    and holds_deq_Nil: "holds st [] \<Longrightarrow> deq st = (None, st)"
    and holds_sorted_in: "holds st xs \<Longrightarrow> x \<notin> set xs \<Longrightarrow>
      \<exists>st'. sorted_in lt x st = Some st' \<and> holds st' (ins_by lt x xs)
        \<and> (\<forall>y. y \<noteq> x \<longrightarrow> y \<notin> set xs \<longrightarrow> link st' y = link st y)"
    and holds_unlink: "holds st xs \<Longrightarrow>
      \<exists>st'. unlink w st = Some (w \<in> set xs, st') \<and> holds st' (remove1 w xs)
        \<and> (\<forall>y. y \<notin> set xs \<longrightarrow> link st' y = link st y)"
begin

text \<open>Taking the head and putting it at the tail rotates the list: one round of round robin.\<close>

lemma holds_rotate:
  assumes "holds st (x # xs)"
  shows "\<exists>st'. deq st = (Some x, st') \<and> holds (enq x st') (xs @ [x])"
proof -
  obtain st' where "deq st = (Some x, st')" "holds st' xs" using holds_deq [OF assms] by blast
  moreover have "x \<notin> set xs" using holds_distinct [OF assms] by simp
  ultimately show ?thesis using holds_enq by blast
qed

text \<open>A node that is put in and taken out again leaves the list as it was.\<close>

lemma sorted_in_unlink:
  assumes "holds st xs" and "x \<notin> set xs"
  shows "\<exists>st1 st2. sorted_in lt x st = Some st1 \<and> unlink x st1 = Some (True, st2) \<and> holds st2 xs"
proof -
  obtain st1 where st1: "sorted_in lt x st = Some st1" "holds st1 (ins_by lt x xs)"
    using holds_sorted_in [OF assms] by blast
  have "remove1 x (ins_by lt x xs) = xs"
    using assms(2) set_takeWhileD [of x _ xs] by (auto simp: ins_by_def remove1_append)
  then show ?thesis using st1 holds_unlink [OF st1(2), of x] by auto
qed

lemma enq_front_deq:
  "holds st xs \<Longrightarrow> x \<notin> set xs \<Longrightarrow> \<exists>st'. deq (enq_front x st) = (Some x, st') \<and> holds st' xs"
  using holds_deq holds_enq_front by blast

end

interpretation sl: intrusive_list rep snd SelfList_push_back SelfList_push_front SelfList_pop_head
  SelfList_insert SelfList_remove
proof
  show "\<exists>st'. SelfList_pop_head st = (Some x, st') \<and> rep st' xs" if "rep st (x # xs)" for st x xs
    using rep_pop_head [OF that] by metis
  show "\<exists>st'. SelfList_insert lt x st = Some st' \<and> rep st' (ins_by lt x xs)
      \<and> (\<forall>y. y \<noteq> x \<longrightarrow> y \<notin> set xs \<longrightarrow> snd st' y = snd st y)" if "rep st xs" "x \<notin> set xs" for st xs x lt
    using rep_insert [OF that, of lt] by metis
  show "\<exists>st'. SelfList_remove w st = Some (w \<in> set xs, st') \<and> rep st' (remove1 w xs)
      \<and> (\<forall>y. y \<notin> set xs \<longrightarrow> snd st' y = snd st y)" if "rep st xs" for st xs w
  proof (cases "w \<in> set xs")
    case True
    then show ?thesis using rep_remove [OF that True] by metis
  next
    case False
    then show ?thesis using rep_remove_absent [OF that False] that by (simp add: remove1_idem)
  qed
qed (auto simp: rep_push_back(1) rep_push_front(1) rep_pop_head_Nil dest: rep_distinct)

section \<open>Walks past a prefix, walks into a self-loop\<close>

lemma insert_walk_prefix:
  assumes "chain (snd st) (read_slot st slot) zs q" and "\<forall>z \<in> set zs. \<not> lt y z"
  shows "insert_walk lt y st slot = insert_walk lt y st (slot_after zs slot)"
  using assms
proof (induction zs arbitrary: slot)
  case (Cons z zs)
  then have "read_slot st slot = Some z" "chain (snd st) (read_slot st (SlotNext z)) zs q"
    by (cases st; simp)+
  with Cons show ?case by (simp add: insert_walk.simps [of lt y st slot] slot_after_def)
qed (simp add: slot_after_def)

lemma remove_walk_prefix:
  assumes "chain (snd st) (read_slot st slot) zs q" and "y \<notin> set zs"
  shows "\<exists>prev'. remove_walk y st slot prev = remove_walk y st (slot_after zs slot) prev'"
  using assms
proof (induction zs arbitrary: slot prev)
  case (Cons z zs)
  then have "read_slot st slot = Some z" "chain (snd st) (read_slot st (SlotNext z)) zs q"
    by (cases st; simp)+
  with Cons.IH [of "SlotNext z" "Some z"] Cons.prems(2) show ?case
    by (auto simp: remove_walk.simps [of y st slot] slot_after_def)
qed (auto simp: slot_after_def)

lemma insert_walk_self_loop:
  assumes "snd st x = Some x" and "\<not> lt y x"
  shows "insert_walk lt y st (SlotNext x) = None"
proof -
  let ?P = "\<lambda>lt' y' st' slot (r :: 'p slot). lt' = lt \<and> y' = y \<and> st' = st \<and> slot = SlotNext x \<longrightarrow> False"
  have "False" if "insert_walk lt y st (SlotNext x) = Some r" for r
  proof -
    have "?P lt y st (SlotNext x) r"
      by (rule insert_walk.raw_induct [where P = ?P, OF _ that])
        (insert assms, cases st, fastforce split: if_splits)
    then show False by simp
  qed
  then show ?thesis by (cases "insert_walk lt y st (SlotNext x)") auto
qed

lemma remove_walk_self_loop:
  assumes "snd st x = Some x" and "y \<noteq> x"
  shows "remove_walk y st (SlotNext x) prev = None"
proof -
  let ?P = "\<lambda>y' st' slot (p :: 'p option) (r :: ('p slot \<times> 'p option) option).
    y' = y \<and> st' = st \<and> slot = SlotNext x \<longrightarrow> False"
  have "False" if "remove_walk y st (SlotNext x) prev = Some r" for r
  proof -
    have "?P y st (SlotNext x) prev r"
      by (rule remove_walk.raw_induct [where P = ?P, OF _ that])
        (insert assms, cases st, fastforce split: if_splits)
    then show False by simp
  qed
  then show ?thesis by (cases "remove_walk y st (SlotNext x) prev") auto
qed

lemma reinsert_linked:
  assumes "rep st (as @ x # bs)"
  shows "\<exists>st'. SelfList_insert AlwaysFalse x st = Some st' \<and>
    (if bs = [] then snd st' x = Some x \<and> (\<forall>y. SelfList_insert AlwaysFalse y st' = None)
       \<and> (\<forall>y. y \<notin> set (as @ [x]) \<longrightarrow> SelfList_remove y st' = None)
     else chain (snd st') (stuff (fst st')) (as @ [x]) None)"
proof -
  obtain l nx where st: "st = (l, nx)" by (cases st)
  from assms have as: "chain nx (stuff l) as (Some x)" and bs: "chain nx (nx x) bs None"
    and d: "distinct (as @ x # bs)" by (auto simp: rep_def st chain_append)
  have walk: "insert_walk AlwaysFalse x st SlotHead = Some (SlotNext (last (x # bs)))"
    using assms insert_walk_chain [of st SlotHead "as @ x # bs" AlwaysFalse x]
    by (simp add: rep_def st AlwaysFalse_def takeWhile_eq_all_conv [THEN iffD2] slot_after_def)
  show ?thesis
  proof (cases "bs = []")
    case True
    let ?st = "(l, nx(x := Some x))"
    have ins: "SelfList_insert AlwaysFalse x st = Some ?st"
      using walk True bs by (simp add: SelfList_insert_def st)
    have head: "chain (nx(x := Some x)) (stuff l) (as @ [x]) (Some x)"
      using as d True by (auto simp: chain_append)
    have "SelfList_insert AlwaysFalse y ?st = None" for y
      using insert_walk_prefix [of ?st SlotHead "as @ [x]" "Some x" AlwaysFalse y] head
        insert_walk_self_loop [of ?st x AlwaysFalse y]
      by (simp add: SelfList_insert_def AlwaysFalse_def slot_after_def)
    moreover have "SelfList_remove y ?st = None" if "y \<notin> set (as @ [x])" for y
      using remove_walk_prefix [of ?st SlotHead "as @ [x]" "Some x" y None] head that
        remove_walk_self_loop [of ?st x y]
      by (auto simp: SelfList_remove_def slot_after_def)
    ultimately show ?thesis using ins True by simp
  next
    case False
    have "last bs \<noteq> x" "last bs \<notin> set as" using d last_in_set [OF False] by auto
    moreover have "nx (last bs) = None" using chain_last_link [OF bs False] .
    ultimately have "SelfList_insert AlwaysFalse x st =
        Some (l\<lparr>tail := Some x\<rparr>, nx(x := None, last bs := Some x))"
      using walk False by (simp add: SelfList_insert_def st)
    moreover have "chain (nx(x := None, last bs := Some x)) (stuff l) (as @ [x]) None"
      using as d \<open>last bs \<noteq> x\<close> \<open>last bs \<notin> set as\<close> by (auto simp: chain_append)
    ultimately show ?thesis using False by simp
  qed
qed

section \<open>Properties\<close>

text \<open>C23: every list operation, on a list that holds \<open>xs\<close> and a node that is not linked, ends with
  the list it should hold: append at the tail, push at the head, sorted insertion, removal
  (which tells whether the node was there) and taking the head; the walks end, the tail pointer
  stays the last node, a node that is taken out has its \<open>next\<close> field reset, and no operation touches the
  \<open>next\<close> field of a node outside the list.\<close>

theorem self_list_operations:
  assumes "rep st xs"
  shows "(x \<notin> set xs \<longrightarrow> rep (SelfList_push_back x st) (xs @ [x]) \<and> rep (SelfList_push_front x st) (x # xs)
        \<and> (\<forall>y. y \<notin> insert x (set xs) \<longrightarrow> snd (SelfList_push_back x st) y = snd st y \<and> snd (SelfList_push_front x st) y = snd st y)
        \<and> (\<exists>st'. SelfList_insert lt x st = Some st' \<and> rep st' (ins_by lt x xs)
              \<and> (\<forall>y. y \<notin> insert x (set xs) \<longrightarrow> snd st' y = snd st y)))
    \<and> (\<exists>st'. SelfList_remove x st = Some (x \<in> set xs, st') \<and> rep st' (remove1 x xs) \<and> (x \<in> set xs \<longrightarrow> snd st' x = None)
              \<and> (\<forall>y. y \<notin> set xs \<longrightarrow> snd st' y = snd st y))
    \<and> (case xs of [] \<Rightarrow> SelfList_pop_head st = (None, st)
         | z # zs \<Rightarrow> \<exists>st'. SelfList_pop_head st = (Some z, st') \<and> rep st' zs \<and> snd st' z = None
              \<and> (\<forall>y. y \<noteq> z \<longrightarrow> snd st' y = snd st y))"
proof (intro conjI impI)
  show "\<exists>st'. SelfList_insert lt x st = Some st' \<and> rep st' (ins_by lt x xs)
      \<and> (\<forall>y. y \<notin> insert x (set xs) \<longrightarrow> snd st' y = snd st y)" if "x \<notin> set xs"
    using sl.holds_sorted_in [OF assms that, of lt] by blast
  show "\<forall>y. y \<notin> insert x (set xs) \<longrightarrow> snd (SelfList_push_back x st) y = snd st y \<and> snd (SelfList_push_front x st) y = snd st y"
    if "x \<notin> set xs" using rep_push_back(2) [OF assms that] rep_push_front(2) [OF assms that] by blast
  show "case xs of [] \<Rightarrow> SelfList_pop_head st = (None, st)
      | z # zs \<Rightarrow> \<exists>st'. SelfList_pop_head st = (Some z, st') \<and> rep st' zs \<and> snd st' z = None \<and> (\<forall>y. y \<noteq> z \<longrightarrow> snd st' y = snd st y)"
  proof (cases xs)
    case (Cons z zs)
    then obtain st' where "SelfList_pop_head st = (Some z, st')" "rep st' zs" "\<And>y. y \<noteq> z \<Longrightarrow> snd st' y = snd st y" "snd st' z = None"
      using assms rep_pop_head [of st z zs] by blast
    then show ?thesis using Cons by simp
  qed (use assms sl.holds_deq_Nil [of st] in simp)
  show "\<exists>st'. SelfList_remove x st = Some (x \<in> set xs, st') \<and> rep st' (remove1 x xs) \<and> (x \<in> set xs \<longrightarrow> snd st' x = None)
      \<and> (\<forall>y. y \<notin> set xs \<longrightarrow> snd st' y = snd st y)"
  proof (cases "x \<in> set xs")
    case True
    obtain st' where "SelfList_remove x st = Some (True, st')" "rep st' (remove1 x xs)" "\<And>y. y \<notin> set xs \<Longrightarrow> snd st' y = snd st y"
      "snd st' x = None" using rep_remove [OF assms True] by blast
    then show ?thesis using True by simp
  qed (use sl.holds_unlink [OF assms, of x] in simp)
qed (simp_all add: sl.holds_enq [OF assms] sl.holds_enq_front [OF assms])

theorem self_list_operations_witness:
  "\<exists>st'. SelfList_remove 2 (SelfList_push_back 3 (SelfList_push_back (2 :: addr) (SelfList_new, Map.empty)))
     = Some (True, st') \<and> rep st' [3]"
proof -
  have "rep (SelfList_push_back (2 :: addr) (SelfList_new, Map.empty)) ([] @ [2])"
    by (rule sl.holds_enq [OF rep_new]) simp
  then have "rep (SelfList_push_back 3 (SelfList_push_back (2 :: addr) (SelfList_new, Map.empty))) (([] @ [2]) @ [3])"
    by (rule sl.holds_enq) simp
  from self_list_operations [OF this, of 2 AlwaysFalse] show ?thesis by auto
qed

text \<open>Inserting a node that is still linked breaks the list. With the default comparator, a
  node that is the last of the list becomes its own successor, so the next insertion and the
  removal of a node that is not before it run forever; a node further ahead cuts off everything
  behind it, so those nodes are no longer reachable from the head.\<close>

theorem reinsert_breaks_list:
  assumes "rep st (as @ x # bs)"
  shows "\<exists>st'. SelfList_insert AlwaysFalse x st = Some st' \<and>
    (if bs = [] then snd st' x = Some x \<and> (\<forall>y. SelfList_insert AlwaysFalse y st' = None)
       \<and> (\<forall>y. y \<notin> set (as @ [x]) \<longrightarrow> SelfList_remove y st' = None)
     else chain (snd st') (stuff (fst st')) (as @ [x]) None)"
  by (rule reinsert_linked [OF assms])

theorem reinsert_breaks_list_witness:
  "\<exists>st'. SelfList_insert AlwaysFalse (7 :: addr) (SelfList_push_back 7 (SelfList_new, Map.empty)) = Some st' \<and>
     snd st' 7 = Some 7 \<and> SelfList_insert AlwaysFalse 8 st' = None"
proof -
  have "rep (SelfList_push_back (7 :: addr) (SelfList_new, Map.empty)) ([] @ [7])"
    by (rule sl.holds_enq [OF rep_new]) simp
  from reinsert_breaks_list [OF this] show ?thesis by auto
qed

end
