(* ===== verification/Task_Model.thy ===== *)
theory Task_Model
  imports Zeros_Prelude
begin

text \<open>
  Tasks as data, from \<^verbatim>\<open>include/ZerOS/kernel/sched\<close>: the task control block
  (\<^verbatim>\<open>task_control_block.hpp\<close>), the staged factory that fills one (\<^verbatim>\<open>task.hpp\<close>), stacks
  (\<^verbatim>\<open>stack.hpp\<close>), the canary and the watermark on them (\<^verbatim>\<open>stack_guard.hpp\<close>) and the bump arena
  that stacks are cut from (\<^verbatim>\<open>arena.hpp\<close>). Memory is a function from word addresses to words. The
  \<open>SelfNode\<close> base of a control block (its \<open>next\<close> pointer) and its \<open>action\<close> waiter are kept in the
  stores of the scheduler and of the time kernel.
\<close>

section \<open>Control blocks\<close>

datatype task_state = Ready | Running | Blocked

type_synonym TaskPriority_t = u8

record UserTaskWrapper =
  tw_function :: "addr option"
  tw_argument :: "addr option"

record span =
  span_data :: addr
  span_size :: nat

record tcb =
  stack_pointer :: "addr option"
  task_priority :: TaskPriority_t
  tcb_state :: task_state
  tcb_name :: "string option"
  task_wrapper :: UserTaskWrapper
  stack_view :: span
  notify_word :: u32
  has_notify :: bool

text \<open>\<^verbatim>\<open>TCB{}\<close>: all members value-initialised; the first enumerator is \<open>Ready\<close>.\<close>

definition TCB_new :: tcb where
  "TCB_new = \<lparr>stack_pointer = None, task_priority = 0, tcb_state = Ready, tcb_name = None,
     task_wrapper = \<lparr>tw_function = None, tw_argument = None\<rparr>,
     stack_view = \<lparr>span_data = 0, span_size = 0\<rparr>, notify_word = 0, has_notify = False\<rparr>"

text \<open>The trampoline a new task starts in: the call it makes, if the wrapper has a function. What a user
  function does is the parameter \<open>call\<close>.\<close>

definition InvokeUserTask ::
  "(addr \<Rightarrow> addr option \<Rightarrow> 's \<Rightarrow> 's option) \<Rightarrow> UserTaskWrapper \<Rightarrow> 's \<Rightarrow> 's option" where
  "InvokeUserTask call wrapper s =
     (case tw_function wrapper of None \<Rightarrow> Some s | Some f \<Rightarrow> call f (tw_argument wrapper) s)"

text \<open>The kernel's callback coin of \<^verbatim>\<open>callback.hpp\<close> is the same shape.\<close>

record Callback =
  cb_fn :: "addr option"
  cb_arg :: "addr option"

definition Callback_invoke ::
  "(addr \<Rightarrow> addr option \<Rightarrow> 's \<Rightarrow> 's option) \<Rightarrow> Callback \<Rightarrow> 's \<Rightarrow> 's option" where
  "Callback_invoke call c s = (case cb_fn c of None \<Rightarrow> Some s | Some f \<Rightarrow> call f (cb_arg c) s)"

text \<open>A failed check never returns.\<close>

definition debug_Check :: "bool \<Rightarrow> 's \<Rightarrow> 's option" where
  "debug_Check should_be_true s = (if should_be_true then Some s else None)"

section \<open>The factory chain\<close>

text \<open>Each stage holds what the chain knows so far; a step exists for one stage only.\<close>

datatype Named = Named string
datatype Priorized = Priorized string TaskPriority_t
datatype Stacked = Stacked string TaskPriority_t span
datatype Slotted = Slotted string TaskPriority_t addr span
datatype Worded = Worded string TaskPriority_t u32
datatype Launchable = Launchable string TaskPriority_t u32 UserTaskWrapper
datatype Armed = Armed string TaskPriority_t addr span UserTaskWrapper
datatype TCBCreator = TCBCreator string TaskPriority_t span UserTaskWrapper

definition named :: "string \<Rightarrow> Named" where
  "named nm = Named nm"

fun builder_prio :: "TaskPriority_t \<Rightarrow> Named \<Rightarrow> Priorized" where
  "builder_prio p (Named nm) = Priorized nm p"

fun builder_stack :: "span \<Rightarrow> Priorized \<Rightarrow> Stacked" where
  "builder_stack body (Priorized nm p) = Stacked nm p body"

fun builder_words :: "u32 \<Rightarrow> Priorized \<Rightarrow> Worded" where
  "builder_words count (Priorized nm p) = Worded nm p count"

text \<open>A slot is the storage of a control block and a stack of \<open>ws\<close> words.\<close>

record TaskSlot =
  slot_tcb :: addr
  slot_stack :: span

fun builder_slot :: "TaskSlot \<Rightarrow> Priorized \<Rightarrow> Slotted" where
  "builder_slot slot (Priorized nm p) = Slotted nm p (slot_tcb slot) (slot_stack slot)"

fun entry_stacked :: "addr option \<Rightarrow> addr option \<Rightarrow> Stacked \<Rightarrow> TCBCreator" where
  "entry_stacked f a (Stacked nm p st) = TCBCreator nm p st \<lparr>tw_function = f, tw_argument = a\<rparr>"

fun entry_worded :: "addr option \<Rightarrow> addr option \<Rightarrow> Worded \<Rightarrow> Launchable" where
  "entry_worded f a (Worded nm p n) = Launchable nm p n \<lparr>tw_function = f, tw_argument = a\<rparr>"

fun entry_slotted :: "addr option \<Rightarrow> addr option \<Rightarrow> Slotted \<Rightarrow> Armed" where
  "entry_slotted f a (Slotted nm p box st) = Armed nm p box st \<lparr>tw_function = f, tw_argument = a\<rparr>"

fun TCBCreator_spawn_into :: "TCBCreator \<Rightarrow> tcb" where
  "TCBCreator_spawn_into (TCBCreator nm p st run) =
     TCB_new\<lparr>tcb_name := Some nm, task_priority := p, task_wrapper := run, stack_view := st\<rparr>"

fun Armed_spawn_into :: "Armed \<Rightarrow> addr \<times> tcb" where
  "Armed_spawn_into (Armed nm p box st run) = (box, TCBCreator_spawn_into (TCBCreator nm p st run))"

section \<open>Stacks, the canary and the watermark\<close>

type_synonym mem = "addr \<Rightarrow> u32"

text \<open>Word \<open>i\<close> of a span. As in the source there is no bounds check: a read or write behind
  the end reaches the words that follow.\<close>

definition span_at :: "span \<Rightarrow> nat \<Rightarrow> addr" where
  "span_at v i = span_data v + 4 * i"

definition kCanaryWord :: u32 where "kCanaryWord = 0xEF114514"

definition kCanarySize :: nat where "kCanarySize = 8"

definition bury_canary :: "tcb \<Rightarrow> mem \<Rightarrow> mem" where
  "bury_canary t m =
     fold (\<lambda>i m. m(span_at (stack_view t) i := kCanaryWord)) [0..<span_size (stack_view t)] m"

definition fast_check_stack :: "mem \<Rightarrow> tcb \<Rightarrow> bool" where
  "fast_check_stack m t \<longleftrightarrow> m (span_at (stack_view t) (kCanarySize - 1)) \<noteq> kCanaryWord"

definition eaten_length :: "mem \<Rightarrow> tcb \<Rightarrow> nat" where
  "eaten_length m t =
     fold (\<lambda>i len. if m (span_at (stack_view t) i) \<noteq> kCanaryWord then len + 1 else len) [0..<kCanarySize] 0"

function watermark_loop :: "mem \<Rightarrow> span \<Rightarrow> nat \<Rightarrow> nat \<Rightarrow> nat" where
  "watermark_loop m v i free_words =
     (if i < span_size v \<and> m (span_at v i) = kCanaryWord
      then watermark_loop m v (i + 1) (free_words + 1) else free_words)"
  by pat_completeness auto
termination by (relation "measure (\<lambda>(m, v, i, f). span_size v - i)") auto

declare watermark_loop.simps [simp del]

definition watermark_free_words :: "mem \<Rightarrow> tcb \<Rightarrow> nat" where
  "watermark_free_words m t = watermark_loop m (stack_view t) kCanarySize 0"

definition capacity_words :: "tcb \<Rightarrow> nat" where
  "capacity_words t =
     (if span_size (stack_view t) > kCanarySize then span_size (stack_view t) - kCanarySize else 0)"

lemma bury_canary_upto:
  "fold (\<lambda>i m. m(span_at v i := kCanaryWord)) [0..<n] m a =
     (if \<exists>i < n. a = span_at v i then kCanaryWord else m a)"
  by (induction n) (auto simp: less_Suc_eq)

lemma bury_canary_at:
  "bury_canary t m a = (if \<exists>i < span_size (stack_view t). a = span_at (stack_view t) i
     then kCanaryWord else m a)"
  unfolding bury_canary_def by (rule bury_canary_upto)

lemma eaten_length_upto:
  "fold (\<lambda>i len. if p i then len + 1 else len) [0..<n] (0 :: nat) = card {i. i < n \<and> p i}"
proof (induction n)
  case (Suc n)
  have "{i. i < Suc n \<and> p i} = (if p n then insert n {i. i < n \<and> p i} else {i. i < n \<and> p i})"
    by (auto simp: less_Suc_eq)
  then show ?case using Suc by simp
qed simp

lemma eaten_length_card:
  "eaten_length m t = card {i. i < kCanarySize \<and> m (span_at (stack_view t) i) \<noteq> kCanaryWord}"
  unfolding eaten_length_def by (rule eaten_length_upto)

lemma watermark_loop_le: "watermark_loop m v i f \<le> f + (span_size v - i)"
proof (induction m v i f rule: watermark_loop.induct)
  case (1 m v i f)
  then show ?case by (subst watermark_loop.simps) auto
qed

lemma watermark_loop_run:
  assumes "i \<le> j" and "\<And>k. i \<le> k \<Longrightarrow> k < j \<Longrightarrow> k < span_size v \<and> m (span_at v k) = kCanaryWord"
    and "\<not> (j < span_size v \<and> m (span_at v j) = kCanaryWord)"
  shows "watermark_loop m v i f = f + (j - i)"
  using assms
proof (induction "j - i" arbitrary: i f)
  case 0
  then show ?case by (subst watermark_loop.simps) auto
next
  case (Suc d)
  have "watermark_loop m v (i + 1) (f + 1) = f + 1 + (j - (i + 1))"
    using Suc.hyps(2) Suc.prems by (intro Suc.hyps(1)) auto
  moreover have "i < span_size v \<and> m (span_at v i) = kCanaryWord" using Suc by auto
  ultimately show ?case using Suc.hyps(2) by (subst watermark_loop.simps) auto
qed

section \<open>The bump arena\<close>

record Arena =
  cursor :: u32
  left :: u32

definition Arena_new :: "u32 \<Rightarrow> u32 \<Rightarrow> Arena" where
  "Arena_new block bytes = \<lparr>cursor = block, left = bytes\<rparr>"

definition Arena_take :: "u32 \<Rightarrow> u32 \<Rightarrow> Arena \<Rightarrow> u32 option \<times> Arena" where
  "Arena_take bytes align a =
     (let base = cursor a; miss = (align - (base mod align)) mod align
      in if miss + bytes > left a then (None, a)
         else let a1 = a\<lparr>cursor := cursor a + miss, left := left a - miss\<rparr>;
                  out = cursor a1
              in (Some out, a1\<lparr>cursor := cursor a1 + bytes, left := left a1 - bytes\<rparr>))"

text \<open>A run of requests; the slices handed out, as address and size.\<close>

fun arena_run :: "(u32 \<times> u32) list \<Rightarrow> Arena \<Rightarrow> (u32 \<times> u32) list \<times> Arena" where
  "arena_run [] a = ([], a)"
| "arena_run ((bytes, align) # reqs) a =
     (case Arena_take bytes align a of
        (None, a') \<Rightarrow> arena_run reqs a'
      | (Some out, a') \<Rightarrow> (case arena_run reqs a' of (slices, a'') \<Rightarrow> ((out, bytes) # slices, a'')))"

definition slice_set :: "u32 \<times> u32 \<Rightarrow> nat set" where
  "slice_set s = {unat (fst s)..<unat (fst s) + unat (snd s)}"

text \<open>The rounding of a request does not run over the 32-bit range.\<close>

definition req_ok :: "u32 \<times> u32 \<Rightarrow> bool" where
  "req_ok r \<longleftrightarrow> snd r \<noteq> 0 \<and> unat (fst r) + unat (snd r) \<le> 2 ^ 32"

definition block_ok :: "Arena \<Rightarrow> bool" where
  "block_ok a \<longleftrightarrow> unat (cursor a) + unat (left a) < 2 ^ 32"

lemma arena_miss:
  fixes base align :: u32
  assumes "align \<noteq> 0"
  defines "miss \<equiv> (align - (base mod align)) mod align"
  shows "unat miss < unat align" and "unat align dvd unat base + unat miss"
proof -
  have pos: "0 < unat align" using assms(1) by (simp add: unat_gt_0)
  have le: "unat base mod unat align < unat align" using pos by simp
  have "unat (align - base mod align) = unat align - unat base mod unat align"
    using le by (subst unat_sub) (simp_all add: word_le_nat_alt unat_mod)
  then have miss: "unat miss = (unat align - unat base mod unat align) mod unat align"
    by (simp add: miss_def unat_mod)
  then show "unat miss < unat align" using pos by simp
  show "unat align dvd unat base + unat miss"
  proof (cases "unat base mod unat align = 0")
    case True
    then show ?thesis using miss by (simp add: dvd_eq_mod_eq_0)
  next
    case False
    then have "unat miss = unat align - unat base mod unat align" using miss pos by simp
    then have "unat base + unat miss = unat align * (unat base div unat align) + unat align"
      using le mult_div_mod_eq [of "unat align" "unat base"] by linarith
    then show ?thesis by simp
  qed
qed

lemma Arena_take_cases:
  fixes bytes align :: u32
  assumes ok: "req_ok (bytes, align)" "block_ok a"
  obtains (dry) miss where "Arena_take bytes align a = (None, a)" "miss < unat align"
      "unat align dvd unat (cursor a) + miss" "unat (left a) < miss + unat bytes"
  | (slice) out a' where "Arena_take bytes align a = (Some out, a')" "unat align dvd unat out"
      "unat (cursor a) \<le> unat out" "unat out + unat bytes = unat (cursor a')"
      "unat (cursor a') + unat (left a') = unat (cursor a) + unat (left a)"
proof -
  define miss where "miss = (align - (cursor a mod align)) mod align"
  have m: "unat miss < unat align" "unat align dvd unat (cursor a) + unat miss"
    using arena_miss [of align "cursor a"] ok by (simp_all add: miss_def req_ok_def)
  have sum: "unat (miss + bytes) = unat miss + unat bytes"
    using m(1) ok(1) by (simp add: req_ok_def unat_word_ariths)
  show thesis
  proof (cases "miss + bytes > left a")
    case True
    then have "unat (left a) < unat miss + unat bytes" by (simp add: word_less_nat_alt sum)
    then show thesis using dry m True by (simp add: Arena_take_def miss_def Let_def)
  next
    case False
    let ?a = "\<lparr>cursor = cursor a + miss + bytes, left = left a - miss - bytes\<rparr>"
    have take: "Arena_take bytes align a = (Some (cursor a + miss), a\<lparr>cursor := cursor a + miss + bytes, left := left a - miss - bytes\<rparr>)"
      using False by (simp add: Arena_take_def miss_def Let_def)
    have fits: "unat miss + unat bytes \<le> unat (left a)"
      using False by (simp add: word_less_nat_alt sum)
    have range: "unat (cursor a) + unat (left a) < 4294967296" using ok(2) by (simp add: block_ok_def)
    have out: "unat (cursor a + miss) = unat (cursor a) + unat miss"
      using fits range by (simp add: unat_word_ariths)
    have cur: "unat (cursor a + miss + bytes) = unat (cursor a) + unat miss + unat bytes"
      using fits range by (simp add: unat_word_ariths)
    have "left a - miss - bytes = left a - (miss + bytes)" by simp
    then have lft: "unat (left a - miss - bytes) = unat (left a) - (unat miss + unat bytes)"
      using fits sum by (simp add: unat_sub word_le_nat_alt)
    show thesis by (rule slice [OF take]) (use m out cur lft fits in simp_all)
  qed
qed

lemma arena_run_slices:
  assumes "list_all req_ok reqs" and "block_ok a" and "arena_run reqs a = (slices, a')"
  shows "(\<forall>s \<in> set slices. slice_set s \<subseteq> {unat (cursor a)..<unat (cursor a) + unat (left a)})
    \<and> pairwise (\<lambda>i j. slice_set (slices ! i) \<inter> slice_set (slices ! j) = {}) {..<length slices}"
  using assms
proof (induction reqs arbitrary: a slices)
  case Nil
  then show ?case by simp
next
  case (Cons r reqs)
  obtain bytes align where r: "r = (bytes, align)" by (cases r)
  have "req_ok (bytes, align)" using Cons.prems(1) r by simp
  from this Cons.prems(2) show ?case
  proof (cases rule: Arena_take_cases)
    case (dry miss)
    then show ?thesis using Cons r by simp
  next
    case (slice out a1)
    obtain rest where rest: "arena_run reqs a1 = (rest, a')" "slices = (out, bytes) # rest"
      using Cons.prems(3) slice(1) r by (auto split: prod.splits)
    have ok1: "block_ok a1" using slice Cons.prems(2) by (simp add: block_ok_def)
    have IH: "\<forall>s \<in> set rest. slice_set s \<subseteq> {unat (cursor a1)..<unat (cursor a1) + unat (left a1)}"
      "pairwise (\<lambda>i j. slice_set (rest ! i) \<inter> slice_set (rest ! j) = {}) {..<length rest}"
      using Cons.IH [OF _ ok1 rest(1)] Cons.prems(1) by simp_all
    have first: "slice_set (out, bytes) = {unat out..<unat (cursor a1)}"
      using slice(4) by (simp add: slice_set_def)
    have out_free: "slice_set (out, bytes) \<inter> slice_set s = {}" if "s \<in> set rest" for s
      using IH(1) that first by fastforce
    have "slice_set s \<subseteq> {unat (cursor a)..<unat (cursor a) + unat (left a)}" if "s \<in> set slices" for s
      using that IH(1) first slice(3-5) rest(2) by fastforce
    moreover have "slice_set (slices ! i) \<inter> slice_set (slices ! j) = {}"
      if "i < length slices" "j < length slices" "i \<noteq> j" for i j
      using that rest(2) IH(2) out_free
      by (cases i; cases j) (auto simp: pairwise_def Int_commute)
    ultimately show ?thesis by (auto simp: pairwise_def)
  qed
qed

section \<open>Properties\<close>

text \<open>The slot road and the span road of the factory build the same control block, with exactly
  the name, priority, entry and stack the chain was given, ready, with an empty mailbox and no stack
  pointer yet; the slot road puts it in the slot's storage.\<close>

theorem factory_roads_agree:
  "Armed_spawn_into (entry_slotted f a (builder_slot slot (builder_prio p (named nm)))) =
     (slot_tcb slot, TCBCreator_spawn_into (entry_stacked f a (builder_stack (slot_stack slot) (builder_prio p (named nm)))))
   \<and> TCBCreator_spawn_into (entry_stacked f a (builder_stack st (builder_prio p (named nm)))) =
     \<lparr>stack_pointer = None, task_priority = p, tcb_state = Ready, tcb_name = Some nm,
      task_wrapper = \<lparr>tw_function = f, tw_argument = a\<rparr>, stack_view = st, notify_word = 0, has_notify = False\<rparr>"
  by (simp add: named_def TCB_new_def)

text \<open>C35: after the canary is buried the fast check passes, nothing counts as eaten and the watermark is
  the whole capacity. Whatever the memory holds, the fast check fails exactly when the highest word of the sentinel,
  the one that a stack growing down reaches first, lost its pattern; the eaten length is the number of sentinel words
  that lost it. So an overflow that ran \<open>k\<close> words into the sentinel is always caught by the fast check and measured
  as \<open>k\<close>. The watermark is the distance from the sentinel to the first word above it that lost the pattern.\<close>

theorem stack_canary_and_watermark:
  "(kCanarySize \<le> span_size (stack_view t) \<longrightarrow>
      \<not> fast_check_stack (bury_canary t m) t \<and> eaten_length (bury_canary t m) t = 0
      \<and> watermark_free_words (bury_canary t m) t = capacity_words t)
   \<and> eaten_length m t = card {i. i < kCanarySize \<and> m (span_at (stack_view t) i) \<noteq> kCanaryWord}
   \<and> (fast_check_stack m t \<longleftrightarrow> m (span_data (stack_view t) + 28) \<noteq> 0xEF114514)
   \<and> (\<forall>k \<le> kCanarySize. (\<forall>i < kCanarySize. m (span_at (stack_view t) i) \<noteq> kCanaryWord \<longleftrightarrow> kCanarySize - k \<le> i)
        \<longrightarrow> eaten_length m t = k \<and> fast_check_stack m t = (0 < k))
   \<and> (\<forall>j. kCanarySize \<le> j \<and> j < span_size (stack_view t) \<and> m (span_at (stack_view t) j) \<noteq> kCanaryWord
        \<and> (\<forall>k. kCanarySize \<le> k \<longrightarrow> k < j \<longrightarrow> m (span_at (stack_view t) k) = kCanaryWord)
        \<longrightarrow> watermark_free_words m t = j - kCanarySize)"
proof (intro conjI impI allI)
  assume size: "kCanarySize \<le> span_size (stack_view t)"
  let ?m = "bury_canary t m"
  have at: "?m (span_at (stack_view t) i) = kCanaryWord" if "i < span_size (stack_view t)" for i
    using that by (auto simp: bury_canary_at)
  then show "\<not> fast_check_stack ?m t"
    using size by (simp add: fast_check_stack_def kCanarySize_def)
  have "{i. i < kCanarySize \<and> ?m (span_at (stack_view t) i) \<noteq> kCanaryWord} = {}"
    using at size by auto
  then show "eaten_length ?m t = 0" by (simp add: eaten_length_card)
  show "watermark_free_words ?m t = capacity_words t"
    unfolding watermark_free_words_def capacity_words_def
    using at size by (subst watermark_loop_run [of _ "span_size (stack_view t)"]) auto
next
  show fast: "fast_check_stack m t \<longleftrightarrow> m (span_data (stack_view t) + 28) \<noteq> 0xEF114514"
    by (simp add: fast_check_stack_def span_at_def kCanarySize_def kCanaryWord_def)
  fix k
  assume k: "k \<le> kCanarySize"
    and eaten: "\<forall>i < kCanarySize. m (span_at (stack_view t) i) \<noteq> kCanaryWord \<longleftrightarrow> kCanarySize - k \<le> i"
  then have "{i. i < kCanarySize \<and> m (span_at (stack_view t) i) \<noteq> kCanaryWord} = {kCanarySize - k..<kCanarySize}" by auto
  then show "eaten_length m t = k" using k by (simp add: eaten_length_card)
  show "fast_check_stack m t = (0 < k)" using k eaten by (auto simp: fast_check_stack_def kCanarySize_def)
next
  fix j
  assume "kCanarySize \<le> j \<and> j < span_size (stack_view t) \<and> m (span_at (stack_view t) j) \<noteq> kCanaryWord
      \<and> (\<forall>k. kCanarySize \<le> k \<longrightarrow> k < j \<longrightarrow> m (span_at (stack_view t) k) = kCanaryWord)"
  then show "watermark_free_words m t = j - kCanarySize"
    unfolding watermark_free_words_def by (subst watermark_loop_run [of _ j]) auto
qed (rule eaten_length_card)

theorem stack_canary_and_watermark_witness:
  "watermark_free_words (bury_canary (TCB_new\<lparr>stack_view := \<lparr>span_data = 0, span_size = 32\<rparr>\<rparr>) (\<lambda>_. 0))
     (TCB_new\<lparr>stack_view := \<lparr>span_data = 0, span_size = 32\<rparr>\<rparr>) = 24"
  using stack_canary_and_watermark [of "TCB_new\<lparr>stack_view := \<lparr>span_data = 0, span_size = 32\<rparr>\<rparr>" "\<lambda>_. 0"]
  by (simp add: capacity_words_def kCanarySize_def)

text \<open>C33: requests whose rounding stays in the 32-bit range get slices of the block that never overlap,
  whatever their sizes and alignments and however many fail; a slice is aligned, and a request fails
  only when the rounded request is larger than what is left.\<close>

theorem arena_slices_disjoint:
  assumes "list_all req_ok reqs" and "block_ok a" and "arena_run reqs a = (slices, a')"
    and "req_ok (bytes, align)"
  shows "(\<forall>s \<in> set slices. slice_set s \<subseteq> {unat (cursor a)..<unat (cursor a) + unat (left a)})
    \<and> pairwise (\<lambda>i j. slice_set (slices ! i) \<inter> slice_set (slices ! j) = {}) {..<length slices}
    \<and> (case Arena_take bytes align a of
         (Some out, _) \<Rightarrow> unat align dvd unat out
       | (None, a1) \<Rightarrow> a1 = a \<and> (\<exists>miss < unat align. unat align dvd unat (cursor a) + miss
            \<and> unat (left a) < miss + unat bytes))"
proof -
  have "case Arena_take bytes align a of
         (Some out, _) \<Rightarrow> unat align dvd unat out
       | (None, a1) \<Rightarrow> a1 = a \<and> (\<exists>miss < unat align. unat align dvd unat (cursor a) + miss
            \<and> unat (left a) < miss + unat bytes)"
    by (cases rule: Arena_take_cases [OF assms(4,2)]) auto
  then show ?thesis using arena_run_slices [OF assms(1-3)] by simp
qed

theorem arena_slices_disjoint_witness:
  "fst (arena_run [(10, 4), (16, 8)] (Arena_new 0x20000000 64)) = [(0x20000000, 10), (0x20000010, 16)]
   \<and> slice_set (0x20000000, 10) \<inter> slice_set (0x20000010, 16) = {}"
proof -
  have run: "arena_run [(10, 4), (16, 8)] (Arena_new 0x20000000 64)
      = ([(0x20000000, 10), (0x20000010, 16)], \<lparr>cursor = 0x20000020, left = 32\<rparr>)"
    by (simp add: Arena_take_def Arena_new_def Let_def)
  have "pairwise (\<lambda>i j. slice_set ([(0x20000000, 10), (0x20000010, 16)] ! i) \<inter> slice_set ([(0x20000000, 10), (0x20000010, 16)] ! j) = {})
      {..<length [(0x20000000 :: u32, 10 :: u32), (0x20000010, 16)]}"
    using arena_slices_disjoint [OF _ _ run, of 10 4]
    by (simp add: req_ok_def block_ok_def Arena_new_def)
  then show ?thesis using run by (force simp: pairwise_def)
qed

text \<open>Without that bound the check wraps: rounding 4 bytes up and asking for \<open>2\<^sup>3\<^sup>2 - 4\<close> bytes passes
  the test, the slice starts at the block and the cursor does not move past it, so the next slice is
  handed out over it.\<close>

theorem arena_take_wraps:
  "case Arena_take 0xFFFFFFFC 8 (Arena_new 0x20000004 16) of (r1, a1) \<Rightarrow>
     r1 = Some 0x20000008 \<and> cursor a1 = 0x20000004 \<and> left a1 = 16
     \<and> fst (Arena_take 8 8 a1) = Some 0x20000008"
  by (simp add: Arena_take_def Arena_new_def Let_def)

end
