(* ===== verification/Critical_Section.thy ===== *)
theory Critical_Section
  imports Zeros_Prelude
begin

text \<open>
  Critical sections: the guard of \<^verbatim>\<open>include/ZerOS/kernel/irq/critical_section.hpp\<close> and the nesting
  BASEPRI lock of \<^verbatim>\<open>include/ZerOS/arch/arm_cortex_m3/cm3_irq.hpp\<close>. The chip runs three such locks over
  the one BASEPRI register (the scheduler's driver, the time kernel's driver, the system face), and
  guards are scopes, so the theorem is about arbitrary well-bracketed nests of guards over any number
  of locks: each scope leaves BASEPRI and every nesting count as it found them, and inside a scope
  BASEPRI is the mask level.
\<close>

section \<open>The processor registers the kernel drives\<close>

text \<open>\<open>pendsv\<close> is the PendSV pending bit of ICSR, set by \<open>request_switch\<close> and cleared when the
  handler is entered.\<close>

record cpu =
  basepri :: u32
  pendsv :: bool

definition read_basepri :: "'a cpu_scheme \<Rightarrow> u32" where
  "read_basepri m = basepri m"

definition write_basepri :: "u32 \<Rightarrow> 'a cpu_scheme \<Rightarrow> 'a cpu_scheme" where
  "write_basepri v m = m\<lparr>basepri := v\<rparr>"

section \<open>The nesting lock\<close>

record crit =
  nest :: u32
  saved_basepri :: u32

definition crit_new :: crit where
  "crit_new = \<lparr>nest = 0, saved_basepri = 0\<rparr>"

definition kMaskLevel :: u32 where
  "kMaskLevel = 0x40"

definition crit_lock :: "crit \<times> 'a cpu_scheme \<Rightarrow> crit \<times> 'a cpu_scheme" where
  "crit_lock = (\<lambda>(g, m).
     if nest g = 0
     then (g\<lparr>nest := nest g + 1, saved_basepri := read_basepri m\<rparr>, write_basepri kMaskLevel m)
     else (g\<lparr>nest := nest g + 1\<rparr>, m))"

definition crit_unlock :: "crit \<times> 'a cpu_scheme \<Rightarrow> crit \<times> 'a cpu_scheme" where
  "crit_unlock = (\<lambda>(g, m).
     let g' = g\<lparr>nest := nest g - 1\<rparr>
     in if nest g' = 0 then (g', write_basepri (saved_basepri g') m) else (g', m))"

text \<open>The scope guard: lock, run the body, unlock. The second form is for a body with a result,
  the third for a body that may have no defined result.\<close>

definition CriticalGuard :: "('s \<Rightarrow> 's) \<Rightarrow> ('s \<Rightarrow> 's) \<Rightarrow> ('s \<Rightarrow> 's) \<Rightarrow> 's \<Rightarrow> 's" where
  "CriticalGuard lock unlock body s = unlock (body (lock s))"

definition CriticalGuard_ret ::
  "('s \<Rightarrow> 's) \<Rightarrow> ('s \<Rightarrow> 's) \<Rightarrow> ('s \<Rightarrow> 'r \<times> 's) \<Rightarrow> 's \<Rightarrow> 'r \<times> 's" where
  "CriticalGuard_ret lock unlock body s = (case body (lock s) of (r, s') \<Rightarrow> (r, unlock s'))"

definition CriticalGuard_opt ::
  "('s \<Rightarrow> 's) \<Rightarrow> ('s \<Rightarrow> 's) \<Rightarrow> ('s \<Rightarrow> 's option) \<Rightarrow> 's \<Rightarrow> 's option" where
  "CriticalGuard_opt lock unlock body s = map_option unlock (body (lock s))"

section \<open>Nests of guards over several locks\<close>

datatype 'i scope = Guard 'i "'i scope list"

type_synonym ('i, 'a) lock_bank = "('i \<Rightarrow> crit) \<times> 'a cpu_scheme"

definition bank_lock :: "'i \<Rightarrow> ('i, 'a) lock_bank \<Rightarrow> ('i, 'a) lock_bank" where
  "bank_lock i st = (case crit_lock (fst st i, snd st) of (g, m) \<Rightarrow> ((fst st)(i := g), m))"

definition bank_unlock :: "'i \<Rightarrow> ('i, 'a) lock_bank \<Rightarrow> ('i, 'a) lock_bank" where
  "bank_unlock i st = (case crit_unlock (fst st i, snd st) of (g, m) \<Rightarrow> ((fst st)(i := g), m))"

text \<open>Running a nest also records the value of BASEPRI that each guarded body starts with.\<close>

fun run_scope :: "'i scope \<Rightarrow> ('i, 'a) lock_bank \<Rightarrow> u32 list \<times> ('i, 'a) lock_bank"
  and run_scopes :: "'i scope list \<Rightarrow> ('i, 'a) lock_bank \<Rightarrow> u32 list \<times> ('i, 'a) lock_bank" where
  "run_scope (Guard i body) st =
     (let st1 = bank_lock i st; (seen, st2) = run_scopes body st1
      in (basepri (snd st1) # seen, bank_unlock i st2))"
| "run_scopes [] st = ([], st)"
| "run_scopes (b # bs) st =
     (let (seen1, st1) = run_scope b st; (seen2, st2) = run_scopes bs st1
      in (seen1 @ seen2, st2))"

fun scope_depth :: "'i scope \<Rightarrow> nat" and scopes_depth :: "'i scope list \<Rightarrow> nat" where
  "scope_depth (Guard i body) = Suc (scopes_depth body)"
| "scopes_depth [] = 0"
| "scopes_depth (b # bs) = max (scope_depth b) (scopes_depth bs)"

text \<open>The state is as before: the registers, the nesting counts, and the saved mask of every lock
  that is held. (The saved mask of a free lock is dead.)\<close>

definition bank_same :: "('i, 'a) lock_bank \<Rightarrow> ('i, 'a) lock_bank \<Rightarrow> bool" where
  "bank_same st st' \<longleftrightarrow> snd st' = snd st \<and>
     (\<forall>i. nest (fst st' i) = nest (fst st i) \<and>
          (nest (fst st i) \<noteq> 0 \<longrightarrow> saved_basepri (fst st' i) = saved_basepri (fst st i)))"

text \<open>A held lock means that BASEPRI is the mask level.\<close>

definition bank_masked :: "('i, 'a) lock_bank \<Rightarrow> bool" where
  "bank_masked st \<longleftrightarrow> (\<forall>i. nest (fst st i) \<noteq> 0 \<longrightarrow> basepri (snd st) = kMaskLevel)"

definition bank_room :: "nat \<Rightarrow> ('i, 'a) lock_bank \<Rightarrow> bool" where
  "bank_room d st \<longleftrightarrow> (\<forall>i. unat (nest (fst st i)) + d < 2 ^ 32)"

lemma bank_same_refl: "bank_same st st"
  by (simp add: bank_same_def)

lemma bank_same_trans: "bank_same st st1 \<Longrightarrow> bank_same st1 st2 \<Longrightarrow> bank_same st st2"
  by (auto simp: bank_same_def)

lemma bank_same_masked: "bank_same st st' \<Longrightarrow> bank_masked st \<Longrightarrow> bank_masked st'"
  by (auto simp: bank_same_def bank_masked_def)

lemma bank_same_room: "bank_same st st' \<Longrightarrow> bank_room d st \<Longrightarrow> bank_room d st'"
  by (auto simp: bank_same_def bank_room_def)

lemma bank_room_mono: "bank_room d st \<Longrightarrow> d' \<le> d \<Longrightarrow> bank_room d' st"
  unfolding bank_room_def by (meson add_left_mono le_less_trans)

lemma unat_plus_1: "unat x + 1 < 2 ^ 32 \<Longrightarrow> unat (x + 1) = unat x + 1" for x :: u32
  by (simp add: unat_word_ariths)

lemma plus_1_nonzero: "unat x + 1 < 2 ^ 32 \<Longrightarrow> x + 1 \<noteq> 0" for x :: u32
  using unat_plus_1 [of x] by force

lemma bank_lock_masked:
  assumes "bank_masked st"
  shows "bank_masked (bank_lock i st)" and "basepri (snd (bank_lock i st)) = kMaskLevel"
  using assms
  by (auto simp: bank_masked_def bank_lock_def crit_lock_def write_basepri_def)

lemma bank_room_at: "bank_room (Suc d) st \<Longrightarrow> unat (nest (fst st i)) + 1 < 2 ^ 32"
proof -
  assume "bank_room (Suc d) st"
  then have "unat (nest (fst st i)) + Suc d < 2 ^ 32" unfolding bank_room_def by (rule spec)
  then show ?thesis by linarith
qed

lemma bank_lock_nest:
  "nest (fst (bank_lock i st) j) = (if j = i then nest (fst st i) + 1 else nest (fst st j))"
  by (simp add: bank_lock_def crit_lock_def)

lemma bank_lock_room:
  assumes "bank_room (Suc d) st"
  shows "bank_room d (bank_lock i st)"
  unfolding bank_room_def
proof
  fix j
  have "unat (nest (fst st j)) + Suc d < 2 ^ 32" using assms unfolding bank_room_def by (rule spec)
  then show "unat (nest (fst (bank_lock i st) j)) + d < 2 ^ 32"
    using unat_plus_1 [OF bank_room_at [OF assms, of i]] by (cases "j = i") (simp_all add: bank_lock_nest)
qed

lemma bank_unlock_lock:
  assumes "bank_room (Suc d) st" and "bank_same (bank_lock i st) st'"
  shows "bank_same st (bank_unlock i st')"
proof -
  show ?thesis
    using assms(2) plus_1_nonzero [OF bank_room_at [OF assms(1), of i]]
    by (auto simp: bank_same_def bank_lock_def bank_unlock_def crit_lock_def crit_unlock_def
        read_basepri_def write_basepri_def Let_def split: if_splits)
qed

lemma run_scope_restores:
  "bank_masked st \<Longrightarrow> bank_room (scope_depth sc) st \<Longrightarrow>
     bank_same st (snd (run_scope sc st)) \<and> set (fst (run_scope sc st)) = {kMaskLevel}"
  "bank_masked st \<Longrightarrow> bank_room (scopes_depth scs) st \<Longrightarrow>
     bank_same st (snd (run_scopes scs st)) \<and> set (fst (run_scopes scs st)) \<subseteq> {kMaskLevel}"
proof (induction sc st and scs st rule: run_scope_run_scopes.induct)
  case (1 i body st)
  let ?st = "bank_lock i st"
  have "bank_same ?st (snd (run_scopes body ?st)) \<and> set (fst (run_scopes body ?st)) \<subseteq> {kMaskLevel}"
    using 1 by (intro "1.IH") (simp_all add: bank_lock_masked bank_lock_room)
  then show ?case
    using 1 bank_unlock_lock [of "scopes_depth body" st i "snd (run_scopes body ?st)"]
    by (auto simp: Let_def bank_lock_masked split: prod.splits)
next
  case (2 st)
  then show ?case by (simp add: bank_same_refl)
next
  case (3 b bs st)
  let ?st1 = "snd (run_scope b st)"
  have first: "bank_same st ?st1 \<and> set (fst (run_scope b st)) = {kMaskLevel}"
    using 3 by (intro "3.IH"(1)) (auto intro: bank_room_mono)
  have rest: "bank_same ?st1 (snd (run_scopes bs ?st1)) \<and> set (fst (run_scopes bs ?st1)) \<subseteq> {kMaskLevel}"
  proof (rule "3.IH"(2))
    show "bank_masked ?st1" using first 3 bank_same_masked by blast
    show "bank_room (scopes_depth bs) ?st1"
      using first "3.prems" bank_same_room bank_room_mono by (metis max.cobounded2 scopes_depth.simps(2))
  qed (auto simp: prod_eq_iff)
  have "bank_same st (snd (run_scopes bs ?st1))"
    by (rule bank_same_trans [OF conjunct1 [OF first] conjunct1 [OF rest]])
  then show ?case using first rest by (auto simp: Let_def split: prod.splits)
qed

section \<open>Properties\<close>

text \<open>C22: however guards over the kernel's locks are nested (up to the range of the nesting counter),
  every guarded body runs with BASEPRI at the mask level, and when the outermost scope is left BASEPRI,
  the nesting counts and the saved masks of the locks still held are what they were.\<close>

theorem guards_mask_and_restore:
  assumes "bank_masked st" and "bank_room (scope_depth sc) st"
  shows "bank_same st (snd (run_scope sc st)) \<and> set (fst (run_scope sc st)) = {kMaskLevel}"
  by (rule run_scope_restores(1) [OF assms])

theorem guards_mask_and_restore_witness:
  "bank_same (\<lambda>_ :: nat. crit_new, \<lparr>basepri = 0, pendsv = False\<rparr>)
     (snd (run_scope (Guard 2 [Guard 0 [Guard 0 []], Guard 1 []]) (\<lambda>_ :: nat. crit_new, \<lparr>basepri = 0, pendsv = False\<rparr>)))"
proof -
  have "bank_masked (\<lambda>_ :: nat. crit_new, \<lparr>basepri = 0, pendsv = False\<rparr>)"
    by (simp add: bank_masked_def crit_new_def)
  moreover have "bank_room (scope_depth (Guard 2 [Guard 0 [Guard 0 []], Guard 1 []]))
      (\<lambda>_ :: nat. crit_new, \<lparr>basepri = 0, pendsv = False\<rparr>)"
    by (simp add: bank_room_def crit_new_def)
  ultimately show ?thesis using guards_mask_and_restore by blast
qed

end
