(* ===== verification/Ready_Queue.thy ===== *)
theory Ready_Queue
  imports Bitmap Self_List Task_Model Critical_Section
begin

text \<open>
  The ready structure of \<^verbatim>\<open>include/ZerOS/kernel/sched/scheduler.hpp\<close>: 32 intrusive lists, one per
  priority, and the bitmap of the levels that hold a task. The scheduler's state record is declared
  here, with the private operations \<open>push_back\<close>, \<open>push_front\<close> and \<open>pop_highest\<close>. They are related
  to plain queues (\<open>levels\<close>): one list of tasks per level. The locale \<open>ready_ring\<close> is what the rest
  of the scheduler relies on; its lemmas give the order in which tasks leave.
\<close>

section \<open>The scheduler's state\<close>

record sched = cpu +
  tcbs :: "addr \<Rightarrow> tcb"
  tcb_next :: "addr links"
  current :: "addr option"
  present :: bitmap
  fifo :: "addr self_list list"
  sched_driver :: crit
  ticks_served :: u32

text \<open>The address of the scheduler's own \<open>idle_\<close> control block.\<close>

definition idle_task :: addr where "idle_task = 0"

definition kPriorityLevels :: nat where "kPriorityLevels = 32"

definition kMaxPrio :: TaskPriority_t where "kMaxPrio = 32"

definition kIdlePrio :: TaskPriority_t where "kIdlePrio = 0xFF"

definition set_tcb_state :: "addr \<Rightarrow> task_state \<Rightarrow> 'a sched_scheme \<Rightarrow> 'a sched_scheme" where
  "set_tcb_state t v s = s\<lparr>tcbs := (tcbs s)(t := (tcbs s t)\<lparr>tcb_state := v\<rparr>)\<rparr>"

definition prio_level :: "'a sched_scheme \<Rightarrow> addr \<Rightarrow> nat" where
  "prio_level s t = unat (task_priority (tcbs s t))"

definition sched_push_back :: "addr \<Rightarrow> 'a sched_scheme \<Rightarrow> 'a sched_scheme" where
  "sched_push_back t s =
     (if task_priority (tcbs s t) \<ge> kMaxPrio then s
      else let s1 = set_tcb_state t Ready s; p = prio_level s1 t;
               (l, nx) = SelfList_push_back t (fifo s1 ! p, tcb_next s1)
           in s1\<lparr>fifo := (fifo s1)[p := l], tcb_next := nx, present := Bitmap_set p (present s1)\<rparr>)"

definition sched_push_front :: "addr \<Rightarrow> 'a sched_scheme \<Rightarrow> 'a sched_scheme" where
  "sched_push_front t s =
     (if task_priority (tcbs s t) \<ge> kMaxPrio then s
      else let s1 = set_tcb_state t Ready s; p = prio_level s1 t;
               (l, nx) = SelfList_push_front t (fifo s1 ! p, tcb_next s1)
           in s1\<lparr>fifo := (fifo s1)[p := l], tcb_next := nx, present := Bitmap_set p (present s1)\<rparr>)"

definition pop_highest :: "'a sched_scheme \<Rightarrow> addr option \<times> 'a sched_scheme" where
  "pop_highest s =
     (let level = find_first_set kPriorityLevels (present s)
      in if level = npos then (None, s)
         else let (t, l, nx) = SelfList_pop_head (fifo s ! level, tcb_next s);
                  s1 = s\<lparr>fifo := (fifo s)[level := l], tcb_next := nx\<rparr>
              in (t, if SelfList_empty (l, nx) then s1\<lparr>present := Bitmap_clear level (present s1)\<rparr> else s1))"

text \<open>The constructor: the idle task is wired to the scheduler's own stack, the lists and the bitmap
  are empty, nobody runs.\<close>

definition Scheduler_new :: "span \<Rightarrow> sched" where
  "Scheduler_new idle_stack =
     \<lparr>basepri = 0, pendsv = False,
      tcbs = (\<lambda>_. TCB_new)(idle_task := TCB_new\<lparr>task_priority := kIdlePrio, tcb_name := Some ''idle'',
        stack_view := idle_stack\<rparr>),
      tcb_next = (\<lambda>_. None), current = None, present = Bitmap_new kPriorityLevels,
      fifo = replicate kPriorityLevels SelfList_new, sched_driver = crit_new, ticks_served = 0\<rparr>"

section \<open>The queues that the structure stands for\<close>

type_synonym queues = "nat \<Rightarrow> addr list"

definition levels :: "'a sched_scheme \<Rightarrow> queues \<Rightarrow> bool" where
  "levels s q \<longleftrightarrow> length (fifo s) = 32 \<and> bitmap_wf 32 (present s)
     \<and> (\<forall>i < 32. rep (fifo s ! i, tcb_next s) (q i) \<and> (Bitmap_test (present s) i \<longleftrightarrow> q i \<noteq> []))
     \<and> (\<forall>i < 32. \<forall>j < 32. i \<noteq> j \<longrightarrow> set (q i) \<inter> set (q j) = {})"

definition queued :: "queues \<Rightarrow> addr set" where
  "queued q = (\<Union>i < 32. set (q i))"

text \<open>The highest level that holds a task, its first task, and the queues without that task.\<close>

definition best_level :: "queues \<Rightarrow> nat option" where
  "best_level q = List.find (\<lambda>i. q i \<noteq> []) [0..<32]"

definition first_task :: "queues \<Rightarrow> addr option" where
  "first_task q = map_option (\<lambda>p. hd (q p)) (best_level q)"

definition drop_first :: "queues \<Rightarrow> queues" where
  "drop_first q = (case best_level q of None \<Rightarrow> q | Some p \<Rightarrow> q(p := tl (q p)))"

text \<open>The service order: level by level, each in arrival order.\<close>

definition service_order :: "queues \<Rightarrow> addr list" where
  "service_order q = concat (map q [0..<32])"

lemma best_level_None: "best_level q = None \<longleftrightarrow> (\<forall>i < 32. q i = [])"
  by (auto simp: best_level_def find_None_iff)

lemma best_level_Some:
  "best_level q = Some p \<longleftrightarrow> p < 32 \<and> q p \<noteq> [] \<and> (\<forall>j < p. q j = [])"
  unfolding best_level_def find_Some_iff
  by auto

lemma set_service_order [simp]: "set (service_order q) = queued q"
  by (auto simp: service_order_def queued_def)

lemma service_order_best:
  assumes "best_level q = Some p"
  shows "service_order q = hd (q p) # service_order (drop_first q)"
proof -
  have p: "p < 32" "q p \<noteq> []" "\<And>j. j < p \<Longrightarrow> q j = []" using assms by (auto simp: best_level_Some)
  have split: "[0..<32] = [0..<p] @ p # [Suc p..<32]"
    using p(1) upt_add_eq_append [of 0 p "32 - p"] by (simp add: upt_conv_Cons)
  have low: "concat (map r [0..<p]) = []" if "\<And>j. j < p \<Longrightarrow> r j = []" for r :: queues
    using that by simp
  have high: "map (q(p := tl (q p))) [Suc p..<32] = map q [Suc p..<32]" by simp
  have "service_order q = q p @ concat (map q [Suc p..<32])"
    unfolding service_order_def split using low [of q] p(3) by simp
  moreover have "service_order (q(p := tl (q p))) = tl (q p) @ concat (map q [Suc p..<32])"
    unfolding service_order_def split map_append concat_append
    using low [of "q(p := tl (q p))"] p(3) high by simp
  ultimately show ?thesis using p(2) assms by (simp add: drop_first_def)
qed

lemma service_order_empty: "best_level q = None \<Longrightarrow> service_order q = []"
  by (auto simp: service_order_def best_level_None)

lemma first_task_service:
  "first_task q = (case service_order q of [] \<Rightarrow> None | t # ts \<Rightarrow> Some t)"
  using service_order_best [of q] service_order_empty [of q]
  by (cases "best_level q") (auto simp: first_task_def)

section \<open>The operations on the queues\<close>

lemma levels_update:
  assumes lv: "levels s q" and p: "p < 32" and r: "rep (l, nx) ys"
    and foreign: "\<And>y. y \<notin> set (q p) \<Longrightarrow> y \<notin> set ys \<Longrightarrow> nx y = tcb_next s y"
    and fresh: "\<And>i. i < 32 \<Longrightarrow> i \<noteq> p \<Longrightarrow> set (q i) \<inter> set ys = {}"
    and b: "bitmap_wf 32 b" "\<And>i. i < 32 \<Longrightarrow> Bitmap_test b i \<longleftrightarrow> (if i = p then ys \<noteq> [] else Bitmap_test (present s) i)"
    and s': "fifo s' = (fifo s)[p := l]" "tcb_next s' = nx" "present s' = b"
  shows "levels s' (q(p := ys))"
proof -
  have other: "rep (fifo s ! i, nx) (q i)" if i: "i < 32" "i \<noteq> p" for i
  proof (rule rep_frame)
    show "rep (fifo s ! i, tcb_next s) (q i)" using lv i by (simp add: levels_def)
    show "nx x = tcb_next s x" if "x \<in> set (q i)" for x
    proof (rule foreign)
      show "x \<notin> set (q p)" using lv i p that by (auto simp: levels_def)
      show "x \<notin> set ys" using fresh [OF i] that by auto
    qed
  qed
  have "(\<forall>i < 32. \<forall>j < 32. i \<noteq> j \<longrightarrow> set ((q(p := ys)) i) \<inter> set ((q(p := ys)) j) = {})"
    using lv fresh by (auto simp: levels_def)
  then show ?thesis using lv p r other b s' unfolding levels_def by auto
qed

lemma levels_cong:
  "fifo s' = fifo s \<Longrightarrow> tcb_next s' = tcb_next s \<Longrightarrow> present s' = present s \<Longrightarrow> levels s' q = levels s q"
  by (simp add: levels_def)

lemma levels_bit: "levels s q \<Longrightarrow> i < 32 \<Longrightarrow> Bitmap_test (present s) i \<longleftrightarrow> q i \<noteq> []"
  by (simp add: levels_def)

lemma levels_distinct: "levels s q \<Longrightarrow> p < 32 \<Longrightarrow> distinct (q p)"
  using rep_distinct by (auto simp: levels_def)

lemma set_tcb_state_sel [simp]:
  "fifo (set_tcb_state t v s) = fifo s" "tcb_next (set_tcb_state t v s) = tcb_next s"
  "present (set_tcb_state t v s) = present s" "prio_level (set_tcb_state t v s) u = prio_level s u"
  by (simp_all add: set_tcb_state_def prio_level_def)

lemma prio_in_range: "kMaxPrio \<le> task_priority (tcbs s t) \<longleftrightarrow> 32 \<le> prio_level s t"
  by (simp add: kMaxPrio_def prio_level_def word_le_nat_alt not_le)

lemma levels_push:
  assumes lv: "levels s q" and p: "p < 32" and fresh: "t \<notin> queued q"
    and op: "st' = op (fifo s ! p, tcb_next s)"
      "rep (fifo s ! p, tcb_next s) (q p) \<Longrightarrow> t \<notin> set (q p) \<Longrightarrow> rep (op (fifo s ! p, tcb_next s)) ys
        \<and> (\<forall>y. y \<noteq> t \<longrightarrow> y \<notin> set (q p) \<longrightarrow> snd (op (fifo s ! p, tcb_next s)) y = tcb_next s y)"
    and ys: "set ys = insert t (set (q p))"
    and s': "fifo s' = (fifo s)[p := fst st']" "tcb_next s' = snd st'" "present s' = Bitmap_set p (present s)"
  shows "levels s' (q(p := ys))"
proof -
  have tp: "t \<notin> set (q p)" using fresh p by (auto simp: queued_def)
  have "rep (fifo s ! p, tcb_next s) (q p)" using lv p by (simp add: levels_def)
  note r = op(2) [OF this tp]
  have wf: "bitmap_wf 32 (present s)" using lv by (simp add: levels_def)
  have npos: "(32 :: nat) \<le> npos" by (simp add: npos_def)
  show ?thesis
  proof (rule levels_update [OF lv p _ _ _ _ _ s'])
    show "rep (fst st', snd st') ys" using r op(1) by simp
    show "snd st' y = tcb_next s y" if "y \<notin> set (q p)" "y \<notin> set ys" for y
      using r op(1) ys that by auto
    show "set (q i) \<inter> set ys = {}" if "i < 32" "i \<noteq> p" for i
      using lv fresh p ys that by (auto simp: levels_def queued_def)
    show "bitmap_wf 32 (Bitmap_set p (present s))" by (rule bm.wf_raise [OF npos wf p])
    show "Bitmap_test (Bitmap_set p (present s)) i = (if i = p then ys \<noteq> [] else Bitmap_test (present s) i)"
      if "i < 32" for i using bm.flag_raise [OF npos wf p, of i] ys by auto
  qed
qed

lemma levels_push_back:
  assumes "levels s q" and "prio_level s t < 32" and "t \<notin> queued q"
  shows "levels (sched_push_back t s) (q(prio_level s t := q (prio_level s t) @ [t]))"
  using assms(2)
  by (intro levels_push [OF assms(1,2,3), where op = "SelfList_push_back t", OF refl])
    (auto simp: rep_push_back sched_push_back_def prio_in_range Let_def split: prod.splits)

lemma levels_push_front:
  assumes "levels s q" and "prio_level s t < 32" and "t \<notin> queued q"
  shows "levels (sched_push_front t s) (q(prio_level s t := t # q (prio_level s t)))"
  using assms(2)
  by (intro levels_push [OF assms(1,2,3), where op = "SelfList_push_front t", OF refl])
    (auto simp: rep_push_front sched_push_front_def prio_in_range Let_def split: prod.splits)

lemma levels_best: "levels s q \<Longrightarrow> find_first_set 32 (present s) = (case best_level q of None \<Rightarrow> npos | Some p \<Rightarrow> p)"
proof -
  assume lv: "levels s q"
  have wf: "bitmap_wf 32 (present s)" and npos: "(32 :: nat) \<le> npos"
    using lv by (simp_all add: levels_def npos_def)
  show ?thesis
  proof (cases "best_level q")
    case None
    then show ?thesis
      using bm.first_raised_none [OF npos wf] levels_bit [OF lv]
      by (simp add: best_level_None [THEN iffD1, OF None])
  next
    case (Some p)
    then have p: "p < 32" "q p \<noteq> []" "\<And>j. j < p \<Longrightarrow> q j = []" by (auto simp: best_level_Some)
    have "find_first_set 32 (present s) = p"
      by (rule bm.first_raised_eqI [OF npos wf]) (use levels_bit [OF lv] p in auto)
    then show ?thesis using Some by simp
  qed
qed

text \<open>Dropping the node \<open>t\<close> from level \<open>p\<close>, with the bit cleared when the level is empty.\<close>

lemma levels_shrink:
  assumes lv: "levels s q" and p: "p < 32" and r: "rep (l, nx) ys" and sub: "set ys \<subseteq> set (q p)"
    and ne: "q p \<noteq> []" and foreign: "\<And>y. y \<notin> set (q p) \<Longrightarrow> nx y = tcb_next s y"
    and s': "fifo s' = (fifo s)[p := l]" "tcb_next s' = nx"
      "present s' = (if SelfList_empty (l, nx) then Bitmap_clear p (present s) else present s)"
  shows "levels s' (q(p := ys))"
proof -
  have wf: "bitmap_wf 32 (present s)" using lv by (simp add: levels_def)
  have npos: "(32 :: nat) \<le> npos" by (simp add: npos_def)
  have e: "SelfList_empty (l, nx) \<longleftrightarrow> ys = []" by (rule rep_empty [OF r])
  show ?thesis
  proof (rule levels_update [OF lv p r _ _ _ _ s'])
    show "set (q i) \<inter> set ys = {}" if "i < 32" "i \<noteq> p" for i
      using lv p sub that by (fastforce simp: levels_def)
    show "bitmap_wf 32 (if SelfList_empty (l, nx) then Bitmap_clear p (present s) else present s)"
      using wf bm.wf_lower [OF npos wf p] by simp
    show "Bitmap_test (if SelfList_empty (l, nx) then Bitmap_clear p (present s) else present s) i
        = (if i = p then ys \<noteq> [] else Bitmap_test (present s) i)" if "i < 32" for i
      using that bm.flag_lower [OF npos wf p, of i] levels_bit [OF lv p] e ne by auto
  qed (use foreign in auto)
qed

lemma levels_pop:
  assumes lv: "levels s q"
  shows "\<exists>s'. pop_highest s = (first_task q, s') \<and> levels s' (drop_first q)"
proof (cases "best_level q")
  case None
  then show ?thesis
    using lv levels_best [OF lv]
    by (simp add: pop_highest_def kPriorityLevels_def first_task_def drop_first_def)
next
  case (Some p)
  then have p: "p < 32" "q p \<noteq> []" by (auto simp: best_level_Some)
  have level: "find_first_set 32 (present s) = p" "p \<noteq> npos"
    using levels_best [OF lv] Some p(1) by (simp_all add: npos_def)
  obtain x xs where q: "q p = x # xs" using p(2) by (cases "q p") auto
  have "rep (fifo s ! p, tcb_next s) (x # xs)" using lv p(1) q by (metis levels_def)
  then obtain st' where st': "SelfList_pop_head (fifo s ! p, tcb_next s) = (Some x, st')" "rep st' xs"
    "\<And>y. y \<noteq> x \<Longrightarrow> snd st' y = tcb_next s y" by (rule rep_pop_head) auto
  obtain l nx where st: "st' = (l, nx)" by (cases st')
  let ?s1 = "s\<lparr>fifo := (fifo s)[p := l], tcb_next := nx\<rparr>"
  let ?s = "if SelfList_empty (l, nx) then ?s1\<lparr>present := Bitmap_clear p (present s)\<rparr> else ?s1"
  have "pop_highest s = (Some x, ?s)"
    using level st'(1) st by (simp add: pop_highest_def kPriorityLevels_def Let_def)
  moreover have "levels ?s (q(p := xs))"
    by (rule levels_shrink [OF lv p(1)]) (use st' st q in auto)
  ultimately show ?thesis using Some q by (auto simp: first_task_def drop_first_def)
qed

section \<open>The interface\<close>

text \<open>
  What the scheduler relies on. \<open>holds\<close> relates a state to its queues, \<open>level\<close> is the level that a
  task goes to. A client needs no list and no bitmap: the lemmas below give the order in which tasks
  are taken out; \<open>drain\<close> is a run of removals that stops when nothing is left.
\<close>

primrec drain :: "('s \<Rightarrow> addr option \<times> 's) \<Rightarrow> nat \<Rightarrow> 's \<Rightarrow> addr list" where
  "drain take_out 0 s = []"
| "drain take_out (Suc n) s =
     (case take_out s of (None, _) \<Rightarrow> [] | (Some t, s') \<Rightarrow> t # drain take_out n s')"

locale ready_ring =
  fixes holds :: "'s \<Rightarrow> queues \<Rightarrow> bool"
    and level :: "'s \<Rightarrow> addr \<Rightarrow> nat"
    and to_back :: "addr \<Rightarrow> 's \<Rightarrow> 's"
    and to_front :: "addr \<Rightarrow> 's \<Rightarrow> 's"
    and take_out :: "'s \<Rightarrow> addr option \<times> 's"
  assumes holds_back: "holds s q \<Longrightarrow> level s t < 32 \<Longrightarrow> t \<notin> queued q \<Longrightarrow>
      holds (to_back t s) (q(level s t := q (level s t) @ [t]))"
    and holds_front: "holds s q \<Longrightarrow> level s t < 32 \<Longrightarrow> t \<notin> queued q \<Longrightarrow>
      holds (to_front t s) (q(level s t := t # q (level s t)))"
    and holds_take: "holds s q \<Longrightarrow> \<exists>s'. take_out s = (first_task q, s') \<and> holds s' (drop_first q)"
begin

text \<open>Taking tasks out serves the levels in priority order and every level in
  the order of arrival.\<close>

lemma drain_order: "holds s q \<Longrightarrow> drain take_out n s = take n (service_order q)"
proof (induction n arbitrary: s q)
  case (Suc n)
  obtain s' where s': "take_out s = (first_task q, s')" "holds s' (drop_first q)"
    using holds_take [OF Suc.prems] by blast
  show ?case
  proof (cases "best_level q")
    case None
    then show ?thesis using s'(1) service_order_empty [of q] by (simp add: first_task_def)
  next
    case (Some p)
    then show ?thesis
      using s'(1) Suc.IH [OF s'(2)] service_order_best [OF Some] by (simp add: first_task_def)
  qed
qed simp

text \<open>A task that goes to the front of a level no other queued task beats is the next one out.\<close>

lemma front_is_next:
  assumes "holds s q" and "level s t < 32" and "t \<notin> queued q" and "\<And>j. j < level s t \<Longrightarrow> q j = []"
  shows "\<exists>s'. take_out (to_front t s) = (Some t, s') \<and> holds s' q"
proof -
  let ?q = "q(level s t := t # q (level s t))"
  have "best_level ?q = Some (level s t)" using assms(2,4) by (simp add: best_level_Some)
  then have "first_task ?q = Some t" "drop_first ?q = q" by (simp_all add: first_task_def drop_first_def)
  then show ?thesis using holds_take [OF holds_front [OF assms(1-3)]] by simp
qed

end

interpretation rr: ready_ring levels prio_level sched_push_back sched_push_front pop_highest
  by unfold_locales (auto intro: levels_push_back levels_push_front levels_pop)

lemma levels_new: "levels (Scheduler_new v) (\<lambda>_. [])"
  by (simp add: levels_def Scheduler_new_def kPriorityLevels_def bitmap_wf_new rep_new Bitmap_test_new)

section \<open>Properties\<close>

text \<open>The ready structure serves strictly by priority and first come first served inside a level:
  emptying it gives level 0 in order of arrival, then level 1, and so on, whatever bitmap words and
  links it is made of; a task put at the tail leaves after everything of its level and better levels,
  a task put at the front of the best level leaves first.\<close>

theorem ready_service_order:
  assumes "levels s q"
  shows "drain pop_highest n s = take n (concat (map q [0..<32]))
    \<and> (prio_level s t < 32 \<and> t \<notin> queued q \<longrightarrow>
        drain pop_highest n (sched_push_back t s) =
          take n (concat (map (q(prio_level s t := q (prio_level s t) @ [t])) [0..<32]))
        \<and> ((\<forall>j < prio_level s t. q j = []) \<longrightarrow> drain pop_highest n (sched_push_front t s) = take n (t # concat (map q [0..<32]))))"
proof (intro conjI impI)
  show "drain pop_highest n s = take n (concat (map q [0..<32]))"
    using rr.drain_order [OF assms] by (simp add: service_order_def)
  assume t: "prio_level s t < 32 \<and> t \<notin> queued q"
  show "drain pop_highest n (sched_push_back t s) =
      take n (concat (map (q(prio_level s t := q (prio_level s t) @ [t])) [0..<32]))"
    using rr.drain_order [OF rr.holds_back [OF assms, of t]] t by (simp add: service_order_def)
  assume low: "\<forall>j < prio_level s t. q j = []"
  let ?q = "q(prio_level s t := t # q (prio_level s t))"
  have "best_level ?q = Some (prio_level s t)" using t low by (simp add: best_level_Some)
  then have "service_order ?q = t # service_order q"
    using service_order_best [of ?q] by (simp add: drop_first_def)
  then show "drain pop_highest n (sched_push_front t s) = take n (t # concat (map q [0..<32]))"
    using rr.drain_order [OF rr.holds_front [OF assms, of t]] t by (simp add: service_order_def)
qed

theorem ready_service_order_witness:
  "drain pop_highest 3 (sched_push_front 7 (Scheduler_new \<lparr>span_data = 0, span_size = 32\<rparr>)) = [7]
   \<and> drain pop_highest 3 (sched_push_back 7 (Scheduler_new \<lparr>span_data = 0, span_size = 32\<rparr>)) = [7]"
proof -
  have 7: "prio_level (Scheduler_new \<lparr>span_data = 0, span_size = 32\<rparr>) 7 < 32 \<and> 7 \<notin> queued (\<lambda>_. [])"
    by (simp add: prio_level_def Scheduler_new_def idle_task_def TCB_new_def queued_def)
  have zero: "prio_level (Scheduler_new \<lparr>span_data = 0, span_size = 32\<rparr>) 7 = 0"
    by (simp add: prio_level_def Scheduler_new_def idle_task_def TCB_new_def)
  have "concat (map ((\<lambda>_. [])(0 := [7 :: addr])) [0..<32]) = [7]" by (simp add: upt_rec)
  then show ?thesis
    using ready_service_order [OF levels_new [of "\<lparr>span_data = 0, span_size = 32\<rparr>"], of 3 7] 7 zero by simp
qed

end
