(* ===== verification/Scheduler.thy ===== *)
theory Scheduler
  imports Ready_Queue
begin

text \<open>
  The scheduler of \<^verbatim>\<open>include/ZerOS/kernel/sched/scheduler.hpp\<close>. Every public operation is a guard
  over the driver's lock around the body. The second half is the contract: an abstract scheduler whose
  ready set is one plain queue per priority and which has no links, no bitmap and no lock, a simulation
  that every call of the code does what the abstract one does, and the invariant of the abstract one.
\<close>

section \<open>The operations\<close>

datatype SyncError = Ok | TimedOut

definition kSliceTicks :: u32 where "kSliceTicks = 10"

definition sched_lock :: "'a sched_scheme \<Rightarrow> 'a sched_scheme" where
  "sched_lock s = (case crit_lock (sched_driver s, s) of (g, s') \<Rightarrow> s'\<lparr>sched_driver := g\<rparr>)"

definition sched_unlock :: "'a sched_scheme \<Rightarrow> 'a sched_scheme" where
  "sched_unlock s = (case crit_unlock (sched_driver s, s) of (g, s') \<Rightarrow> s'\<lparr>sched_driver := g\<rparr>)"

text \<open>The switch port writes the PendSV set bit of ICSR.\<close>

definition request_switch :: "'a cpu_scheme \<Rightarrow> 'a cpu_scheme" where
  "request_switch s = s\<lparr>pendsv := True\<rparr>"

definition outranks_current :: "addr \<Rightarrow> 'a sched_scheme \<Rightarrow> bool" where
  "outranks_current t s =
     (case current s of None \<Rightarrow> False
      | Some c \<Rightarrow> task_priority (tcbs s t) < task_priority (tcbs s c))"

definition sched_add :: "addr option \<Rightarrow> 'a sched_scheme \<Rightarrow> 'a sched_scheme" where
  "sched_add t = CriticalGuard sched_lock sched_unlock (\<lambda>s.
     case t of None \<Rightarrow> s
     | Some t \<Rightarrow>
         let s1 = sched_push_back t s
         in if outranks_current t s1 then request_switch s1 else s1)"

definition current_task :: "'a sched_scheme \<Rightarrow> addr option" where
  "current_task s = current s"

definition pick_next_locked :: "'a sched_scheme \<Rightarrow> addr \<times> 'a sched_scheme" where
  "pick_next_locked s =
     (let s1 = (case current s of None \<Rightarrow> s
                | Some c \<Rightarrow> if c \<noteq> idle_task \<and> tcb_state (tcbs s c) = Running
                            then sched_push_front c s else s);
          (popped, s2) = pop_highest s1;
          next = (case popped of None \<Rightarrow> idle_task | Some t \<Rightarrow> t);
          s3 = s2\<lparr>current := Some next, ticks_served := 0\<rparr>
      in (next, set_tcb_state next Running s3))"

definition pick_next :: "'a sched_scheme \<Rightarrow> addr \<times> 'a sched_scheme" where
  "pick_next = CriticalGuard_ret sched_lock sched_unlock pick_next_locked"

definition sched_ready :: "addr option \<Rightarrow> 'a sched_scheme \<Rightarrow> 'a sched_scheme" where
  "sched_ready t = CriticalGuard sched_lock sched_unlock (\<lambda>s.
     case t of None \<Rightarrow> s
     | Some t \<Rightarrow>
         if tcb_state (tcbs s t) \<noteq> Blocked then s
         else let s1 = sched_push_back t s
              in if outranks_current t s1 then request_switch s1 else s1)"

definition sched_block :: "addr option \<Rightarrow> 'a sched_scheme \<Rightarrow> 'a sched_scheme" where
  "sched_block t = CriticalGuard sched_lock sched_unlock (\<lambda>s.
     case t of None \<Rightarrow> s
     | Some t \<Rightarrow>
         let s1 = set_tcb_state t Blocked s
         in if current s1 = Some t then request_switch s1 else s1)"

definition sched_yield :: "'a sched_scheme \<Rightarrow> 'a sched_scheme" where
  "sched_yield = CriticalGuard sched_lock sched_unlock (\<lambda>s.
     case current s of None \<Rightarrow> s
     | Some c \<Rightarrow> if c = idle_task then s else request_switch (sched_push_back c s))"

definition set_priority :: "addr \<Rightarrow> TaskPriority_t \<Rightarrow> 'a sched_scheme \<Rightarrow> 'a sched_scheme" where
  "set_priority t p s = s\<lparr>tcbs := (tcbs s)(t := (tcbs s t)\<lparr>task_priority := p\<rparr>)\<rparr>"

definition reprioritize_body :: "addr \<Rightarrow> TaskPriority_t \<Rightarrow> 'a sched_scheme \<Rightarrow> 'a sched_scheme option" where
  "reprioritize_body t new_prio s =
     (if task_priority (tcbs s t) = new_prio then Some s
      else if tcb_state (tcbs s t) = Ready
      then let p = prio_level s t
           in if p \<ge> kPriorityLevels then None
              else do {
                (_, (l, nx)) \<leftarrow> SelfList_remove t (fifo s ! p, tcb_next s);
                let s1 = s\<lparr>fifo := (fifo s)[p := l], tcb_next := nx\<rparr>;
                let s2 = (if SelfList_empty (l, nx) then s1\<lparr>present := Bitmap_clear p (present s1)\<rparr> else s1);
                Some (sched_push_back t (set_priority t new_prio s2))
              }
      else Some (set_priority t new_prio s))"

definition reprioritize :: "addr \<Rightarrow> TaskPriority_t \<Rightarrow> 'a sched_scheme \<Rightarrow> 'a sched_scheme option" where
  "reprioritize t new_prio = CriticalGuard_opt sched_lock sched_unlock (reprioritize_body t new_prio)"

definition sched_prio :: "addr \<Rightarrow> 'a sched_scheme \<Rightarrow> TaskPriority_t" where
  "sched_prio t s = task_priority (tcbs s t)"

definition sched_notify :: "addr option \<Rightarrow> u32 \<Rightarrow> 'a sched_scheme \<Rightarrow> bool \<times> 'a sched_scheme" where
  "sched_notify t value = CriticalGuard_ret sched_lock sched_unlock (\<lambda>s.
     case t of None \<Rightarrow> (False, s)
     | Some t \<Rightarrow>
         if t = idle_task then (False, s)
         else let s1 = s\<lparr>tcbs := (tcbs s)(t := (tcbs s t)\<lparr>notify_word := value, has_notify := True\<rparr>)\<rparr>
              in (True, if tcb_state (tcbs s1 t) = Blocked then sched_ready (Some t) s1 else s1))"

definition sched_wait_notify :: "'a sched_scheme \<Rightarrow> (SyncError + u32) \<times> 'a sched_scheme" where
  "sched_wait_notify = CriticalGuard_ret sched_lock sched_unlock (\<lambda>s.
     case current s of None \<Rightarrow> (Inl TimedOut, s)
     | Some c \<Rightarrow>
         if has_notify (tcbs s c)
         then let s1 = s\<lparr>tcbs := (tcbs s)(c := (tcbs s c)\<lparr>has_notify := False\<rparr>)\<rparr>
              in (Inr (notify_word (tcbs s1 c)), s1)
         else (Inl TimedOut, s))"

definition fetch_idle_task :: addr where
  "fetch_idle_task = idle_task"

definition on_tick_body :: "'a sched_scheme \<Rightarrow> 'a sched_scheme option" where
  "on_tick_body s =
     (case current s of None \<Rightarrow> Some s
      | Some c \<Rightarrow>
          if c = idle_task then Some s
          else let s1 = s\<lparr>ticks_served := ticks_served s + 1\<rparr>
               in if ticks_served s1 < kSliceTicks then Some s1
                  else let s2 = s1\<lparr>ticks_served := 0\<rparr>; p = prio_level s2 c
                       in if p \<ge> kPriorityLevels then None
                          else if SelfList_empty (fifo s2 ! p, tcb_next s2) then Some s2
                          else Some (request_switch (set_tcb_state c Ready (sched_push_back c s2))))"

definition on_tick :: "'a sched_scheme \<Rightarrow> 'a sched_scheme option" where
  "on_tick = CriticalGuard_opt sched_lock sched_unlock on_tick_body"

section \<open>The lock around a body\<close>

lemma sched_lock_sel [simp]:
  "tcbs (sched_lock s) = tcbs s" "tcb_next (sched_lock s) = tcb_next s"
  "current (sched_lock s) = current s" "present (sched_lock s) = present s"
  "fifo (sched_lock s) = fifo s" "ticks_served (sched_lock s) = ticks_served s"
  "pendsv (sched_lock s) = pendsv s" "sched.more (sched_lock s) = sched.more s"
  by (simp_all add: sched_lock_def crit_lock_def write_basepri_def)

lemma sched_unlock_sel [simp]:
  "tcbs (sched_unlock s) = tcbs s" "tcb_next (sched_unlock s) = tcb_next s"
  "current (sched_unlock s) = current s" "present (sched_unlock s) = present s"
  "fifo (sched_unlock s) = fifo s" "ticks_served (sched_unlock s) = ticks_served s"
  "pendsv (sched_unlock s) = pendsv s" "sched.more (sched_unlock s) = sched.more s"
  by (simp_all add: sched_unlock_def crit_unlock_def write_basepri_def Let_def)

text \<open>A body that leaves the driver and BASEPRI alone (as every body here does) runs masked, and the
  guard gives back the BASEPRI and the nesting it found.\<close>

definition irq_same :: "'a sched_scheme \<Rightarrow> 'a sched_scheme \<Rightarrow> bool" where
  "irq_same s s' \<longleftrightarrow> basepri s' = basepri s \<and> nest (sched_driver s') = nest (sched_driver s)
     \<and> (nest (sched_driver s) \<noteq> 0 \<longrightarrow> saved_basepri (sched_driver s') = saved_basepri (sched_driver s))"

lemma irq_same_refl [simp]: "irq_same s s"
  by (simp add: irq_same_def)

lemma irq_same_trans: "irq_same s s1 \<Longrightarrow> irq_same s1 s2 \<Longrightarrow> irq_same s s2"
  by (auto simp: irq_same_def)

lemma guard_irq_same:
  assumes "unat (nest (sched_driver s)) + 1 < 2 ^ 32" and "irq_same (sched_lock s) s'"
  shows "irq_same s (sched_unlock s')"
  using assms plus_1_nonzero [OF assms(1)]
  by (auto simp: irq_same_def sched_lock_def sched_unlock_def crit_lock_def crit_unlock_def
      read_basepri_def write_basepri_def Let_def split: if_splits)

section \<open>The abstract scheduler\<close>

record asched =
  a_tasks :: "addr set"
  a_state :: "addr \<Rightarrow> task_state"
  a_prio :: "addr \<Rightarrow> TaskPriority_t"
  a_queue :: queues
  a_cur :: "addr option"
  a_mail :: "addr \<Rightarrow> u32 option"
  a_slice :: u32
  a_pend :: bool

definition a_level :: "asched \<Rightarrow> addr \<Rightarrow> nat" where
  "a_level a t = unat (a_prio a t)"

definition a_enqueue :: "addr \<Rightarrow> asched \<Rightarrow> asched" where
  "a_enqueue t a = a\<lparr>a_state := (a_state a)(t := Ready),
     a_queue := (a_queue a)(a_level a t := a_queue a (a_level a t) @ [t])\<rparr>"

definition a_requeue :: "addr \<Rightarrow> asched \<Rightarrow> asched" where
  "a_requeue t a = a\<lparr>a_state := (a_state a)(t := Ready),
     a_queue := (a_queue a)(a_level a t := t # a_queue a (a_level a t))\<rparr>"

definition a_preempt :: "addr \<Rightarrow> asched \<Rightarrow> asched" where
  "a_preempt t a = a\<lparr>a_pend := a_pend a \<or> (\<exists>c. a_cur a = Some c \<and> a_prio a t < a_prio a c)\<rparr>"

definition a_pick :: "asched \<Rightarrow> asched" where
  "a_pick a =
     (let a1 = (case a_cur a of None \<Rightarrow> a
                | Some c \<Rightarrow> if c \<noteq> idle_task \<and> a_state a c = Running then a_requeue c a else a);
          next = (case first_task (a_queue a1) of None \<Rightarrow> idle_task | Some t \<Rightarrow> t)
      in a1\<lparr>a_queue := drop_first (a_queue a1), a_cur := Some next, a_slice := 0,
            a_state := (a_state a1)(next := Running)\<rparr>)"

definition a_unqueue :: "addr \<Rightarrow> asched \<Rightarrow> asched" where
  "a_unqueue t a = a\<lparr>a_queue := (a_queue a)(a_level a t := remove1 t (a_queue a (a_level a t)))\<rparr>"

datatype sched_op =
    OpAdd "addr option" | OpPick | OpReady "addr option" | OpBlock "addr option" | OpYield
  | OpReprio addr TaskPriority_t | OpNotify "addr option" u32 | OpWaitNotify | OpTick

datatype sched_res = Done | Picked addr | Sent bool | Letter "SyncError + u32"

definition a_wake :: "addr \<Rightarrow> asched \<Rightarrow> asched" where
  "a_wake t a = (if a_state a t = Blocked then a_preempt t (a_enqueue t a) else a)"

fun a_op :: "sched_op \<Rightarrow> asched \<Rightarrow> asched" where
  "a_op (OpAdd t) a = (case t of None \<Rightarrow> a
     | Some t \<Rightarrow> a_preempt t (a_enqueue t (a\<lparr>a_tasks := insert t (a_tasks a)\<rparr>)))"
| "a_op OpPick a = a_pick a"
| "a_op (OpReady t) a = (case t of None \<Rightarrow> a | Some t \<Rightarrow> a_wake t a)"
| "a_op (OpBlock t) a = (case t of None \<Rightarrow> a
     | Some t \<Rightarrow> a\<lparr>a_state := (a_state a)(t := Blocked), a_pend := a_pend a \<or> a_cur a = Some t\<rparr>)"
| "a_op OpYield a = (case a_cur a of None \<Rightarrow> a
     | Some c \<Rightarrow> if c = idle_task then a else (a_enqueue c a)\<lparr>a_pend := True\<rparr>)"
| "a_op (OpReprio t p) a =
     (if a_prio a t = p then a
      else if a_state a t = Ready
      then a_enqueue t ((a_unqueue t a)\<lparr>a_prio := (a_prio a)(t := p)\<rparr>)
      else a\<lparr>a_prio := (a_prio a)(t := p)\<rparr>)"
| "a_op (OpNotify t v) a = (case t of None \<Rightarrow> a
     | Some t \<Rightarrow> if t = idle_task then a else a_wake t (a\<lparr>a_mail := (a_mail a)(t := Some v)\<rparr>))"
| "a_op OpWaitNotify a = (case a_cur a of None \<Rightarrow> a
     | Some c \<Rightarrow> a\<lparr>a_mail := (a_mail a)(c := None)\<rparr>)"
| "a_op OpTick a = (case a_cur a of None \<Rightarrow> a
     | Some c \<Rightarrow>
         if c = idle_task then a
         else if a_slice a + 1 < kSliceTicks then a\<lparr>a_slice := a_slice a + 1\<rparr>
         else if a_queue a (a_level a c) = [] then a\<lparr>a_slice := 0\<rparr>
         else (a_enqueue c (a\<lparr>a_slice := 0\<rparr>))\<lparr>a_pend := True\<rparr>)"

fun a_res :: "sched_op \<Rightarrow> asched \<Rightarrow> sched_res" where
  "a_res OpPick a = Picked (the (a_cur (a_pick a)))"
| "a_res (OpNotify t v) a = Sent (t \<noteq> None \<and> t \<noteq> Some idle_task)"
| "a_res OpWaitNotify a = Letter (case a_cur a of None \<Rightarrow> Inl TimedOut
     | Some c \<Rightarrow> (case a_mail a c of None \<Rightarrow> Inl TimedOut | Some v \<Rightarrow> Inr v))"
| "a_res _ a = Done"

text \<open>The calls of the code.\<close>

fun run_op :: "sched_op \<Rightarrow> 'a sched_scheme \<Rightarrow> (sched_res \<times> 'a sched_scheme) option" where
  "run_op (OpAdd t) s = Some (Done, sched_add t s)"
| "run_op OpPick s = Some (case pick_next s of (t, s') \<Rightarrow> (Picked t, s'))"
| "run_op (OpReady t) s = Some (Done, sched_ready t s)"
| "run_op (OpBlock t) s = Some (Done, sched_block t s)"
| "run_op OpYield s = Some (Done, sched_yield s)"
| "run_op (OpReprio t p) s = map_option (\<lambda>s'. (Done, s')) (reprioritize t p s)"
| "run_op (OpNotify t v) s = Some (case sched_notify t v s of (r, s') \<Rightarrow> (Sent r, s'))"
| "run_op OpWaitNotify s = Some (case sched_wait_notify s of (r, s') \<Rightarrow> (Letter r, s'))"
| "run_op OpTick s = map_option (\<lambda>s'. (Done, s')) (on_tick s)"

definition mail_of :: "tcb \<Rightarrow> u32 option" where
  "mail_of t = (if has_notify t then Some (notify_word t) else None)"

definition refines :: "'a sched_scheme \<Rightarrow> asched \<Rightarrow> bool" where
  "refines s a \<longleftrightarrow> levels s (a_queue a)
     \<and> a_state a = (\<lambda>t. tcb_state (tcbs s t)) \<and> a_prio a = (\<lambda>t. task_priority (tcbs s t))
     \<and> a_mail a = (\<lambda>t. mail_of (tcbs s t))
     \<and> a_cur a = current s \<and> a_slice a = ticks_served s \<and> a_pend a = pendsv s"

text \<open>The invariant: tasks have a real level; the queue of a level holds exactly the ready tasks of that
  priority, each once; only the current task runs.\<close>

definition a_inv :: "asched \<Rightarrow> bool" where
  "a_inv a \<longleftrightarrow> idle_task \<notin> a_tasks a
     \<and> (\<forall>t \<in> a_tasks a. a_level a t < 32)
     \<and> (\<forall>p. distinct (a_queue a p) \<and> set (a_queue a p) = {t \<in> a_tasks a. a_state a t = Ready \<and> a_level a t = p})
     \<and> (\<forall>t \<in> a_tasks a. a_state a t = Running \<longrightarrow> a_cur a = Some t)
     \<and> (\<forall>c. a_cur a = Some c \<longrightarrow> c \<in> insert idle_task (a_tasks a))"

text \<open>Proper calls: a task is added once, with a real priority; the task that is blocked is the
  running one; yields and ticks come while the current task runs (not between its leaving and
  PendSV); priorities stay below 32.\<close>

definition cur_runs :: "asched \<Rightarrow> bool" where
  "cur_runs a \<longleftrightarrow> (\<forall>c. a_cur a = Some c \<longrightarrow> c \<noteq> idle_task \<longrightarrow> a_state a c = Running)"

fun op_ok :: "sched_op \<Rightarrow> asched \<Rightarrow> bool" where
  "op_ok (OpAdd t) a \<longleftrightarrow> (case t of None \<Rightarrow> True
     | Some t \<Rightarrow> t \<notin> a_tasks a \<and> t \<noteq> idle_task \<and> a_level a t < 32)"
| "op_ok OpPick a \<longleftrightarrow> True"
| "op_ok (OpReady t) a \<longleftrightarrow> (case t of None \<Rightarrow> True | Some t \<Rightarrow> t \<in> a_tasks a)"
| "op_ok (OpBlock t) a \<longleftrightarrow> (case t of None \<Rightarrow> True
     | Some t \<Rightarrow> t \<in> a_tasks a \<and> a_state a t \<noteq> Ready)"
| "op_ok OpYield a \<longleftrightarrow> cur_runs a"
| "op_ok (OpReprio t p) a \<longleftrightarrow> t \<in> a_tasks a \<and> unat p < 32"
| "op_ok (OpNotify t v) a \<longleftrightarrow> (case t of None \<Rightarrow> True | Some t \<Rightarrow> t \<in> insert idle_task (a_tasks a))"
| "op_ok OpWaitNotify a \<longleftrightarrow> True"
| "op_ok OpTick a \<longleftrightarrow> cur_runs a"

section \<open>The simulation\<close>

lemma mail_of_upd [simp]:
  "mail_of (t\<lparr>tcb_state := v\<rparr>) = mail_of t" "mail_of (t\<lparr>task_priority := p\<rparr>) = mail_of t"
  "mail_of (t\<lparr>notify_word := w, has_notify := True\<rparr>) = Some w" "mail_of (t\<lparr>has_notify := False\<rparr>) = None"
  by (simp_all add: mail_of_def)

lemma refines_lock [simp]: "refines (sched_lock s) a = refines s a"
  by (simp add: refines_def levels_cong [of "sched_lock s" s])

lemma refines_unlock [simp]: "refines (sched_unlock s) a = refines s a"
  by (simp add: refines_def levels_cong [of "sched_unlock s" s])

lemma refines_level: "refines s a \<Longrightarrow> a_level a t = prio_level s t"
  by (simp add: refines_def a_level_def prio_level_def)

lemma push_sel [simp]:
  "current (sched_push_back t s) = current s" "ticks_served (sched_push_back t s) = ticks_served s"
  "pendsv (sched_push_back t s) = pendsv s" "basepri (sched_push_back t s) = basepri s"
  "sched_driver (sched_push_back t s) = sched_driver s"
  "current (sched_push_front t s) = current s" "ticks_served (sched_push_front t s) = ticks_served s"
  "pendsv (sched_push_front t s) = pendsv s" "basepri (sched_push_front t s) = basepri s"
  "sched_driver (sched_push_front t s) = sched_driver s"
  by (simp_all add: sched_push_back_def sched_push_front_def set_tcb_state_def Let_def split: prod.splits)

lemma push_tcbs:
  assumes "prio_level s t < 32"
  shows "tcbs (sched_push_back t s) = (tcbs s)(t := (tcbs s t)\<lparr>tcb_state := Ready\<rparr>)"
    and "tcbs (sched_push_front t s) = (tcbs s)(t := (tcbs s t)\<lparr>tcb_state := Ready\<rparr>)"
  using assms
  by (simp_all add: sched_push_back_def sched_push_front_def prio_in_range set_tcb_state_def Let_def
      split: prod.splits)

lemma pop_sel [simp]:
  "tcbs (snd (pop_highest s)) = tcbs s" "current (snd (pop_highest s)) = current s"
  "ticks_served (snd (pop_highest s)) = ticks_served s" "pendsv (snd (pop_highest s)) = pendsv s"
  "basepri (snd (pop_highest s)) = basepri s" "sched_driver (snd (pop_highest s)) = sched_driver s"
  by (simp_all add: pop_highest_def Let_def split: prod.splits)

lemma refines_push_back:
  assumes "refines s a" and "a_level a t < 32" and "t \<notin> queued (a_queue a)"
  shows "refines (sched_push_back t s) (a_enqueue t a)"
  using assms levels_push_back [of s "a_queue a" t] refines_level [OF assms(1), of t]
  by (auto simp: refines_def a_enqueue_def push_tcbs fun_eq_iff)

lemma refines_push_front:
  assumes "refines s a" and "a_level a t < 32" and "t \<notin> queued (a_queue a)"
  shows "refines (sched_push_front t s) (a_requeue t a)"
  using assms levels_push_front [of s "a_queue a" t] refines_level [OF assms(1), of t]
  by (auto simp: refines_def a_requeue_def push_tcbs fun_eq_iff)

lemma refines_cur: "refines s a \<Longrightarrow> a_cur a = current s"
  by (simp add: refines_def)

lemma refines_state: "refines s a \<Longrightarrow> a_state a t = tcb_state (tcbs s t)"
  by (simp add: refines_def)

lemma refines_prio: "refines s a \<Longrightarrow> a_prio a t = task_priority (tcbs s t)"
  by (simp add: refines_def)

lemma refines_request: "refines s a \<Longrightarrow> refines (request_switch s) (a\<lparr>a_pend := True\<rparr>)"
  by (simp add: refines_def request_switch_def levels_def)

lemma refines_preempt:
  assumes "refines s a"
  shows "refines (if outranks_current t s then request_switch s else s) (a_preempt t a)"
proof -
  have "outranks_current t s \<longleftrightarrow> (\<exists>c. a_cur a = Some c \<and> a_prio a t < a_prio a c)"
    using assms by (auto simp: outranks_current_def refines_def split: option.splits)
  then have "a_preempt t a = a\<lparr>a_pend := a_pend a \<or> outranks_current t s\<rparr>" by (simp add: a_preempt_def)
  then show ?thesis
    using assms refines_request [OF assms] by (cases "outranks_current t s") simp_all
qed

lemma refines_tasks: "refines s a \<Longrightarrow> refines s (a\<lparr>a_tasks := T\<rparr>)"
  by (simp add: refines_def)

lemma not_queued:
  "a_inv a \<Longrightarrow> t \<notin> a_tasks a \<or> a_state a t \<noteq> Ready \<Longrightarrow> t \<notin> queued (a_queue a)"
  by (auto simp: a_inv_def queued_def)

lemma a_inv_level: "a_inv a \<Longrightarrow> t \<in> a_tasks a \<Longrightarrow> a_level a t < 32"
  by (simp add: a_inv_def)

lemma a_inv_cur: "a_inv a \<Longrightarrow> a_cur a = Some c \<Longrightarrow> c \<noteq> idle_task \<Longrightarrow> c \<in> a_tasks a"
  by (auto simp: a_inv_def)

lemma a_inv_queue:
  "a_inv a \<Longrightarrow> set (a_queue a p) = {t \<in> a_tasks a. a_state a t = Ready \<and> a_level a t = p}"
  "a_inv a \<Longrightarrow> distinct (a_queue a p)"
  by (simp_all add: a_inv_def)

lemma a_inv_running: "a_inv a \<Longrightarrow> t \<in> a_tasks a \<Longrightarrow> a_state a t = Running \<Longrightarrow> a_cur a = Some t"
  by (simp add: a_inv_def)

lemma a_inv_idle: "a_inv a \<Longrightarrow> idle_task \<notin> a_tasks a"
  by (simp add: a_inv_def)

lemma sim_add:
  assumes r: "refines s a" and i: "a_inv a" and ok: "op_ok (OpAdd t) a"
  shows "refines (sched_add t s) (a_op (OpAdd t) a)"
proof (cases t)
  case None
  then show ?thesis using r by (simp add: sched_add_def CriticalGuard_def)
next
  case (Some u)
  let ?a = "a\<lparr>a_tasks := insert u (a_tasks a)\<rparr>"
  have "refines (sched_lock s) ?a" using r by (simp add: refines_tasks)
  then have "refines (sched_push_back u (sched_lock s)) (a_enqueue u ?a)"
    by (rule refines_push_back) (use ok Some not_queued [OF i, of u] in \<open>auto simp: a_level_def\<close>)
  from refines_preempt [OF this, of u] show ?thesis
    using Some by (simp add: sched_add_def CriticalGuard_def Let_def)
qed

lemma sim_wake_body:
  assumes r: "refines s a" and i: "a_inv a" and t: "t \<in> a_tasks a"
  shows "refines (if tcb_state (tcbs s t) \<noteq> Blocked then s
     else let s1 = sched_push_back t s in if outranks_current t s1 then request_switch s1 else s1) (a_wake t a)"
proof (cases "a_state a t = Blocked")
  case True
  have "refines (sched_push_back t s) (a_enqueue t a)"
    by (rule refines_push_back [OF r a_inv_level [OF i t]]) (use not_queued [OF i] True in auto)
  from refines_preempt [OF this, of t] show ?thesis
    using True refines_state [OF r, of t] by (simp add: a_wake_def Let_def)
next
  case False
  then show ?thesis using r refines_state [OF r, of t] by (simp add: a_wake_def)
qed

lemma sim_ready:
  assumes r: "refines s a" and i: "a_inv a" and ok: "op_ok (OpReady t) a"
  shows "refines (sched_ready t s) (a_op (OpReady t) a)"
proof (cases t)
  case None
  then show ?thesis using r by (simp add: sched_ready_def CriticalGuard_def)
next
  case (Some u)
  then show ?thesis
    using sim_wake_body [of "sched_lock s" a u] assms by (simp add: sched_ready_def CriticalGuard_def Let_def)
qed

lemma refines_set_state:
  "refines s a \<Longrightarrow> refines (set_tcb_state t v s) (a\<lparr>a_state := (a_state a)(t := v)\<rparr>)"
  by (auto simp: refines_def set_tcb_state_def levels_def fun_eq_iff)

lemma sim_block:
  assumes r: "refines s a"
  shows "refines (sched_block t s) (a_op (OpBlock t) a)"
proof (cases t)
  case None
  then show ?thesis using r by (simp add: sched_block_def CriticalGuard_def)
next
  case (Some u)
  let ?a = "a\<lparr>a_state := (a_state a)(u := Blocked)\<rparr>"
  have b: "refines (set_tcb_state u Blocked (sched_lock s)) ?a"
    using refines_set_state [of "sched_lock s" a] r by simp
  have c: "current (set_tcb_state u Blocked (sched_lock s)) = a_cur a"
    using r by (simp add: set_tcb_state_def refines_def)
  show ?thesis
    using Some b c refines_request [OF b]
    by (auto simp: sched_block_def CriticalGuard_def Let_def)
qed

lemma sim_yield:
  assumes r: "refines s a" and i: "a_inv a" and ok: "op_ok OpYield a"
  shows "refines (sched_yield s) (a_op OpYield a)"
proof (cases "current s")
  case None
  then show ?thesis using r refines_cur [OF r] by (simp add: sched_yield_def CriticalGuard_def)
next
  case (Some c)
  then have cur: "a_cur a = Some c" using refines_cur [OF r] by simp
  show ?thesis
  proof (cases "c = idle_task")
    case True
    then show ?thesis using r Some cur by (simp add: sched_yield_def CriticalGuard_def)
  next
    case False
    have "refines (sched_push_back c (sched_lock s)) (a_enqueue c a)"
    proof (rule refines_push_back)
      show "a_level a c < 32" using a_inv_level [OF i] a_inv_cur [OF i cur False] .
      show "c \<notin> queued (a_queue a)" using not_queued [OF i] ok cur False by (simp add: cur_runs_def)
    qed (use r in simp)
    from refines_request [OF this] show ?thesis
      using Some cur False by (simp add: sched_yield_def CriticalGuard_def)
  qed
qed

lemma refines_pop:
  assumes "refines s a"
  shows "fst (pop_highest s) = first_task (a_queue a)"
    and "refines (snd (pop_highest s)) (a\<lparr>a_queue := drop_first (a_queue a)\<rparr>)"
  using levels_pop [of s "a_queue a"] assms by (auto simp: refines_def)

lemma sim_pick_locked:
  assumes r: "refines s a" and i: "a_inv a"
  shows "refines (snd (pick_next_locked s)) (a_pick a)"
    and "a_cur (a_pick a) = Some (fst (pick_next_locked s))"
proof -
  define s1 where "s1 = (case current s of None \<Rightarrow> s
     | Some c \<Rightarrow> if c \<noteq> idle_task \<and> tcb_state (tcbs s c) = Running then sched_push_front c s else s)"
  define a1 where "a1 = (case a_cur a of None \<Rightarrow> a
     | Some c \<Rightarrow> if c \<noteq> idle_task \<and> a_state a c = Running then a_requeue c a else a)"
  have 1: "refines s1 a1"
  proof (cases "\<exists>c. current s = Some c \<and> c \<noteq> idle_task \<and> tcb_state (tcbs s c) = Running")
    case True
    then obtain c where c: "current s = Some c" "c \<noteq> idle_task" "tcb_state (tcbs s c) = Running" by blast
    then have "refines (sched_push_front c s) (a_requeue c a)"
      using r i a_inv_cur [OF i, of c] a_inv_level [OF i, of c] not_queued [OF i, of c]
      by (intro refines_push_front) (auto simp: refines_cur [OF r] refines_state [OF r])
    then show ?thesis using c by (simp add: s1_def a1_def refines_cur [OF r] refines_state [OF r])
  next
    case False
    then show ?thesis
      using r by (auto simp: s1_def a1_def refines_cur [OF r] refines_state [OF r] split: option.splits)
  qed
  obtain popped s2 where pop: "pop_highest s1 = (popped, s2)" by (meson surj_pair)
  have 2: "popped = first_task (a_queue a1)" "refines s2 (a1\<lparr>a_queue := drop_first (a_queue a1)\<rparr>)"
    using refines_pop [OF 1] pop by simp_all
  define nxt where "nxt = (case popped of None \<Rightarrow> idle_task | Some t \<Rightarrow> t)"
  have pick: "pick_next_locked s = (nxt, set_tcb_state nxt Running (s2\<lparr>current := Some nxt, ticks_served := 0\<rparr>))"
    using pop by (simp add: pick_next_locked_def s1_def [symmetric] Let_def nxt_def)
  have apick: "a_pick a = a1\<lparr>a_queue := drop_first (a_queue a1), a_cur := Some nxt, a_slice := 0,
      a_state := (a_state a1)(nxt := Running)\<rparr>"
    by (simp add: a_pick_def a1_def [symmetric] Let_def nxt_def 2(1))
  have "refines (s2\<lparr>current := Some nxt, ticks_served := 0\<rparr>)
      (a1\<lparr>a_queue := drop_first (a_queue a1), a_cur := Some nxt, a_slice := 0\<rparr>)"
    using 2(2) by (simp add: refines_def levels_def)
  from refines_set_state [OF this, of nxt Running] show "refines (snd (pick_next_locked s)) (a_pick a)"
    by (simp add: pick apick)
  show "a_cur (a_pick a) = Some (fst (pick_next_locked s))" by (simp add: pick apick)
qed

lemma sim_pick:
  assumes "refines s a" and "a_inv a"
  shows "refines (snd (pick_next s)) (a_pick a)" and "a_cur (a_pick a) = Some (fst (pick_next s))"
  using sim_pick_locked [of "sched_lock s" a] assms
  by (simp_all add: pick_next_def CriticalGuard_ret_def case_prod_beta)

lemma refines_set_priority:
  "refines s a \<Longrightarrow> refines (set_priority t p s) (a\<lparr>a_prio := (a_prio a)(t := p)\<rparr>)"
  by (auto simp: refines_def set_priority_def levels_def fun_eq_iff)

lemma queued_unqueue:
  "a_inv a \<Longrightarrow> t \<notin> queued (a_queue (a_unqueue t a))"
  by (auto simp: a_inv_queue queued_def a_unqueue_def)

lemma sim_reprio:
  assumes r: "refines s a" and i: "a_inv a" and ok: "op_ok (OpReprio t p) a"
  shows "\<exists>s'. reprioritize_body t p s = Some s' \<and> refines s' (a_op (OpReprio t p) a)
    \<and> basepri s' = basepri s \<and> sched_driver s' = sched_driver s"
proof -
  let ?l = "prio_level s t"
  have l: "?l < 32" using a_inv_level [OF i, of t] ok refines_level [OF r, of t] by simp
  show ?thesis
  proof (cases "task_priority (tcbs s t) = p \<or> tcb_state (tcbs s t) \<noteq> Ready")
    case True
    then show ?thesis
      using r refines_set_priority [OF r, of t p]
      by (auto simp: reprioritize_body_def refines_state [OF r] refines_prio [OF r] set_priority_def)
  next
    case False
    then have st: "a_state a t = Ready" "a_prio a t \<noteq> p" by (simp_all add: refines_state [OF r] refines_prio [OF r])
    then have mem: "t \<in> set (a_queue a ?l)" using ok refines_level [OF r, of t] by (simp add: a_inv_queue [OF i])
    have lv: "levels s (a_queue a)" using r by (simp add: refines_def)
    then have "rep (fifo s ! ?l, tcb_next s) (a_queue a ?l)" using l by (simp add: levels_def)
    then obtain st' where rem: "SelfList_remove t (fifo s ! ?l, tcb_next s) = Some (True, st')"
      "rep st' (remove1 t (a_queue a ?l))" "\<And>y. y \<notin> set (a_queue a ?l) \<Longrightarrow> snd st' y = tcb_next s y"
      using mem by (rule rep_remove) auto
    obtain ls nx where st': "st' = (ls, nx)" by (cases st')
    let ?s1 = "s\<lparr>fifo := (fifo s)[?l := ls], tcb_next := nx\<rparr>"
    let ?s2 = "if SelfList_empty (ls, nx) then ?s1\<lparr>present := Bitmap_clear ?l (present s)\<rparr> else ?s1"
    have "levels ?s2 ((a_queue a)(?l := remove1 t (a_queue a ?l)))"
      by (rule levels_shrink [OF lv l]) (use rem st' mem in \<open>auto dest: set_remove1_subset [THEN subsetD]\<close>)
    then have "refines ?s2 (a_unqueue t a)"
      using r refines_level [OF r, of t] by (auto simp: refines_def a_unqueue_def)
    from refines_set_priority [OF this, of t p]
    have "refines (sched_push_back t (set_priority t p ?s2)) (a_enqueue t ((a_unqueue t a)\<lparr>a_prio := (a_prio a)(t := p)\<rparr>))"
      using ok queued_unqueue [OF i, of t]
      by (intro refines_push_back) (simp_all add: a_level_def a_unqueue_def)
    moreover have "reprioritize_body t p s = Some (sched_push_back t (set_priority t p ?s2))"
      using False rem(1) st' l by (simp add: reprioritize_body_def kPriorityLevels_def Let_def)
    ultimately show ?thesis using st by (auto simp: set_priority_def)
  qed
qed

lemma a_inv_mail: "a_inv (a\<lparr>a_mail := m\<rparr>) = a_inv a"
  by (simp add: a_inv_def a_level_def)

lemma sim_notify:
  assumes r: "refines s a" and i: "a_inv a" and ok: "op_ok (OpNotify t v) a"
  shows "refines (snd (sched_notify t v s)) (a_op (OpNotify t v) a)"
    and "a_res (OpNotify t v) a = Sent (fst (sched_notify t v s))"
proof -
  have "refines (snd (sched_notify t v s)) (a_op (OpNotify t v) a)
     \<and> a_res (OpNotify t v) a = Sent (fst (sched_notify t v s))"
  proof (cases "t = None \<or> t = Some idle_task")
    case True
    then show ?thesis using r by (auto simp: sched_notify_def CriticalGuard_ret_def)
  next
    case False
    then obtain u where u: "t = Some u" "u \<noteq> idle_task" "u \<in> a_tasks a" using ok by (cases t) auto
    define s1 where "s1 = (sched_lock s)\<lparr>tcbs := (tcbs s)(u := (tcbs s u)\<lparr>notify_word := v, has_notify := True\<rparr>)\<rparr>"
    let ?a = "a\<lparr>a_mail := (a_mail a)(u := Some v)\<rparr>"
    have 1: "refines s1 ?a"
      using r by (auto simp: refines_def s1_def levels_def fun_eq_iff)
    then have "refines (sched_ready (Some u) s1) (a_wake u ?a)"
      using sim_ready [OF 1, of "Some u"] i u by (simp add: a_inv_mail)
    moreover have "a_wake u ?a = ?a" if "tcb_state (tcbs s1 u) \<noteq> Blocked"
      using that refines_state [OF 1, of u] by (simp add: a_wake_def)
    ultimately have "refines (if tcb_state (tcbs s1 u) = Blocked then sched_ready (Some u) s1 else s1) (a_wake u ?a)"
      using 1 by simp
    then show ?thesis
      using u by (simp add: sched_notify_def CriticalGuard_ret_def Let_def s1_def split: if_splits)
  qed
  then show "refines (snd (sched_notify t v s)) (a_op (OpNotify t v) a)"
    "a_res (OpNotify t v) a = Sent (fst (sched_notify t v s))" by simp_all
qed

lemma sim_wait_notify:
  assumes r: "refines s a"
  shows "refines (snd (sched_wait_notify s)) (a_op OpWaitNotify a)"
    and "a_res OpWaitNotify a = Letter (fst (sched_wait_notify s))"
proof -
  have cur: "a_cur a = current s" and mail: "\<And>t. a_mail a t = mail_of (tcbs s t)"
    using r by (simp_all add: refines_def)
  have "refines (snd (sched_wait_notify s)) (a_op OpWaitNotify a)
     \<and> a_res OpWaitNotify a = Letter (fst (sched_wait_notify s))"
  proof (cases "current s")
    case None
    then show ?thesis using r cur by (simp add: sched_wait_notify_def CriticalGuard_ret_def)
  next
    case (Some c)
    show ?thesis
    proof (cases "has_notify (tcbs s c)")
      case True
      let ?s = "(sched_lock s)\<lparr>tcbs := (tcbs s)(c := (tcbs s c)\<lparr>has_notify := False\<rparr>)\<rparr>"
      have "refines ?s (a\<lparr>a_mail := (a_mail a)(c := None)\<rparr>)"
        using r by (auto simp: refines_def levels_def fun_eq_iff)
      then show ?thesis
        using Some True cur mail [of c]
        by (simp add: sched_wait_notify_def CriticalGuard_ret_def Let_def mail_of_def)
    next
      case False
      then have "a\<lparr>a_mail := (a_mail a)(c := None)\<rparr> = a"
        using mail [of c] by (cases a) (auto simp: mail_of_def fun_eq_iff)
      then show ?thesis
        using r Some False cur mail [of c]
        by (simp add: sched_wait_notify_def CriticalGuard_ret_def mail_of_def)
    qed
  qed
  then show "refines (snd (sched_wait_notify s)) (a_op OpWaitNotify a)"
    "a_res OpWaitNotify a = Letter (fst (sched_wait_notify s))" by simp_all
qed

lemma refines_slice: "refines s a \<Longrightarrow> refines (s\<lparr>ticks_served := n\<rparr>) (a\<lparr>a_slice := n\<rparr>)"
  by (simp add: refines_def levels_def)

lemma sim_tick:
  assumes r: "refines s a" and i: "a_inv a" and ok: "op_ok OpTick a"
  shows "\<exists>s'. on_tick_body s = Some s' \<and> refines s' (a_op OpTick a)
    \<and> basepri s' = basepri s \<and> sched_driver s' = sched_driver s"
proof (cases "current s")
  case None
  then show ?thesis using r refines_cur [OF r] by (simp add: on_tick_body_def)
next
  case (Some c)
  then have cur: "a_cur a = Some c" using refines_cur [OF r] by simp
  have sl: "a_slice a = ticks_served s" using r by (simp add: refines_def)
  show ?thesis
  proof (cases "c = idle_task \<or> ticks_served s + 1 < kSliceTicks")
    case True
    then show ?thesis using r Some cur sl refines_slice [OF r] by (auto simp: on_tick_body_def Let_def)
  next
    case False
    let ?s = "s\<lparr>ticks_served := 0\<rparr>" and ?a = "a\<lparr>a_slice := 0\<rparr>"
    have 0: "refines ?s ?a" by (rule refines_slice [OF r])
    have lev: "prio_level s c = a_level a c" using refines_level [OF r, of c] by simp
    have l: "a_level a c < 32" using a_inv_level [OF i] a_inv_cur [OF i cur] False by blast
    have "rep (fifo s ! a_level a c, tcb_next s) (a_queue a (a_level a c))"
      using r l by (simp add: refines_def levels_def)
    then have e: "SelfList_empty (fifo s ! a_level a c, tcb_next s) \<longleftrightarrow> a_queue a (a_level a c) = []"
      by (rule rep_empty)
    have lev0: "prio_level (s\<lparr>ticks_served := 0\<rparr>) c = a_level a c" "a_level ?a c = a_level a c"
      using lev by (simp_all add: prio_level_def a_level_def)
    have again: "set_tcb_state c Ready (sched_push_back c ?s) = sched_push_back c ?s"
    proof -
      have "tcbs (sched_push_back c ?s) = (tcbs s)(c := (tcbs s c)\<lparr>tcb_state := Ready\<rparr>)"
        using push_tcbs(1) [of ?s c] lev0 l by simp
      then show ?thesis by (simp add: set_tcb_state_def)
    qed
    have "refines (sched_push_back c ?s) (a_enqueue c ?a)"
      using 0 l not_queued [OF i, of c] ok cur False
      by (intro refines_push_back) (simp_all add: lev0 cur_runs_def)
    from refines_request [OF this] show ?thesis
      using False Some cur sl 0 l e lev0 again
      by (auto simp: on_tick_body_def kPriorityLevels_def Let_def request_switch_def)
  qed
qed

section \<open>The invariant is kept\<close>

text \<open>A change of state and queue keeps the invariant if the queues hold the ready tasks again.\<close>

lemma a_inv_requeued:
  assumes inv: "a_inv a" and tasks: "a_tasks a' = a_tasks a" and cur: "a_cur a' = a_cur a"
    and lev: "\<And>t. t \<in> a_tasks a \<Longrightarrow> a_level a' t < 32"
    and run: "\<And>t. t \<in> a_tasks a \<Longrightarrow> a_state a' t = Running \<Longrightarrow> a_state a t = Running"
    and queue: "\<And>p. distinct (a_queue a' p)
      \<and> set (a_queue a' p) = {t \<in> a_tasks a. a_state a' t = Ready \<and> a_level a' t = p}"
  shows "a_inv a'"
  unfolding a_inv_def tasks cur
  using a_inv_idle [OF inv] a_inv_running [OF inv] a_inv_cur [OF inv] lev run queue by blast

lemma a_inv_enqueue:
  assumes "a_inv a" and "t \<in> a_tasks a" and "a_state a t \<noteq> Ready"
  shows "a_inv (a_enqueue t a)"
  using assms
  by (intro a_inv_requeued [OF assms(1)])
    (auto simp: a_enqueue_def a_level_def a_inv_queue [OF assms(1)] a_inv_level [OF assms(1), unfolded a_level_def]
      split: if_splits)

lemma a_inv_requeue:
  assumes "a_inv a" and "t \<in> a_tasks a" and "a_state a t \<noteq> Ready"
  shows "a_inv (a_requeue t a)"
  using assms
  by (intro a_inv_requeued [OF assms(1)])
    (auto simp: a_requeue_def a_level_def a_inv_queue [OF assms(1)] a_inv_level [OF assms(1), unfolded a_level_def]
      split: if_splits)

lemma a_inv_cong:
  "a_inv (a\<lparr>a_pend := b\<rparr>) = a_inv a" "a_inv (a\<lparr>a_slice := n\<rparr>) = a_inv a"
  "a_inv (a\<lparr>a_mail := m\<rparr>) = a_inv a" "a_inv (a_preempt t a) = a_inv a"
  by (simp_all add: a_inv_def a_level_def a_preempt_def)

lemma a_inv_wake: "a_inv a \<Longrightarrow> t \<in> a_tasks a \<Longrightarrow> a_inv (a_wake t a)"
  using a_inv_enqueue [of a t] by (simp add: a_wake_def a_inv_cong)

text \<open>Taking the first task out and making it the current one, from a state in which nobody runs.\<close>

lemma a_inv_take:
  assumes inv: "a_inv a" and none: "\<And>t. t \<in> a_tasks a \<Longrightarrow> a_state a t \<noteq> Running"
    and nxt: "nxt = (case first_task (a_queue a) of None \<Rightarrow> idle_task | Some t \<Rightarrow> t)"
  shows "a_inv (a\<lparr>a_queue := drop_first (a_queue a), a_cur := Some nxt, a_slice := 0,
     a_state := (a_state a)(nxt := Running)\<rparr>)"
proof (cases "best_level (a_queue a)")
  case None
  then have "nxt = idle_task" "drop_first (a_queue a) = a_queue a"
    using nxt by (simp_all add: first_task_def drop_first_def)
  then show ?thesis
    using a_inv_idle [OF inv] none inv
    by (auto simp: a_inv_def a_level_def)
next
  case (Some p)
  obtain t ts where q: "a_queue a p = t # ts"
    using Some by (cases "a_queue a p") (auto simp: best_level_Some)
  have t: "t \<in> a_tasks a" "a_state a t = Ready" "a_level a t = p" "t \<notin> set ts" "distinct ts"
    using a_inv_queue [OF inv, of p] q by auto
  have nx: "nxt = t" "drop_first (a_queue a) = (a_queue a)(p := ts)"
    using nxt Some q by (simp_all add: first_task_def drop_first_def)
  have ts: "set ts = {u \<in> a_tasks a. a_state a u = Ready \<and> a_level a u = p} - {t}"
    using a_inv_queue(1) [OF inv, of p] q t(4) by auto
  have "distinct (((a_queue a)(p := ts)) k)
      \<and> set (((a_queue a)(p := ts)) k) = {u \<in> a_tasks a. ((a_state a)(t := Running)) u = Ready \<and> a_level a u = k}" for k
    using a_inv_queue [OF inv, of k] t ts by auto
  moreover have "t \<noteq> idle_task" using t(1) a_inv_idle [OF inv] by auto
  ultimately show ?thesis
    using a_inv_idle [OF inv] a_inv_level [OF inv] none t(1)
    unfolding nx a_inv_def by (auto simp: a_level_def)
qed

lemma a_inv_pick:
  assumes inv: "a_inv a"
  shows "a_inv (a_pick a)"
proof -
  define a1 where "a1 = (case a_cur a of None \<Rightarrow> a
     | Some c \<Rightarrow> if c \<noteq> idle_task \<and> a_state a c = Running then a_requeue c a else a)"
  have "a_inv a1 \<and> (\<forall>t \<in> a_tasks a1. a_state a1 t \<noteq> Running)"
  proof (cases "\<exists>c. a_cur a = Some c \<and> c \<noteq> idle_task \<and> a_state a c = Running")
    case True
    then obtain c where c: "a_cur a = Some c" "c \<noteq> idle_task" "a_state a c = Running" by blast
    then have "a_inv (a_requeue c a)" using inv a_inv_cur [OF inv] by (intro a_inv_requeue) auto
    moreover have "\<forall>t \<in> a_tasks a. t \<noteq> c \<longrightarrow> a_state a t \<noteq> Running" using a_inv_running [OF inv] c by auto
    ultimately show ?thesis using c by (simp add: a1_def a_requeue_def)
  next
    case False
    then have "a1 = a" by (auto simp: a1_def split: option.splits)
    moreover have "a_state a t \<noteq> Running" if "t \<in> a_tasks a" for t
      using False a_inv_running [OF inv that] a_inv_idle [OF inv] that by auto
    ultimately show ?thesis using inv by simp
  qed
  then show ?thesis
    using a_inv_take [of a1] by (simp add: a_pick_def a1_def [symmetric] Let_def)
qed

lemma a_inv_reprio:
  assumes inv: "a_inv a" and ok: "op_ok (OpReprio t p) a"
  shows "a_inv (a_op (OpReprio t p) a)"
proof (cases "a_prio a t = p")
  case True
  then show ?thesis using inv by simp
next
  case other: False
  have lev: "unat ((if u = t then p else a_prio a u)) < 32" if "u \<in> a_tasks a" for u
    using that ok a_inv_level [OF inv that] by (simp add: a_level_def)
  show ?thesis
  proof (cases "a_state a t = Ready")
    case False
    show ?thesis
      using other False lev
      by (intro a_inv_requeued [OF inv]) (auto simp: a_level_def a_inv_queue [OF inv] split: if_splits)
  next
    case True
    have "unat p \<noteq> unat (a_prio a t)" using other by (simp add: word_unat_eq_iff)
    then show ?thesis
      using other True lev ok a_inv_queue [OF inv]
      by (intro a_inv_requeued [OF inv])
        (auto simp: a_level_def a_enqueue_def a_unqueue_def split: if_splits)
  qed
qed

lemma a_inv_op:
  assumes inv: "a_inv a" and ok: "op_ok op a"
  shows "a_inv (a_op op a)"
proof (cases op)
  case (OpAdd t)
  show ?thesis
  proof (cases t)
    case None
    then show ?thesis using OpAdd inv by simp
  next
    case (Some u)
    let ?a = "a\<lparr>a_tasks := insert u (a_tasks a), a_state := (a_state a)(u := Blocked)\<rparr>"
    have u: "u \<notin> a_tasks a" "u \<noteq> idle_task" "a_level a u < 32" using ok OpAdd Some by simp_all
    have "a_inv ?a" using inv u by (auto simp: a_inv_def a_level_def)
    then have "a_inv (a_enqueue u ?a)" by (rule a_inv_enqueue) simp_all
    moreover have "a_enqueue u ?a = a_enqueue u (a\<lparr>a_tasks := insert u (a_tasks a)\<rparr>)"
      by (simp add: a_enqueue_def a_level_def)
    ultimately show ?thesis using OpAdd Some by (simp add: a_inv_cong)
  qed
next
  case (OpReady t)
  then show ?thesis using inv ok a_inv_wake by (cases t) auto
next
  case (OpBlock t)
  show ?thesis
  proof (cases t)
    case (Some u)
    have "a_inv (a\<lparr>a_state := (a_state a)(u := Blocked)\<rparr>)"
      using ok OpBlock Some
      by (intro a_inv_requeued [OF inv])
        (auto simp: a_level_def a_inv_queue [OF inv] a_inv_level [OF inv, unfolded a_level_def] split: if_splits)
    then show ?thesis using OpBlock Some by (simp add: a_inv_cong)
  qed (use OpBlock inv in simp)
next
  case OpYield
  then show ?thesis
    using inv ok a_inv_cur [OF inv]
    by (auto simp: a_inv_cong cur_runs_def split: option.splits intro!: a_inv_enqueue)
next
  case (OpNotify t v)
  then show ?thesis
    using inv ok a_inv_wake by (cases t) (auto simp: a_inv_cong)
next
  case OpTick
  then show ?thesis
    using inv ok a_inv_cur [OF inv]
    by (auto simp: a_inv_cong cur_runs_def split: option.splits intro!: a_inv_enqueue)
qed (use inv ok a_inv_pick a_inv_reprio in \<open>auto simp: a_inv_cong split: option.splits\<close>)

section \<open>Runs of calls\<close>

fun run_ops :: "sched_op list \<Rightarrow> 'a sched_scheme \<Rightarrow> (sched_res list \<times> 'a sched_scheme) option" where
  "run_ops [] s = Some ([], s)"
| "run_ops (op # ops) s = do {
     (r, s1) \<leftarrow> run_op op s;
     (rs, s2) \<leftarrow> run_ops ops s1;
     Some (r # rs, s2)
   }"

fun a_ops :: "sched_op list \<Rightarrow> asched \<Rightarrow> sched_res list \<times> asched" where
  "a_ops [] a = ([], a)"
| "a_ops (op # ops) a = (case a_ops ops (a_op op a) of (rs, a') \<Rightarrow> (a_res op a # rs, a'))"

fun ops_ok :: "sched_op list \<Rightarrow> asched \<Rightarrow> bool" where
  "ops_ok [] a \<longleftrightarrow> True"
| "ops_ok (op # ops) a \<longleftrightarrow> op_ok op a \<and> ops_ok ops (a_op op a)"

lemma sim_op:
  assumes r: "refines s a" and i: "a_inv a" and ok: "op_ok op a"
  shows "\<exists>s'. run_op op s = Some (a_res op a, s') \<and> refines s' (a_op op a)"
proof (cases op)
  case (OpReprio t p)
  then show ?thesis
    using sim_reprio [of "sched_lock s" a t p] assms
    by (auto simp: reprioritize_def CriticalGuard_opt_def simp del: a_op.simps op_ok.simps)
next
  case OpTick
  then show ?thesis
    using sim_tick [of "sched_lock s" a] assms
    by (auto simp: on_tick_def CriticalGuard_opt_def simp del: a_op.simps op_ok.simps)
next
  case OpPick
  then show ?thesis using sim_pick [OF r i] by (auto simp: case_prod_beta)
next
  case (OpNotify t v)
  then show ?thesis
    using sim_notify [of s a t v] assms by (auto simp: case_prod_beta simp del: a_op.simps op_ok.simps a_res.simps)
next
  case OpWaitNotify
  then show ?thesis
    using sim_wait_notify [OF r] by (auto simp: case_prod_beta simp del: a_op.simps a_res.simps)
next
  case (OpAdd t)
  then show ?thesis using sim_add [of s a t] assms by (simp del: a_op.simps op_ok.simps)
next
  case (OpReady t)
  then show ?thesis using sim_ready [of s a t] assms by (simp del: a_op.simps op_ok.simps)
next
  case (OpBlock t)
  then show ?thesis using sim_block [of s a t] assms by (simp del: a_op.simps op_ok.simps)
next
  case OpYield
  then show ?thesis using sim_yield [of s a] assms by (simp del: a_op.simps op_ok.simps)
qed

lemma sim_ops:
  assumes "refines s a" and "a_inv a" and "ops_ok ops a"
  shows "\<exists>s'. run_ops ops s = Some (fst (a_ops ops a), s') \<and> refines s' (snd (a_ops ops a))
    \<and> a_inv (snd (a_ops ops a))"
  using assms
proof (induction ops arbitrary: s a)
  case (Cons op ops)
  then have ok: "op_ok op a" "ops_ok ops (a_op op a)" by simp_all
  obtain s1 where s1: "run_op op s = Some (a_res op a, s1)" "refines s1 (a_op op a)"
    using sim_op [OF Cons.prems(1,2) ok(1)] by blast
  obtain s2 where "run_ops ops s1 = Some (fst (a_ops ops (a_op op a)), s2)"
    "refines s2 (snd (a_ops ops (a_op op a)))" "a_inv (snd (a_ops ops (a_op op a)))"
    using Cons.IH [OF s1(2) a_inv_op [OF Cons.prems(2) ok(1)] ok(2)] by blast
  then show ?case using s1(1) by (auto simp: case_prod_beta)
qed simp

text \<open>The abstract view of the freshly constructed scheduler.\<close>

definition asched_new :: asched where
  "asched_new = \<lparr>a_tasks = {}, a_state = (\<lambda>_. Ready), a_prio = (\<lambda>_. 0)(idle_task := kIdlePrio),
     a_queue = (\<lambda>_. []), a_cur = None, a_mail = (\<lambda>_. None), a_slice = 0, a_pend = False\<rparr>"

lemma new_refines: "refines (Scheduler_new v) asched_new" "a_inv asched_new"
proof -
  show "refines (Scheduler_new v) asched_new"
    using levels_new [of v]
    by (auto simp: refines_def asched_new_def Scheduler_new_def TCB_new_def mail_of_def fun_eq_iff)
  show "a_inv asched_new" by (simp add: a_inv_def asched_new_def)
qed

section \<open>Priority\<close>

text \<open>The tasks that could run now.\<close>

definition runnable :: "asched \<Rightarrow> addr set" where
  "runnable a = {t \<in> a_tasks a. a_state a t \<noteq> Blocked}"

lemma a_pick_parts:
  assumes inv: "a_inv a"
  obtains a1 where "a_inv a1" "\<And>t. t \<in> a_tasks a1 \<Longrightarrow> a_state a1 t \<noteq> Running" "a_tasks a1 = a_tasks a"
    "a_prio a1 = a_prio a" "queued (a_queue a1) = runnable a"
    "a_pick a = a1\<lparr>a_queue := drop_first (a_queue a1),
       a_cur := Some (case first_task (a_queue a1) of None \<Rightarrow> idle_task | Some t \<Rightarrow> t), a_slice := 0,
       a_state := (a_state a1)((case first_task (a_queue a1) of None \<Rightarrow> idle_task | Some t \<Rightarrow> t) := Running)\<rparr>"
    "a1 = (if \<exists>c. a_cur a = Some c \<and> c \<noteq> idle_task \<and> a_state a c = Running then a_requeue (the (a_cur a)) a else a)"
proof -
  define a1 where "a1 = (if \<exists>c. a_cur a = Some c \<and> c \<noteq> idle_task \<and> a_state a c = Running
     then a_requeue (the (a_cur a)) a else a)"
  have pick: "a_pick a = a1\<lparr>a_queue := drop_first (a_queue a1),
       a_cur := Some (case first_task (a_queue a1) of None \<Rightarrow> idle_task | Some t \<Rightarrow> t), a_slice := 0,
       a_state := (a_state a1)((case first_task (a_queue a1) of None \<Rightarrow> idle_task | Some t \<Rightarrow> t) := Running)\<rparr>"
    by (auto simp: a_pick_def a1_def Let_def split: option.splits)
  have run: "\<And>t. t \<in> a_tasks a \<Longrightarrow> a_state a t = Running \<Longrightarrow> a_cur a = Some t" "idle_task \<notin> a_tasks a"
    using a_inv_running [OF inv] a_inv_idle [OF inv] by auto
  have fields: "a_tasks a1 = a_tasks a" "a_prio a1 = a_prio a" "a_level a1 = a_level a"
    by (auto simp: a1_def a_requeue_def a_level_def fun_eq_iff)
  have inv1: "a_inv a1"
    using inv a_inv_cur [OF inv] by (auto simp: a1_def intro!: a_inv_requeue)
  have st1: "a_state a1 t = (if t \<in> runnable a then Ready else a_state a t)" if "t \<in> a_tasks a" for t
  proof (cases "a_state a t = Running")
    case True
    then have "a_cur a = Some t" "t \<noteq> idle_task" using run that by auto
    then show ?thesis using True that by (simp add: a1_def a_requeue_def runnable_def)
  next
    case False
    then have "a_state a1 t = a_state a t" by (auto simp: a1_def a_requeue_def)
    then show ?thesis using False that by (cases "a_state a t") (simp_all add: runnable_def)
  qed
  have none: "a_state a1 t \<noteq> Running" if "t \<in> a_tasks a1" for t
    using that st1 [of t] fields(1) by (auto simp: runnable_def)
  have "queued (a_queue a1) = {t \<in> a_tasks a. a_state a1 t = Ready}"
    using a_inv_queue(1) [OF inv1] a_inv_level [OF inv1] by (auto simp: queued_def fields)
  also have "\<dots> = runnable a" using st1 by (auto simp: runnable_def split: if_splits)
  finally show thesis using that [OF inv1 none fields(1,2) _ pick a1_def] by simp
qed

lemma first_task_best:
  assumes "a_inv a" and "first_task (a_queue a) = Some t"
  shows "t \<in> queued (a_queue a)" and "u \<in> queued (a_queue a) \<Longrightarrow> a_prio a t \<le> a_prio a u"
proof -
  obtain p where p: "best_level (a_queue a) = Some p" "t = hd (a_queue a p)"
    using assms(2) by (auto simp: first_task_def)
  then have hd: "p < 32" "t \<in> set (a_queue a p)" "\<And>j. j < p \<Longrightarrow> a_queue a j = []"
    by (auto simp: best_level_Some)
  then show "t \<in> queued (a_queue a)" by (auto simp: queued_def)
  show "a_prio a t \<le> a_prio a u" if u: "u \<in> queued (a_queue a)" for u
  proof -
    obtain j where j: "u \<in> set (a_queue a j)" using u by (auto simp: queued_def)
    then have "p \<le> j" using hd(3) [of j] by (cases "j < p") auto
    moreover have "a_level a t = p" "a_level a u = j" using hd(2) j by (simp_all add: a_inv_queue(1) [OF assms(1)])
    ultimately show ?thesis by (simp add: a_level_def word_le_nat_alt)
  qed
qed

lemma first_task_None: "a_inv a \<Longrightarrow> first_task (a_queue a) = None \<longleftrightarrow> queued (a_queue a) = {}"
  by (auto simp: first_task_def best_level_None queued_def)

lemma pick_best:
  assumes inv: "a_inv a"
  shows "\<exists>t. a_cur (a_pick a) = Some t \<and> a_state (a_pick a) t = Running \<and> a_slice (a_pick a) = 0 \<and>
    (if runnable a = {} then t = idle_task
     else t \<in> runnable a \<and> (\<forall>u \<in> runnable a. a_prio a t \<le> a_prio a u))"
proof -
  obtain a1 where a1: "a_inv a1" "a_prio a1 = a_prio a" "queued (a_queue a1) = runnable a"
    "a_pick a = a1\<lparr>a_queue := drop_first (a_queue a1),
       a_cur := Some (case first_task (a_queue a1) of None \<Rightarrow> idle_task | Some t \<Rightarrow> t), a_slice := 0,
       a_state := (a_state a1)((case first_task (a_queue a1) of None \<Rightarrow> idle_task | Some t \<Rightarrow> t) := Running)\<rparr>"
    by (rule a_pick_parts [OF inv])
  show ?thesis
  proof (cases "first_task (a_queue a1)")
    case None
    then show ?thesis using first_task_None [OF a1(1)] a1(3,4) by simp
  next
    case (Some t)
    note best = first_task_best [OF a1(1) Some, unfolded a1(2,3)]
    then show ?thesis using Some a1(4) by auto
  qed
qed

end
