(* ===== verification/Scheduler_Props.thy ===== *)
theory Scheduler_Props
  imports Scheduler
begin

text \<open>
  What the scheduler promises, stated over the code's operations: the simulation for whole runs of
  calls, strict priority of \<open>pick_next\<close>, the ten-tick round robin, that a switch request is never
  missed (and that \<open>reprioritize\<close> makes none), the mailbox, balanced guards, and what happens to
  tasks whose priority has no level or that are blocked while queued.
\<close>

section \<open>Helpers\<close>

lemma best_level_0 [simp]: "q 0 \<noteq> [] \<Longrightarrow> best_level q = Some 0"
  by (simp add: best_level_Some)

text \<open>Two tasks of priority 0, added to a fresh scheduler.\<close>

lemmas small_run_simps = asched_new_def a_preempt_def a_enqueue_def a_requeue_def a_level_def a_pick_def
  idle_task_def kIdlePrio_def first_task_def drop_first_def cur_runs_def Let_def

lemma level_below_empty:
  assumes inv: "a_inv a" and top: "\<forall>u \<in> runnable a. a_prio a c \<le> a_prio a u" and j: "j < a_level a c"
  shows "a_queue a j = []"
proof (rule ccontr)
  assume "a_queue a j \<noteq> []"
  then obtain u where u: "u \<in> set (a_queue a j)" by (cases "a_queue a j") auto
  then have "u \<in> runnable a" "a_level a u = j" by (auto simp: a_inv_queue(1) [OF inv] runnable_def)
  then show False using top j by (auto simp: a_level_def word_le_nat_alt)
qed

lemma requeue_first:
  assumes inv: "a_inv a" and c: "c \<in> a_tasks a" "a_state a c = Running"
    and top: "\<forall>u \<in> runnable a. a_prio a c \<le> a_prio a u"
  shows "first_task (a_queue (a_requeue c a)) = Some c"
proof -
  have "best_level (a_queue (a_requeue c a)) = Some (a_level a c)"
    using a_inv_level [OF inv c(1)] level_below_empty [OF inv top] by (simp add: best_level_Some a_requeue_def)
  then show ?thesis by (simp add: first_task_def a_requeue_def)
qed

lemma pick_keeps_running:
  assumes inv: "a_inv a" and c: "c \<in> a_tasks a" "a_state a c = Running"
    and top: "\<forall>u \<in> runnable a. a_prio a c \<le> a_prio a u"
  shows "a_cur (a_pick a) = Some c"
proof -
  have "a_cur a = Some c" "c \<noteq> idle_task" using a_inv_running [OF inv c] a_inv_idle [OF inv] c by auto
  then show ?thesis using c requeue_first [OF assms] by (simp add: a_pick_def Let_def)
qed

text \<open>A running task that is not picked waits at the head of its level.\<close>

lemma pick_preempted_first:
  assumes inv: "a_inv a" and c: "c \<in> a_tasks a" "a_state a c = Running" and other: "a_cur (a_pick a) \<noteq> Some c"
  shows "\<exists>cs. a_queue (a_pick a) (a_level a c) = c # cs"
proof -
  have cur: "a_cur a = Some c" "c \<noteq> idle_task" using a_inv_running [OF inv c] a_inv_idle [OF inv] c by auto
  let ?q = "a_queue (a_requeue c a)"
  have pick: "a_queue (a_pick a) = drop_first ?q"
    "a_cur (a_pick a) = Some (case first_task ?q of None \<Rightarrow> idle_task | Some t \<Rightarrow> t)"
    using cur c by (simp_all add: a_pick_def Let_def)
  have q: "?q (a_level a c) = c # a_queue a (a_level a c)" by (simp add: a_requeue_def)
  have "best_level ?q \<noteq> Some (a_level a c)" using other pick(2) q by (auto simp: first_task_def)
  then show ?thesis using q unfolding pick(1) by (auto simp: drop_first_def split: option.splits)
qed

text \<open>Two tasks of priority 0 on a fresh scheduler, the first one picked.\<close>

abbreviation idle_span :: span where
  "idle_span \<equiv> \<lparr>span_data = 0, span_size = 32\<rparr>"

definition two_up :: "sched_op list" where
  "two_up = [OpAdd (Some 1), OpAdd (Some 2), OpPick]"

definition two :: asched where
  "two = snd (a_ops two_up asched_new)"

lemma two_eq:
  "two = asched_new\<lparr>a_tasks := {1, 2}, a_state := (\<lambda>_. Ready)(1 := Running),
     a_queue := (\<lambda>_. [])(0 := [2]), a_cur := Some 1\<rparr>"
  by (rule asched.equality)
    (auto simp: two_def two_up_def small_run_simps)

lemma two_run:
  "\<exists>s. run_ops two_up (Scheduler_new idle_span) = Some ([Done, Done, Picked 1], s) \<and> refines s two \<and> a_inv two"
proof -
  have ok: "ops_ok two_up asched_new" by (simp add: two_up_def small_run_simps)
  have res: "fst (a_ops two_up asched_new) = [Done, Done, Picked 1]" by (simp add: two_up_def small_run_simps)
  show ?thesis using sim_ops [OF new_refines ok, of idle_span] unfolding res two_def by blast
qed

section \<open>Simulation and priority\<close>

text \<open>C1: refinement. Every run of proper calls of the code returns (no list walk runs away, no array
  is indexed out of range), gives call by call the results of the abstract scheduler, which keeps one
  plain queue per priority, and ends in a state that stands for the abstract one, in which the queues
  again hold exactly the ready tasks and only the current task runs.\<close>

theorem scheduler_refines_spec:
  assumes "refines s a" and "a_inv a" and "ops_ok ops a"
  shows "\<exists>s'. run_ops ops s = Some (fst (a_ops ops a), s') \<and> refines s' (snd (a_ops ops a))
    \<and> a_inv (snd (a_ops ops a))"
  by (rule sim_ops [OF assms])

theorem scheduler_refines_spec_witness:
  "\<exists>s'. run_ops [OpAdd (Some 1), OpAdd (Some 2), OpPick, OpYield, OpPick, OpBlock (Some 2), OpPick, OpReady (Some 2)]
     (Scheduler_new \<lparr>span_data = 0, span_size = 32\<rparr>)
     = Some ([Done, Done, Picked 1, Done, Picked 2, Done, Picked 1, Done], s')"
proof -
  let ?ops = "[OpAdd (Some 1), OpAdd (Some 2), OpPick, OpYield, OpPick, OpBlock (Some 2), OpPick, OpReady (Some 2)]"
  have ok: "ops_ok ?ops asched_new" by (simp add: small_run_simps)
  have res: "fst (a_ops ?ops asched_new) = [Done, Done, Picked 1, Done, Picked 2, Done, Picked 1, Done]"
    by (simp add: small_run_simps)
  show ?thesis using scheduler_refines_spec [OF new_refines ok] unfolding res by blast
qed

text \<open>C9: \<open>pick_next\<close> is strict: the idle task only when no task is ready or running; otherwise a
  task that no other runnable task outranks, now running, with a fresh slice. The running task keeps
  the processor unless it is outranked, and if it is, it is the first of its level in the new queues.\<close>

theorem pick_next_highest:
  assumes r: "refines s a" and inv: "a_inv a"
  shows "\<exists>t s'. pick_next s = (t, s') \<and> refines s' (a_pick a) \<and> current s' = Some t
    \<and> tcb_state (tcbs s' t) = Running \<and> ticks_served s' = 0
    \<and> (if runnable a = {} then t = idle_task
       else t \<in> runnable a \<and> (\<forall>u \<in> runnable a. task_priority (tcbs s t) \<le> task_priority (tcbs s u)))
    \<and> (\<forall>c \<in> a_tasks a. tcb_state (tcbs s c) = Running \<longrightarrow>
         ((\<forall>u \<in> runnable a. task_priority (tcbs s c) \<le> task_priority (tcbs s u)) \<longrightarrow> t = c)
         \<and> (t \<noteq> c \<longrightarrow> (\<exists>cs. a_queue (a_pick a) (prio_level s c) = c # cs)))"
proof -
  obtain t s' where p: "pick_next s = (t, s')" by (meson surj_pair)
  have sim: "refines s' (a_pick a)" "a_cur (a_pick a) = Some t" using sim_pick [OF r inv] p by simp_all
  obtain t' where best: "a_cur (a_pick a) = Some t'" "a_state (a_pick a) t' = Running" "a_slice (a_pick a) = 0"
    "if runnable a = {} then t' = idle_task
     else t' \<in> runnable a \<and> (\<forall>u \<in> runnable a. a_prio a t' \<le> a_prio a u)"
    using pick_best [OF inv] by blast
  have t': "t' = t" using best(1) sim(2) by simp
  have fields: "current s' = Some t" "tcb_state (tcbs s' t) = Running" "ticks_served s' = 0"
    using sim best(2,3) refines_cur [OF sim(1)] refines_state [OF sim(1), of t] t' by (auto simp: refines_def)
  have keep: "((\<forall>u \<in> runnable a. task_priority (tcbs s c) \<le> task_priority (tcbs s u)) \<longrightarrow> t = c)
       \<and> (t \<noteq> c \<longrightarrow> (\<exists>cs. a_queue (a_pick a) (prio_level s c) = c # cs))"
    if "c \<in> a_tasks a" "tcb_state (tcbs s c) = Running" for c
    using that pick_keeps_running [OF inv, of c] pick_preempted_first [OF inv, of c] sim(2)
      refines_prio [OF r] refines_state [OF r, of c] refines_level [OF r, of c] by auto
  have "if runnable a = {} then t = idle_task
      else t \<in> runnable a \<and> (\<forall>u \<in> runnable a. task_priority (tcbs s t) \<le> task_priority (tcbs s u))"
    using best(4) unfolding t' refines_prio [OF r] .
  then show ?thesis using p sim(1) fields keep by blast
qed

theorem pick_next_highest_witness:
  "\<exists>s'. pick_next (Scheduler_new \<lparr>span_data = 0, span_size = 32\<rparr>) = (idle_task, s') \<and> current s' = Some idle_task"
proof -
  have "runnable asched_new = {}" by (simp add: runnable_def asched_new_def)
  then show ?thesis
    using pick_next_highest [OF new_refines, of "\<lparr>span_data = 0, span_size = 32\<rparr>"] by auto
qed

section \<open>Time slices\<close>

fun ticks :: "nat \<Rightarrow> 'a sched_scheme \<Rightarrow> 'a sched_scheme option" where
  "ticks 0 s = Some s"
| "ticks (Suc n) s = ticks n s \<bind> on_tick"

lemma on_tick_sim:
  "refines s a \<Longrightarrow> a_inv a \<Longrightarrow> cur_runs a \<Longrightarrow> \<exists>s'. on_tick s = Some s' \<and> refines s' (a_op OpTick a)"
  using sim_tick [of "sched_lock s" a]
  by (auto simp: on_tick_def CriticalGuard_opt_def simp del: a_op.simps)

lemma ticks_count:
  assumes "refines s a" and "a_inv a" and "a_cur a = Some c" and "c \<noteq> idle_task"
    and "a_state a c = Running" and "a_slice a = 0" and "n < 10"
  shows "\<exists>s'. ticks n s = Some s' \<and> refines s' (a\<lparr>a_slice := of_nat n\<rparr>)"
  using assms(7)
proof (induction n)
  case 0
  then show ?case using assms(1,6) by (simp add: refines_def)
next
  case (Suc n)
  then obtain s1 where s1: "ticks n s = Some s1" "refines s1 (a\<lparr>a_slice := of_nat n\<rparr>)" by auto
  have "cur_runs (a\<lparr>a_slice := of_nat n\<rparr>)" using assms(3,5) by (simp add: cur_runs_def)
  then obtain s2 where s2: "on_tick s1 = Some s2" "refines s2 (a_op OpTick (a\<lparr>a_slice := of_nat n\<rparr>))"
    using on_tick_sim [OF s1(2)] assms(2) by (auto simp: a_inv_cong)
  have "(of_nat n + 1 :: u32) < kSliceTicks"
    using Suc.prems by (simp add: kSliceTicks_def word_less_nat_alt unat_word_ariths unat_of_nat)
  then have "a_op OpTick (a\<lparr>a_slice := of_nat n\<rparr>) = a\<lparr>a_slice := of_nat (Suc n)\<rparr>"
    using assms(3,4) by (simp add: add.commute)
  then show ?case using s1(1) s2 by auto
qed

text \<open>The running task at the end of its slice, with others of its priority waiting and nobody better.\<close>

lemma expired_pick:
  assumes inv: "a_inv a" and c: "c \<in> a_tasks a" "a_state a c = Running"
    and top: "\<forall>u \<in> runnable a. a_prio a c \<le> a_prio a u" and wait: "a_queue a (a_level a c) = t # ts"
  defines "a' \<equiv> (a_enqueue c (a\<lparr>a_slice := 0\<rparr>))\<lparr>a_pend := True\<rparr>"
  shows "a_inv a'" and "a_cur (a_pick a') = Some t"
    and "a_queue (a_pick a') = (a_queue a)(a_level a c := ts @ [c])"
proof -
  show "a_inv a'" using inv c by (auto simp: a'_def a_inv_cong intro!: a_inv_enqueue)
  have low: "a_queue a j = []" if "j < a_level a c" for j
    by (rule level_below_empty [OF inv top that])
  have q: "a_queue a' = (a_queue a)(a_level a c := t # ts @ [c])"
    using wait by (simp add: a'_def a_enqueue_def a_level_def)
  have best: "best_level (a_queue a') = Some (a_level a c)"
    unfolding q using low a_inv_level [OF inv c(1)] by (simp add: best_level_Some)
  have st: "a_cur a' = a_cur a" "a_cur a = Some c" "a_state a' c = Ready"
    using a_inv_running [OF inv c] by (simp_all add: a'_def a_enqueue_def)
  show "a_cur (a_pick a') = Some t" "a_queue (a_pick a') = (a_queue a)(a_level a c := ts @ [c])"
    using st best q by (simp_all add: a_pick_def Let_def first_task_def drop_first_def)
qed

text \<open>C16: round robin. While a task runs, nine ticks only count. The tenth puts it behind the others
  of its priority and asks for a switch, and the next pick takes the one that waited longest; with
  nobody waiting at its priority the tenth tick only restarts the count.\<close>

theorem tick_round_robin:
  assumes r: "refines s a" and inv: "a_inv a" and c: "current s = Some c" "c \<noteq> idle_task"
    and run: "tcb_state (tcbs s c) = Running" and fresh: "ticks_served s = 0"
    and top: "\<forall>u \<in> runnable a. task_priority (tcbs s c) \<le> task_priority (tcbs s u)"
  shows "(\<forall>n < 10. \<exists>s'. ticks n s = Some s' \<and> refines s' (a\<lparr>a_slice := of_nat n\<rparr>)) \<and>
    (case a_queue a (prio_level s c) of
       [] \<Rightarrow> \<exists>s'. ticks 10 s = Some s' \<and> refines s' a
     | t # ts \<Rightarrow> \<exists>s' s''. ticks 10 s = Some s' \<and> pendsv s' \<and> pick_next s' = (t, s'')
         \<and> levels s'' ((a_queue a)(prio_level s c := ts @ [c])))"
proof -
  have ac: "a_cur a = Some c" "a_state a c = Running" "a_slice a = 0" and lev: "prio_level s c = a_level a c"
    using r c run fresh refines_level [OF r, of c] by (auto simp: refines_def)
  have ct: "c \<in> a_tasks a" using a_inv_cur [OF inv ac(1) c(2)] .
  have counts: "\<exists>s'. ticks n s = Some s' \<and> refines s' (a\<lparr>a_slice := of_nat n\<rparr>)" if "n < 10" for n
    by (rule ticks_count [OF r inv ac(1) c(2) ac(2,3) that])
  obtain s9 where s9: "ticks 9 s = Some s9" "refines s9 (a\<lparr>a_slice := 9\<rparr>)" using counts [of 9] by auto
  have inv9: "a_inv (a\<lparr>a_slice := 9\<rparr>)" using inv by (simp add: a_inv_cong)
  have "cur_runs (a\<lparr>a_slice := 9\<rparr>)" using ac by (simp add: cur_runs_def)
  from on_tick_sim [OF s9(2) inv9 this] obtain s10 where
    s10: "on_tick s9 = Some s10" "refines s10 (a_op OpTick (a\<lparr>a_slice := 9\<rparr>))" by blast
  have t10: "ticks 10 s = Some s10" using s9(1) s10(1) by (simp add: numeral_eq_Suc)
  have full: "\<not> (9 + 1 :: u32) < kSliceTicks" by (simp add: kSliceTicks_def)
  show ?thesis
  proof (intro conjI allI impI)
    show "\<exists>s'. ticks n s = Some s' \<and> refines s' (a\<lparr>a_slice := of_nat n\<rparr>)" if "n < 10" for n
      by (rule counts [OF that])
    show "case a_queue a (prio_level s c) of
       [] \<Rightarrow> \<exists>s'. ticks 10 s = Some s' \<and> refines s' a
     | t # ts \<Rightarrow> \<exists>s' s''. ticks 10 s = Some s' \<and> pendsv s' \<and> pick_next s' = (t, s'')
         \<and> levels s'' ((a_queue a)(prio_level s c := ts @ [c]))"
    proof (cases "a_queue a (a_level a c)")
      case Nil
      then have "a_op OpTick (a\<lparr>a_slice := 9\<rparr>) = a"
        using ac c(2) full by (simp add: a_level_def)
      then show ?thesis using Nil t10 s10(2) lev by simp
    next
      case (Cons t ts)
      let ?a = "(a_enqueue c (a\<lparr>a_slice := 0\<rparr>))\<lparr>a_pend := True\<rparr>"
      have a10: "a_op OpTick (a\<lparr>a_slice := 9\<rparr>) = ?a"
        using Cons ac c(2) full by (simp add: a_level_def)
      have "\<forall>u \<in> runnable a. a_prio a c \<le> a_prio a u" using top refines_prio [OF r] by simp
      note rot = expired_pick [OF inv ct ac(2) this Cons]
      have r10: "refines s10 ?a" using s10(2) unfolding a10 .
      obtain x s'' where pn: "pick_next s10 = (x, s'')" by (meson surj_pair)
      then have "x = t" "refines s'' (a_pick ?a)" using sim_pick [OF r10 rot(1)] rot(2) by simp_all
      moreover have "pendsv s10" using r10 by (simp add: refines_def)
      ultimately show ?thesis
        using Cons t10 pn rot(3) lev by (auto simp: refines_def)
    qed
  qed
qed

theorem tick_round_robin_witness:
  "\<exists>s s' s''. run_ops two_up (Scheduler_new idle_span) = Some ([Done, Done, Picked 1], s)
     \<and> ticks 10 s = Some s' \<and> pick_next s' = (2, s'')"
proof -
  obtain s where s: "run_ops two_up (Scheduler_new idle_span) = Some ([Done, Done, Picked 1], s)"
    "refines s two" "a_inv two" using two_run by blast
  have f: "current s = Some 1" "tcb_state (tcbs s 1) = Running" "ticks_served s = 0" "prio_level s 1 = 0"
    using refines_cur [OF s(2)] refines_state [OF s(2), of 1] refines_level [OF s(2), of 1] s(2)
    by (simp_all add: two_eq asched_new_def a_level_def idle_task_def refines_def)
  have p: "task_priority (tcbs s u) = 0" if "u \<in> runnable two" for u
    using that refines_prio [OF s(2), of u] by (auto simp: two_eq asched_new_def idle_task_def runnable_def)
  have top: "\<forall>u \<in> runnable two. task_priority (tcbs s 1) \<le> task_priority (tcbs s u)"
    using p [of 1] by (simp add: runnable_def two_eq)
  have "a_queue two 0 = [2]" by (simp add: two_eq)
  then show ?thesis
    using tick_round_robin [OF s(2,3) f(1) _ f(2,3) top] s(1) f(4) by (auto simp: idle_task_def)
qed

section \<open>Switch requests\<close>

text \<open>Nobody who is queued outranks the current task.\<close>

definition served :: "asched \<Rightarrow> bool" where
  "served a \<longleftrightarrow> (\<forall>c t. a_cur a = Some c \<longrightarrow> t \<in> queued (a_queue a) \<longrightarrow> a_prio a c \<le> a_prio a t)"

definition settled :: "asched \<Rightarrow> bool" where
  "settled a \<longleftrightarrow> a_prio a idle_task = kIdlePrio \<and> (a_pend a \<or> served a)"

lemma queued_iff: "x \<in> queued q \<longleftrightarrow> (\<exists>i < 32. x \<in> set (q i))"
  by (auto simp: queued_def)

lemma queued_enqueue:
  "a_level a t < 32 \<Longrightarrow> queued (a_queue (a_enqueue t a)) = insert t (queued (a_queue a))"
proof -
  assume l: "a_level a t < 32"
  have "queued (q(p := q p @ [t])) = insert t (queued q)" if "p < 32" for q p
  proof -
    have "set ((q(p := q p @ [t])) i) = set (q i) \<union> (if i = p then {t} else {})" for i by simp
    then show ?thesis using that by (auto simp: queued_def split: if_splits)
  qed
  then show ?thesis using l by (simp add: a_enqueue_def)
qed

lemma settled_preempt:
  assumes "settled a" and "a_level a t < 32"
  shows "settled (a_preempt t (a_enqueue t a))"
proof -
  have f: "a_prio (a_enqueue t a) = a_prio a" "a_cur (a_enqueue t a) = a_cur a" "a_pend (a_enqueue t a) = a_pend a"
    by (simp_all add: a_enqueue_def)
  show ?thesis
    using assms(1) queued_enqueue [OF assms(2)] unfolding settled_def served_def a_preempt_def
    by (auto simp: f not_less)
qed

lemma settled_mail: "settled (a\<lparr>a_mail := m\<rparr>) = settled a"
  by (simp add: settled_def served_def)

lemma settled_wake: "settled a \<Longrightarrow> a_level a t < 32 \<Longrightarrow> settled (a_wake t a)"
  by (simp add: a_wake_def settled_preempt)

lemma queued_drop_first: "queued (drop_first q) \<subseteq> queued q"
proof
  fix x
  assume "x \<in> queued (drop_first q)"
  then obtain i where "i < 32" "x \<in> set (drop_first q i)" by (auto simp: queued_iff)
  moreover have "set (drop_first q i) \<subseteq> set (q i)"
    by (auto simp: drop_first_def best_level_Some split: option.splits intro: list.set_sel(2))
  ultimately show "x \<in> queued q" by (auto simp: queued_iff)
qed

lemma served_pick:
  assumes inv: "a_inv a" and idle: "a_prio a idle_task = kIdlePrio"
  shows "served (a_pick a)"
proof -
  obtain a1 where a1: "a_inv a1" "a_prio a1 = a_prio a" "queued (a_queue a1) = runnable a"
    "a_pick a = a1\<lparr>a_queue := drop_first (a_queue a1),
       a_cur := Some (case first_task (a_queue a1) of None \<Rightarrow> idle_task | Some t \<Rightarrow> t), a_slice := 0,
       a_state := (a_state a1)((case first_task (a_queue a1) of None \<Rightarrow> idle_task | Some t \<Rightarrow> t) := Running)\<rparr>"
    by (rule a_pick_parts [OF inv])
  have sub: "queued (a_queue (a_pick a)) \<subseteq> queued (a_queue a1)" using queued_drop_first by (simp add: a1(4))
  show ?thesis
  proof (cases "first_task (a_queue a1)")
    case None
    then have "queued (a_queue (a_pick a)) = {}" using first_task_None [OF a1(1)] sub by auto
    then show ?thesis by (simp add: served_def)
  next
    case (Some t)
    have cur: "a_cur (a_pick a) = Some t" "a_prio (a_pick a) = a_prio a1" using Some by (simp_all add: a1(4))
    show ?thesis
      unfolding served_def cur using first_task_best(2) [OF a1(1) Some] sub by auto
  qed
qed

lemma settled_op:
  assumes st: "settled a" and inv: "a_inv a" and ok: "op_ok op a" and "\<nexists>t p. op = OpReprio t p"
  shows "settled (a_op op a)"
proof (cases op)
  case (OpAdd t)
  then show ?thesis
    using st ok settled_preempt [of "a\<lparr>a_tasks := insert (the t) (a_tasks a)\<rparr>" "the t"]
    by (cases t) (simp_all add: settled_def served_def a_level_def)
next
  case OpPick
  have "a_prio (a_pick a) = a_prio a" by (rule a_pick_parts [OF inv]) simp
  then show ?thesis using OpPick st served_pick [OF inv] by (simp add: settled_def)
next
  case (OpReady t)
  then show ?thesis using st ok settled_wake a_inv_level [OF inv] by (cases t) auto
next
  case (OpNotify t v)
  then show ?thesis
    using st ok settled_wake [of "a\<lparr>a_mail := (a_mail a)(the t := Some v)\<rparr>" "the t"] a_inv_level [OF inv, of "the t"]
    by (cases t) (auto simp: settled_mail a_level_def)
qed (use assms in \<open>auto simp: settled_def served_def a_enqueue_def split: option.splits\<close>)

text \<open>C15: a switch request is never missed. If every ready task that outranks the current one has a
  switch pending before a proper call other than \<open>reprioritize\<close>, so it has after it; and right after
  \<open>pick_next\<close> no ready task outranks the current one at all, pending bit or not.\<close>

theorem switch_never_missed:
  assumes r: "refines s a" and inv: "a_inv a" and st: "settled a" and ok: "op_ok op a"
    and other: "\<nexists>t p. op = OpReprio t p"
  shows "\<exists>s'. run_op op s = Some (a_res op a, s') \<and> settled (a_op op a)
    \<and> (\<forall>c t. (op = OpPick \<or> \<not> pendsv s') \<longrightarrow> current s' = Some c \<longrightarrow> t \<in> a_tasks (a_op op a) \<longrightarrow>
         tcb_state (tcbs s' t) = Ready \<longrightarrow> task_priority (tcbs s' c) \<le> task_priority (tcbs s' t))"
proof -
  obtain s' where s': "run_op op s = Some (a_res op a, s')" "refines s' (a_op op a)"
    using sim_op [OF r inv ok] by blast
  have inv': "a_inv (a_op op a)" by (rule a_inv_op [OF inv ok])
  have st': "settled (a_op op a)" by (rule settled_op [OF st inv ok other])
  have pick: "op = OpPick \<Longrightarrow> served (a_op op a)" using served_pick [OF inv] st by (simp add: settled_def)
  have "task_priority (tcbs s' c) \<le> task_priority (tcbs s' t)"
    if "op = OpPick \<or> \<not> pendsv s'" "current s' = Some c" "t \<in> a_tasks (a_op op a)" "tcb_state (tcbs s' t) = Ready" for c t
  proof -
    have "a_pend (a_op op a) = pendsv s'" using s'(2) by (simp add: refines_def)
    then have "served (a_op op a)" using that(1) pick st' by (auto simp: settled_def)
    moreover have "t \<in> queued (a_queue (a_op op a))"
      using that a_inv_level [OF inv' that(3)] refines_state [OF s'(2), of t]
      by (auto simp: queued_def a_inv_queue(1) [OF inv'])
    ultimately have "a_prio (a_op op a) c \<le> a_prio (a_op op a) t"
      using that(2) refines_cur [OF s'(2)] by (simp add: served_def)
    then show ?thesis by (simp add: refines_prio [OF s'(2)])
  qed
  then show ?thesis using s'(1) st' by blast
qed

theorem switch_never_missed_witness:
  "\<exists>s s'. run_ops two_up (Scheduler_new idle_span) = Some ([Done, Done, Picked 1], s)
     \<and> run_op OpPick s = Some (Picked 1, s')"
proof -
  obtain s where s: "run_ops two_up (Scheduler_new idle_span) = Some ([Done, Done, Picked 1], s)"
    "refines s two" "a_inv two" using two_run by blast
  have "settled two" by (auto simp: settled_def served_def two_eq asched_new_def queued_def idle_task_def kIdlePrio_def)
  moreover have "a_res OpPick two = Picked 1" by (simp add: two_eq small_run_simps)
  ultimately show ?thesis using switch_never_missed [OF s(2,3), of OpPick] s(1) by auto
qed

section \<open>Frames: interrupts, mail\<close>

text \<open>\<open>reprioritize\<close> and the tick body on the fields that the guards and the mailbox care about.\<close>

lemma reprio_frame:
  assumes "reprioritize_body t p s = Some s'"
  shows "basepri s' = basepri s" "sched_driver s' = sched_driver s" "pendsv s' = pendsv s"
    "current s' = current s"
  using assms by (auto simp: reprioritize_body_def Let_def set_priority_def split: if_splits bind_splits)

lemma tick_frame:
  assumes "on_tick_body s = Some s'"
  shows "basepri s' = basepri s" "sched_driver s' = sched_driver s"
  using assms
  by (auto simp: on_tick_body_def Let_def request_switch_def set_tcb_state_def split: if_splits option.splits)

lemma pick_frame:
  "basepri (snd (pick_next_locked s)) = basepri s" "sched_driver (snd (pick_next_locked s)) = sched_driver s"
proof -
  define s1 where "s1 = (case current s of None \<Rightarrow> s
     | Some c \<Rightarrow> if c \<noteq> idle_task \<and> tcb_state (tcbs s c) = Running then sched_push_front c s else s)"
  have "basepri s1 = basepri s" "sched_driver s1 = sched_driver s" by (auto simp: s1_def split: option.splits)
  then show "basepri (snd (pick_next_locked s)) = basepri s" "sched_driver (snd (pick_next_locked s)) = sched_driver s"
    by (simp_all add: pick_next_locked_def s1_def [symmetric] Let_def case_prod_beta set_tcb_state_def)
qed

lemma guard_same:
  assumes "unat (nest (sched_driver s)) + 1 < 2 ^ 32"
    and "basepri s' = basepri (sched_lock s)" and "sched_driver s' = sched_driver (sched_lock s)"
  shows "irq_same s (sched_unlock s')"
  using guard_irq_same [OF assms(1)] assms(2,3) by (simp add: irq_same_def)

lemma ready_irq:
  assumes "unat (nest (sched_driver s)) + 1 < 2 ^ 32"
  shows "irq_same s (sched_ready t s)"
  using assms
  by (auto simp: sched_ready_def CriticalGuard_def Let_def request_switch_def intro!: guard_same split: option.splits)

lemma lock_nest: "nest (sched_driver (sched_lock s)) = nest (sched_driver s) + 1"
  by (simp add: sched_lock_def crit_lock_def)

lemma notify_irq:
  assumes "unat (nest (sched_driver s)) + 2 < 2 ^ 32"
  shows "irq_same s (snd (sched_notify t v s))"
proof -
  have 1: "unat (nest (sched_driver s)) + 1 < 2 ^ 32" using assms by linarith
  show ?thesis
  proof (cases "t = None \<or> t = Some idle_task")
    case True
    then show ?thesis using 1 by (auto simp: sched_notify_def CriticalGuard_ret_def intro!: guard_same)
  next
    case False
    then obtain u where u: "t = Some u" "u \<noteq> idle_task" by auto
    define s1 where "s1 = (sched_lock s)\<lparr>tcbs := (tcbs s)(u := (tcbs s u)\<lparr>notify_word := v, has_notify := True\<rparr>)\<rparr>"
    let ?s2 = "if tcb_state (tcbs s u) = Blocked then sched_ready (Some u) s1 else s1"
    have "unat (nest (sched_driver s1)) + 1 < 2 ^ 32"
      using assms unat_plus_1 [OF 1] by (simp add: s1_def lock_nest)
    from ready_irq [OF this, of "Some u"] have "irq_same (sched_lock s) ?s2"
      by (auto simp: irq_same_def s1_def)
    from guard_irq_same [OF 1 this] show ?thesis
      using u by (simp add: sched_notify_def CriticalGuard_ret_def Let_def s1_def split: if_splits)
  qed
qed

text \<open>Whatever a scheduler call does, it comes back with BASEPRI and the nesting of the driver's lock
  as it found them, also when it is called inside an outer critical section, and on every early return.\<close>

theorem scheduler_calls_balance_guards:
  assumes "run_op op s = Some (r, s')" and n: "unat (nest (sched_driver s)) + 2 < 2 ^ 32"
  shows "irq_same s s'"
proof -
  have 1: "unat (nest (sched_driver s)) + 1 < 2 ^ 32" using n by linarith
  show ?thesis
  proof (cases op)
    case OpPick
    then show ?thesis
      using assms(1) pick_frame [of "sched_lock s"]
      by (auto simp: pick_next_def CriticalGuard_ret_def case_prod_beta intro!: guard_same [OF 1])
  next
    case (OpReprio t p)
    then show ?thesis
      using assms(1) by (auto simp: reprioritize_def CriticalGuard_opt_def reprio_frame intro!: guard_same [OF 1])
  next
    case OpTick
    then show ?thesis
      using assms(1) by (auto simp: on_tick_def CriticalGuard_opt_def tick_frame intro!: guard_same [OF 1])
  next
    case (OpNotify t v)
    then show ?thesis using assms(1) notify_irq [OF n, of t v] by (auto simp: case_prod_beta)
  next
    case (OpReady t)
    then show ?thesis using assms(1) ready_irq [OF 1, of t] by simp
  next
    case OpWaitNotify
    then show ?thesis
      using assms(1)
      by (auto simp: sched_wait_notify_def CriticalGuard_ret_def Let_def split: option.splits if_splits intro!: guard_same [OF 1])
  qed (use assms(1) in \<open>auto simp: sched_add_def sched_block_def sched_yield_def CriticalGuard_def Let_def
      request_switch_def set_tcb_state_def split: option.splits intro!: guard_same [OF 1]\<close>)
qed

theorem scheduler_calls_balance_guards_witness:
  "irq_same (Scheduler_new idle_span) (sched_add (Some 1) (Scheduler_new idle_span))"
  using scheduler_calls_balance_guards [of "OpAdd (Some 1)" "Scheduler_new idle_span"]
  by (simp add: Scheduler_new_def crit_new_def)

lemma mail_push [simp]:
  "mail_of (tcbs (sched_push_back t s) u) = mail_of (tcbs s u)"
  "mail_of (tcbs (sched_push_front t s) u) = mail_of (tcbs s u)"
  "mail_of (tcbs (set_tcb_state t v s) u) = mail_of (tcbs s u)"
  "mail_of (tcbs (set_priority t p s) u) = mail_of (tcbs s u)"
  by (auto simp: sched_push_back_def sched_push_front_def set_tcb_state_def set_priority_def Let_def
      split: prod.splits)

lemma mail_ready [simp]: "mail_of (tcbs (sched_ready t s) u) = mail_of (tcbs s u)"
  by (auto simp: sched_ready_def CriticalGuard_def Let_def request_switch_def split: option.splits)

lemma mail_pick: "mail_of (tcbs (snd (pick_next_locked s)) u) = mail_of (tcbs s u)"
  by (simp add: pick_next_locked_def Let_def case_prod_beta split: option.splits)

lemma mail_reprio: "reprioritize_body t p s = Some s' \<Longrightarrow> mail_of (tcbs s' u) = mail_of (tcbs s u)"
  by (auto simp: reprioritize_body_def Let_def split: if_splits bind_splits)

lemma mail_tick: "on_tick_body s = Some s' \<Longrightarrow> mail_of (tcbs s' u) = mail_of (tcbs s u)"
  by (auto simp: on_tick_body_def Let_def request_switch_def split: if_splits option.splits)

lemma mail_notify:
  "mail_of (tcbs (snd (sched_notify t v s)) u) =
     (if t = Some u \<and> u \<noteq> idle_task then Some v else mail_of (tcbs s u))"
  by (auto simp: sched_notify_def CriticalGuard_ret_def Let_def split: option.splits)

lemma mail_wait:
  "mail_of (tcbs (snd (sched_wait_notify s)) u) = (if current s = Some u then None else mail_of (tcbs s u))"
  "fst (sched_wait_notify s) = (case current s of None \<Rightarrow> Inl TimedOut
     | Some c \<Rightarrow> (case mail_of (tcbs s c) of None \<Rightarrow> Inl TimedOut | Some v \<Rightarrow> Inr v))"
  "current (snd (sched_wait_notify s)) = current s"
  by (auto simp: sched_wait_notify_def CriticalGuard_ret_def Let_def mail_of_def split: option.splits)

lemma mail_other_ops:
  assumes "run_op op s = Some (r, s')" and "\<forall>v. op \<noteq> OpNotify (Some t) v"
    and "op = OpWaitNotify \<longrightarrow> current s \<noteq> Some t"
  shows "mail_of (tcbs s' t) = mail_of (tcbs s t)"
proof (cases op)
  case OpPick
  then show ?thesis
    using assms(1) mail_pick [of "sched_lock s" t]
    by (auto simp: pick_next_def CriticalGuard_ret_def case_prod_beta)
next
  case (OpReprio u p)
  then show ?thesis
    using assms(1) mail_reprio [of u p "sched_lock s" _ t]
    by (auto simp: reprioritize_def CriticalGuard_opt_def)
next
  case OpTick
  then show ?thesis
    using assms(1) mail_tick [of "sched_lock s" _ t] by (auto simp: on_tick_def CriticalGuard_opt_def)
next
  case (OpNotify u v)
  then show ?thesis using assms mail_notify [of u v s t] by (auto simp: case_prod_beta)
next
  case OpWaitNotify
  then show ?thesis using assms mail_wait(1) [of s t] by (auto simp: case_prod_beta)
next
  case (OpReady u)
  then show ?thesis using assms(1) by auto
qed (use assms(1) in \<open>auto simp: sched_add_def sched_block_def sched_yield_def CriticalGuard_def Let_def
    request_switch_def split: option.splits\<close>)

text \<open>Calls that touch the mailbox of \<open>t\<close>.\<close>

fun mail_quiet :: "addr \<Rightarrow> sched_op list \<Rightarrow> 'a sched_scheme \<Rightarrow> bool" where
  "mail_quiet t [] s \<longleftrightarrow> True"
| "mail_quiet t (op # ops) s \<longleftrightarrow> (\<forall>v. op \<noteq> OpNotify (Some t) v) \<and> (op = OpWaitNotify \<longrightarrow> current s \<noteq> Some t)
     \<and> (case run_op op s of None \<Rightarrow> True | Some (r, s') \<Rightarrow> mail_quiet t ops s')"

lemma mail_quiet_run:
  "run_ops ops s = Some (rs, s') \<Longrightarrow> mail_quiet t ops s \<Longrightarrow> mail_of (tcbs s' t) = mail_of (tcbs s t)"
proof (induction ops arbitrary: s rs)
  case (Cons op ops)
  then obtain r s1 rs' where 1: "run_op op s = Some (r, s1)" "run_ops ops s1 = Some (rs', s')"
    by (auto split: bind_splits)
  then show ?case using Cons.IH [OF 1(2)] mail_other_ops [OF 1(1), of t] Cons.prems(2) by simp
qed simp

text \<open>The mailbox. A notification of a task is accepted and kept through any calls that neither
  notify it again nor let it read; when the task then reads as the current one it gets the last value
  sent, once: a second read times out. The idle task and \<open>nullptr\<close> are refused.\<close>

theorem mailbox_latest_value_once:
  assumes run: "run_ops ops (snd (sched_notify (Some t) v s)) = Some (rs, s1)"
    and quiet: "mail_quiet t ops (snd (sched_notify (Some t) v s))"
    and cur: "current s1 = Some t" and t: "t \<noteq> idle_task"
  shows "fst (sched_notify (Some t) v s)
    \<and> fst (sched_wait_notify s1) = Inr v
    \<and> fst (sched_wait_notify (snd (sched_wait_notify s1))) = Inl TimedOut
    \<and> \<not> fst (sched_notify None v s) \<and> \<not> fst (sched_notify (Some idle_task) v s)"
proof -
  have "mail_of (tcbs s1 t) = Some v"
    using mail_quiet_run [OF run quiet] mail_notify [of "Some t" v s t] t by simp
  then show ?thesis
    using cur t mail_wait(2) [of s1] mail_wait(2) [of "snd (sched_wait_notify s1)"]
      mail_wait(1) [of s1 t] mail_wait(3) [of s1]
    by (simp add: sched_notify_def CriticalGuard_ret_def Let_def)
qed

theorem mailbox_latest_value_once_witness:
  "\<exists>s. run_ops [OpPick] (snd (sched_notify (Some 1) 42 (sched_add (Some 1) (Scheduler_new idle_span)))) = Some ([Picked 1], s)
     \<and> fst (sched_wait_notify s) = Inr 42"
proof -
  let ?ops = "[OpAdd (Some 1), OpNotify (Some 1) 42, OpPick]"
  have ok: "ops_ok ?ops asched_new" by (simp add: small_run_simps a_wake_def)
  have res: "fst (a_ops ?ops asched_new) = [Done, Sent True, Picked 1]"
    "a_cur (snd (a_ops ?ops asched_new)) = Some 1" by (simp_all add: small_run_simps a_wake_def)
  obtain s where s: "run_ops ?ops (Scheduler_new idle_span) = Some ([Done, Sent True, Picked 1], s)"
    "refines s (snd (a_ops ?ops asched_new))"
    using sim_ops [OF new_refines ok, of idle_span] unfolding res by blast
  have cur: "current s = Some 1" using refines_cur [OF s(2)] res(2) by simp
  have run: "run_ops [OpPick] (snd (sched_notify (Some 1) 42 (sched_add (Some 1) (Scheduler_new idle_span)))) = Some ([Picked 1], s)"
    using s(1) by (auto simp: case_prod_beta simp del: a_op.simps)
  have "mail_quiet 1 [OpPick] (snd (sched_notify (Some 1) 42 (sched_add (Some 1) (Scheduler_new idle_span))))"
    by (simp add: case_prod_beta)
  from mailbox_latest_value_once [OF run this cur] show ?thesis using run by (simp add: idle_task_def)
qed

section \<open>Calls outside the contract\<close>

text \<open>\<open>reprioritize\<close> never asks for a switch and never changes who runs: lowering the running task
  below a ready one (or raising a ready one above it) leaves the ready task waiting although it
  outranks the current one and no switch is pending.\<close>

theorem reprioritize_requests_no_switch:
  "(\<forall>s' :: 'a sched_scheme. reprioritize t p s = Some s' \<longrightarrow> pendsv s' = pendsv s \<and> current s' = current s) \<and>
   (\<exists>s1. run_ops (two_up @ [OpReprio 1 5]) (Scheduler_new idle_span) = Some ([Done, Done, Picked 1, Done], s1)
     \<and> \<not> pendsv s1 \<and> current s1 = Some 1 \<and> tcb_state (tcbs s1 2) = Ready
     \<and> task_priority (tcbs s1 2) < task_priority (tcbs s1 1))"
proof (intro conjI allI impI)
  fix s' :: "'a sched_scheme"
  assume "reprioritize t p s = Some s'"
  then show "pendsv s' = pendsv s" "current s' = current s"
    by (auto simp: reprioritize_def CriticalGuard_opt_def reprio_frame)
next
  let ?ops = "two_up @ [OpReprio 1 5]"
  have ok: "ops_ok ?ops asched_new" by (simp add: two_up_def small_run_simps)
  have res: "fst (a_ops ?ops asched_new) = [Done, Done, Picked 1, Done]"
    "a_cur (snd (a_ops ?ops asched_new)) = Some 1" "\<not> a_pend (snd (a_ops ?ops asched_new))"
    "a_state (snd (a_ops ?ops asched_new)) 2 = Ready"
    "a_prio (snd (a_ops ?ops asched_new)) 2 < a_prio (snd (a_ops ?ops asched_new)) 1"
    by (simp_all add: two_up_def small_run_simps)
  obtain s1 where s1: "run_ops ?ops (Scheduler_new idle_span) = Some ([Done, Done, Picked 1, Done], s1)"
    "refines s1 (snd (a_ops ?ops asched_new))"
    using sim_ops [OF new_refines ok, of idle_span] unfolding res(1) by blast
  have "a_pend (snd (a_ops ?ops asched_new)) = pendsv s1" using s1(2) by (simp add: refines_def)
  then show "\<exists>s1. run_ops ?ops (Scheduler_new idle_span) = Some ([Done, Done, Picked 1, Done], s1)
     \<and> \<not> pendsv s1 \<and> current s1 = Some 1 \<and> tcb_state (tcbs s1 2) = Ready
     \<and> task_priority (tcbs s1 2) < task_priority (tcbs s1 1)"
    using s1(1) res refines_cur [OF s1(2)] refines_state [OF s1(2), of 2] refines_prio [OF s1(2)] by auto
qed

theorem reprioritize_requests_no_switch_witness:
  "\<exists>s'. reprioritize 1 5 ((Scheduler_new idle_span)\<lparr>tcbs := (\<lambda>_. TCB_new\<lparr>tcb_state := Blocked\<rparr>)\<rparr>) = Some s' \<and> \<not> pendsv s'"
proof -
  let ?s = "(Scheduler_new idle_span)\<lparr>tcbs := (\<lambda>_. TCB_new\<lparr>tcb_state := Blocked\<rparr>)\<rparr>"
  have "reprioritize_body 1 5 (sched_lock ?s) = Some (set_priority 1 5 (sched_lock ?s))"
    by (simp add: reprioritize_body_def TCB_new_def)
  then obtain s' where s': "reprioritize 1 5 ?s = Some s'"
    by (auto simp: reprioritize_def CriticalGuard_opt_def)
  then have "pendsv s' = pendsv ?s" using reprioritize_requests_no_switch by blast
  then show ?thesis using s' by (simp add: Scheduler_new_def)
qed

text \<open>A task whose priority has no level (32 or more) is dropped by \<open>add\<close>: the queues stay as they
  are, so it never runs, and it stays marked ready; changing the priority of such a task then indexes
  the level array out of range.\<close>

theorem priority_without_level:
  assumes "task_priority (tcbs s t) \<ge> kMaxPrio" and "tcb_state (tcbs s t) = Ready" and "p \<noteq> task_priority (tcbs s t)"
  shows "(\<forall>q. levels (sched_add (Some t) s) q = levels s q) \<and> tcbs (sched_add (Some t) s) = tcbs s
    \<and> reprioritize t p s = None"
proof -
  have push: "sched_push_back t (sched_lock s) = sched_lock s" using assms(1) by (simp add: sched_push_back_def)
  have "reprioritize_body t p (sched_lock s) = None"
    using assms by (simp add: reprioritize_body_def kPriorityLevels_def Let_def prio_in_range prio_level_def)
  then show ?thesis
    using push levels_cong [of "sched_add (Some t) s" s]
    by (auto simp: sched_add_def CriticalGuard_def Let_def request_switch_def reprioritize_def CriticalGuard_opt_def)
qed

theorem priority_without_level_witness:
  "reprioritize 1 3 ((Scheduler_new idle_span)\<lparr>tcbs := (\<lambda>_. TCB_new\<lparr>task_priority := 40\<rparr>)\<rparr>) = None"
  using priority_without_level [of "(Scheduler_new idle_span)\<lparr>tcbs := (\<lambda>_. TCB_new\<lparr>task_priority := 40\<rparr>)\<rparr>" 1 3]
  by (simp add: kMaxPrio_def TCB_new_def)

text \<open>Blocking a task that waits in a queue does not take it out: when it is the first of the queues
  and nobody runs, the next pick still hands out the task just blocked.\<close>

theorem block_leaves_queued:
  assumes r: "refines s a" and inv: "a_inv a" and q: "first_task (a_queue a) = Some t"
    and nobody: "\<forall>u. tcb_state (tcbs s u) \<noteq> Running"
  shows "fst (pick_next (sched_block (Some t) s)) = t"
proof -
  let ?s = "sched_lock (sched_block (Some t) s)"
  have r1: "refines ?s (a_op (OpBlock (Some t)) a)" using sim_block [OF r, of "Some t"] by simp
  have "tcb_state (tcbs ?s u) \<noteq> Running" for u
    using nobody by (simp add: sched_block_def CriticalGuard_def Let_def request_switch_def set_tcb_state_def)
  then have "pick_next_locked ?s = (let (popped, s2) = pop_highest ?s;
      next = (case popped of None \<Rightarrow> idle_task | Some t \<Rightarrow> t);
      s3 = s2\<lparr>current := Some next, ticks_served := 0\<rparr> in (next, set_tcb_state next Running s3))"
    by (auto simp: pick_next_locked_def split: option.splits)
  moreover have "fst (pop_highest ?s) = Some t"
    using refines_pop(1) [OF r1] q by simp
  ultimately show ?thesis
    by (simp add: pick_next_def CriticalGuard_ret_def case_prod_beta Let_def)
qed

theorem block_leaves_queued_witness:
  "fst (pick_next (sched_block (Some 1) (sched_add (Some 1) (Scheduler_new idle_span)))) = 1"
proof -
  let ?a = "a_op (OpAdd (Some 1)) asched_new"
  have ok: "op_ok (OpAdd (Some 1)) asched_new" by (simp add: small_run_simps)
  have r: "refines (sched_add (Some 1) (Scheduler_new idle_span)) ?a" by (rule sim_add [OF new_refines ok])
  have inv: "a_inv ?a" by (rule a_inv_op [OF new_refines(2) ok])
  have q: "first_task (a_queue ?a) = Some 1" by (simp add: small_run_simps)
  have "a_state ?a u \<noteq> Running" for u by (simp add: small_run_simps)
  then show ?thesis using block_leaves_queued [OF r inv q] refines_state [OF r] by auto
qed

section \<open>Frames: contexts and priorities\<close>

text \<open>What a scheduler call other than the pick leaves alone: the current task, all stack pointers, stacks and
  priorities, and everything outside the scheduler.\<close>

definition same_tasks :: "'a sched_scheme \<Rightarrow> 'a sched_scheme \<Rightarrow> bool" where
  "same_tasks s s' \<longleftrightarrow> current s' = current s \<and> sched.more s' = sched.more s
     \<and> (\<forall>u. stack_pointer (tcbs s' u) = stack_pointer (tcbs s u) \<and> stack_view (tcbs s' u) = stack_view (tcbs s u)
        \<and> task_priority (tcbs s' u) = task_priority (tcbs s u))"

lemma same_tasks_refl [simp]: "same_tasks s s"
  by (simp add: same_tasks_def)

lemma same_tasks_trans: "same_tasks s s1 \<Longrightarrow> same_tasks s1 s2 \<Longrightarrow> same_tasks s s2"
  by (simp add: same_tasks_def)

lemma same_tasks_basic [simp]:
  "same_tasks s (sched_lock s')  = same_tasks s s'" "same_tasks s (sched_unlock s') = same_tasks s s'"
  "same_tasks s (request_switch s') = same_tasks s s'" "same_tasks s (set_tcb_state t v s') = same_tasks s s'"
  "same_tasks s (sched_push_back t s') = same_tasks s s'" "same_tasks s (s'\<lparr>ticks_served := n\<rparr>) = same_tasks s s'"
  "same_tasks (sched_lock s) s' = same_tasks s s'"
  by (auto simp: same_tasks_def request_switch_def set_tcb_state_def sched_push_back_def Let_def split: prod.splits)

lemma same_tasks_ready [simp]: "same_tasks s (sched_ready t s') = same_tasks s s'"
  by (auto simp: sched_ready_def CriticalGuard_def Let_def split: option.splits)

lemma same_tasks_block [simp]: "same_tasks s (sched_block t s') = same_tasks s s'"
  by (auto simp: sched_block_def CriticalGuard_def Let_def split: option.splits)

lemma same_tasks_mail:
  "\<forall>u. stack_pointer (f u) = stack_pointer (tcbs s u) \<and> stack_view (f u) = stack_view (tcbs s u) \<and> task_priority (f u) = task_priority (tcbs s u)
   \<Longrightarrow> same_tasks s ((sched_lock s)\<lparr>tcbs := f\<rparr>)"
  by (simp add: same_tasks_def)

lemma op_same_tasks:
  assumes "run_op op s = Some (r, s')" and "op \<noteq> OpPick" and "\<forall>t p. op \<noteq> OpReprio t p"
  shows "same_tasks s s'"
proof (cases op)
  case (OpNotify t v)
  then show ?thesis
    using assms by (auto simp: sched_notify_def CriticalGuard_ret_def Let_def intro!: same_tasks_mail split: option.splits if_splits)
next
  case OpWaitNotify
  then show ?thesis
    using assms by (auto simp: sched_wait_notify_def CriticalGuard_ret_def Let_def intro!: same_tasks_mail split: option.splits if_splits)
next
  case OpTick
  then show ?thesis
    using assms by (auto simp: on_tick_def CriticalGuard_opt_def on_tick_body_def Let_def split: option.splits if_splits)
qed (use assms in \<open>auto simp: sched_yield_def sched_add_def CriticalGuard_def Let_def split: option.splits if_splits\<close>)

lemma pick_more:
  "sched.more (snd (pick_next_locked s)) = sched.more s"
  "task_priority (tcbs (snd (pick_next_locked s)) u) = task_priority (tcbs s u)"
proof -
  define s1 where "s1 = (case current s of None \<Rightarrow> s
     | Some c \<Rightarrow> if c \<noteq> idle_task \<and> tcb_state (tcbs s c) = Running then sched_push_front c s else s)"
  have "sched.more s1 = sched.more s \<and> (\<forall>u. task_priority (tcbs s1 u) = task_priority (tcbs s u))"
    by (auto simp: s1_def sched_push_front_def set_tcb_state_def Let_def split: option.splits prod.splits)
  moreover have "sched.more (snd (pop_highest s1)) = sched.more s1" "tcbs (snd (pop_highest s1)) = tcbs s1"
    by (auto simp: pop_highest_def Let_def split: option.splits prod.splits)
  ultimately show "sched.more (snd (pick_next_locked s)) = sched.more s"
    "task_priority (tcbs (snd (pick_next_locked s)) u) = task_priority (tcbs s u)"
    by (simp_all add: pick_next_locked_def s1_def [symmetric] Let_def case_prod_beta set_tcb_state_def)
qed

text \<open>No call but \<open>reprioritize\<close> changes a priority, and none reaches outside the scheduler.\<close>

lemma op_priorities:
  assumes "run_op op s = Some (r, s')" and "\<forall>t p. op \<noteq> OpReprio t p"
  shows "sched.more s' = sched.more s" "task_priority (tcbs s' u) = task_priority (tcbs s u)"
proof -
  have "sched.more s' = sched.more s \<and> task_priority (tcbs s' u) = task_priority (tcbs s u)"
  proof (cases "op = OpPick")
    case True
    then show ?thesis
      using assms(1) pick_more [of "sched_lock s"] by (auto simp: pick_next_def CriticalGuard_ret_def case_prod_beta)
  next
    case False
    then show ?thesis using op_same_tasks [OF assms(1) False assms(2)] by (simp add: same_tasks_def)
  qed
  then show "sched.more s' = sched.more s" "task_priority (tcbs s' u) = task_priority (tcbs s u)" by simp_all
qed

end
