(* ===== verification/Timer_Queue.thy ===== *)
theory Timer_Queue
  imports Scheduler
begin

text \<open>
  Ticks, waiters and the deadline queue of \<^verbatim>\<open>include/ZerOS/kernel/clock\<close> (\<^verbatim>\<open>ticks.hpp\<close>,
  \<^verbatim>\<open>clock.hpp\<close>, \<^verbatim>\<open>timequeue.hpp\<close>), and the state record of the time kernel. Ticks are 32-bit and
  wrap; deadlines are compared by the sign of their 32-bit difference. The lemmas read a deadline
  as the signed distance from now (\<open>rel\<close>); the comparison is the order of the distances as long as they
  lie within one half of the circle, and the queue is then sorted by them, first come first served among
  equals.
\<close>

section \<open>Ticks\<close>

type_synonym tick = u32

definition is_after :: "tick \<Rightarrow> tick \<Rightarrow> bool" where
  "is_after t now \<longleftrightarrow> sint (now - t) \<ge> 0"

definition Ticks_forward :: "tick \<Rightarrow> tick \<Rightarrow> tick" where
  "Ticks_forward t step = t + step"

definition Ticks_plus :: "tick \<Rightarrow> tick \<Rightarrow> tick" where
  "Ticks_plus t move_steps = t + move_steps"

section \<open>Waiters and the time kernel's state\<close>

text \<open>A waiter lives inside its owner: the \<open>action\<close> of a control block or the \<open>waiter_\<close> of a timer.
  The reactions that occur are the two functions the sources install.\<close>

datatype waiter = TaskAction addr | TimerWaiter addr

datatype on_time = WakeFromSleep | TimerFired

record TimeWaiter =
  deadline :: tick
  OnTime :: "on_time option"

definition TimeWaiter_new :: TimeWaiter where
  "TimeWaiter_new = \<lparr>deadline = 0, OnTime = None\<rparr>"

text \<open>From the node back to its owner; a node of the other kind has no such owner.\<close>

fun TCB_owner_of :: "waiter \<Rightarrow> addr option" where
  "TCB_owner_of (TaskAction t) = Some t"
| "TCB_owner_of (TimerWaiter _) = None"

datatype alarm_call = Arm tick | Disarm

text \<open>\<open>alarm_log\<close> records the calls of \<open>arm\<close> and \<open>disarm\<close> on the driver, latest first. (The Cortex-M3
  driver ignores them; SysTick is periodic.)\<close>

record tk = sched +
  now_tick :: tick
  waiters :: "waiter \<Rightarrow> TimeWaiter"
  w_next :: "waiter links"
  tq :: "waiter self_list"
  armed :: tick
  arm_valid :: bool
  time_driver :: crit
  alarm_log :: "alarm_call list"

definition Clock_current :: "'a tk_scheme \<Rightarrow> tick" where
  "Clock_current s = now_tick s"

definition tick_forward :: "tick \<Rightarrow> 'a tk_scheme \<Rightarrow> 'a tk_scheme" where
  "tick_forward steps s = s\<lparr>now_tick := Ticks_forward (now_tick s) steps\<rparr>"

section \<open>The queue\<close>

definition DeadLineOrder :: "(waiter \<Rightarrow> TimeWaiter) \<Rightarrow> waiter \<Rightarrow> waiter \<Rightarrow> bool" where
  "DeadLineOrder ws lhs rhs \<longleftrightarrow> sint (deadline (ws rhs) - deadline (ws lhs)) > 0"

definition TimerQueue_insert :: "waiter \<Rightarrow> 'a tk_scheme \<Rightarrow> 'a tk_scheme option" where
  "TimerQueue_insert w s =
     map_option (\<lambda>(l, nx). s\<lparr>tq := l, w_next := nx\<rparr>)
       (SelfList_insert (DeadLineOrder (waiters s)) w (tq s, w_next s))"

definition TimerQueue_head :: "'a tk_scheme \<Rightarrow> waiter option" where
  "TimerQueue_head s = SelfList_head (tq s, w_next s)"

definition TimerQueue_remove :: "waiter \<Rightarrow> 'a tk_scheme \<Rightarrow> (bool \<times> 'a tk_scheme) option" where
  "TimerQueue_remove w s =
     map_option (\<lambda>(found, l, nx). (found, s\<lparr>tq := l, w_next := nx\<rparr>)) (SelfList_remove w (tq s, w_next s))"

definition pop_due :: "tick \<Rightarrow> 'a tk_scheme \<Rightarrow> waiter option \<times> 'a tk_scheme" where
  "pop_due now s =
     (case TimerQueue_head s of
        None \<Rightarrow> (None, s)
      | Some w \<Rightarrow>
          if is_after (deadline (waiters s w)) now
          then (case SelfList_pop_head (tq s, w_next s) of (r, l, nx) \<Rightarrow> (r, s\<lparr>tq := l, w_next := nx\<rparr>))
          else (None, s))"

section \<open>Distances\<close>

definition rel :: "'a tk_scheme \<Rightarrow> waiter \<Rightarrow> int" where
  "rel s w = sint (deadline (waiters s w) - now_tick s)"

lemma sint_range32: "- (2 ^ 31) \<le> sint x" "sint x < 2 ^ 31" for x :: u32
  using sint_greater_eq [of x] sint_less [of x] by simp_all

lemma sint_diff32:
  fixes x y :: u32
  assumes "- (2 ^ 31) \<le> sint x - sint y" and "sint x - sint y < 2 ^ 31"
  shows "sint (x - y) = sint x - sint y"
  using assms signed_take_bit_int_eq_self [of 31 "sint x - sint y"]
  by (simp add: sint_word_ariths)

lemma sint_add32:
  fixes x y :: u32
  assumes "- (2 ^ 31) \<le> sint x + sint y" and "sint x + sint y < 2 ^ 31"
  shows "sint (x + y) = sint x + sint y"
  using assms signed_take_bit_int_eq_self [of 31 "sint x + sint y"]
  by (simp add: sint_word_ariths)

lemma sint_uminus_nonneg: "- (2 ^ 31) < sint x \<Longrightarrow> sint (- x) = - sint x" for x :: u32
  using sint_diff32 [of 0 x] sint_range32 [of x] by simp

text \<open>A deadline is due when its distance is zero or negative. (A distance of exactly \<open>-2\<^sup>3\<^sup>1\<close> is its
  own negative and counts as not due.)\<close>

lemma is_after_rel:
  assumes "- (2 ^ 31) < sint (d - now)"
  shows "is_after d now \<longleftrightarrow> sint (d - now) \<le> 0"
  using sint_uminus_nonneg [OF assms] by (simp add: is_after_def)

lemma order_rel:
  assumes "- (2 ^ 31) \<le> rel s y - rel s x" and "rel s y - rel s x < 2 ^ 31"
  shows "DeadLineOrder (waiters s) x y \<longleftrightarrow> rel s x < rel s y"
proof -
  have "deadline (waiters s y) - deadline (waiters s x) =
      (deadline (waiters s y) - now_tick s) - (deadline (waiters s x) - now_tick s)" by simp
  then have "sint (deadline (waiters s y) - deadline (waiters s x)) = rel s y - rel s x"
    using sint_diff32 [of "deadline (waiters s y) - now_tick s" "deadline (waiters s x) - now_tick s"] assms
    by (simp add: rel_def)
  then show ?thesis by (simp add: DeadLineOrder_def)
qed

section \<open>The queue as a sorted list\<close>

definition by_rel :: "'a tk_scheme \<Rightarrow> waiter list \<Rightarrow> bool" where
  "by_rel s qs \<longleftrightarrow> sorted_wrt (\<lambda>x y. rel s x \<le> rel s y) qs"

text \<open>All distances lie within one half of the circle.\<close>

definition half_circle :: "'a tk_scheme \<Rightarrow> waiter set \<Rightarrow> bool" where
  "half_circle s W \<longleftrightarrow> (\<forall>x \<in> W. \<forall>y \<in> W. rel s y - rel s x < 2 ^ 31) \<and> (\<forall>x \<in> W. - (2 ^ 31) < rel s x)"

definition tq_inv :: "'a tk_scheme \<Rightarrow> waiter list \<Rightarrow> bool" where
  "tq_inv s qs \<longleftrightarrow> rep (tq s, w_next s) qs \<and> by_rel s qs \<and> half_circle s (set qs)"

definition due :: "'a tk_scheme \<Rightarrow> waiter \<Rightarrow> bool" where
  "due s w \<longleftrightarrow> rel s w \<le> 0"

text \<open>What a time state amounts to; scheduler and lock fields do not matter to the queue.\<close>

lemma rel_cong: "waiters s' = waiters s \<Longrightarrow> now_tick s' = now_tick s \<Longrightarrow> rel s' = rel s"
  by (simp add: rel_def fun_eq_iff)

lemma tq_inv_cong:
  assumes "waiters s' = waiters s" "now_tick s' = now_tick s" "tq s' = tq s" "w_next s' = w_next s"
  shows "tq_inv s' qs = tq_inv s qs"
  using assms rel_cong [OF assms(1,2)] by (simp add: tq_inv_def by_rel_def half_circle_def)

lemma tq_inv_head: "tq_inv s qs \<Longrightarrow> TimerQueue_head s = (if qs = [] then None else Some (hd qs))"
  unfolding tq_inv_def TimerQueue_head_def using rep_head by blast

lemma tq_inv_distinct: "tq_inv s qs \<Longrightarrow> distinct qs"
  unfolding tq_inv_def using rep_distinct by blast

text \<open>Sorted insertion, after every waiter that is not later.\<close>

definition ins_rel :: "'a tk_scheme \<Rightarrow> waiter \<Rightarrow> waiter list \<Rightarrow> waiter list" where
  "ins_rel s w qs = ins_by (\<lambda>x y. rel s x < rel s y) w qs"

lemma ins_by_cong:
  "(\<And>y. y \<in> set qs \<Longrightarrow> lt x y = lt' x y) \<Longrightarrow> ins_by lt x qs = ins_by lt' x qs"
  unfolding ins_by_def by (metis (mono_tags, lifting) dropWhile_cong takeWhile_cong)

lemma sorted_ins_by:
  fixes f :: "'w \<Rightarrow> int"
  assumes "sorted_wrt (\<lambda>x y. f x \<le> f y) qs"
  shows "sorted_wrt (\<lambda>x y. f x \<le> f y) (ins_by (\<lambda>x y. f x < f y) w qs)"
proof -
  let ?P = "\<lambda>y. \<not> f w < f y"
  have qs: "sorted_wrt (\<lambda>x y. f x \<le> f y) (takeWhile ?P qs @ dropWhile ?P qs)" using assms by simp
  have below: "f y \<le> f w" if "y \<in> set (takeWhile ?P qs)" for y
    using set_takeWhileD [OF that] by simp
  have above: "f w \<le> f y" if "y \<in> set (dropWhile ?P qs)" for y
  proof -
    obtain z zs where dw: "dropWhile ?P qs = z # zs" using \<open>y \<in> _\<close> by (cases "dropWhile ?P qs") auto
    then have "f w < f z" using hd_dropWhile [of ?P qs] by simp
    moreover have "f z \<le> f y" using qs that dw by (auto simp: sorted_wrt_append)
    ultimately show ?thesis by simp
  qed
  show ?thesis
    using qs below above unfolding ins_by_def by (fastforce simp: sorted_wrt_append)
qed

lemma tq_insert:
  assumes inv: "tq_inv s qs" and w: "w \<notin> set qs" and half: "half_circle s (insert w (set qs))"
  obtains s' where "TimerQueue_insert w s = Some s'" and "tq_inv s' (ins_rel s w qs)"
    and "s' = s\<lparr>tq := tq s', w_next := w_next s'\<rparr>"
proof -
  have r: "rep (tq s, w_next s) qs" using inv by (simp add: tq_inv_def)
  have lt: "DeadLineOrder (waiters s) w y = (rel s w < rel s y)" if "y \<in> set qs" for y
  proof (rule order_rel)
    show "rel s y - rel s w < 2 ^ 31" using half that by (auto simp: half_circle_def)
    have "rel s w - rel s y < 2 ^ 31" using half that by (auto simp: half_circle_def)
    then show "- (2 ^ 31) \<le> rel s y - rel s w" by simp
  qed
  have ins: "ins_by (DeadLineOrder (waiters s)) w qs = ins_rel s w qs"
    unfolding ins_rel_def by (rule ins_by_cong) (rule lt)
  obtain st' where st': "SelfList_insert (DeadLineOrder (waiters s)) w (tq s, w_next s) = Some st'"
    "rep st' (ins_rel s w qs)" using rep_insert [OF r w, of "DeadLineOrder (waiters s)"] ins by metis
  obtain l nx where lnx: "st' = (l, nx)" by (cases st')
  let ?s = "s\<lparr>tq := l, w_next := nx\<rparr>"
  have rel: "rel ?s = rel s" by (rule rel_cong) simp_all
  have "tq_inv ?s (ins_rel s w qs)"
    using st'(2) lnx inv half sorted_ins_by [of "rel s" qs w]
    by (simp add: tq_inv_def by_rel_def half_circle_def rel ins_rel_def)
  then show thesis using that [of ?s] st'(1) lnx by (simp add: TimerQueue_insert_def)
qed

lemma tq_remove:
  assumes inv: "tq_inv s qs"
  obtains s' where "TimerQueue_remove w s = Some (w \<in> set qs, s')" and "tq_inv s' (remove1 w qs)"
    and "s' = s\<lparr>tq := tq s', w_next := w_next s'\<rparr>"
proof -
  have r: "rep (tq s, w_next s) qs" using inv by (simp add: tq_inv_def)
  obtain st' where st': "SelfList_remove w (tq s, w_next s) = Some (w \<in> set qs, st')" "rep st' (remove1 w qs)"
    using sl.holds_unlink [OF r, of w] by blast
  obtain l nx where lnx: "st' = (l, nx)" by (cases st')
  let ?s = "s\<lparr>tq := l, w_next := nx\<rparr>"
  have rel: "rel ?s = rel s" by (rule rel_cong) simp_all
  have "set (remove1 w qs) \<subseteq> set qs" by (rule set_remove1_subset)
  moreover have "sorted_wrt (\<lambda>x y. rel s x \<le> rel s y) (remove1 w qs)"
  proof -
    have "remove1 w qs = filter (\<lambda>x. w \<noteq> x) qs"
      using distinct_remove1_removeAll [OF tq_inv_distinct [OF inv]] by (simp add: removeAll_filter_not_eq)
    then show ?thesis using inv by (simp add: tq_inv_def by_rel_def sorted_wrt_filter)
  qed
  ultimately have "tq_inv ?s (remove1 w qs)"
    using st'(2) lnx inv by (auto simp: tq_inv_def by_rel_def half_circle_def rel)
  then show thesis using that [of ?s] st'(1) lnx by (simp add: TimerQueue_remove_def)
qed

lemma tq_pop_due:
  assumes inv: "tq_inv s qs"
  shows "case qs of
      [] \<Rightarrow> pop_due (now_tick s) s = (None, s)
    | w # ws \<Rightarrow> if due s w
        then \<exists>s'. pop_due (now_tick s) s = (Some w, s') \<and> tq_inv s' ws \<and> s' = s\<lparr>tq := tq s', w_next := w_next s'\<rparr>
        else pop_due (now_tick s) s = (None, s)"
proof (cases qs)
  case Nil
  then show ?thesis using tq_inv_head [OF inv] by (simp add: pop_due_def)
next
  case (Cons w ws)
  have head: "TimerQueue_head s = Some w" using tq_inv_head [OF inv] Cons by simp
  have "- (2 ^ 31) < rel s w" using inv Cons by (simp add: tq_inv_def half_circle_def)
  then have d: "is_after (deadline (waiters s w)) (now_tick s) \<longleftrightarrow> due s w"
    using is_after_rel [of "deadline (waiters s w)" "now_tick s"] by (simp add: rel_def due_def)
  show ?thesis
  proof (cases "due s w")
    case True
    have "rep (tq s, w_next s) (w # ws)" using inv Cons by (simp add: tq_inv_def)
    then obtain st' where st': "SelfList_pop_head (tq s, w_next s) = (Some w, st')" "rep st' ws"
      by (rule rep_pop_head) auto
    obtain l nx where lnx: "st' = (l, nx)" by (cases st')
    let ?s = "s\<lparr>tq := l, w_next := nx\<rparr>"
    have rel: "rel ?s = rel s" by (rule rel_cong) simp_all
    have "tq_inv ?s ws" using st'(2) lnx inv Cons by (auto simp: tq_inv_def by_rel_def half_circle_def rel)
    moreover have "pop_due (now_tick s) s = (Some w, ?s)" using head d True st'(1) lnx by (simp add: pop_due_def)
    ultimately have "\<exists>s'. pop_due (now_tick s) s = (Some w, s') \<and> tq_inv s' ws \<and> s' = s\<lparr>tq := tq s', w_next := w_next s'\<rparr>"
      by (intro exI [of _ ?s]) simp
    then show ?thesis using Cons True by simp
  qed (use head d Cons in \<open>simp add: pop_due_def\<close>)
qed

end
