(* ===== verification/Time_Kernel.thy ===== *)
theory Time_Kernel
  imports Timer_Queue
begin

text \<open>
  The time kernel of \<^verbatim>\<open>include/ZerOS/kernel/clock/kernel.hpp\<close>: booking and cancelling waiters, the
  tick interrupt's \<open>on_elapsed\<close>, which fires what is due, and the alarm bookkeeping. The reaction of a
  fired waiter is a parameter \<open>on_time\<close> of \<open>on_elapsed\<close>; it may call back into the time kernel (a
  periodic timer books itself again). The loop of \<open>on_elapsed\<close> has no bound of its own, so it is a partial
  function, and that it ends is a theorem.
\<close>

section \<open>The operations\<close>

definition time_lock :: "'a tk_scheme \<Rightarrow> 'a tk_scheme" where
  "time_lock s = (case crit_lock (time_driver s, s) of (g, s') \<Rightarrow> s'\<lparr>time_driver := g\<rparr>)"

definition time_unlock :: "'a tk_scheme \<Rightarrow> 'a tk_scheme" where
  "time_unlock s = (case crit_unlock (time_driver s, s) of (g, s') \<Rightarrow> s'\<lparr>time_driver := g\<rparr>)"

definition update_alarm :: "'a tk_scheme \<Rightarrow> 'a tk_scheme" where
  "update_alarm s =
     (case TimerQueue_head s of
        None \<Rightarrow> if arm_valid s then s\<lparr>alarm_log := Disarm # alarm_log s, arm_valid := False\<rparr> else s
      | Some w \<Rightarrow>
          let now = Clock_current s;
              armed_pending = (arm_valid s \<and> sint (armed s - now) > 0);
              head_earlier = (arm_valid s \<and> sint (armed s - deadline (waiters s w)) > 0)
          in if armed_pending \<and> \<not> head_earlier then s
             else let remaining = sint (deadline (waiters s w) - now);
                      remaining = (if remaining < 1 then 1 else remaining)
                  in s\<lparr>alarm_log := Arm (word_of_int remaining) # alarm_log s,
                       armed := deadline (waiters s w), arm_valid := True\<rparr>)"

definition enqueue_locked :: "waiter \<Rightarrow> tick \<Rightarrow> on_time option \<Rightarrow> 'a tk_scheme \<Rightarrow> 'a tk_scheme option" where
  "enqueue_locked w span wake s = do {
     (_, s1) \<leftarrow> TimerQueue_remove w s;
     let s2 = (if wake \<noteq> None then s1\<lparr>waiters := (waiters s1)(w := (waiters s1 w)\<lparr>OnTime := wake\<rparr>)\<rparr> else s1);
     let s3 = s2\<lparr>waiters := (waiters s2)(w := (waiters s2 w)\<lparr>deadline := Ticks_plus (Clock_current s2) span\<rparr>)\<rparr>;
     s4 \<leftarrow> TimerQueue_insert w s3;
     Some (update_alarm s4)
   }"

definition call_after_span :: "waiter \<Rightarrow> tick \<Rightarrow> 'a tk_scheme \<Rightarrow> 'a tk_scheme option" where
  "call_after_span w span = CriticalGuard_opt time_lock time_unlock (enqueue_locked w span None)"

definition park_for :: "waiter \<Rightarrow> tick \<Rightarrow> on_time option \<Rightarrow> ('a tk_scheme \<Rightarrow> 'a tk_scheme) \<Rightarrow>
    'a tk_scheme \<Rightarrow> 'a tk_scheme option" where
  "park_for w span wake block_now = CriticalGuard_opt time_lock time_unlock
     (\<lambda>s. map_option block_now (enqueue_locked w span wake s))"

definition cancel :: "waiter \<Rightarrow> 'a tk_scheme \<Rightarrow> (bool \<times> 'a tk_scheme) option" where
  "cancel w s = do {
     (result, s1) \<leftarrow> TimerQueue_remove w (time_lock s);
     Some (result, time_unlock (update_alarm s1))
   }"

definition time_current :: "'a tk_scheme \<Rightarrow> tick" where
  "time_current s = Clock_current s"

text \<open>\<open>None\<close> for the result \<open>false\<close>, otherwise what is stored through the reference.\<close>

definition next_due_in :: "'a tk_scheme \<Rightarrow> tick option \<times> 'a tk_scheme" where
  "next_due_in = CriticalGuard_ret time_lock time_unlock (\<lambda>s.
     case TimerQueue_head s of
       None \<Rightarrow> (None, s)
     | Some w \<Rightarrow>
         let remaining = sint (deadline (waiters s w) - Clock_current s)
         in (Some (if remaining > 0 then word_of_int remaining else 0), s))"

partial_function (option) fire_due ::
  "(waiter \<Rightarrow> 'a tk_scheme \<Rightarrow> 'a tk_scheme option) \<Rightarrow> 'a tk_scheme \<Rightarrow> 'a tk_scheme option" where
  "fire_due on_time s =
     (case pop_due (Clock_current s) s of
        (None, s1) \<Rightarrow> Some s1
      | (Some w, s1) \<Rightarrow> (case on_time w s1 of None \<Rightarrow> None | Some s2 \<Rightarrow> fire_due on_time s2))"

definition on_elapsed ::
  "(waiter \<Rightarrow> 'a tk_scheme \<Rightarrow> 'a tk_scheme option) \<Rightarrow> tick \<Rightarrow> 'a tk_scheme \<Rightarrow> 'a tk_scheme option" where
  "on_elapsed on_time n s =
     (if n = 0 then Some s
      else CriticalGuard_opt time_lock time_unlock
        (\<lambda>s. map_option update_alarm (fire_due on_time (tick_forward n s))) s)"

section \<open>The lock and the queue\<close>

lemma time_lock_sel [simp]:
  "now_tick (time_lock s) = now_tick s" "waiters (time_lock s) = waiters s" "tq (time_lock s) = tq s"
  "w_next (time_lock s) = w_next s" "armed (time_lock s) = armed s" "arm_valid (time_lock s) = arm_valid s"
  "alarm_log (time_lock s) = alarm_log s" "tcbs (time_lock s) = tcbs s" "current (time_lock s) = current s"
  "pendsv (time_lock s) = pendsv s"
  by (simp_all add: time_lock_def crit_lock_def write_basepri_def)

lemma time_unlock_sel [simp]:
  "now_tick (time_unlock s) = now_tick s" "waiters (time_unlock s) = waiters s" "tq (time_unlock s) = tq s"
  "w_next (time_unlock s) = w_next s" "armed (time_unlock s) = armed s" "arm_valid (time_unlock s) = arm_valid s"
  "alarm_log (time_unlock s) = alarm_log s" "tcbs (time_unlock s) = tcbs s" "current (time_unlock s) = current s"
  "pendsv (time_unlock s) = pendsv s"
  by (simp_all add: time_unlock_def crit_unlock_def write_basepri_def Let_def)

lemma update_alarm_sel [simp]:
  "now_tick (update_alarm s) = now_tick s" "waiters (update_alarm s) = waiters s" "tq (update_alarm s) = tq s"
  "w_next (update_alarm s) = w_next s" "tcbs (update_alarm s) = tcbs s" "current (update_alarm s) = current s"
  by (simp_all add: update_alarm_def Let_def split: option.splits)

lemma tq_inv_lock [simp]: "tq_inv (time_lock s) qs = tq_inv s qs" "tq_inv (time_unlock s) qs = tq_inv s qs"
  "tq_inv (update_alarm s) qs = tq_inv s qs"
  by (rule tq_inv_cong; simp)+

lemma rel_lock [simp]: "rel (time_lock s) = rel s" "rel (time_unlock s) = rel s" "rel (update_alarm s) = rel s"
  by (rule rel_cong; simp)+

text \<open>The alarm is set exactly when somebody waits, and never for later than the first deadline.\<close>

definition alarm_inv :: "'a tk_scheme \<Rightarrow> waiter list \<Rightarrow> bool" where
  "alarm_inv s qs \<longleftrightarrow> (arm_valid s \<longleftrightarrow> qs \<noteq> []) \<and>
     (qs \<noteq> [] \<longrightarrow> sint (armed s - now_tick s) \<le> rel s (hd qs))"

lemma update_alarm_inv:
  assumes inv: "tq_inv s qs" and future: "\<And>w. w \<in> set qs \<Longrightarrow> 0 \<le> rel s w"
  shows "alarm_inv (update_alarm s) qs"
proof (cases qs)
  case Nil
  then show ?thesis using tq_inv_head [OF inv] by (simp add: update_alarm_def alarm_inv_def)
next
  case (Cons w ws)
  have head: "TimerQueue_head s = Some w" using tq_inv_head [OF inv] Cons by simp
  show ?thesis
  proof (cases "arm_valid s \<and> sint (armed s - now_tick s) > 0 \<and> \<not> sint (armed s - deadline (waiters s w)) > 0")
    case True
    have "sint (armed s - now_tick s) - rel s w < 2 ^ 31" "- (2 ^ 31) \<le> sint (armed s - now_tick s) - rel s w"
      using True future [of w] Cons sint_range32 [of "armed s - now_tick s"] sint_range32 [of "deadline (waiters s w) - now_tick s"]
      by (auto simp: rel_def)
    moreover have "armed s - deadline (waiters s w) = (armed s - now_tick s) - (deadline (waiters s w) - now_tick s)" by simp
    ultimately have "sint (armed s - deadline (waiters s w)) = sint (armed s - now_tick s) - rel s w"
      using sint_diff32 [of "armed s - now_tick s" "deadline (waiters s w) - now_tick s"] by (simp add: rel_def)
    then show ?thesis
      using True head Cons by (simp add: update_alarm_def alarm_inv_def Clock_current_def)
  next
    case False
    have "rel (update_alarm s) w = rel s w" by simp
    then show ?thesis
      using False head Cons
      by (auto simp: update_alarm_def alarm_inv_def Clock_current_def Let_def rel_def)
  qed
qed

text \<open>Booking a waiter: out of the queue if it was in, then in by its new deadline.\<close>

lemma enqueue_spec:
  assumes inv: "tq_inv s qs" and span: "0 \<le> sint span"
    and room: "\<And>x. x \<in> set qs \<Longrightarrow> sint span - rel s x < 2 ^ 31"
  shows "\<exists>s'. enqueue_locked w span wake s = Some s' \<and> rel s' = (rel s)(w := sint span)
    \<and> tq_inv s' (ins_rel s' w (remove1 w qs)) \<and> now_tick s' = now_tick s
    \<and> OnTime (waiters s' w) = (if wake = None then OnTime (waiters s w) else wake)
    \<and> tcbs s' = tcbs s \<and> current s' = current s"
proof -
  obtain s1 where s1: "TimerQueue_remove w s = Some (w \<in> set qs, s1)" "tq_inv s1 (remove1 w qs)"
    "s1 = s\<lparr>tq := tq s1, w_next := w_next s1\<rparr>" by (rule tq_remove [OF inv])
  define s2 where "s2 = (if wake \<noteq> None then s1\<lparr>waiters := (waiters s1)(w := (waiters s1 w)\<lparr>OnTime := wake\<rparr>)\<rparr> else s1)"
  define s3 where "s3 = s2\<lparr>waiters := (waiters s2)(w := (waiters s2 w)\<lparr>deadline := Ticks_plus (Clock_current s2) span\<rparr>)\<rparr>"
  have base: "now_tick s1 = now_tick s" "waiters s1 = waiters s" "tcbs s1 = tcbs s" "current s1 = current s"
    by (subst s1(3), simp)+
  have rel3: "rel s3 = (rel s)(w := sint span)"
    by (auto simp: fun_eq_iff rel_def s3_def s2_def base Clock_current_def Ticks_plus_def)
  have wq: "w \<notin> set (remove1 w qs)" using tq_inv_distinct [OF inv] by simp
  have same: "rel s3 x = rel s1 x" if "x \<in> set (remove1 w qs)" for x
    using that wq by (auto simp: rel3 rel_cong [of s1 s, OF base(2,1)])
  have sub: "x \<in> set qs" if "x \<in> set (remove1 w qs)" for x using that set_remove1_subset [of w qs] by blast
  have tq3: "tq s3 = tq s1" "w_next s3 = w_next s1" by (simp_all add: s3_def s2_def)
  have "by_rel s3 (remove1 w qs)"
    unfolding by_rel_def
    by (rule sorted_wrt_mono_rel [of _ "\<lambda>x y. rel s1 x \<le> rel s1 y"]) (use s1(2) same in \<open>simp_all add: tq_inv_def by_rel_def\<close>)
  moreover have "half_circle s3 (set (remove1 w qs))"
    using s1(2) same by (simp add: tq_inv_def half_circle_def)
  ultimately have inv3: "tq_inv s3 (remove1 w qs)" using s1(2) tq3 by (simp add: tq_inv_def)
  have "rel s x < 2 ^ 31" for x unfolding rel_def by (rule sint_range32)
  then have "rel s x - sint span < 2 ^ 31" for x using span by (smt (verit))
  then have half3: "half_circle s3 (insert w (set (remove1 w qs)))"
    using inv3 wq room span sub sint_range32 [of span] unfolding tq_inv_def half_circle_def
    by (auto simp: rel3)
  obtain s4 where s4: "TimerQueue_insert w s3 = Some s4" "tq_inv s4 (ins_rel s3 w (remove1 w qs))"
    "s4 = s3\<lparr>tq := tq s4, w_next := w_next s4\<rparr>" by (rule tq_insert [OF inv3 wq half3])
  have f4: "now_tick s4 = now_tick s3" "waiters s4 = waiters s3" "tcbs s4 = tcbs s3" "current s4 = current s3"
    by (subst s4(3), simp)+
  have rel4: "rel s4 = rel s3" by (rule rel_cong [OF f4(2,1)])
  have "enqueue_locked w span wake s = Some (update_alarm s4)"
    using s1(1) s4(1) by (cases wake) (simp_all add: enqueue_locked_def s3_def s2_def)
  moreover have "ins_rel (update_alarm s4) w (remove1 w qs) = ins_rel s3 w (remove1 w qs)"
    by (simp add: ins_rel_def rel4)
  ultimately show ?thesis
    using s4(2) f4 base rel3 rel4 by (auto simp: s3_def s2_def)
qed

section \<open>Firing what is due\<close>

text \<open>The run of the loop: which waiters fire, in which order.\<close>

inductive fires :: "(waiter \<Rightarrow> 'a tk_scheme \<Rightarrow> 'a tk_scheme option) \<Rightarrow> 'a tk_scheme \<Rightarrow> waiter list \<Rightarrow> 'a tk_scheme \<Rightarrow> bool"
  for on_time where
  fires_stop: "pop_due (now_tick s) s = (None, s') \<Longrightarrow> fires on_time s [] s'"
| fires_one: "pop_due (now_tick s) s = (Some w, s1) \<Longrightarrow> on_time w s1 = Some s2 \<Longrightarrow> fires on_time s2 ws s' \<Longrightarrow>
    fires on_time s (w # ws) s'"

inductive_cases fires_NilE: "fires on_time s [] s'"
inductive_cases fires_ConsE: "fires on_time s (w # ws) s'"

lemma fires_fire_due: "fires on_time s ws s' \<Longrightarrow> fire_due on_time s = Some s'"
  by (induction rule: fires.induct) (simp_all add: fire_due.simps Clock_current_def)

text \<open>What the loop asks of a reaction, in terms of a condition \<open>I\<close> on the booked waiters and the rest of the
  system, which must not look at the queue's links: called for a due waiter that was just taken out, the
  reaction returns, time does not move meanwhile, it leaves the waiters that are due alone (it may book and
  cancel others), and \<open>I\<close> holds again.\<close>

definition reaction_ok :: "(waiter list \<Rightarrow> 'a tk_scheme \<Rightarrow> bool) \<Rightarrow>
    (waiter \<Rightarrow> 'a tk_scheme \<Rightarrow> 'a tk_scheme option) \<Rightarrow> bool" where
  "reaction_ok I on_time \<longleftrightarrow> (\<forall>ws s l nx. I ws s \<longrightarrow> I ws (s\<lparr>tq := l, w_next := nx\<rparr>)) \<and>
     (\<forall>w s qs. I (w # qs) s \<longrightarrow> tq_inv s qs \<longrightarrow> w \<notin> set qs \<longrightarrow> due s w \<longrightarrow>
       (\<exists>s' qs'. on_time w s = Some s' \<and> tq_inv s' qs' \<and> now_tick s' = now_tick s
          \<and> filter (due s') qs' = filter (due s) qs \<and> I qs' s'))"

lemma due_prefix:
  assumes "tq_inv s (w # ws)" and "\<not> due s w"
  shows "filter (due s) (w # ws) = []"
  using assms by (auto simp: tq_inv_def by_rel_def due_def filter_empty_conv)

lemma fire_due_fires:
  assumes ok: "reaction_ok I on_time" and inv: "tq_inv s qs" and init: "I qs s"
  shows "\<exists>s' qs'. fires on_time s (filter (due s) qs) s' \<and> tq_inv s' qs' \<and> (\<forall>w \<in> set qs'. \<not> due s' w)
    \<and> now_tick s' = now_tick s \<and> I qs' s'"
  using inv init
proof (induction "length (filter (due s) qs)" arbitrary: s qs)
  case 0
  then have none: "filter (due s) qs = []" by simp
  have "pop_due (now_tick s) s = (None, s)"
    using tq_pop_due [OF "0.prems"(1)] none by (cases qs) (auto split: if_splits)
  then show ?case
    using "0.prems" none by (auto simp: filter_empty_conv intro!: exI [of _ s] exI [of _ qs] fires_stop)
next
  case (Suc n)
  then obtain w ws where qs: "qs = w # ws" by (cases qs) auto
  have d: "due s w" using due_prefix [of s w ws] Suc.hyps(2) Suc.prems(1) qs by fastforce
  obtain s1 where s1: "pop_due (now_tick s) s = (Some w, s1)" "tq_inv s1 ws" "s1 = s\<lparr>tq := tq s1, w_next := w_next s1\<rparr>"
    using tq_pop_due [OF Suc.prems(1)] qs d by auto
  have f1: "now_tick s1 = now_tick s" "waiters s1 = waiters s" by (subst s1(3), simp)+
  have due1: "due s1 = due s" by (simp add: due_def rel_cong [OF f1(2,1)] fun_eq_iff)
  have I1: "I (w # ws) s1" using ok Suc.prems(2) qs by (subst s1(3)) (simp add: reaction_ok_def)
  have "w \<notin> set ws" using tq_inv_distinct [OF Suc.prems(1)] qs by simp
  then obtain s2 qs2 where s2: "on_time w s1 = Some s2" "tq_inv s2 qs2" "now_tick s2 = now_tick s1"
    "filter (due s2) qs2 = filter (due s1) ws" "I qs2 s2"
    using ok s1(2) I1 d due1 unfolding reaction_ok_def by metis
  have "n = length (filter (due s2) qs2)" using Suc.hyps(2) s2(4) due1 qs d by simp
  from Suc.hyps(1) [OF this s2(2,5)] obtain s' qs' where
    s': "fires on_time s2 (filter (due s2) qs2) s'" "tq_inv s' qs'" "\<forall>w \<in> set qs'. \<not> due s' w"
      "now_tick s' = now_tick s2" "I qs' s'"
    by blast
  have "fires on_time s (w # filter (due s2) qs2) s'" by (rule fires_one [OF s1(1) s2(1) s'(1)])
  then show ?case using s' s2(3,4) f1 due1 qs d by auto
qed

text \<open>Moving the clock by less than half a circle keeps the queue in order.\<close>

lemma tick_forward_rel:
  assumes "0 \<le> sint n" and "- (2 ^ 31) < rel s w - sint n"
  shows "rel (tick_forward n s) w = rel s w - sint n"
proof -
  have "deadline (waiters s w) - (now_tick s + n) = (deadline (waiters s w) - now_tick s) - n" by simp
  moreover have "sint (deadline (waiters s w) - now_tick s) < 2 ^ 31" by (rule sint_range32)
  ultimately show ?thesis
    using sint_diff32 [of "deadline (waiters s w) - now_tick s" n] assms
    by (simp add: rel_def tick_forward_def Ticks_forward_def diff_diff_eq)
qed

lemma tick_forward_inv:
  assumes inv: "tq_inv s qs" and n: "0 \<le> sint n" and future: "\<And>w. w \<in> set qs \<Longrightarrow> 0 \<le> rel s w"
  shows "tq_inv (tick_forward n s) qs"
    and "w \<in> set qs \<Longrightarrow> rel (tick_forward n s) w = rel s w - sint n"
proof -
  have r: "rel (tick_forward n s) w = rel s w - sint n" if "w \<in> set qs" for w
    by (rule tick_forward_rel [OF n]) (use future [OF that] sint_range32 [of n] in linarith)
  then show "w \<in> set qs \<Longrightarrow> rel (tick_forward n s) w = rel s w - sint n" .
  have "by_rel (tick_forward n s) qs"
    unfolding by_rel_def
    by (rule sorted_wrt_mono_rel [of _ "\<lambda>x y. rel s x \<le> rel s y"])
      (use inv r in \<open>simp_all add: tq_inv_def by_rel_def\<close>)
  moreover have "half_circle (tick_forward n s) (set qs)"
    unfolding half_circle_def
  proof (intro conjI ballI)
    show "rel (tick_forward n s) y - rel (tick_forward n s) x < 2 ^ 31" if "x \<in> set qs" "y \<in> set qs" for x y
      using that r inv by (simp add: tq_inv_def half_circle_def)
    show "- (2 ^ 31) < rel (tick_forward n s) x" if "x \<in> set qs" for x
      using r [OF that] future [OF that] sint_range32 [of n] by linarith
  qed
  ultimately show "tq_inv (tick_forward n s) qs"
    using inv by (simp add: tq_inv_def tick_forward_def)
qed

section \<open>The interface\<close>

text \<open>The state between calls: the queue is in order, the alarm is right and nothing is overdue.\<close>

definition tk_inv :: "'a tk_scheme \<Rightarrow> waiter list \<Rightarrow> bool" where
  "tk_inv s qs \<longleftrightarrow> tq_inv s qs \<and> alarm_inv s qs \<and> (\<forall>w \<in> set qs. 0 \<le> rel s w)"

lemma tk_invD:
  assumes "tk_inv s qs"
  shows "tq_inv s qs" "alarm_inv s qs" "w \<in> set qs \<Longrightarrow> 0 \<le> rel s w" "distinct qs"
  using assms tq_inv_distinct by (auto simp: tk_inv_def)

lemma alarm_inv_unlock [simp]: "alarm_inv (time_unlock s) qs = alarm_inv s qs"
  by (simp add: alarm_inv_def)

lemma tk_inv_unlock [simp]: "tk_inv (time_unlock s) qs = tk_inv s qs" "tk_inv (time_lock s) qs = tk_inv s qs"
  by (simp_all add: tk_inv_def alarm_inv_def)

lemma enqueue_tk_inv:
  assumes inv: "tk_inv s qs" and span: "0 \<le> sint span"
  shows "\<exists>s'. enqueue_locked w span wake s = Some s' \<and> rel s' = (rel s)(w := sint span)
    \<and> tk_inv s' (ins_rel s' w (remove1 w qs)) \<and> now_tick s' = now_tick s
    \<and> OnTime (waiters s' w) = (if wake = None then OnTime (waiters s w) else wake)
    \<and> tcbs s' = tcbs s \<and> current s' = current s"
proof -
  have room: "sint span - rel s x < 2 ^ 31" if "x \<in> set qs" for x
    using tk_invD(3) [OF inv that] sint_range32 [of span] by linarith
  obtain s' where s': "enqueue_locked w span wake s = Some s'" "rel s' = (rel s)(w := sint span)"
    "tq_inv s' (ins_rel s' w (remove1 w qs))" "now_tick s' = now_tick s"
    "OnTime (waiters s' w) = (if wake = None then OnTime (waiters s w) else wake)"
    "tcbs s' = tcbs s" "current s' = current s"
    using enqueue_spec [OF tk_invD(1) [OF inv] span room, of w wake] by blast
  have pos: "0 \<le> rel s' x" if "x \<in> set (ins_rel s' w (remove1 w qs))" for x
    using that span tk_invD(3,4) [OF inv] by (auto simp: s'(2) ins_rel_def)
  obtain s4 where s4: "s' = update_alarm s4"
    using s'(1) by (auto simp: enqueue_locked_def Let_def split: bind_splits)
  have "tq_inv s4 (ins_rel s' w (remove1 w qs))" using s'(3) s4 by simp
  then have "alarm_inv (update_alarm s4) (ins_rel s' w (remove1 w qs))"
    by (rule update_alarm_inv) (use pos s4 in simp)
  then show ?thesis using s' pos s4 by (auto simp: tk_inv_def)
qed

lemma cancel_spec:
  assumes inv: "tk_inv s qs"
  shows "\<exists>s'. cancel w s = Some (w \<in> set qs, s') \<and> tk_inv s' (remove1 w qs) \<and> rel s' = rel s \<and> now_tick s' = now_tick s"
proof -
  have "tq_inv (time_lock s) qs" using tk_invD(1) [OF inv] by simp
  then obtain s1 where s1: "TimerQueue_remove w (time_lock s) = Some (w \<in> set qs, s1)" "tq_inv s1 (remove1 w qs)"
    "s1 = (time_lock s)\<lparr>tq := tq s1, w_next := w_next s1\<rparr>" by (rule tq_remove)
  have f1: "now_tick s1 = now_tick s" "waiters s1 = waiters s" by (subst s1(3), simp)+
  have rel1: "rel s1 = rel s" by (rule rel_cong [OF f1(2,1)])
  have pos: "0 \<le> rel s1 x" if "x \<in> set (remove1 w qs)" for x
    using that tk_invD(3,4) [OF inv] by (simp add: rel1)
  have "tk_inv (time_unlock (update_alarm s1)) (remove1 w qs)"
    using update_alarm_inv [OF s1(2) pos] s1(2) pos by (simp add: tk_inv_def)
  then show ?thesis using s1(1) f1(1) rel1 by (auto simp: cancel_def)
qed

lemma on_elapsed_spec:
  assumes ok: "reaction_ok I on_time" and inv: "tk_inv s qs" and n: "0 < sint n"
    and init: "I qs (tick_forward n (time_lock s))"
  shows "\<exists>s1 s' qs'. on_elapsed on_time n s = Some s' \<and> tk_inv s' qs' \<and> (\<forall>w \<in> set qs'. 0 < rel s' w)
    \<and> now_tick s' = now_tick s + n \<and> s' = time_unlock (update_alarm s1) \<and> I qs' s1
    \<and> fires on_time (tick_forward n (time_lock s)) (filter (\<lambda>w. rel s w \<le> sint n) qs) s1"
proof -
  let ?s = "tick_forward n (time_lock s)"
  have fwd: "tq_inv ?s qs" "\<And>w. w \<in> set qs \<Longrightarrow> rel ?s w = rel s w - sint n"
    using tick_forward_inv [of "time_lock s" qs n] tk_invD(1,3) [OF inv] n by simp_all
  have due: "filter (due ?s) qs = filter (\<lambda>w. rel s w \<le> sint n) qs"
    by (rule filter_cong) (auto simp: due_def fwd(2))
  obtain s1 qs' where s1: "fires on_time ?s (filter (\<lambda>w. rel s w \<le> sint n) qs) s1" "tq_inv s1 qs'"
    "\<forall>w \<in> set qs'. \<not> due s1 w" "now_tick s1 = now_tick ?s" "I qs' s1"
    using fire_due_fires [where I = I, OF ok fwd(1) init] unfolding due by blast
  have pos: "0 < rel s1 w" if "w \<in> set qs'" for w using s1(3) that by (simp add: due_def not_le)
  have "n \<noteq> 0" using n by auto
  then have run: "on_elapsed on_time n s = Some (time_unlock (update_alarm s1))"
    using fires_fire_due [OF s1(1)] by (simp add: on_elapsed_def CriticalGuard_opt_def)
  have "tk_inv (time_unlock (update_alarm s1)) qs'"
    using update_alarm_inv [OF s1(2)] s1(2) pos by (auto simp: tk_inv_def less_imp_le)
  moreover have "now_tick (time_unlock (update_alarm s1)) = now_tick s + n"
    by (simp add: s1(4) tick_forward_def Ticks_forward_def)
  ultimately show ?thesis using run pos s1(1,5) by auto
qed

text \<open>
  What a client of the time kernel sees: waiters with a remaining time, which shrinks as ticks are
  reported. \<open>book\<close> may be called for a waiter that is already booked.
\<close>

locale time_keeper =
  fixes holds :: "'s \<Rightarrow> 'w list \<Rightarrow> bool"
    and left :: "'s \<Rightarrow> 'w \<Rightarrow> int"
    and book :: "'w \<Rightarrow> tick \<Rightarrow> 's \<Rightarrow> 's option"
    and withdraw :: "'w \<Rightarrow> 's \<Rightarrow> (bool \<times> 's) option"
  assumes holds_distinct: "holds s qs \<Longrightarrow> distinct qs"
    and holds_book: "holds s qs \<Longrightarrow> 0 \<le> sint span \<Longrightarrow>
      \<exists>s' qs'. book w span s = Some s' \<and> holds s' qs' \<and> set qs' = insert w (set qs) \<and> left s' = (left s)(w := sint span)"
    and holds_withdraw: "holds s qs \<Longrightarrow>
      \<exists>s'. withdraw w s = Some (w \<in> set qs, s') \<and> holds s' (remove1 w qs) \<and> left s' = left s"
begin

lemma book_twice_last_wins:
  assumes "holds s qs" "0 \<le> sint a" "0 \<le> sint b"
  shows "\<exists>s1 s2 qs'. book w a s = Some s1 \<and> book w b s1 = Some s2 \<and> holds s2 qs'
    \<and> set qs' = insert w (set qs) \<and> left s2 w = sint b"
proof -
  obtain s1 qs1 where 1: "book w a s = Some s1" "holds s1 qs1" "set qs1 = insert w (set qs)"
    using holds_book [OF assms(1,2), of w] by blast
  obtain s2 qs2 where 2: "book w b s1 = Some s2" "holds s2 qs2" "set qs2 = insert w (set qs1)" "left s2 = (left s1)(w := sint b)"
    using holds_book [OF 1(2) assms(3), of w] by blast
  show ?thesis using 1 2 by auto
qed

lemma book_withdraw:
  assumes "holds s qs" "0 \<le> sint a"
  shows "\<exists>s1 s2 qs'. book w a s = Some s1 \<and> withdraw w s1 = Some (True, s2) \<and> holds s2 qs'
    \<and> set qs' = set qs - {w} \<and> (\<exists>s3. withdraw w s2 = Some (False, s3))"
proof -
  obtain s1 qs1 where 1: "book w a s = Some s1" "holds s1 qs1" "set qs1 = insert w (set qs)"
    using holds_book [OF assms, of w] by blast
  obtain s2 where 2: "withdraw w s1 = Some (True, s2)" "holds s2 (remove1 w qs1)"
    using holds_withdraw [OF 1(2), of w] 1(3) by auto
  have "set (remove1 w qs1) = set qs - {w}" using holds_distinct [OF 1(2)] 1(3) by auto
  moreover have "w \<notin> set (remove1 w qs1)" using holds_distinct [OF 1(2)] by simp
  ultimately show ?thesis using 1(1) 2 holds_withdraw [OF 2(2), of w] by auto
qed

end

lemma call_after_span_spec:
  assumes inv: "tk_inv s qs" and span: "0 \<le> sint span"
  shows "\<exists>s'. call_after_span w span s = Some s' \<and> rel s' = (rel s)(w := sint span)
    \<and> tk_inv s' (ins_rel s' w (remove1 w qs)) \<and> now_tick s' = now_tick s"
proof -
  have inv': "tk_inv (time_lock s) qs" using inv by simp
  obtain s' where "enqueue_locked w span None (time_lock s) = Some s'" "rel s' = (rel s)(w := sint span)"
    "tk_inv s' (ins_rel s' w (remove1 w qs))" "now_tick s' = now_tick s"
    using enqueue_tk_inv [OF inv' span, of w None] by auto
  then show ?thesis by (auto simp: call_after_span_def CriticalGuard_opt_def ins_rel_def)
qed

interpretation tkp: time_keeper tk_inv rel call_after_span cancel
proof
  show "\<exists>s' qs'. call_after_span w span s = Some s' \<and> tk_inv s' qs' \<and> set qs' = insert w (set qs)
      \<and> rel s' = (rel s)(w := sint span)"
    if inv: "tk_inv s qs" and span: "0 \<le> sint span" for s :: "'a tk_scheme" and qs span w
  proof -
    obtain s' where "call_after_span w span s = Some s'" "rel s' = (rel s)(w := sint span)"
      "tk_inv s' (ins_rel s' w (remove1 w qs))" using call_after_span_spec [OF inv span, of w] by blast
    moreover have "set (ins_rel s' w (remove1 w qs)) = insert w (set qs)"
      using tk_invD(4) [OF inv] by (auto simp: ins_rel_def)
    ultimately show ?thesis by blast
  qed
  show "\<exists>s'. cancel w s = Some (w \<in> set qs, s') \<and> tk_inv s' (remove1 w qs) \<and> rel s' = rel s"
    if "tk_inv s qs" for s :: "'a tk_scheme" and qs w using cancel_spec [OF that, of w] by blast
qed (rule tk_invD(4))

section \<open>Properties\<close>

text \<open>The time kernel as it is born, with nobody booked.\<close>

definition tk_new :: tk where
  "tk_new = sched.extend (Scheduler_new \<lparr>span_data = 0, span_size = 32\<rparr>)
     \<lparr>now_tick = 0, waiters = (\<lambda>_. TimeWaiter_new), w_next = (\<lambda>_. None), tq = SelfList_new,
      armed = 0, arm_valid = False, time_driver = crit_new, alarm_log = []\<rparr>"

lemma tk_new_inv: "tk_inv tk_new []"
  by (simp add: tk_inv_def tq_inv_def alarm_inv_def by_rel_def half_circle_def tk_new_def sched.defs rep_new)

lemma reaction_ok_skip: "reaction_ok (\<lambda>_ _. True) (\<lambda>w s. Some s)"
  by (auto simp: reaction_ok_def)



text \<open>A booking fires at its time and not before. After a waiter is booked for \<open>span\<close> ticks, whatever
  else is booked, the report of \<open>n\<close> ticks fires it if and only if \<open>span \<le> n\<close>; booking it again moves it,
  and cancelling takes it out (reporting whether it was booked), so that it does not fire.\<close>

theorem booking_fires_at_deadline:
  assumes ok: "reaction_ok (\<lambda>_ _. True) on_time" and inv: "tk_inv s qs" and span: "0 \<le> sint span" and n: "0 < sint n"
  shows "(\<exists>s1 s2 s3 ws. call_after_span w span s = Some s1 \<and> on_elapsed on_time n s1 = Some s2
      \<and> fires on_time (tick_forward n (time_lock s1)) ws s3 \<and> (w \<in> set ws \<longleftrightarrow> sint span \<le> sint n))
    \<and> (\<exists>s1 s2 s3 ws. cancel w s = Some (w \<in> set qs, s1) \<and> on_elapsed on_time n s1 = Some s2
      \<and> fires on_time (tick_forward n (time_lock s1)) ws s3 \<and> w \<notin> set ws)
    \<and> (\<forall>m. 0 \<le> sint m \<longrightarrow> (\<exists>s1 s2 qs'. call_after_span w m s = Some s1 \<and> call_after_span w span s1 = Some s2
      \<and> tk_inv s2 qs' \<and> set qs' = insert w (set qs) \<and> rel s2 w = sint span))"
proof (intro conjI allI impI)
  obtain s1 where s1: "call_after_span w span s = Some s1" "rel s1 = (rel s)(w := sint span)"
    "tk_inv s1 (ins_rel s1 w (remove1 w qs))" using call_after_span_spec [OF inv span, of w] by blast
  let ?qs = "ins_rel s1 w (remove1 w qs)"
  obtain s2 s3 where "on_elapsed on_time n s1 = Some s2"
    "fires on_time (tick_forward n (time_lock s1)) (filter (\<lambda>w. rel s1 w \<le> sint n) ?qs) s3"
    using on_elapsed_spec [OF ok s1(3) n TrueI] by blast
  moreover have "w \<in> set (filter (\<lambda>w. rel s1 w \<le> sint n) ?qs) \<longleftrightarrow> sint span \<le> sint n"
    by (simp add: s1(2) ins_rel_def)
  ultimately show "\<exists>s1 s2 s3 ws. call_after_span w span s = Some s1 \<and> on_elapsed on_time n s1 = Some s2
      \<and> fires on_time (tick_forward n (time_lock s1)) ws s3 \<and> (w \<in> set ws \<longleftrightarrow> sint span \<le> sint n)"
    using s1(1) by blast
next
  obtain s1 where s1: "cancel w s = Some (w \<in> set qs, s1)" "tk_inv s1 (remove1 w qs)"
    using cancel_spec [OF inv, of w] by blast
  obtain s2 s3 where "on_elapsed on_time n s1 = Some s2"
    "fires on_time (tick_forward n (time_lock s1)) (filter (\<lambda>w. rel s1 w \<le> sint n) (remove1 w qs)) s3"
    using on_elapsed_spec [OF ok s1(2) n TrueI] by blast
  moreover have "w \<notin> set (remove1 w qs)" using tk_invD(4) [OF inv] by simp
  ultimately show "\<exists>s1 s2 s3 ws. cancel w s = Some (w \<in> set qs, s1) \<and> on_elapsed on_time n s1 = Some s2
      \<and> fires on_time (tick_forward n (time_lock s1)) ws s3 \<and> w \<notin> set ws"
    using s1(1) by fastforce
next
  fix m :: tick
  assume "0 \<le> sint m"
  then show "\<exists>s1 s2 qs'. call_after_span w m s = Some s1 \<and> call_after_span w span s1 = Some s2
      \<and> tk_inv s2 qs' \<and> set qs' = insert w (set qs) \<and> rel s2 w = sint span"
    using tkp.book_twice_last_wins [OF inv _ span, of m w] by blast
qed

theorem booking_fires_at_deadline_witness:
  "\<exists>s1 s2 s3 ws. call_after_span (TimerWaiter 1) 7 tk_new = Some s1 \<and> on_elapsed (\<lambda>w s. Some s) 7 s1 = Some s2
     \<and> fires (\<lambda>w s. Some s) (tick_forward 7 (time_lock s1)) ws s3 \<and> TimerWaiter 1 \<in> set ws"
  using booking_fires_at_deadline [OF reaction_ok_skip tk_new_inv, of 7 7 "TimerWaiter 1"] by auto

text \<open>\<open>next_due_in\<close> says how long an idle system may sleep: nothing exactly when nobody is booked,
  and otherwise the remaining time of the earliest waiter, which no booked waiter undercuts; and the state
  it leaves is in order.\<close>

theorem next_due_in_is_minimum:
  assumes inv: "tk_inv s qs"
  shows "case next_due_in s of (r, s') \<Rightarrow> tk_inv s' qs \<and>
    (case r of None \<Rightarrow> qs = []
     | Some d \<Rightarrow> (\<exists>w \<in> set qs. rel s w = sint d) \<and> (\<forall>w \<in> set qs. sint d \<le> rel s w))"
proof (cases qs)
  case Nil
  then show ?thesis
    using inv tq_inv_head [of "time_lock s" "[]"] tk_invD(1) [OF inv]
    by (simp add: next_due_in_def CriticalGuard_ret_def)
next
  case (Cons w ws)
  have "tq_inv (time_lock s) (w # ws)" using tk_invD(1) [OF inv] Cons by simp
  then have head: "TimerQueue_head (time_lock s) = Some w" using tq_inv_head by fastforce
  let ?d = "deadline (waiters s w) - now_tick s"
  have "0 \<le> sint ?d" using tk_invD(3) [OF inv, of w] Cons by (simp add: rel_def)
  moreover have "word_of_int (sint ?d) = ?d" by simp
  ultimately have d: "(if 0 < sint ?d then word_of_int (sint ?d) else 0) = ?d"
    by (metis antisym_conv2 of_int_0)
  have "\<forall>x \<in> set qs. rel s w \<le> rel s x"
    using tk_invD(1) [OF inv] Cons by (auto simp: tq_inv_def by_rel_def)
  moreover have "next_due_in s = (Some ?d, time_unlock (time_lock s))"
    using head d by (simp add: next_due_in_def CriticalGuard_ret_def Let_def Clock_current_def)
  ultimately show ?thesis using inv Cons by (simp add: rel_def)
qed

theorem next_due_in_is_minimum_witness: "fst (next_due_in tk_new) = None"
  using next_due_in_is_minimum [OF tk_new_inv] by (auto split: prod.splits option.splits)

text \<open>A span of half the tick range or more is not a long wait: the deadline counts as past, and the
  next tick already fires the waiter.\<close>

theorem long_span_fires_at_once:
  assumes "2 ^ 31 + 2 \<le> uint span" and inv: "tk_inv s []"
  shows "\<exists>s1. call_after_span w span s = Some s1 \<and> deadline (waiters s1 w) = now_tick s + span
    \<and> fst (pop_due (now_tick s + 1) s1) = Some w"
proof -
  have r: "rep (tq s, w_next s) []" using tk_invD(1) [OF inv] by (simp add: tq_inv_def)
  have rem: "TimerQueue_remove w (time_lock s) = Some (False, time_lock s)"
    using rep_remove_absent [OF r, of w] by (simp add: TimerQueue_remove_def)
  let ?s3 = "(time_lock s)\<lparr>waiters := (waiters s)(w := (waiters s w)\<lparr>deadline := now_tick s + span\<rparr>)\<rparr>"
  obtain st where st: "SelfList_insert (DeadLineOrder (waiters ?s3)) w (tq s, w_next s) = Some st" "rep st [w]"
    using sl.holds_sorted_in [OF r, of w "DeadLineOrder (waiters ?s3)"] by (auto simp: ins_by_def)
  obtain l nx where lnx: "st = (l, nx)" by (cases st)
  let ?s4 = "?s3\<lparr>tq := l, w_next := nx\<rparr>"
  have book: "call_after_span w span s = Some (time_unlock (update_alarm ?s4))"
    using rem st(1) lnx
    by (simp add: call_after_span_def CriticalGuard_opt_def enqueue_locked_def TimerQueue_insert_def
        Ticks_plus_def Clock_current_def)
  have sp: "2147483650 \<le> uint span" using assms(1) by simp
  have sp2: "uint span < 4294967296" by (rule order_less_le_trans [OF uint_bounded]) simp
  have "uint (1 - span) = (1 - uint span) mod 4294967296" by (simp add: uint_word_ariths)
  also have "\<dots> = 1 - uint span + 4294967296"
    using sp sp2 mod_add_self2 [of "1 - uint span" 4294967296] mod_pos_pos_trivial [of "1 - uint span + 4294967296" 4294967296]
    by simp
  finally have "uint (1 - span) = 4294967297 - uint span" by simp
  then have "0 \<le> sint (1 - span)"
    using sp sp2 signed_take_bit_int_eq_self [of 31 "uint (1 - span)"] by (simp add: sint_uint)
  then have due: "is_after (now_tick s + span) (now_tick s + 1)" by (simp add: is_after_def)
  have r4: "rep (l, nx) [w]" using st(2) lnx by simp
  obtain st5 where "SelfList_pop_head (l, nx) = (Some w, st5)" using sl.holds_deq [OF r4] by blast
  then have "fst (pop_due (now_tick s + 1) (time_unlock (update_alarm ?s4))) = Some w"
    using due rep_head [OF r4] by (simp add: pop_due_def TimerQueue_head_def case_prod_beta)
  then show ?thesis using book by simp
qed

theorem long_span_fires_at_once_witness:
  "\<exists>s1. call_after_span (TaskAction 1) 0xC0000000 tk_new = Some s1 \<and> fst (pop_due 1 s1) = Some (TaskAction 1)"
  using long_span_fires_at_once [of "0xC0000000" tk_new "TaskAction 1"] tk_new_inv by (auto simp: tk_new_def sched.defs)

end
