(* ===== verification/Timed_Wait.thy ===== *)
theory Timed_Wait
  imports Timer_Queue
begin

text \<open>
  The contract that every waiting call with a deadline shares (\<open>wait_notify\<close> of the system face,
  \<open>try_acquire\<close> of the semaphore, the timed \<open>wait\<close> of the event group): a loop of turns, each of which
  decides or parks the caller as long as the deadline is ahead. That such a loop ends, whatever the rest of
  the system does between two turns as long as time goes on, is proved once.
\<close>

lemma deadline_nearer:
  fixes ddl now now' :: tick
  assumes ahead: "0 < sint (ddl - now)" and later: "0 < sint (now' - now)"
  shows "nat (sint (ddl - now')) < nat (sint (ddl - now))"
proof -
  have "sint (ddl - now') = sint (ddl - now) - sint (now' - now)"
    using sint_diff32 [of "ddl - now" "now' - now"] assms
      sint_range32 [of "ddl - now"] sint_range32 [of "now' - now"] by simp
  then show ?thesis using assms by simp
qed

locale timed_wait =
  fixes turn :: "'s \<Rightarrow> ('v option \<times> 's) option"
    and turns :: "('s \<Rightarrow> 's option) \<Rightarrow> 's \<Rightarrow> ('v \<times> 's) option"
    and now :: "'s \<Rightarrow> tick"
    and ddl :: tick
    and ready_to_try :: "'s \<Rightarrow> bool"
    and parked :: "'s \<Rightarrow> bool"
    and verdict_ok :: "'v \<Rightarrow> 's \<Rightarrow> bool"
  assumes turns_unfold: "turns world s = (case turn s of None \<Rightarrow> None
      | Some (v, s1) \<Rightarrow> (case v of Some r \<Rightarrow> Some (r, s1)
          | None \<Rightarrow> (case world s1 of None \<Rightarrow> None | Some s2 \<Rightarrow> turns world s2)))"
    and turn_decides: "ready_to_try s \<Longrightarrow> \<exists>v s1. turn s = Some (v, s1) \<and> now s1 = now s
      \<and> (case v of Some r \<Rightarrow> verdict_ok r s1 | None \<Rightarrow> parked s1 \<and> 0 < sint (ddl - now s))"
begin

text \<open>The caller makes progress when time has passed or when its next turn decides.\<close>

lemma turns_return_or_decide:
  assumes world: "\<forall>s. parked s \<longrightarrow> (\<exists>s'. world s = Some s' \<and> ready_to_try s'
      \<and> (0 < sint (now s' - now s) \<or> (\<exists>r s1. turn s' = Some (Some r, s1))))"
    and "ready_to_try s"
  shows "\<exists>r s'. turns world s = Some (r, s') \<and> verdict_ok r s'"
  using assms(2)
proof (induction "nat (sint (ddl - now s))" arbitrary: s rule: less_induct)
  case less
  have decided: "\<exists>r s'. turns world s = Some (r, s') \<and> verdict_ok r s'" if "ready_to_try s" "turn s = Some (Some r, s1)" for s r s1
    using turn_decides [OF that(1)] that(2) turns_unfold [of world s] by auto
  obtain v s1 where 1: "turn s = Some (v, s1)" "now s1 = now s"
    "case v of Some r \<Rightarrow> verdict_ok r s1 | None \<Rightarrow> parked s1 \<and> 0 < sint (ddl - now s)"
    using turn_decides [OF less.prems] by blast
  show ?case
  proof (cases v)
    case (Some r)
    then show ?thesis using decided [OF less.prems] 1(1) by simp
  next
    case None
    then obtain s2 where 2: "world s1 = Some s2" "ready_to_try s2" "0 < sint (now s2 - now s) \<or> (\<exists>r s1. turn s2 = Some (Some r, s1))"
      using world 1 by fastforce
    have on: "turns world s = turns world s2" using None 1(1) 2(1) turns_unfold [of world s] by simp
    show ?thesis
    proof (cases "0 < sint (now s2 - now s)")
      case True
      then have "nat (sint (ddl - now s2)) < nat (sint (ddl - now s))" using deadline_nearer 1 None by simp
      from less.hyps [OF this 2(2)] show ?thesis using on by simp
    next
      case False
      then show ?thesis using decided [OF 2(2)] 2(3) on by auto
    qed
  qed
qed

lemma turns_return:
  assumes "\<forall>s. parked s \<longrightarrow> (\<exists>s'. world s = Some s' \<and> ready_to_try s' \<and> 0 < sint (now s' - now s))" and "ready_to_try s"
  shows "\<exists>r s'. turns world s = Some (r, s') \<and> verdict_ok r s'"
  by (rule turns_return_or_decide) (use assms in blast)+

end

end
