(* ===== verification/System_Face.thy ===== *)
theory System_Face
  imports Scheduler_Props Time_Kernel Timed_Wait
begin

text \<open>
  The system face of \<^verbatim>\<open>src/arch/arm_cortex_m3/system.cpp\<close> over the two singletons (scheduler and time
  kernel), the \<open>ThisTask\<close> front (\<^verbatim>\<open>this_task.cpp\<close>, \<^verbatim>\<open>this_task_impl.hpp\<close>) and software timers
  (\<^verbatim>\<open>kernel/clock/timer.hpp\<close>). The state is one record that extends the time kernel's, which extends
  the scheduler's. A timer's user function is the parameter \<open>user\<close>; what happens between the moment a
  task gives up the processor and the moment it runs again is the parameter \<open>world\<close>.
\<close>

section \<open>State\<close>

type_synonym Milliseconds = u32

record timer =
  t_call :: Callback
  period :: tick
  t_running :: bool

record sys = tk +
  sys_guard :: crit
  timers :: "addr \<Rightarrow> timer"

section \<open>The system face\<close>

definition sys_lock :: "'a sys_scheme \<Rightarrow> 'a sys_scheme" where
  "sys_lock s = (case crit_lock (sys_guard s, s) of (g, s') \<Rightarrow> s'\<lparr>sys_guard := g\<rparr>)"

definition sys_unlock :: "'a sys_scheme \<Rightarrow> 'a sys_scheme" where
  "sys_unlock s = (case crit_unlock (sys_guard s, s) of (g, s') \<Rightarrow> s'\<lparr>sys_guard := g\<rparr>)"

definition sched_sleep_for :: "addr \<Rightarrow> tick \<Rightarrow> on_time option \<Rightarrow> 'a tk_scheme \<Rightarrow> 'a tk_scheme option" where
  "sched_sleep_for t span wake = park_for (TaskAction t) span wake (sched_block (Some t))"

definition wake_from_sleep :: "waiter \<Rightarrow> 'a tk_scheme \<Rightarrow> 'a tk_scheme option" where
  "wake_from_sleep w s = (case TCB_owner_of w of None \<Rightarrow> None | Some t \<Rightarrow> Some (sched_ready (Some t) s))"

definition sys_current_task :: "'a sched_scheme \<Rightarrow> addr option" where
  "sys_current_task s = current_task s"

definition sys_ready :: "addr option \<Rightarrow> 'a sched_scheme \<Rightarrow> 'a sched_scheme" where
  "sys_ready t = sched_ready t"

definition sys_block :: "addr option \<Rightarrow> 'a sched_scheme \<Rightarrow> 'a sched_scheme" where
  "sys_block t = sched_block t"

text \<open>Sleeping with no task (\<open>nullptr\<close>) takes the address of a member of nothing.\<close>

definition sys_sleep_for :: "addr option \<Rightarrow> tick \<Rightarrow> 'a tk_scheme \<Rightarrow> 'a tk_scheme option" where
  "sys_sleep_for t span s =
     (case t of None \<Rightarrow> None | Some t \<Rightarrow> sched_sleep_for t span (Some WakeFromSleep) s)"

definition sys_yield :: "'a sched_scheme \<Rightarrow> 'a sched_scheme" where
  "sys_yield = sched_yield"

definition sys_now :: "'a tk_scheme \<Rightarrow> tick" where
  "sys_now s = time_current s"

definition sys_prio :: "addr \<Rightarrow> 'a sched_scheme \<Rightarrow> TaskPriority_t" where
  "sys_prio = sched_prio"

definition sys_reprioritize :: "addr \<Rightarrow> TaskPriority_t \<Rightarrow> 'a sched_scheme \<Rightarrow> 'a sched_scheme option" where
  "sys_reprioritize = reprioritize"

definition arm_timer :: "waiter \<Rightarrow> tick \<Rightarrow> 'a tk_scheme \<Rightarrow> 'a tk_scheme option" where
  "arm_timer = call_after_span"

definition cancel_timer :: "waiter \<Rightarrow> 'a tk_scheme \<Rightarrow> 'a tk_scheme option" where
  "cancel_timer w s = map_option snd (cancel w s)"

definition sys_notify :: "addr option \<Rightarrow> u32 \<Rightarrow> 'a sched_scheme \<Rightarrow> bool \<times> 'a sched_scheme" where
  "sys_notify = sched_notify"

text \<open>One turn of the waiting loop: a verdict, or none yet and the caller sleeps.\<close>

definition wait_notify_turn :: "tick \<Rightarrow> 'a tk_scheme \<Rightarrow> ((SyncError + u32) option \<times> 'a tk_scheme) option" where
  "wait_notify_turn ddl s =
     (case sched_wait_notify s of
        (Inr letter, s1) \<Rightarrow> Some (Some (Inr letter), s1)
      | (Inl _, s1) \<Rightarrow>
          (let left = sint (ddl - time_current s1)
           in if left \<le> 0 then Some (Some (Inl TimedOut), s1)
              else (case current_task s1 of None \<Rightarrow> None
                    | Some t \<Rightarrow> map_option (Pair None) (sched_sleep_for t (word_of_int left) (Some WakeFromSleep) s1))))"

partial_function (option) wait_notify_loop ::
  "('a tk_scheme \<Rightarrow> 'a tk_scheme option) \<Rightarrow> tick \<Rightarrow> 'a tk_scheme \<Rightarrow> ((SyncError + u32) \<times> 'a tk_scheme) option" where
  "wait_notify_loop world ddl s =
     (case wait_notify_turn ddl s of None \<Rightarrow> None
      | Some (verdict, s1) \<Rightarrow>
          (case verdict of Some r \<Rightarrow> Some (r, s1)
           | None \<Rightarrow> (case world s1 of None \<Rightarrow> None | Some s2 \<Rightarrow> wait_notify_loop world ddl s2)))"

definition sys_wait_notify ::
  "('a tk_scheme \<Rightarrow> 'a tk_scheme option) \<Rightarrow> tick \<Rightarrow> 'a tk_scheme \<Rightarrow> ((SyncError + u32) \<times> 'a tk_scheme) option" where
  "sys_wait_notify world span s = wait_notify_loop world (time_current s + span) s"

text \<open>The placement-new of \<open>TCBCreator::spawn_into\<close>: a fresh control block, unlinked, with a fresh alarm.\<close>

definition construct_tcb :: "addr \<Rightarrow> tcb \<Rightarrow> 'a tk_scheme \<Rightarrow> 'a tk_scheme" where
  "construct_tcb box t s = s\<lparr>tcbs := (tcbs s)(box := t), tcb_next := (tcb_next s)(box := None),
     waiters := (waiters s)(TaskAction box := TimeWaiter_new), w_next := (w_next s)(TaskAction box := None)\<rparr>"

section \<open>ThisTask\<close>

definition Backend_sleep_for :: "Milliseconds \<Rightarrow> 'a tk_scheme \<Rightarrow> 'a tk_scheme option" where
  "Backend_sleep_for delay s = sys_sleep_for (sys_current_task s) delay s"

definition Backend_yield :: "'a sched_scheme \<Rightarrow> 'a sched_scheme" where
  "Backend_yield = sys_yield"

definition Backend_block :: "'a sched_scheme \<Rightarrow> 'a sched_scheme" where
  "Backend_block s = sys_block (sys_current_task s) s"

definition Backend_now :: "'a tk_scheme \<Rightarrow> tick" where
  "Backend_now = sys_now"

definition Backend_wait_notify ::
  "('a tk_scheme \<Rightarrow> 'a tk_scheme option) \<Rightarrow> Milliseconds \<Rightarrow> 'a tk_scheme \<Rightarrow> ((SyncError + u32) \<times> 'a tk_scheme) option" where
  "Backend_wait_notify world timeout = sys_wait_notify world timeout"

text \<open>The face that programs call forwards to the backend linked in for the target.\<close>

definition ThisTask_sleep_for :: "Milliseconds \<Rightarrow> 'a tk_scheme \<Rightarrow> 'a tk_scheme option" where
  "ThisTask_sleep_for = Backend_sleep_for"

definition ThisTask_yield :: "'a sched_scheme \<Rightarrow> 'a sched_scheme" where
  "ThisTask_yield = Backend_yield"

definition ThisTask_block :: "'a sched_scheme \<Rightarrow> 'a sched_scheme" where
  "ThisTask_block = Backend_block"

definition ThisTask_now :: "'a tk_scheme \<Rightarrow> tick" where
  "ThisTask_now = Backend_now"

definition ThisTask_wait_notify ::
  "('a tk_scheme \<Rightarrow> 'a tk_scheme option) \<Rightarrow> Milliseconds \<Rightarrow> 'a tk_scheme \<Rightarrow> ((SyncError + u32) \<times> 'a tk_scheme) option" where
  "ThisTask_wait_notify world timeout = Backend_wait_notify world timeout"

section \<open>Timers\<close>

definition Timer_new :: timer where
  "Timer_new = \<lparr>t_call = \<lparr>cb_fn = None, cb_arg = None\<rparr>, period = 0, t_running = False\<rparr>"

fun Timer_owner_of :: "waiter \<Rightarrow> addr option" where
  "Timer_owner_of (TimerWaiter t) = Some t"
| "Timer_owner_of (TaskAction _) = None"

definition set_timer :: "addr \<Rightarrow> timer \<Rightarrow> 'a sys_scheme \<Rightarrow> 'a sys_scheme" where
  "set_timer t v s = s\<lparr>timers := (timers s)(t := v)\<rparr>"

definition arm_me :: "addr \<Rightarrow> tick \<Rightarrow> Milliseconds \<Rightarrow> Callback \<Rightarrow> 'a sys_scheme \<Rightarrow> 'a sys_scheme option" where
  "arm_me t p span callback = CriticalGuard_opt sys_lock sys_unlock (\<lambda>s.
     arm_timer (TimerWaiter t) span (set_timer t \<lparr>t_call = callback, period = p, t_running = True\<rparr> s))"

definition Timer_oneshot :: "addr \<Rightarrow> Milliseconds \<Rightarrow> addr option \<Rightarrow> addr option \<Rightarrow> 'a sys_scheme \<Rightarrow> 'a sys_scheme option" where
  "Timer_oneshot t span fn arg = arm_me t 0 span \<lparr>cb_fn = fn, cb_arg = arg\<rparr>"

definition Timer_periodic :: "addr \<Rightarrow> Milliseconds \<Rightarrow> addr option \<Rightarrow> addr option \<Rightarrow> 'a sys_scheme \<Rightarrow> 'a sys_scheme option" where
  "Timer_periodic t span fn arg = arm_me t span span \<lparr>cb_fn = fn, cb_arg = arg\<rparr>"

definition Timer_stop :: "addr \<Rightarrow> 'a sys_scheme \<Rightarrow> 'a sys_scheme option" where
  "Timer_stop t = CriticalGuard_opt sys_lock sys_unlock (\<lambda>s.
     cancel_timer (TimerWaiter t) (set_timer t ((timers s t)\<lparr>period := 0, t_running := False\<rparr>) s))"

type_synonym 's user = "addr \<Rightarrow> addr option \<Rightarrow> 's \<Rightarrow> 's option"

definition Timer_fired :: "'a sys_scheme user \<Rightarrow> waiter \<Rightarrow> 'a sys_scheme \<Rightarrow> 'a sys_scheme option" where
  "Timer_fired user w s =
     (case Timer_owner_of w of None \<Rightarrow> None
      | Some t \<Rightarrow> do {
          let s1 = set_timer t ((timers s t)\<lparr>t_running := False\<rparr>) s;
          s2 \<leftarrow> Callback_invoke user (t_call (timers s1 t)) s1;
          if period (timers s2 t) \<noteq> 0
          then arm_timer w (period (timers s2 t)) (set_timer t ((timers s2 t)\<lparr>t_running := True\<rparr>) s2)
          else Some s2
        })"

text \<open>The indirect call \<open>due->OnTime(due)\<close>; a waiter without a reaction is a call of \<open>nullptr\<close>.\<close>

definition react :: "'a sys_scheme user \<Rightarrow> waiter \<Rightarrow> 'a sys_scheme \<Rightarrow> 'a sys_scheme option" where
  "react user w s =
     (case OnTime (waiters s w) of None \<Rightarrow> None
      | Some WakeFromSleep \<Rightarrow> wake_from_sleep w s
      | Some TimerFired \<Rightarrow> Timer_fired user w s)"

lemmas ThisTask_defs = ThisTask_sleep_for_def ThisTask_yield_def ThisTask_block_def ThisTask_now_def ThisTask_wait_notify_def
  Backend_sleep_for_def Backend_yield_def Backend_block_def Backend_now_def Backend_wait_notify_def

section \<open>Frames\<close>

text \<open>Scheduler calls leave the time kernel alone.\<close>

lemma lock_time [simp]:
  "now_tick (sched_lock s) = now_tick s" "waiters (sched_lock s) = waiters s" "tq (sched_lock s) = tq s"
  "w_next (sched_lock s) = w_next s" "armed (sched_lock s) = armed s" "arm_valid (sched_lock s) = arm_valid s"
  "now_tick (sched_unlock s) = now_tick s" "waiters (sched_unlock s) = waiters s" "tq (sched_unlock s) = tq s"
  "w_next (sched_unlock s) = w_next s" "armed (sched_unlock s) = armed s" "arm_valid (sched_unlock s) = arm_valid s"
  by (simp_all add: sched_lock_def sched_unlock_def crit_lock_def crit_unlock_def write_basepri_def Let_def)

lemma push_time [simp]:
  "now_tick (sched_push_back t s) = now_tick s" "waiters (sched_push_back t s) = waiters s" "tq (sched_push_back t s) = tq s"
  "w_next (sched_push_back t s) = w_next s" "armed (sched_push_back t s) = armed s" "arm_valid (sched_push_back t s) = arm_valid s"
  "now_tick (sched_push_front t s) = now_tick s" "waiters (sched_push_front t s) = waiters s" "tq (sched_push_front t s) = tq s"
  "w_next (sched_push_front t s) = w_next s" "armed (sched_push_front t s) = armed s" "arm_valid (sched_push_front t s) = arm_valid s"
  by (simp_all add: sched_push_back_def sched_push_front_def set_tcb_state_def Let_def split: prod.splits)

lemma pop_time [simp]:
  "now_tick (snd (pop_highest s)) = now_tick s" "waiters (snd (pop_highest s)) = waiters s" "tq (snd (pop_highest s)) = tq s"
  "w_next (snd (pop_highest s)) = w_next s" "armed (snd (pop_highest s)) = armed s" "arm_valid (snd (pop_highest s)) = arm_valid s"
  by (simp_all add: pop_highest_def Let_def split: prod.splits)

lemma set_time [simp]:
  "now_tick (set_tcb_state t v s) = now_tick s" "waiters (set_tcb_state t v s) = waiters s" "tq (set_tcb_state t v s) = tq s"
  "w_next (set_tcb_state t v s) = w_next s" "armed (set_tcb_state t v s) = armed s" "arm_valid (set_tcb_state t v s) = arm_valid s"
  "now_tick (request_switch s) = now_tick s" "waiters (request_switch s) = waiters s" "tq (request_switch s) = tq s"
  "w_next (request_switch s) = w_next s" "armed (request_switch s) = armed s" "arm_valid (request_switch s) = arm_valid s"
  by (simp_all add: set_tcb_state_def request_switch_def)

lemma call_time [simp]:
  "now_tick (sched_ready t s) = now_tick s" "waiters (sched_ready t s) = waiters s" "tq (sched_ready t s) = tq s"
  "w_next (sched_ready t s) = w_next s" "armed (sched_ready t s) = armed s" "arm_valid (sched_ready t s) = arm_valid s"
  "now_tick (sched_add t s) = now_tick s" "waiters (sched_add t s) = waiters s" "tq (sched_add t s) = tq s"
  "w_next (sched_add t s) = w_next s" "armed (sched_add t s) = armed s" "arm_valid (sched_add t s) = arm_valid s"
  "now_tick (sched_block t s) = now_tick s" "waiters (sched_block t s) = waiters s" "tq (sched_block t s) = tq s"
  "w_next (sched_block t s) = w_next s" "armed (sched_block t s) = armed s" "arm_valid (sched_block t s) = arm_valid s"
  by (simp_all add: sched_ready_def sched_add_def sched_block_def CriticalGuard_def Let_def split: option.splits)

lemma pick_time [simp]:
  "now_tick (snd (pick_next s)) = now_tick s" "waiters (snd (pick_next s)) = waiters s" "tq (snd (pick_next s)) = tq s"
  "w_next (snd (pick_next s)) = w_next s" "armed (snd (pick_next s)) = armed s" "arm_valid (snd (pick_next s)) = arm_valid s"
  by (simp_all add: pick_next_def pick_next_locked_def CriticalGuard_ret_def Let_def case_prod_beta split: option.splits)

lemma tick_forward_sel [simp]:
  "waiters (tick_forward n s) = waiters s" "tcbs (tick_forward n s) = tcbs s"
  "prio_level (tick_forward n s) t = prio_level s t" "prio_level (time_lock s) t = prio_level s t"
  by (simp_all add: tick_forward_def prio_level_def)

lemma refines_time [simp]:
  "refines (time_lock s) a = refines s a" "refines (time_unlock s) a = refines s a"
  "refines (tick_forward n s) a = refines s a" "refines (s\<lparr>tq := l, w_next := nx\<rparr>) a = refines s a"
  "refines (s\<lparr>waiters := ws\<rparr>) a = refines s a"
  by (simp_all add: refines_def levels_def time_lock_def time_unlock_def crit_lock_def crit_unlock_def
      write_basepri_def tick_forward_def Let_def)

lemma refines_alarm [simp]: "refines (update_alarm s) a = refines s a"
  by (simp add: refines_def levels_def update_alarm_def Let_def split: option.splits)

lemma enqueue_refines:
  assumes "enqueue_locked w span wake s = Some s'"
  shows "refines s' a = refines s a"
  using assms
  by (auto simp: enqueue_locked_def TimerQueue_remove_def TimerQueue_insert_def Let_def
      split: bind_splits if_splits)

lemma pop_due_frame:
  assumes "pop_due now s = (r, s')"
  shows "tcbs s' = tcbs s" "waiters s' = waiters s" "now_tick s' = now_tick s"
  using assms by (auto simp: pop_due_def split: option.splits if_splits prod.splits)

lemma ready_tcbs:
  assumes "prio_level s t < 32"
  shows "tcbs (sched_ready (Some t) s) =
    (if tcb_state (tcbs s t) = Blocked then (tcbs s)(t := (tcbs s t)\<lparr>tcb_state := Ready\<rparr>) else tcbs s)"
proof -
  have "prio_level (sched_lock s) t < 32" using assms by (simp add: prio_level_def)
  then show ?thesis
    by (auto simp: sched_ready_def CriticalGuard_def Let_def push_tcbs request_switch_def)
qed

section \<open>Sleeping tasks\<close>

text \<open>All booked waiters are sleeping tasks of the scheduler.\<close>

definition sleepers :: "addr set \<Rightarrow> waiter list \<Rightarrow> 'a tk_scheme \<Rightarrow> bool" where
  "sleepers T ws s \<longleftrightarrow>
     (\<forall>w \<in> set ws. \<exists>t \<in> T. w = TaskAction t \<and> OnTime (waiters s w) = Some WakeFromSleep)
     \<and> (\<exists>a. refines s a \<and> a_inv a \<and> a_tasks a = T)"

lemma react_sleeper:
  assumes "OnTime (waiters s (TaskAction t)) = Some WakeFromSleep"
  shows "react user (TaskAction t) s = Some (sched_ready (Some t) s)"
  using assms by (simp add: react_def wake_from_sleep_def)

lemma sleepers_reaction: "reaction_ok (sleepers T) (react user)"
  unfolding reaction_ok_def
proof (intro conjI allI impI)
  show "sleepers T ws (s\<lparr>tq := l, w_next := nx\<rparr>)" if "sleepers T ws s" for ws and s :: "'a sys_scheme" and l nx
    using that by (simp add: sleepers_def)
  fix w qs
  fix s :: "'a sys_scheme"
  assume I: "sleepers T (w # qs) s" and inv: "tq_inv s qs" and "w \<notin> set qs"
  obtain t where t: "t \<in> T" "w = TaskAction t" "OnTime (waiters s w) = Some WakeFromSleep"
    using I by (auto simp: sleepers_def)
  obtain a where a: "refines s a" "a_inv a" "a_tasks a = T" using I by (auto simp: sleepers_def)
  let ?s = "sched_ready (Some t) s"
  have "refines ?s (a_wake t a)" using sim_ready [OF a(1,2), of "Some t"] a(3) t(1) by simp
  moreover have "a_inv (a_wake t a)" using a_inv_wake [OF a(2)] a(3) t(1) by simp
  moreover have "a_tasks (a_wake t a) = T"
    using a(3) by (simp add: a_wake_def a_preempt_def a_enqueue_def)
  ultimately have "sleepers T qs ?s" using I by (auto simp: sleepers_def)
  moreover have "tq_inv ?s qs" using inv tq_inv_cong [of ?s s] by simp
  moreover have "due ?s = due s" using rel_cong [of ?s s] by (simp add: due_def fun_eq_iff)
  ultimately show "\<exists>s' qs'. react user w s = Some s' \<and> tq_inv s' qs' \<and> now_tick s' = now_tick s
      \<and> filter (due s') qs' = filter (due s) qs \<and> sleepers T qs' s'"
    using react_sleeper [of s t user] t by auto
qed

text \<open>The firing of a set of sleepers wakes exactly their tasks.\<close>

lemma fires_wakes:
  assumes "fires (react user) s ws s'"
    and "\<forall>w \<in> set ws. \<exists>t. w = TaskAction t \<and> prio_level s t < 32 \<and> OnTime (waiters s w) = Some WakeFromSleep"
  shows "tcb_state (tcbs s' u) = (if TaskAction u \<in> set ws \<and> tcb_state (tcbs s u) = Blocked then Ready else tcb_state (tcbs s u))"
  using assms
proof (induction arbitrary: u rule: fires.induct)
  case (fires_stop s s')
  then show ?case using pop_due_frame [OF fires_stop(1)] by simp
next
  case (fires_one s w s1 s2 ws s')
  note fr = pop_due_frame [OF fires_one.hyps(1)]
  obtain t where t: "w = TaskAction t" "prio_level s t < 32" "OnTime (waiters s w) = Some WakeFromSleep"
    using fires_one.prems by auto
  have p1: "prio_level s1 v = prio_level s v" for v using fr(1) by (simp add: prio_level_def)
  have s2: "s2 = sched_ready (Some t) s1"
    using fires_one.hyps(2) react_sleeper [of s1 t user] t fr(2) by simp
  have tcbs2: "tcbs s2 = (if tcb_state (tcbs s t) = Blocked then (tcbs s)(t := (tcbs s t)\<lparr>tcb_state := Ready\<rparr>) else tcbs s)"
    unfolding s2 using ready_tcbs [of s1 t] p1 t(2) fr(1) by simp
  have w2: "waiters s2 = waiters s" using fr(2) by (simp add: s2)
  have p2: "prio_level s2 v = prio_level s v" for v by (simp add: prio_level_def tcbs2)
  have "\<forall>w \<in> set ws. \<exists>t. w = TaskAction t \<and> prio_level s2 t < 32 \<and> OnTime (waiters s2 w) = Some WakeFromSleep"
    using fires_one.prems by (simp add: p2 w2)
  from fires_one.IH [OF this, of u] show ?case using t(1) by (auto simp: tcbs2)
qed

text \<open>Going to sleep: blocked and booked under one guard.\<close>

lemma sleep_spec:
  assumes r: "refines s a" and inv: "tk_inv s qs" and span: "0 \<le> sint span"
  shows "\<exists>s'. sys_sleep_for (Some t) span s = Some s' \<and> refines s' (a_op (OpBlock (Some t)) a)
    \<and> rel s' = (rel s)(TaskAction t := sint span)
    \<and> tk_inv s' (ins_rel s' (TaskAction t) (remove1 (TaskAction t) qs)) \<and> now_tick s' = now_tick s
    \<and> OnTime (waiters s' (TaskAction t)) = Some WakeFromSleep
    \<and> (\<forall>w. w \<noteq> TaskAction t \<longrightarrow> OnTime (waiters s' w) = OnTime (waiters s w))"
proof -
  have inv': "tk_inv (time_lock s) qs" using inv by simp
  obtain s1 where s1: "enqueue_locked (TaskAction t) span (Some WakeFromSleep) (time_lock s) = Some s1"
    "rel s1 = (rel s)(TaskAction t := sint span)"
    "tk_inv s1 (ins_rel s1 (TaskAction t) (remove1 (TaskAction t) qs))" "now_tick s1 = now_tick s"
    "OnTime (waiters s1 (TaskAction t)) = Some WakeFromSleep"
    using enqueue_tk_inv [OF inv' span, of "TaskAction t" "Some WakeFromSleep"] by auto
  have others: "OnTime (waiters s1 w) = OnTime (waiters s w)" if "w \<noteq> TaskAction t" for w
    using s1(1) that
    by (auto simp: enqueue_locked_def TimerQueue_remove_def TimerQueue_insert_def Let_def split: bind_splits)
  let ?s = "time_unlock (sched_block (Some t) s1)"
  have "refines s1 a" using enqueue_refines [OF s1(1)] r by simp
  then have "refines ?s (a_op (OpBlock (Some t)) a)" using sim_block [of s1 a "Some t"] by simp
  moreover have rel: "rel (sched_block (Some t) s1) = rel s1" by (rule rel_cong) simp_all
  moreover have "tk_inv ?s (ins_rel ?s (TaskAction t) (remove1 (TaskAction t) qs))"
    using s1(3) tq_inv_cong [of "sched_block (Some t) s1" s1]
    by (simp add: tk_inv_def alarm_inv_def rel ins_rel_def)
  moreover have "sys_sleep_for (Some t) span s = Some ?s"
    using s1(1) by (simp add: sys_sleep_for_def sched_sleep_for_def park_for_def CriticalGuard_opt_def)
  ultimately show ?thesis using s1 others by auto
qed

text \<open>Reporting ticks to a system of sleepers wakes exactly those whose time has come.\<close>

text \<open>Firing sleepers touches nothing outside the scheduler and the time kernel.\<close>

lemma more_calls [simp]:
  "sys.more (sched_lock s) = sys.more s" "sys.more (sched_unlock s) = sys.more s" "sys.more (time_lock s) = sys.more s"
  "sys.more (time_unlock s) = sys.more s" "sys.more (update_alarm s) = sys.more s" "sys.more (tick_forward n s) = sys.more s"
  "sys.more (sched_push_back t s) = sys.more s" "sys.more (request_switch s) = sys.more s"
  by (auto simp: sched_lock_def sched_unlock_def time_lock_def time_unlock_def crit_lock_def crit_unlock_def write_basepri_def
      update_alarm_def tick_forward_def sched_push_back_def set_tcb_state_def request_switch_def Let_def split: prod.splits option.splits)

lemma more_ready [simp]: "sys.more (sched_ready t s) = sys.more s"
  by (auto simp: sched_ready_def CriticalGuard_def Let_def split: option.splits)

lemma pop_due_more: "pop_due now s = (r, s') \<Longrightarrow> sys.more s' = sys.more s"
  by (auto simp: pop_due_def split: option.splits if_splits prod.splits)

lemma ready_current [simp]: "current (sched_ready t s) = current s"
  by (auto simp: sched_ready_def CriticalGuard_def Let_def request_switch_def split: option.splits)

lemma pop_due_current: "pop_due now s = (r, s') \<Longrightarrow> current s' = current s"
  by (auto simp: pop_due_def split: option.splits if_splits prod.splits)

lemma fires_more:
  assumes "fires (react user) s ws s'" and "\<forall>w \<in> set ws. \<exists>t. w = TaskAction t \<and> OnTime (waiters s w) = Some WakeFromSleep"
  shows "sys.more s' = sys.more s \<and> current s' = current s \<and> waiters s' = waiters s"
  using assms
proof (induction rule: fires.induct)
  case (fires_stop s s')
  then show ?case using pop_due_more pop_due_current pop_due_frame [OF fires_stop(1)] by blast
next
  case (fires_one s w s1 s2 ws s')
  note fr = pop_due_frame [OF fires_one.hyps(1)] pop_due_more [OF fires_one.hyps(1)] pop_due_current [OF fires_one.hyps(1)]
  obtain t where t: "w = TaskAction t" "OnTime (waiters s w) = Some WakeFromSleep" using fires_one.prems by auto
  have s2: "s2 = sched_ready (Some t) s1"
    using fires_one.hyps(2) react_sleeper [of s1 t user] t fr(2) by simp
  have "waiters s2 = waiters s" using fr(2) by (simp add: s2)
  then have "\<forall>w \<in> set ws. \<exists>t. w = TaskAction t \<and> OnTime (waiters s2 w) = Some WakeFromSleep"
    using fires_one.prems by simp
  from fires_one.IH [OF this] show ?case using fr by (simp add: s2)
qed

lemma elapse_more:
  assumes inv: "tk_inv s qs" and sl: "sleepers T qs s" and n: "0 < sint n"
    and run: "on_elapsed (react user) n s = Some s2"
  shows "sys.more s2 = sys.more s" "current s2 = current s" "waiters s2 = waiters s"
proof -
  have init: "sleepers T qs (tick_forward n (time_lock s))" using sl by (auto simp: sleepers_def)
  obtain s3 where s3: "s2 = time_unlock (update_alarm s3)"
    "fires (react user) (tick_forward n (time_lock s)) (filter (\<lambda>w. rel s w \<le> sint n) qs) s3"
    using on_elapsed_spec [OF sleepers_reaction inv n init, of user] run by auto
  have "sys.more s3 = sys.more s \<and> current s3 = current s \<and> waiters s3 = waiters s"
    using fires_more [OF s3(2)] init by (fastforce simp: sleepers_def tick_forward_def)
  then show "sys.more s2 = sys.more s" "current s2 = current s" "waiters s2 = waiters s" using s3(1) by simp_all
qed

lemma elapse_wakes:
  assumes inv: "tk_inv s qs" and sl: "sleepers T qs s" and n: "0 < sint n"
  shows "\<exists>s2 qs2. on_elapsed (react user) n s = Some s2 \<and> tk_inv s2 qs2 \<and> sleepers T qs2 s2 \<and> now_tick s2 = now_tick s + n
    \<and> (\<forall>u. tcb_state (tcbs s2 u) =
         (if TaskAction u \<in> set qs \<and> rel s (TaskAction u) \<le> sint n \<and> tcb_state (tcbs s u) = Blocked
          then Ready else tcb_state (tcbs s u)))"
proof -
  let ?s = "tick_forward n (time_lock s)" and ?ws = "filter (\<lambda>w. rel s w \<le> sint n) qs"
  have init: "sleepers T qs ?s" using sl by (auto simp: sleepers_def)
  obtain s3 s2 qs2 where s2: "on_elapsed (react user) n s = Some s2" "tk_inv s2 qs2"
    "s2 = time_unlock (update_alarm s3)" "sleepers T qs2 s3" "fires (react user) ?s ?ws s3" "now_tick s2 = now_tick s + n"
    using on_elapsed_spec [OF sleepers_reaction inv n init] by blast
  obtain a where a: "refines s a" "a_inv a" "a_tasks a = T" using sl by (auto simp: sleepers_def)
  have "prio_level ?s u < 32" if "u \<in> T" for u
    using that a_inv_level [OF a(2), of u] refines_level [OF a(1), of u] a(3) by simp
  then have "\<forall>w \<in> set ?ws. \<exists>t. w = TaskAction t \<and> prio_level ?s t < 32 \<and> OnTime (waiters ?s w) = Some WakeFromSleep"
    using init by (fastforce simp: sleepers_def)
  then have "tcb_state (tcbs s3 u) = (if TaskAction u \<in> set ?ws \<and> tcb_state (tcbs s u) = Blocked
      then Ready else tcb_state (tcbs s u))" for u
    using fires_wakes [OF s2(5), of u] by simp
  moreover have "sleepers T qs2 s2" using s2(3,4) by (auto simp: sleepers_def)
  ultimately show ?thesis using s2(1-3,6) by auto
qed

text \<open>C17: sleeping. A running task that goes to sleep for \<open>span\<close> ticks is blocked, booked and a switch is
  requested before the call returns; a report of \<open>n\<close> ticks leaves it blocked when \<open>n < span\<close> and makes
  it ready, in the queues of the scheduler, when \<open>span \<le> n\<close>; the system's invariants hold afterwards,
  and the tasks that were not due keep their state.\<close>

theorem sleep_wakes_on_time:
  assumes r: "refines s a" and i: "a_inv a" and inv: "tk_inv s qs" and sl: "sleepers (a_tasks a) qs s"
    and t: "current s = Some t" "t \<in> a_tasks a" "tcb_state (tcbs s t) = Running"
    and span: "0 \<le> sint span" and n: "0 < sint n"
  shows "\<exists>s1 s2 a2 qs2. ThisTask_sleep_for span s = Some s1 \<and> tcb_state (tcbs s1 t) = Blocked \<and> pendsv s1
    \<and> on_elapsed (react user) n s1 = Some s2
    \<and> tcb_state (tcbs s2 t) = (if sint span \<le> sint n then Ready else Blocked)
    \<and> refines s2 a2 \<and> a_inv a2 \<and> (sint span \<le> sint n \<longrightarrow> t \<in> queued (a_queue a2))
    \<and> tk_inv s2 qs2 \<and> sleepers (a_tasks a) qs2 s2"
proof -
  let ?w = "TaskAction t" and ?a1 = "a_op (OpBlock (Some t)) a"
  obtain s1 where s1: "sys_sleep_for (Some t) span s = Some s1" "refines s1 ?a1"
    "rel s1 = (rel s)(?w := sint span)" "tk_inv s1 (ins_rel s1 ?w (remove1 ?w qs))"
    "OnTime (waiters s1 ?w) = Some WakeFromSleep" "\<forall>w. w \<noteq> ?w \<longrightarrow> OnTime (waiters s1 w) = OnTime (waiters s w)"
    using sleep_spec [OF r inv span, of t] by blast
  let ?qs = "ins_rel s1 ?w (remove1 ?w qs)"
  have i1: "a_inv ?a1"
    using a_inv_op [OF i, of "OpBlock (Some t)"] t refines_state [OF r, of t] by simp
  have T1: "a_tasks ?a1 = a_tasks a" by simp
  have qs1: "set ?qs = insert ?w (set qs)" using tk_invD(4) [OF inv] by (auto simp: ins_rel_def)
  have "OnTime (waiters s1 w) = Some WakeFromSleep" if "w \<in> set ?qs" for w
    using that sl s1(5,6) unfolding qs1 sleepers_def by (cases "w = ?w") auto
  then have sl1: "sleepers (a_tasks a) ?qs s1"
    using sl s1(2) i1 T1 t(2) unfolding sleepers_def qs1 by auto
  obtain s2 qs2 where s2: "on_elapsed (react user) n s1 = Some s2" "tk_inv s2 qs2" "sleepers (a_tasks a) qs2 s2"
    "\<forall>u. tcb_state (tcbs s2 u) = (if TaskAction u \<in> set ?qs \<and> rel s1 (TaskAction u) \<le> sint n
       \<and> tcb_state (tcbs s1 u) = Blocked then Ready else tcb_state (tcbs s1 u))"
    using elapse_wakes [OF s1(4) sl1 n, of user] by blast
  have blocked: "tcb_state (tcbs s1 t) = Blocked" using refines_state [OF s1(2), of t] by simp
  have "pendsv s1" using s1(2) refines_cur [OF r] t(1) by (simp add: refines_def)
  moreover have st: "tcb_state (tcbs s2 t) = (if sint span \<le> sint n then Ready else Blocked)"
    using s2(4) blocked s1(3) qs1 by simp
  moreover obtain a2 where a2: "refines s2 a2" "a_inv a2" "a_tasks a2 = a_tasks a"
    using s2(3) by (auto simp: sleepers_def)
  moreover have "t \<in> queued (a_queue a2)" if "sint span \<le> sint n"
    using that st a2 t(2) a_inv_level [OF a2(2), of t] refines_state [OF a2(1), of t]
    by (auto simp: queued_def a_inv_queue(1) [OF a2(2)])
  ultimately show ?thesis
    using s1(1) s2(1-3) blocked t(1)
    by (auto simp: ThisTask_defs sys_current_task_def current_task_def)
qed

text \<open>The whole system as it is born, and with one running task.\<close>

definition sys_new :: sys where
  "sys_new = tk.extend tk_new \<lparr>sys_guard = crit_new, timers = (\<lambda>_. Timer_new)\<rparr>"

lemma sys_new_refines: "refines sys_new asched_new" and sys_new_tk: "tk_inv sys_new []"
proof -
  have "levels sys_new (a_queue asched_new)"
    using levels_new [of "\<lparr>span_data = 0, span_size = 32\<rparr>"]
    by (simp add: levels_def sys_new_def tk_new_def sched.defs tk.defs asched_new_def)
  then show "refines sys_new asched_new"
    using new_refines(1) [of "\<lparr>span_data = 0, span_size = 32\<rparr>"]
    by (simp add: refines_def sys_new_def tk_new_def sched.defs tk.defs)
  show "tk_inv sys_new []"
    by (simp add: tk_inv_def tq_inv_def alarm_inv_def by_rel_def half_circle_def sys_new_def tk_new_def
        sched.defs tk.defs rep_new)
qed

definition one_up :: sys where
  "one_up = snd (pick_next (sched_add (Some 1) sys_new))"

lemma one_up_state:
  "refines one_up (a_op OpPick (a_op (OpAdd (Some 1)) asched_new))" "a_inv (a_op OpPick (a_op (OpAdd (Some 1)) asched_new))"
  "current one_up = Some 1" "tcb_state (tcbs one_up 1) = Running" "tk_inv one_up []"
proof -
  let ?a = "a_op (OpAdd (Some 1)) asched_new"
  have ok: "op_ok (OpAdd (Some 1)) asched_new" by (simp add: small_run_simps)
  have i: "a_inv ?a" by (rule a_inv_op [OF new_refines(2) ok])
  have r: "refines (sched_add (Some 1) sys_new) ?a" by (rule sim_add [OF sys_new_refines new_refines(2) ok])
  show r1: "refines one_up (a_op OpPick ?a)" using sim_pick(1) [OF r i] by (simp add: one_up_def)
  show "a_inv (a_op OpPick ?a)" by (rule a_inv_op [OF i]) simp
  show "current one_up = Some 1" using refines_cur [OF r1] by (simp add: small_run_simps)
  show "tcb_state (tcbs one_up 1) = Running" using refines_state [OF r1, of 1] by (simp add: small_run_simps)
  have "tq one_up = tq sys_new \<and> w_next one_up = w_next sys_new \<and> arm_valid one_up = arm_valid sys_new"
    by (simp add: one_up_def)
  then show "tk_inv one_up []"
    using sys_new_tk by (simp add: tk_inv_def tq_inv_def alarm_inv_def by_rel_def half_circle_def)
qed

theorem sleep_wakes_on_time_witness:
  "\<exists>s1 s2. ThisTask_sleep_for 5 one_up = Some s1 \<and> on_elapsed (react (\<lambda>f x s. Some s)) 5 s1 = Some s2
     \<and> tcb_state (tcbs s1 1) = Blocked \<and> tcb_state (tcbs s2 1) = Ready"
proof -
  let ?a = "a_op OpPick (a_op (OpAdd (Some 1)) asched_new)"
  have T: "1 \<in> a_tasks ?a" by (simp add: small_run_simps)
  have "sleepers (a_tasks ?a) [] one_up" using one_up_state(1,2) by (auto simp: sleepers_def)
  from sleep_wakes_on_time [OF one_up_state(1,2,5) this one_up_state(3) T one_up_state(4), of 5 5 "\<lambda>f x s. Some s"]
  show ?thesis by auto
qed

section \<open>Waiting for a letter\<close>

lemma wait_time [simp]:
  "now_tick (snd (sched_wait_notify s)) = now_tick s" "waiters (snd (sched_wait_notify s)) = waiters s"
  "tq (snd (sched_wait_notify s)) = tq s" "w_next (snd (sched_wait_notify s)) = w_next s"
  "armed (snd (sched_wait_notify s)) = armed s" "arm_valid (snd (sched_wait_notify s)) = arm_valid s"
  by (simp_all add: sched_wait_notify_def CriticalGuard_ret_def Let_def split: option.splits)

lemma tk_inv_cong:
  assumes "waiters s' = waiters s" "now_tick s' = now_tick s" "tq s' = tq s" "w_next s' = w_next s"
    "armed s' = armed s" "arm_valid s' = arm_valid s"
  shows "tk_inv s' qs = tk_inv s qs"
  using tq_inv_cong [OF assms(1-4)] rel_cong [OF assms(1,2)] assms by (simp add: tk_inv_def alarm_inv_def)

lemma sleep_tk:
  assumes inv: "tk_inv s qs" and span: "0 \<le> sint span"
  shows "\<exists>s' qs'. sched_sleep_for t span wake s = Some s' \<and> tk_inv s' qs' \<and> now_tick s' = now_tick s"
proof -
  have "tk_inv (time_lock s) qs" using inv by simp
  then obtain s1 qs1 where s1: "enqueue_locked (TaskAction t) span wake (time_lock s) = Some s1" "tk_inv s1 qs1"
    "now_tick s1 = now_tick s" using enqueue_tk_inv [OF _ span, of "time_lock s" qs "TaskAction t" wake] by auto
  have "tk_inv (sched_block (Some t) s1) qs1" using s1(2) by (subst tk_inv_cong [of _ s1]) simp_all
  then show ?thesis
    using s1 by (auto simp: sched_sleep_for_def park_for_def CriticalGuard_opt_def)
qed

text \<open>What the caller needs of the rest of the system while it is parked: it comes back, as the current task,
  at least one tick later (and less than half the tick range), with the time kernel in order.\<close>

definition resumes :: "addr \<Rightarrow> ('a tk_scheme \<Rightarrow> 'a tk_scheme option) \<Rightarrow> bool" where
  "resumes t world \<longleftrightarrow> (\<forall>s qs. tk_inv s qs \<longrightarrow> (\<exists>s' qs'. world s = Some s' \<and> tk_inv s' qs'
     \<and> current s' = Some t \<and> 0 < sint (now_tick s' - now_tick s)))"

lemma wait_notify_turn_spec:
  assumes k: "tk_inv s qs" and c: "current s = Some t"
  obtains v s' qs' where "wait_notify_turn ddl s = Some (v, s')" "now_tick s' = now_tick s" "tk_inv s' qs'"
    "v = (case mail_of (tcbs s t) of Some l \<Rightarrow> Some (Inr l)
          | None \<Rightarrow> if sint (ddl - now_tick s) \<le> 0 then Some (Inl TimedOut) else None)"
    "v \<noteq> None \<longrightarrow> current s' = Some t \<and> mail_of (tcbs s' t) = None"
proof -
  define s1 where "s1 = snd (sched_wait_notify s)"
  have s1: "current s1 = Some t" "mail_of (tcbs s1 t) = None" "now_tick s1 = now_tick s"
    using mail_wait(1) [of s t] mail_wait(3) [of s] c by (simp_all add: s1_def)
  have k1: "tk_inv s1 qs" using k by (subst tk_inv_cong [of _ s]) (simp_all add: s1_def)
  have read: "sched_wait_notify s = (case mail_of (tcbs s t) of None \<Rightarrow> Inl TimedOut | Some v \<Rightarrow> Inr v, s1)"
    using mail_wait(2) [of s] c by (simp add: prod_eq_iff s1_def)
  show thesis
  proof (cases "mail_of (tcbs s t) = None \<and> 0 < sint (ddl - now_tick s)")
    case True
    then obtain s2 qs2 where "sched_sleep_for t (word_of_int (sint (ddl - now_tick s))) (Some WakeFromSleep) s1 = Some s2"
      "tk_inv s2 qs2" "now_tick s2 = now_tick s"
      using s1(3) sleep_tk [OF k1, of "word_of_int (sint (ddl - now_tick s))" t "Some WakeFromSleep"] by auto
    then show thesis
      using that [of None s2 qs2] True read s1
      by (simp add: wait_notify_turn_def Let_def time_current_def Clock_current_def current_task_def)
  next
    case False
    then show thesis
      using that [of _ s1 qs] read s1 k1
      by (auto simp: wait_notify_turn_def Let_def time_current_def Clock_current_def split: option.splits)
  qed
qed

interpretation waiting_letter: timed_wait "wait_notify_turn ddl" "\<lambda>w. wait_notify_loop w ddl" now_tick ddl
  "\<lambda>s. (\<exists>qs. tk_inv s qs) \<and> current s = Some t" "\<lambda>s. \<exists>qs. tk_inv s qs"
  "\<lambda>r s. current s = Some t \<and> mail_of (tcbs s t) = None \<and> (r = Inl TimedOut \<longrightarrow> sint (ddl - now_tick s) \<le> 0)" for ddl t
proof
  fix s :: "'a tk_scheme"
  show "wait_notify_loop world ddl s = (case wait_notify_turn ddl s of None \<Rightarrow> None
      | Some (v, s1) \<Rightarrow> (case v of Some r \<Rightarrow> Some (r, s1)
          | None \<Rightarrow> (case world s1 of None \<Rightarrow> None | Some s2 \<Rightarrow> wait_notify_loop world ddl s2)))" for world
    by (rule wait_notify_loop.simps)
  assume "(\<exists>qs. tk_inv s qs) \<and> current s = Some t"
  then obtain qs where k: "tk_inv s qs" and c: "current s = Some t" by blast
  obtain v s' qs' where "wait_notify_turn ddl s = Some (v, s')" "now_tick s' = now_tick s" "tk_inv s' qs'"
    "v = (case mail_of (tcbs s t) of Some l \<Rightarrow> Some (Inr l)
          | None \<Rightarrow> if sint (ddl - now_tick s) \<le> 0 then Some (Inl TimedOut) else None)"
    "v \<noteq> None \<longrightarrow> current s' = Some t \<and> mail_of (tcbs s' t) = None"
    by (rule wait_notify_turn_spec [OF k c])
  then show "\<exists>v s1. wait_notify_turn ddl s = Some (v, s1) \<and> now_tick s1 = now_tick s
      \<and> (case v of Some r \<Rightarrow> current s1 = Some t \<and> mail_of (tcbs s1 t) = None
            \<and> (r = Inl TimedOut \<longrightarrow> sint (ddl - now_tick s1) \<le> 0)
         | None \<Rightarrow> (\<exists>qs. tk_inv s1 qs) \<and> 0 < sint (ddl - now_tick s))"
    by (intro exI [of _ v] exI [of _ s']) (auto split: option.splits if_splits)
qed

lemma wait_notify_loop_returns:
  assumes w: "resumes t world" and "tk_inv s qs" and "current s = Some t"
  shows "\<exists>r s'. wait_notify_loop world ddl s = Some (r, s') \<and> current s' = Some t \<and> mail_of (tcbs s' t) = None
    \<and> (r = Inl TimedOut \<longrightarrow> sint (ddl - now_tick s') \<le> 0)"
  using waiting_letter.turns_return [of world t s ddl] assms unfolding resumes_def by blast

text \<open>Waiting for a notification with a timeout always ends, whatever wakes the task in between and how
  often: it returns a letter, or times out, and then the deadline has passed and the mailbox is empty. With
  a letter in the box it returns it at once without sleeping; with none and no timeout, it times out at once.\<close>

theorem wait_notify_returns:
  assumes w: "resumes t world" and inv: "tk_inv s qs" and cur: "current s = Some t"
  shows "\<exists>r s'. ThisTask_wait_notify world span s = Some (r, s') \<and> mail_of (tcbs s' t) = None
    \<and> (r = Inl TimedOut \<longrightarrow> sint (now_tick s + span - now_tick s') \<le> 0)
    \<and> (\<forall>v. mail_of (tcbs s t) = Some v \<longrightarrow> r = Inr v \<and> now_tick s' = now_tick s)
    \<and> (mail_of (tcbs s t) = None \<and> span = 0 \<longrightarrow> r = Inl TimedOut \<and> now_tick s' = now_tick s)"
proof -
  have loop: "ThisTask_wait_notify world span s = wait_notify_loop world (now_tick s + span) s"
    by (simp add: ThisTask_defs sys_wait_notify_def time_current_def Clock_current_def)
  obtain r s' where r: "wait_notify_loop world (now_tick s + span) s = Some (r, s')" "mail_of (tcbs s' t) = None"
    "r = Inl TimedOut \<longrightarrow> sint (now_tick s + span - now_tick s') \<le> 0"
    using wait_notify_loop_returns [OF w inv cur, of "now_tick s + span"] by blast
  obtain v s1 qs1 where turn: "wait_notify_turn (now_tick s + span) s = Some (v, s1)" "now_tick s1 = now_tick s"
    and v: "v = (case mail_of (tcbs s t) of Some l \<Rightarrow> Some (Inr l)
          | None \<Rightarrow> if sint (now_tick s + span - now_tick s) \<le> 0 then Some (Inl TimedOut) else None)"
    by (rule wait_notify_turn_spec [OF inv cur])
  have "v = Some x \<Longrightarrow> r = x \<and> now_tick s' = now_tick s" for x
    using turn r(1) wait_notify_loop.simps [of world "now_tick s + span" s] by simp
  with v show ?thesis using r loop by (intro exI [of _ r] exI [of _ s']) auto
qed

theorem wait_notify_returns_witness:
  "\<exists>s'. ThisTask_wait_notify (\<lambda>s. Some (one_up\<lparr>now_tick := now_tick s + 1\<rparr>)) 0 one_up = Some (Inl TimedOut, s')"
proof -
  have "tk_inv (one_up\<lparr>now_tick := n\<rparr>) []" for n
    using one_up_state(5) by (simp add: tk_inv_def tq_inv_def alarm_inv_def by_rel_def half_circle_def)
  then have w: "resumes 1 (\<lambda>s. Some (one_up\<lparr>now_tick := now_tick s + 1\<rparr>))"
    using one_up_state(3) by (auto simp: resumes_def)
  have "mail_of (tcbs one_up 1) = None"
    using one_up_state(1) by (simp add: refines_def small_run_simps fun_eq_iff)
  then show ?thesis using wait_notify_returns [OF w one_up_state(5,3), of 0] by auto
qed

section \<open>Timers\<close>

lemma sys_lock_fields [simp]:
  "timers (sys_lock s) = timers s" "waiters (sys_lock s) = waiters s" "now_tick (sys_lock s) = now_tick s"
  "tq (sys_lock s) = tq s" "w_next (sys_lock s) = w_next s" "armed (sys_lock s) = armed s" "arm_valid (sys_lock s) = arm_valid s"
  "timers (sys_unlock s) = timers s" "waiters (sys_unlock s) = waiters s" "now_tick (sys_unlock s) = now_tick s"
  "tq (sys_unlock s) = tq s" "w_next (sys_unlock s) = w_next s" "armed (sys_unlock s) = armed s" "arm_valid (sys_unlock s) = arm_valid s"
  by (simp_all add: sys_lock_def sys_unlock_def crit_lock_def crit_unlock_def write_basepri_def Let_def)

lemma set_timer_fields [simp]:
  "timers (set_timer t v s) = (timers s)(t := v)" "waiters (set_timer t v s) = waiters s"
  "now_tick (set_timer t v s) = now_tick s" "tq (set_timer t v s) = tq s" "w_next (set_timer t v s) = w_next s"
  "armed (set_timer t v s) = armed s" "arm_valid (set_timer t v s) = arm_valid s"
  by (simp_all add: set_timer_def)

lemma timer_tk_inv [simp]:
  "tk_inv (sys_lock s) qs = tk_inv s qs" "tk_inv (sys_unlock s) qs = tk_inv s qs"
  "tk_inv (set_timer t v s) qs = tk_inv s qs"
  by (rule tk_inv_cong; simp)+

lemma timer_rel [simp]: "rel (sys_lock s) = rel s" "rel (sys_unlock s) = rel s" "rel (set_timer t v s) = rel s"
  by (rule rel_cong; simp)+

lemma arm_timers:
  "call_after_span w span s = Some s' \<Longrightarrow> timers s' = timers s"
  by (auto simp: call_after_span_def CriticalGuard_opt_def enqueue_locked_def TimerQueue_remove_def
      TimerQueue_insert_def update_alarm_def time_lock_def time_unlock_def crit_lock_def crit_unlock_def
      write_basepri_def Let_def split: bind_splits option.splits if_splits)

lemma cancel_timers:
  "cancel w s = Some (b, s') \<Longrightarrow> timers s' = timers s"
  by (auto simp: cancel_def TimerQueue_remove_def update_alarm_def time_lock_def time_unlock_def crit_lock_def
      crit_unlock_def write_basepri_def Let_def split: bind_splits option.splits if_splits)

lemma arm_me_spec:
  assumes inv: "tk_inv s qs" and span: "0 \<le> sint span"
  shows "\<exists>s' qs'. arm_me t p span c s = Some s' \<and> tk_inv s' qs' \<and> set qs' = insert (TimerWaiter t) (set qs)
    \<and> rel s' = (rel s)(TimerWaiter t := sint span)
    \<and> timers s' = (timers s)(t := \<lparr>t_call = c, period = p, t_running = True\<rparr>)"
proof -
  let ?s = "set_timer t \<lparr>t_call = c, period = p, t_running = True\<rparr> (sys_lock s)"
  have "tk_inv ?s qs" using inv by simp
  from tkp.holds_book [OF this span, of "TimerWaiter t"] obtain s' qs' where
    s': "call_after_span (TimerWaiter t) span ?s = Some s'" "tk_inv s' qs'" "set qs' = insert (TimerWaiter t) (set qs)"
      "rel s' = (rel ?s)(TimerWaiter t := sint span)" by blast
  have "arm_me t p span c s = Some (sys_unlock s')"
    using s'(1) by (simp add: arm_me_def CriticalGuard_opt_def arm_timer_def)
  then show ?thesis using s' arm_timers [OF s'(1)] by auto
qed

lemma arm_more:
  "call_after_span w span s = Some s' \<Longrightarrow> sys.more s' = sys.more s"
  by (auto simp: call_after_span_def CriticalGuard_opt_def enqueue_locked_def TimerQueue_remove_def
      TimerQueue_insert_def update_alarm_def time_lock_def time_unlock_def crit_lock_def crit_unlock_def
      write_basepri_def Let_def split: bind_splits option.splits if_splits)

lemma stop_spec:
  assumes "tk_inv s qs"
  shows "\<exists>s1 qs1. Timer_stop t s = Some s1 \<and> tk_inv s1 qs1 \<and> set qs1 = set qs - {TimerWaiter t} \<and> rel s1 = rel s
    \<and> timers s1 = (timers s)(t := (timers s t)\<lparr>period := 0, t_running := False\<rparr>)"
proof -
  let ?s = "set_timer t ((timers (sys_lock s) t)\<lparr>period := 0, t_running := False\<rparr>) (sys_lock s)"
  have "tk_inv ?s qs" using assms by simp
  from cancel_spec [OF this, of "TimerWaiter t"] obtain b s1 where
    s1: "cancel (TimerWaiter t) ?s = Some (b, s1)" "tk_inv s1 (remove1 (TimerWaiter t) qs)" "rel s1 = rel ?s" by blast
  have d: "distinct qs" using tk_invD(1) [OF assms] by (auto simp: tq_inv_def dest: rep_distinct)
  have "Timer_stop t s = Some (sys_unlock s1)" using s1(1) by (simp add: Timer_stop_def CriticalGuard_opt_def cancel_timer_def)
  then show ?thesis using s1(2,3) cancel_timers [OF s1(1)] d
    by (intro exI [of _ "sys_unlock s1"] exI [of _ "remove1 (TimerWaiter t) qs"]) simp
qed

text \<open>A user function that leaves the timer and the time kernel alone.\<close>

definition quiet_user :: "addr \<Rightarrow> 'a sys_scheme user \<Rightarrow> bool" where
  "quiet_user t user \<longleftrightarrow> (\<forall>f x s. \<exists>s'. user f x s = Some s' \<and> timers s' t = timers s t
     \<and> (\<forall>qs. tk_inv s' qs = tk_inv s qs) \<and> rel s' = rel s)"

lemma fired_rebooks:
  assumes inv: "tk_inv s qs" and q: "quiet_user t user" "0 \<le> sint (period (timers s t))"
  shows "\<exists>s1 qs1. Timer_fired user (TimerWaiter t) s = Some s1 \<and> tk_inv s1 qs1
    \<and> (if period (timers s t) = 0 then set qs1 = set qs \<and> \<not> t_running (timers s1 t)
       else set qs1 = insert (TimerWaiter t) (set qs) \<and> rel s1 (TimerWaiter t) = sint (period (timers s t))
         \<and> t_running (timers s1 t))"
proof -
  let ?s = "set_timer t ((timers s t)\<lparr>t_running := False\<rparr>) s"
  obtain s2 where s2: "Callback_invoke user (t_call (timers s t)) ?s = Some s2"
    "timers s2 t = (timers s t)\<lparr>t_running := False\<rparr>" "tk_inv s2 qs"
  proof (cases "cb_fn (t_call (timers s t))")
    case None
    then show thesis using that [of ?s] inv by (simp add: Callback_invoke_def)
  next
    case (Some f)
    obtain s2 where "user f (cb_arg (t_call (timers s t))) ?s = Some s2" "timers s2 t = timers ?s t"
      "\<forall>qs. tk_inv s2 qs = tk_inv ?s qs" using q(1) unfolding quiet_user_def by blast
    then show thesis using that [of s2] Some inv by (simp add: Callback_invoke_def)
  qed
  show ?thesis
  proof (cases "period (timers s t) = 0")
    case True
    then show ?thesis using s2 by (auto simp: Timer_fired_def)
  next
    case False
    let ?s3 = "set_timer t ((timers s2 t)\<lparr>t_running := True\<rparr>) s2"
    have "tk_inv ?s3 qs" using s2(3) by simp
    from tkp.holds_book [OF this, of "period (timers s t)" "TimerWaiter t"] q(2) obtain s4 qs4 where
      s4: "call_after_span (TimerWaiter t) (period (timers s t)) ?s3 = Some s4" "tk_inv s4 qs4"
        "set qs4 = insert (TimerWaiter t) (set qs)" "rel s4 (TimerWaiter t) = sint (period (timers s t))" by auto
    then show ?thesis
      using False s2 arm_timers [OF s4(1)] by (auto simp: Timer_fired_def arm_timer_def)
  qed
qed

lemma fired_calls_once:
  assumes inv: "tk_inv s qs" and p: "0 \<le> sint (period (timers s t))"
  shows "\<exists>s1. Timer_fired (\<lambda>f x s. Some (s\<lparr>sys.more := g f x (sys.more s)\<rparr>)) (TimerWaiter t) s = Some s1
    \<and> sys.more s1 = (case cb_fn (t_call (timers s t)) of None \<Rightarrow> sys.more s | Some f \<Rightarrow> g f (cb_arg (t_call (timers s t))) (sys.more s))"
proof -
  let ?m = "case cb_fn (t_call (timers s t)) of None \<Rightarrow> sys.more s | Some f \<Rightarrow> g f (cb_arg (t_call (timers s t))) (sys.more s)"
  define s2 where "s2 = (set_timer t ((timers s t)\<lparr>t_running := False\<rparr>) s)\<lparr>sys.more := ?m\<rparr>"
  have c: "Callback_invoke (\<lambda>f x s. Some (s\<lparr>sys.more := g f x (sys.more s)\<rparr>)) (t_call (timers s t)) (set_timer t ((timers s t)\<lparr>t_running := False\<rparr>) s) = Some s2"
    by (cases "cb_fn (t_call (timers s t))") (simp_all add: Callback_invoke_def s2_def set_timer_def)
  have "timers s2 t = (timers s t)\<lparr>t_running := False\<rparr>" "sys.more s2 = ?m" by (simp_all add: s2_def set_timer_def)
  moreover have "tk_inv (set_timer t v s2) qs" for v
    using inv by (subst tk_inv_cong [of _ s]) (simp_all add: s2_def set_timer_def)
  note b = tkp.holds_book [OF this, of "period (timers s t)" "TimerWaiter t", OF p]
  obtain s4 where "call_after_span (TimerWaiter t) (period (timers s t)) (set_timer t ((timers s2 t)\<lparr>t_running := True\<rparr>) s2) = Some s4"
    using b by blast
  moreover have "sys.more (set_timer t v s2) = sys.more s2" for v by (simp add: set_timer_def)
  ultimately show ?thesis using c by (auto simp: Timer_fired_def arm_timer_def dest: arm_more)
qed

text \<open>C21: the life of a timer. \<open>oneshot\<close> and \<open>periodic\<close> book it for \<open>span\<close> ticks with the function and argument given; when
  it fires, a periodic timer is booked again for its period while a one-shot is not, and its function
  is called exactly once, with its argument (whatever the function does to the rest of the state has happened once);
  \<open>stop\<close> takes a booked timer off the books at any time, and a function that stops its own timer ends a periodic one.\<close>

theorem timer_lifecycle:
  assumes inv: "tk_inv s qs" and span: "0 \<le> sint span"
  shows "(\<exists>s1 qs1. Timer_oneshot t span fn arg s = Some s1 \<and> tk_inv s1 qs1
        \<and> set qs1 = insert (TimerWaiter t) (set qs) \<and> rel s1 (TimerWaiter t) = sint span
        \<and> timers s1 t = \<lparr>t_call = \<lparr>cb_fn = fn, cb_arg = arg\<rparr>, period = 0, t_running = True\<rparr>)
    \<and> (\<exists>s1 qs1. Timer_periodic t span fn arg s = Some s1 \<and> tk_inv s1 qs1
        \<and> set qs1 = insert (TimerWaiter t) (set qs) \<and> rel s1 (TimerWaiter t) = sint span
        \<and> timers s1 t = \<lparr>t_call = \<lparr>cb_fn = fn, cb_arg = arg\<rparr>, period = span, t_running = True\<rparr>)
    \<and> (quiet_user t user \<and> 0 \<le> sint (period (timers s t)) \<longrightarrow> (\<exists>s1 qs1. Timer_fired user (TimerWaiter t) s = Some s1 \<and> tk_inv s1 qs1
        \<and> (if period (timers s t) = 0 then set qs1 = set qs \<and> \<not> t_running (timers s1 t)
           else set qs1 = insert (TimerWaiter t) (set qs) \<and> rel s1 (TimerWaiter t) = sint (period (timers s t))
             \<and> t_running (timers s1 t))))
    \<and> (0 \<le> sint (period (timers s t)) \<longrightarrow> (\<exists>s1. Timer_fired (\<lambda>f x s. Some (s\<lparr>sys.more := g f x (sys.more s)\<rparr>)) (TimerWaiter t) s = Some s1
        \<and> sys.more s1 = (case cb_fn (t_call (timers s t)) of None \<Rightarrow> sys.more s
             | Some f \<Rightarrow> g f (cb_arg (t_call (timers s t))) (sys.more s))))
    \<and> (\<exists>s1 qs1. Timer_stop t s = Some s1 \<and> tk_inv s1 qs1 \<and> set qs1 = set qs - {TimerWaiter t} \<and> rel s1 = rel s
        \<and> timers s1 = (timers s)(t := (timers s t)\<lparr>period := 0, t_running := False\<rparr>))
    \<and> (\<exists>s1 qs1. Timer_fired (\<lambda>f x s. Timer_stop t s) (TimerWaiter t) (set_timer t ((timers s t)\<lparr>t_call := \<lparr>cb_fn = Some f, cb_arg = arg\<rparr>\<rparr>) s) = Some s1
        \<and> tk_inv s1 qs1 \<and> set qs1 = set qs - {TimerWaiter t} \<and> \<not> t_running (timers s1 t))"
proof (intro conjI impI)
  show "\<exists>s1 qs1. Timer_oneshot t span fn arg s = Some s1 \<and> tk_inv s1 qs1
        \<and> set qs1 = insert (TimerWaiter t) (set qs) \<and> rel s1 (TimerWaiter t) = sint span
        \<and> timers s1 t = \<lparr>t_call = \<lparr>cb_fn = fn, cb_arg = arg\<rparr>, period = 0, t_running = True\<rparr>"
    using arm_me_spec [OF inv span, of t 0 "\<lparr>cb_fn = fn, cb_arg = arg\<rparr>"] by (auto simp: Timer_oneshot_def)
  show "\<exists>s1 qs1. Timer_periodic t span fn arg s = Some s1 \<and> tk_inv s1 qs1
        \<and> set qs1 = insert (TimerWaiter t) (set qs) \<and> rel s1 (TimerWaiter t) = sint span
        \<and> timers s1 t = \<lparr>t_call = \<lparr>cb_fn = fn, cb_arg = arg\<rparr>, period = span, t_running = True\<rparr>"
    using arm_me_spec [OF inv span, of t span "\<lparr>cb_fn = fn, cb_arg = arg\<rparr>"] by (auto simp: Timer_periodic_def)
  show "\<exists>s1 qs1. Timer_stop t s = Some s1 \<and> tk_inv s1 qs1 \<and> set qs1 = set qs - {TimerWaiter t} \<and> rel s1 = rel s
        \<and> timers s1 = (timers s)(t := (timers s t)\<lparr>period := 0, t_running := False\<rparr>)"
    by (rule stop_spec [OF inv])
next
  assume "quiet_user t user \<and> 0 \<le> sint (period (timers s t))"
  then show "\<exists>s1 qs1. Timer_fired user (TimerWaiter t) s = Some s1 \<and> tk_inv s1 qs1
        \<and> (if period (timers s t) = 0 then set qs1 = set qs \<and> \<not> t_running (timers s1 t)
           else set qs1 = insert (TimerWaiter t) (set qs) \<and> rel s1 (TimerWaiter t) = sint (period (timers s t))
             \<and> t_running (timers s1 t))"
    using fired_rebooks [OF inv] by blast
next
  assume "0 \<le> sint (period (timers s t))"
  then show "\<exists>s1. Timer_fired (\<lambda>f x s. Some (s\<lparr>sys.more := g f x (sys.more s)\<rparr>)) (TimerWaiter t) s = Some s1
        \<and> sys.more s1 = (case cb_fn (t_call (timers s t)) of None \<Rightarrow> sys.more s
             | Some f \<Rightarrow> g f (cb_arg (t_call (timers s t))) (sys.more s))"
    by (rule fired_calls_once [OF inv])
next
  let ?v = "(timers s t)\<lparr>t_call := \<lparr>cb_fn = Some f, cb_arg = arg\<rparr>\<rparr>"
  let ?s1 = "set_timer t (?v\<lparr>t_running := False\<rparr>) (set_timer t ?v s)"
  have "tk_inv ?s1 qs" using inv by simp
  from stop_spec [OF this, of t] obtain s1 qs1 where s1: "Timer_stop t ?s1 = Some s1" "tk_inv s1 qs1" "set qs1 = set qs - {TimerWaiter t}"
    "timers s1 = (timers ?s1)(t := (timers ?s1 t)\<lparr>period := 0, t_running := False\<rparr>)" by blast
  then show "\<exists>s1 qs1. Timer_fired (\<lambda>f x s. Timer_stop t s) (TimerWaiter t) (set_timer t ?v s) = Some s1
      \<and> tk_inv s1 qs1 \<and> set qs1 = set qs - {TimerWaiter t} \<and> \<not> t_running (timers s1 t)"
    by (intro exI [of _ s1] exI [of _ qs1]) (simp add: Timer_fired_def Callback_invoke_def)
qed

text \<open>The timer of the \<open>timers\<close> program is booked, and stopped again.\<close>

theorem timer_lifecycle_witness:
  "\<exists>s1 s2 qs2. Timer_periodic 9 20 (Some 7) None sys_new = Some s1 \<and> rel s1 (TimerWaiter 9) = 20 \<and> period (timers s1 9) = 20
     \<and> Timer_stop 9 s1 = Some s2 \<and> tk_inv s2 qs2 \<and> TimerWaiter 9 \<notin> set qs2"
proof -
  obtain s1 qs1 where s1: "Timer_periodic 9 20 (Some 7) None sys_new = Some s1" "tk_inv s1 qs1" "rel s1 (TimerWaiter 9) = 20"
    "period (timers s1 9) = 20"
    using timer_lifecycle [OF sys_new_tk, of 20 9 "Some 7" None, THEN conjunct2, THEN conjunct1] by auto
  have "\<exists>s2 qs2. Timer_stop 9 s1 = Some s2 \<and> tk_inv s2 qs2 \<and> set qs2 = set qs1 - {TimerWaiter 9}"
    using timer_lifecycle [OF s1(2), of 20 9, THEN conjunct2, THEN conjunct2, THEN conjunct2, THEN conjunct2, THEN conjunct1] by auto
  then show ?thesis using s1 by blast
qed

end
