(* ===== verification/Switch_Port.thy ===== *)
theory Switch_Port
  imports System_Face
begin

text \<open>
  The context switch of \<^verbatim>\<open>src/arch/arm_cortex_m3/switch.cpp\<close> and task launching (\<^verbatim>\<open>launch.cpp\<close>), on the frames of
  \<^verbatim>\<open>arch.hpp\<close>. The state adds to the system's the word-addressed memory that the stacks live in, the process
  stack pointer and the registers of the running thread. The handlers are assembly: their instructions
  and the stacking that a Cortex-M3 does on exception entry and return are written out as memory reads
  and writes of eight words (the stacks are 8-byte aligned, so the core inserts no padding word). Addresses
  that the linker and the compiler fix are the fields of \<open>image\<close>.
\<close>

section \<open>State\<close>

record ExceptionFrame =
  ef_r0 :: u32
  ef_r1 :: u32
  ef_r2 :: u32
  ef_r3 :: u32
  ef_r12 :: u32
  ef_lr :: u32
  ef_pc :: u32
  ef_xpsr :: u32

record SoftwareFrame =
  sf_r4 :: u32
  sf_r5 :: u32
  sf_r6 :: u32
  sf_r7 :: u32
  sf_r8 :: u32
  sf_r9 :: u32
  sf_r10 :: u32
  sf_r11 :: u32

record image =
  trap_addr :: addr
  invoke_addr :: addr
  wrapper_off :: addr
  tcb_size :: u32
  tcb_align :: u32

record mach = sys +
  memory :: mem
  psp :: addr
  callee :: SoftwareFrame
  core :: ExceptionFrame
  shpr3 :: u32
  overflow_reporter :: "addr option"
  task_arena :: Arena

primrec write_words :: "addr \<Rightarrow> u32 list \<Rightarrow> mem \<Rightarrow> mem" where
  "write_words a [] m = m"
| "write_words a (w # ws) m = write_words (a + 4) ws (m(a := w))"

definition read_words :: "addr \<Rightarrow> nat \<Rightarrow> mem \<Rightarrow> u32 list" where
  "read_words a n m = map (\<lambda>i. m (a + 4 * i)) [0..<n]"

definition ef_words :: "ExceptionFrame \<Rightarrow> u32 list" where
  "ef_words f = [ef_r0 f, ef_r1 f, ef_r2 f, ef_r3 f, ef_r12 f, ef_lr f, ef_pc f, ef_xpsr f]"

definition sf_words :: "SoftwareFrame \<Rightarrow> u32 list" where
  "sf_words f = [sf_r4 f, sf_r5 f, sf_r6 f, sf_r7 f, sf_r8 f, sf_r9 f, sf_r10 f, sf_r11 f]"

definition ef_of :: "u32 list \<Rightarrow> ExceptionFrame" where
  "ef_of ws = \<lparr>ef_r0 = ws ! 0, ef_r1 = ws ! 1, ef_r2 = ws ! 2, ef_r3 = ws ! 3, ef_r12 = ws ! 4, ef_lr = ws ! 5,
     ef_pc = ws ! 6, ef_xpsr = ws ! 7\<rparr>"

definition sf_of :: "u32 list \<Rightarrow> SoftwareFrame" where
  "sf_of ws = \<lparr>sf_r4 = ws ! 0, sf_r5 = ws ! 1, sf_r6 = ws ! 2, sf_r7 = ws ! 3, sf_r8 = ws ! 4, sf_r9 = ws ! 5,
     sf_r10 = ws ! 6, sf_r11 = ws ! 7\<rparr>"

section \<open>Frames and switches\<close>

definition set_sp :: "addr \<Rightarrow> addr option \<Rightarrow> 'a sched_scheme \<Rightarrow> 'a sched_scheme" where
  "set_sp t v s = s\<lparr>tcbs := (tcbs s)(t := (tcbs s t)\<lparr>stack_pointer := v\<rparr>)\<rparr>"

definition first_frame :: "image \<Rightarrow> addr \<Rightarrow> ExceptionFrame" where
  "first_frame im t = \<lparr>ef_r0 = of_nat (t + wrapper_off im), ef_r1 = 0, ef_r2 = 0, ef_r3 = 0, ef_r12 = 0,
     ef_lr = of_nat (trap_addr im), ef_pc = of_nat (invoke_addr im), ef_xpsr = 0x01000000\<rparr>"

definition fabricate_frame :: "image \<Rightarrow> addr \<Rightarrow> 'a mach_scheme \<Rightarrow> 'a mach_scheme" where
  "fabricate_frame im t s =
     (let view = stack_view (tcbs s t);
          top = span_data view + 4 * span_size view;
          hw = top - 32;
          sw = hw - 32;
          m1 = write_words sw (sf_words \<lparr>sf_r4 = 0, sf_r5 = 0, sf_r6 = 0, sf_r7 = 0, sf_r8 = 0, sf_r9 = 0, sf_r10 = 0, sf_r11 = 0\<rparr>)
                 (memory s);
          m2 = write_words hw (ef_words (first_frame im t)) m1
      in set_sp t (Some sw) (s\<lparr>memory := m2\<rparr>))"

text \<open>Where a task function that returns ends: blocked, then asleep for good.\<close>

definition Trap :: "'a sched_scheme \<Rightarrow> 'a sched_scheme" where
  "Trap s = sched_block (current_task s) s"

type_synonym 's reporter = "addr \<Rightarrow> addr \<Rightarrow> nat \<Rightarrow> 's \<Rightarrow> 's option"

text \<open>The overflow reporter is the parameter \<open>report\<close>, applied to its address.\<close>

definition context_switch ::
  "'a mach_scheme reporter \<Rightarrow> addr option \<Rightarrow> 'a mach_scheme \<Rightarrow> (addr option \<times> 'a mach_scheme) option" where
  "context_switch report saved_sp s = do {
     s1 \<leftarrow> (case saved_sp of None \<Rightarrow> Some s
           | Some sp \<Rightarrow> (case current_task s of None \<Rightarrow> None
              | Some prev \<Rightarrow>
                  let s0 = set_sp prev (Some sp) s
                  in if fast_check_stack (memory s0) (tcbs s0 prev)
                     then (case overflow_reporter s0 of None \<Rightarrow> None
                           | Some f \<Rightarrow> report f prev (eaten_length (memory s0) (tcbs s0 prev)) s0)
                     else Some s0));
     case pick_next_locked s1 of (t, s2) \<Rightarrow> Some (stack_pointer (tcbs s2 t), s2)
   }"

text \<open>\<^verbatim>\<open>ldmia r0!, {r4-r11}; msr psp, r0\<close>\<close>

definition load_context :: "addr option \<Rightarrow> 'a mach_scheme \<Rightarrow> 'a mach_scheme option" where
  "load_context r0 s = (case r0 of None \<Rightarrow> None
     | Some a \<Rightarrow> Some (s\<lparr>callee := sf_of (read_words a 8 (memory s)), psp := a + 32\<rparr>))"

definition SVC_Handler :: "'a mach_scheme reporter \<Rightarrow> 'a mach_scheme \<Rightarrow> 'a mach_scheme option" where
  "SVC_Handler report s = do {
     (r0, s1) \<leftarrow> context_switch report None s;
     load_context r0 s1
   }"

definition PendSV_Handler :: "'a mach_scheme reporter \<Rightarrow> 'a mach_scheme \<Rightarrow> 'a mach_scheme option" where
  "PendSV_Handler report s = do {
     (r0, s1) \<leftarrow> (if psp s = 0 then context_switch report None s
        else context_switch report (Some (psp s - 32))
          (s\<lparr>memory := write_words (psp s - 32) (sf_words (callee s)) (memory s)\<rparr>));
     load_context r0 s1
   }"

text \<open>What the core does: on entry it stacks the caller-saved registers and takes the pending bit down, on return it
  unstacks them.\<close>

definition exception_entry :: "'a mach_scheme \<Rightarrow> 'a mach_scheme" where
  "exception_entry s = s\<lparr>memory := write_words (psp s - 32) (ef_words (core s)) (memory s), psp := psp s - 32, pendsv := False\<rparr>"

definition exception_return :: "'a mach_scheme \<Rightarrow> 'a mach_scheme" where
  "exception_return s = s\<lparr>core := ef_of (read_words (psp s) 8 (memory s)), psp := psp s + 32\<rparr>"

definition take_PendSV :: "'a mach_scheme reporter \<Rightarrow> 'a mach_scheme \<Rightarrow> 'a mach_scheme option" where
  "take_PendSV report s = map_option exception_return (PendSV_Handler report (exception_entry s))"

section \<open>Starting tasks\<close>

definition spawn :: "image \<Rightarrow> addr \<Rightarrow> 'a mach_scheme \<Rightarrow> 'a mach_scheme" where
  "spawn im t s = sched_add (Some t) (fabricate_frame im t (s\<lparr>memory := bury_canary (tcbs s t) (memory s)\<rparr>))"

definition spawn_creator :: "image \<Rightarrow> TCBCreator \<Rightarrow> addr \<Rightarrow> 'a mach_scheme \<Rightarrow> addr \<times> 'a mach_scheme" where
  "spawn_creator im spec box s = (box, spawn im box (construct_tcb box (TCBCreator_spawn_into spec) s))"

fun launch :: "image \<Rightarrow> Launchable \<Rightarrow> 'a mach_scheme \<Rightarrow> (addr \<times> 'a mach_scheme) option" where
  "launch im (Launchable nm p ws run) s = do {
     s0 \<leftarrow> debug_Check (ws mod 2 = 0) s;
     let (box, ar1) = Arena_take (tcb_size im) (tcb_align im) (task_arena s0);
     let (stack, ar2) = Arena_take (ws * 4) 8 ar1;
     s1 \<leftarrow> debug_Check (box \<noteq> None \<and> stack \<noteq> None) (s0\<lparr>task_arena := ar2\<rparr>);
     Some (spawn_creator im
       (entry_stacked (tw_function run) (tw_argument run)
         (builder_stack \<lparr>span_data = unat (the stack), span_size = unat ws\<rparr> (builder_prio p (named nm))))
       (unat (the box)) s1)
   }"

definition start_scheduler :: "image \<Rightarrow> addr \<Rightarrow> 'a mach_scheme reporter \<Rightarrow> 'a mach_scheme \<Rightarrow> 'a mach_scheme option" where
  "start_scheduler im idle_fn report s =
     (let idle = fetch_idle_task;
          s1 = s\<lparr>tcbs := (tcbs s)(idle := (tcbs s idle)\<lparr>task_wrapper := \<lparr>tw_function = Some idle_fn, tw_argument = None\<rparr>\<rparr>)\<rparr>;
          s2 = fabricate_frame im idle (s1\<lparr>memory := bury_canary (tcbs s1 idle) (memory s1)\<rparr>);
          s3 = s2\<lparr>shpr3 := (shpr3 s2 AND 0xFF00FFFF) OR push_bit 16 0xFF\<rparr>
      in map_option exception_return (SVC_Handler report s3))"

section \<open>Words in memory\<close>

lemma write_words_other: "(\<forall>i < length ws. x \<noteq> a + 4 * i) \<Longrightarrow> write_words a ws m x = m x"
proof (induction ws arbitrary: a m)
  case (Cons w ws)
  have "\<forall>i < length ws. x \<noteq> (a + 4) + 4 * i"
  proof (intro allI impI)
    show "x \<noteq> (a + 4) + 4 * i" if "i < length ws" for i using Cons.prems that by (auto dest: spec [of _ "Suc i"])
  qed
  moreover have "x \<noteq> a" using Cons.prems by auto
  ultimately show ?case using Cons.IH by simp
qed simp

lemma read_write_same: "read_words a (length ws) (write_words a ws m) = ws"
proof (induction ws arbitrary: a m)
  case (Cons w ws)
  have "write_words (a + 4) ws (m(a := w)) a = w" by (subst write_words_other) auto
  moreover have "read_words (a + 4) (length ws) (write_words (a + 4) ws (m(a := w))) = ws" by (rule Cons.IH)
  moreover have "read_words a (Suc n) m' = m' a # read_words (a + 4) n m'" for n m'
    by (simp add: read_words_def upt_conv_Cons map_Suc_upt [symmetric] del: upt_Suc) (simp add: add.assoc)
  ultimately show ?case by simp
qed (simp add: read_words_def)

lemma read_write_apart:
  "b + 4 * n \<le> a \<or> a + 4 * length ws \<le> b \<Longrightarrow> read_words b n (write_words a ws m) = read_words b n m"
  unfolding read_words_def by (rule map_cong [OF refl], rule write_words_other) auto

lemma frame_words [simp]: "ef_of (ef_words f) = f" "sf_of (sf_words g) = g" "length (ef_words f) = 8" "length (sf_words g) = 8"
  by (simp_all add: ef_of_def ef_words_def sf_of_def sf_words_def)

lemmas read_write_frames = read_write_same [where ws = "ef_words f" for f, unfolded frame_words(3)]
  read_write_same [where ws = "sf_words f" for f, unfolded frame_words(4)]

section \<open>Contexts\<close>

text \<open>A context: the registers of a thread and its stack pointer. The running task's is in the core, the others'
  are parked below their stack pointers.\<close>

type_synonym ctx = "SoftwareFrame \<times> ExceptionFrame \<times> addr"

definition parked :: "'a mach_scheme \<Rightarrow> addr \<Rightarrow> ctx \<Rightarrow> bool" where
  "parked s t c \<longleftrightarrow> (case c of (sf, ef, p) \<Rightarrow> stack_pointer (tcbs s t) = Some (p - 64)
     \<and> read_words (p - 64) 8 (memory s) = sf_words sf \<and> read_words (p - 32) 8 (memory s) = ef_words ef)"

definition contexts :: "'a mach_scheme \<Rightarrow> (addr \<Rightarrow> ctx) \<Rightarrow> addr set \<Rightarrow> bool" where
  "contexts s K T \<longleftrightarrow> (\<forall>t \<in> T. if current s = Some t then K t = (callee s, core s, psp s) else parked s t (K t))"

text \<open>The stack pointer is inside the task's stack, with room for a saved context above the canary.\<close>

definition in_stack :: "tcb \<Rightarrow> addr \<Rightarrow> bool" where
  "in_stack t p \<longleftrightarrow> span_data (stack_view t) + 4 * kCanarySize + 64 \<le> p
     \<and> p \<le> span_data (stack_view t) + 4 * span_size (stack_view t)"

definition stacks_ok :: "(addr \<Rightarrow> tcb) \<Rightarrow> (addr \<Rightarrow> ctx) \<Rightarrow> addr set \<Rightarrow> bool" where
  "stacks_ok tc K T \<longleftrightarrow> (\<forall>t \<in> T. in_stack (tc t) (snd (snd (K t)))) \<and> (\<forall>t \<in> T. \<forall>u \<in> T. t \<noteq> u \<longrightarrow>
     span_data (stack_view (tc t)) + 4 * span_size (stack_view (tc t)) \<le> span_data (stack_view (tc u))
     \<or> span_data (stack_view (tc u)) + 4 * span_size (stack_view (tc u)) \<le> span_data (stack_view (tc t)))"

lemma frames_apart:
  assumes "stacks_ok tc K T" and "t \<in> T" and "u \<in> T" and "t \<noteq> u"
  shows "snd (snd (K t)) \<le> snd (snd (K u)) - 64 \<or> snd (snd (K u)) \<le> snd (snd (K t)) - 64"
    "64 \<le> snd (snd (K t))"
proof -
  have "in_stack (tc t) (snd (snd (K t)))" "in_stack (tc u) (snd (snd (K u)))"
    "span_data (stack_view (tc t)) + 4 * span_size (stack_view (tc t)) \<le> span_data (stack_view (tc u))
     \<or> span_data (stack_view (tc u)) + 4 * span_size (stack_view (tc u)) \<le> span_data (stack_view (tc t))"
    using assms by (auto simp: stacks_ok_def)
  then show "snd (snd (K t)) \<le> snd (snd (K u)) - 64 \<or> snd (snd (K u)) \<le> snd (snd (K t)) - 64" "64 \<le> snd (snd (K t))"
    unfolding in_stack_def by arith+
qed

text \<open>Picking a task moves no stack pointer and touches no memory or register.\<close>

lemma set_tcb_state_keeps [simp]:
  "stack_pointer (tcbs (set_tcb_state t v s) u) = stack_pointer (tcbs s u)" "stack_view (tcbs (set_tcb_state t v s) u) = stack_view (tcbs s u)"
  "task_wrapper (tcbs (set_tcb_state t v s) u) = task_wrapper (tcbs s u)"
  by (simp_all add: set_tcb_state_def)

lemma push_keeps [simp]:
  "stack_pointer (tcbs (sched_push_front t s) u) = stack_pointer (tcbs s u)" "stack_view (tcbs (sched_push_front t s) u) = stack_view (tcbs s u)"
  "stack_pointer (tcbs (sched_push_back t s) u) = stack_pointer (tcbs s u)" "stack_view (tcbs (sched_push_back t s) u) = stack_view (tcbs s u)"
  "task_wrapper (tcbs (sched_push_front t s) u) = task_wrapper (tcbs s u)"
  by (auto simp: push_tcbs sched_push_front_def sched_push_back_def set_tcb_state_def Let_def split: prod.splits)

lemma mach_push [simp]:
  "memory (sched_push_front t s) = memory s" "memory (sched_push_back t s) = memory s" "memory (snd (pop_highest s)) = memory s"
  "psp (sched_push_front t s) = psp s" "callee (sched_push_front t s) = callee s" "core (sched_push_front t s) = core s"
  "psp (snd (pop_highest s)) = psp s" "callee (snd (pop_highest s)) = callee s" "core (snd (pop_highest s)) = core s"
  "tcbs (snd (pop_highest s)) = tcbs s"
  by (auto simp: set_tcb_state_def sched_push_front_def sched_push_back_def pop_highest_def Let_def split: prod.splits option.splits)

lemma pick_keeps:
  "stack_pointer (tcbs (snd (pick_next_locked s)) u) = stack_pointer (tcbs s u)"
  "stack_view (tcbs (snd (pick_next_locked s)) u) = stack_view (tcbs s u)"
  "memory (snd (pick_next_locked s)) = memory s" "task_wrapper (tcbs (snd (pick_next_locked s)) u) = task_wrapper (tcbs s u)"
proof -
  have "stack_pointer (tcbs (snd (pick_next_locked s)) u) = stack_pointer (tcbs s u)
    \<and> task_wrapper (tcbs (snd (pick_next_locked s)) u) = task_wrapper (tcbs s u)
    \<and> stack_view (tcbs (snd (pick_next_locked s)) u) = stack_view (tcbs s u) \<and> memory (snd (pick_next_locked s)) = memory s"
    by (auto simp: pick_next_locked_def Let_def set_tcb_state_def case_prod_beta split: option.splits if_splits)
  then show "stack_pointer (tcbs (snd (pick_next_locked s)) u) = stack_pointer (tcbs s u)"
    "stack_view (tcbs (snd (pick_next_locked s)) u) = stack_view (tcbs s u)"
    "memory (snd (pick_next_locked s)) = memory s" "task_wrapper (tcbs (snd (pick_next_locked s)) u) = task_wrapper (tcbs s u)" by blast+
qed

lemma refines_regs [simp]:
  "refines (set_sp t v s) a = refines s a" "refines (s\<lparr>memory := x\<rparr>) a = refines s a" "refines (s\<lparr>psp := p\<rparr>) a = refines s a"
  "refines (s\<lparr>callee := c\<rparr>) a = refines s a" "refines (s\<lparr>core := e\<rparr>) a = refines s a"
  by (auto simp: refines_def levels_def set_sp_def mail_of_def fun_eq_iff)


text \<open>Saving the running task parks its context and leaves the others parked.\<close>

lemma save_parks:
  assumes k: "contexts s K T" and ok: "stacks_ok (tcbs s) K T" and c: "current s = Some c" "c \<in> T"
  defines "s2 \<equiv> set_sp c (Some (psp s - 64)) ((exception_entry s)\<lparr>memory :=
     write_words (psp s - 64) (sf_words (callee s)) (write_words (psp s - 32) (ef_words (core s)) (memory s))\<rparr>)"
  shows "\<forall>t \<in> T. parked s2 t (K t)"
proof
  let ?p = "psp s"
  have Kc: "K c = (callee s, core s, ?p)" using k c by (simp add: contexts_def)
  have p64: "64 \<le> ?p" using ok c(2) Kc by (auto simp: stacks_ok_def in_stack_def)
  fix t assume t: "t \<in> T"
  show "parked s2 t (K t)"
  proof (cases "t = c")
    case True
    have "read_words (?p - 32) 8 (write_words (?p - 64) (sf_words (callee s)) (write_words (?p - 32) (ef_words (core s)) (memory s)))
        = ef_words (core s)"
      using p64 by (subst read_write_apart) (simp_all add: read_write_frames)
    then show ?thesis by (simp add: True Kc parked_def s2_def set_sp_def read_write_frames)
  next
    case False
    obtain sf ef q where Kt: "K t = (sf, ef, q)" using prod_cases3 by blast
    have park: "parked s t (K t)" using k t c(1) False by (auto simp: contexts_def)
    have ap: "q \<le> ?p - 64 \<or> ?p \<le> q - 64" "64 \<le> q" using frames_apart [OF ok t c(2) False] Kt Kc by simp_all
    have far: "read_words b 8 (write_words (?p - 64) (sf_words (callee s)) (write_words (?p - 32) (ef_words (core s)) (memory s)))
        = read_words b 8 (memory s)" if "b = q - 64 \<or> b = q - 32" for b
      using ap p64 that by (subst read_write_apart, force, subst read_write_apart) force+
    show ?thesis using park False by (simp add: Kt parked_def s2_def set_sp_def exception_entry_def far)
  qed
qed

lemma resume_parked:
  assumes "parked s t (sf, ef, p)" and "64 \<le> p"
  shows "map_option exception_return (load_context (stack_pointer (tcbs s t)) s) = Some (s\<lparr>callee := sf, core := ef, psp := p\<rparr>)"
  using assms by (simp add: parked_def load_context_def exception_return_def)

lemma canary_stays:
  assumes "in_stack t p" and "\<not> fast_check_stack m t"
  shows "\<not> fast_check_stack (write_words (p - 64) (sf_words sf) (write_words (p - 32) (ef_words ef) m)) t"
proof -
  have "span_at (stack_view t) (kCanarySize - 1) + 4 \<le> p - 64" using assms(1) by (auto simp: in_stack_def span_at_def kCanarySize_def)
  then have "write_words (p - 64) (sf_words sf) (write_words (p - 32) (ef_words ef) m) (span_at (stack_view t) (kCanarySize - 1))
      = m (span_at (stack_view t) (kCanarySize - 1))"
    by (subst write_words_other, force, subst write_words_other) force+
  then show ?thesis using assms(2) by (simp add: fast_check_stack_def)
qed



lemma parked_cong:
  "stack_pointer (tcbs s' t) = stack_pointer (tcbs s t) \<Longrightarrow> memory s' = memory s \<Longrightarrow> parked s' t c = parked s t c"
  by (simp add: parked_def)

text \<open>From parked contexts, picking a task and resuming it leaves every context as it was.\<close>

lemma pick_resume:
  assumes park: "\<forall>t \<in> T. parked s t (K t)" and ok: "stacks_ok (tcbs s) K T" and r: "refines s a" and i: "a_inv a"
    and T: "T = insert idle_task (a_tasks a)"
  obtains s' where "map_option exception_return (case pick_next_locked s of (t, s1) \<Rightarrow> load_context (stack_pointer (tcbs s1 t)) s1) = Some s'"
    "contexts s' K T" "refines s' (a_pick a)" "stacks_ok (tcbs s') K T" "memory s' = memory s"
    "\<forall>u. stack_view (tcbs s' u) = stack_view (tcbs s u)" "\<forall>u. task_wrapper (tcbs s' u) = task_wrapper (tcbs s u)"
    "\<exists>cf ef p. s' = (snd (pick_next_locked s))\<lparr>callee := cf, core := ef, psp := p\<rparr>"
proof -
  define t where "t = fst (pick_next_locked s)"
  define s1 where "s1 = snd (pick_next_locked s)"
  have pick: "pick_next_locked s = (t, s1)" by (simp add: t_def s1_def)
  have r1: "refines s1 (a_pick a)" and cur: "a_cur (a_pick a) = Some t" using sim_pick_locked [OF r i] by (simp_all add: t_def s1_def)
  have keep: "stack_pointer (tcbs s1 u) = stack_pointer (tcbs s u)" "stack_view (tcbs s1 u) = stack_view (tcbs s u)"
    "memory s1 = memory s" "task_wrapper (tcbs s1 u) = task_wrapper (tcbs s u)" for u unfolding s1_def by (rule pick_keeps)+
  have tT: "t \<in> T" using pick_best [OF i] cur T by (auto simp: runnable_def split: if_splits dest: a_inv_cur [OF i])
  obtain sf ef p where Kt: "K t = (sf, ef, p)" using prod_cases3 by blast
  have park1: "parked s1 u (K u)" if "u \<in> T" for u using park that parked_cong [of s1 u s] keep by simp
  have p64: "64 \<le> p" using ok tT Kt by (auto simp: stacks_ok_def in_stack_def)
  let ?s = "s1\<lparr>callee := sf, core := ef, psp := p\<rparr>"
  have res: "map_option exception_return (load_context (stack_pointer (tcbs s1 t)) s1) = Some ?s"
    using resume_parked [OF _ p64] park1 [OF tT] Kt by simp
  have "current s1 = Some t" using refines_cur [OF r1] cur by simp
  then have "contexts ?s K T" using park1 Kt parked_cong [of ?s _ s1] by (auto simp: contexts_def)
  moreover have "stacks_ok (tcbs ?s) K T" using ok keep(2) by (simp add: stacks_ok_def in_stack_def)
  moreover have shape: "\<exists>cf ef p. ?s = (snd (pick_next_locked s))\<lparr>callee := cf, core := ef, psp := p\<rparr>"
    unfolding s1_def [symmetric] by blast
  moreover have "refines ?s (a_pick a)" "memory ?s = memory s" "\<forall>u. stack_view (tcbs ?s u) = stack_view (tcbs s u)"
    "\<forall>u. task_wrapper (tcbs ?s u) = task_wrapper (tcbs s u)" using r1 keep by simp_all
  ultimately show thesis using that [of ?s] res unfolding pick prod.case by blast
qed

text \<open>Spawning.\<close>

lemma add_keeps [simp]:
  "memory (sched_add t s) = memory s" "callee (sched_add t s) = callee s" "core (sched_add t s) = core s" "psp (sched_add t s) = psp s"
  "stack_pointer (tcbs (sched_add t s) u) = stack_pointer (tcbs s u)" "stack_view (tcbs (sched_add t s) u) = stack_view (tcbs s u)"
  "current (sched_add t s) = current s"
  by (auto simp: sched_add_def CriticalGuard_def sched_lock_def sched_unlock_def crit_lock_def crit_unlock_def write_basepri_def
      sched_push_back_def set_tcb_state_def request_switch_def Let_def split: option.splits prod.splits)

definition sf_zero :: SoftwareFrame where
  "sf_zero = \<lparr>sf_r4 = 0, sf_r5 = 0, sf_r6 = 0, sf_r7 = 0, sf_r8 = 0, sf_r9 = 0, sf_r10 = 0, sf_r11 = 0\<rparr>"

definition stack_top :: "tcb \<Rightarrow> addr" where
  "stack_top t = span_data (stack_view t) + 4 * span_size (stack_view t)"

definition first_memory :: "image \<Rightarrow> addr \<Rightarrow> tcb \<Rightarrow> mem \<Rightarrow> mem" where
  "first_memory im t tc m = write_words (stack_top tc - 32) (ef_words (first_frame im t))
     (write_words (stack_top tc - 64) (sf_words sf_zero) (bury_canary tc m))"

lemma spawn_state:
  "memory (spawn im t s) = first_memory im t (tcbs s t) (memory s)" "callee (spawn im t s) = callee s" "core (spawn im t s) = core s"
  "psp (spawn im t s) = psp s" "current (spawn im t s) = current s"
  "stack_pointer (tcbs (spawn im t s) u) = (if u = t then Some (stack_top (tcbs s t) - 64) else stack_pointer (tcbs s u))"
  "stack_view (tcbs (spawn im t s) u) = stack_view (tcbs s u)"
  by (simp_all add: spawn_def fabricate_frame_def first_memory_def stack_top_def sf_zero_def set_sp_def Let_def)

lemma spawn_refines:
  assumes "refines s a" and "a_inv a" and "op_ok (OpAdd (Some t)) a"
  shows "refines (spawn im t s) (a_op (OpAdd (Some t)) a)" "a_inv (a_op (OpAdd (Some t)) a)"
proof -
  have "refines (fabricate_frame im t (s\<lparr>memory := bury_canary (tcbs s t) (memory s)\<rparr>)) a"
    using assms(1) by (simp add: fabricate_frame_def Let_def)
  then show "refines (spawn im t s) (a_op (OpAdd (Some t)) a)" unfolding spawn_def using assms(2,3) by (rule sim_add)
  show "a_inv (a_op (OpAdd (Some t)) a)" by (rule a_inv_op [OF assms(2,3)])
qed

lemma first_memory_other:
  assumes "x + 4 \<le> span_data (stack_view tc) \<or> stack_top tc \<le> x" and "64 \<le> 4 * span_size (stack_view tc)"
  shows "first_memory im t tc m x = m x"
proof -
  have "\<forall>i < 8. x \<noteq> stack_top tc - 32 + 4 * i" "\<forall>i < 8. x \<noteq> stack_top tc - 64 + 4 * i"
    "\<not> (\<exists>i < span_size (stack_view tc). x = span_at (stack_view tc) i)"
    using assms by (auto simp: stack_top_def span_at_def)
  then show ?thesis unfolding first_memory_def by (auto simp: write_words_other bury_canary_at)
qed

lemma read_words_cong: "(\<And>i. i < n \<Longrightarrow> m' (b + 4 * i) = m (b + 4 * i)) \<Longrightarrow> read_words b n m' = read_words b n m"
  by (simp add: read_words_def)

lemma first_memory_canary:
  assumes "24 \<le> span_size (stack_view tc)"
  shows "\<not> fast_check_stack (first_memory im t tc m) tc"
proof -
  have "\<forall>i < 8. span_at (stack_view tc) 7 \<noteq> stack_top tc - 32 + 4 * i" "\<forall>i < 8. span_at (stack_view tc) 7 \<noteq> stack_top tc - 64 + 4 * i"
    using assms by (auto simp: stack_top_def span_at_def)
  moreover have "\<exists>i < span_size (stack_view tc). span_at (stack_view tc) 7 = span_at (stack_view tc) i"
    using assms by (intro exI [of _ 7]) simp
  ultimately show ?thesis
    by (simp add: fast_check_stack_def first_memory_def kCanarySize_def write_words_other bury_canary_at)
qed

lemma fresh_parks:
  assumes park: "\<forall>u \<in> T. parked s u (K u)" and t: "t \<notin> T"
    and ok: "stacks_ok (tcbs s) (K(t := (sf_zero, first_frame im t, stack_top (tcbs s t)))) (insert t T)"
    and mem: "memory s' = first_memory im t (tcbs s t) (memory s)"
    and sp: "\<forall>u. stack_pointer (tcbs s' u) = (if u = t then Some (stack_top (tcbs s t) - 64) else stack_pointer (tcbs s u))"
  shows "\<forall>u \<in> insert t T. parked s' u ((K(t := (sf_zero, first_frame im t, stack_top (tcbs s t)))) u)"
proof -
  let ?K = "K(t := (sf_zero, first_frame im t, stack_top (tcbs s t)))" and ?tc = "tcbs s t"
  have size: "24 \<le> span_size (stack_view ?tc)" using ok by (simp add: stacks_ok_def in_stack_def stack_top_def kCanarySize_def)
  have "read_words (stack_top ?tc - 64) 8 (first_memory im t ?tc (memory s)) = sf_words sf_zero"
    using size unfolding first_memory_def by (subst read_write_apart) (simp_all add: read_write_frames stack_top_def)
  then have "parked s' t (?K t)" by (simp add: parked_def mem sp first_memory_def read_write_frames)
  moreover have "parked s' u (?K u)" if u: "u \<in> T" for u
  proof -
    obtain sf ef p where Ku: "K u = (sf, ef, p)" using prod_cases3 by blast
    have ne: "u \<noteq> t" using u t by auto
    have ins: "in_stack (tcbs s u) p" using ok u ne Ku by (auto simp: stacks_ok_def)
    have ap: "stack_top ?tc \<le> span_data (stack_view (tcbs s u)) \<or> stack_top (tcbs s u) \<le> span_data (stack_view ?tc)"
      using ok u ne unfolding stacks_ok_def stack_top_def by blast
    have "read_words b 8 (first_memory im t ?tc (memory s)) = read_words b 8 (memory s)" if "b = p - 64 \<or> b = p - 32" for b
      by (rule read_words_cong, rule first_memory_other) (use ap ins that size in \<open>auto simp: in_stack_def stack_top_def\<close>)
    moreover have "parked s u (K u)" using park u by blast
    ultimately show ?thesis using ne by (simp add: Ku parked_def mem sp)
  qed
  ultimately show ?thesis by blast
qed

lemma stacks_ok_mono: "stacks_ok tc K T \<Longrightarrow> S \<subseteq> T \<Longrightarrow> stacks_ok tc K S"
  unfolding stacks_ok_def by blast

lemma spawn_parks:
  assumes k: "contexts s K T" and ok: "stacks_ok (tcbs s) (K(t := (sf_zero, first_frame im t, stack_top (tcbs s t)))) (insert t T)"
    and t: "t \<notin> T" "current s \<noteq> Some t"
  shows "contexts (spawn im t s) (K(t := (sf_zero, first_frame im t, stack_top (tcbs s t)))) (insert t T)"
proof -
  let ?S = "{u \<in> T. current s \<noteq> Some u}" and ?K = "K(t := (sf_zero, first_frame im t, stack_top (tcbs s t)))"
  have "\<forall>u \<in> ?S. parked s u (K u)" using k by (auto simp: contexts_def)
  moreover have "stacks_ok (tcbs s) ?K (insert t ?S)" by (rule stacks_ok_mono [OF ok]) auto
  ultimately have "\<forall>u \<in> insert t ?S. parked (spawn im t s) u (?K u)"
    using fresh_parks [of ?S s K t im "spawn im t s"] t by (simp add: spawn_state)
  then show ?thesis using k t by (auto simp: contexts_def spawn_state)
qed

lemma start_spec:
  assumes k: "contexts s K (a_tasks a)" and cur: "current s = None" and r: "refines s a" and i: "a_inv a"
    and ok: "stacks_ok (tcbs s) (K(idle_task := (sf_zero, first_frame im idle_task, stack_top (tcbs s idle_task)))) (insert idle_task (a_tasks a))"
  shows "\<exists>s'. start_scheduler im idle_fn report s = Some s'
    \<and> contexts s' (K(idle_task := (sf_zero, first_frame im idle_task, stack_top (tcbs s idle_task)))) (insert idle_task (a_tasks a))
    \<and> refines s' (a_pick a) \<and> tw_function (task_wrapper (tcbs s' idle_task)) = Some idle_fn
    \<and> stacks_ok (tcbs s') (K(idle_task := (sf_zero, first_frame im idle_task, stack_top (tcbs s idle_task)))) (insert idle_task (a_tasks a))
    \<and> (\<forall>u \<in> a_tasks a. fast_check_stack (memory s') (tcbs s' u) = fast_check_stack (memory s) (tcbs s u))
    \<and> (\<exists>t. current s' = Some t \<and> (if runnable a = {} then t = idle_task
         else t \<in> runnable a \<and> (\<forall>u \<in> runnable a. task_priority (tcbs s t) \<le> task_priority (tcbs s u))))"
proof -
  let ?K = "K(idle_task := (sf_zero, first_frame im idle_task, stack_top (tcbs s idle_task)))" and ?T = "insert idle_task (a_tasks a)"
  let ?tc = "(tcbs s idle_task)\<lparr>task_wrapper := \<lparr>tw_function = Some idle_fn, tw_argument = None\<rparr>\<rparr>"
  define s1 where "s1 = s\<lparr>tcbs := (tcbs s)(idle_task := ?tc)\<rparr>"
  define s3 where "s3 = (fabricate_frame im idle_task (s1\<lparr>memory := bury_canary ?tc (memory s1)\<rparr>))
     \<lparr>shpr3 := (shpr3 s AND 0xFF00FFFF) OR push_bit 16 0xFF\<rparr>"
  have start: "start_scheduler im idle_fn report s = map_option exception_return
      (case pick_next_locked s3 of (t, s1) \<Rightarrow> load_context (stack_pointer (tcbs s1 t)) s1)"
    by (simp add: start_scheduler_def SVC_Handler_def context_switch_def fetch_idle_task_def s3_def s1_def fabricate_frame_def
        set_sp_def Let_def split: prod.splits)
  have st: "memory s3 = first_memory im idle_task (tcbs s idle_task) (memory s)"
    "stack_pointer (tcbs s3 u) = (if u = idle_task then Some (stack_top (tcbs s idle_task) - 64) else stack_pointer (tcbs s u))"
    "stack_view (tcbs s3 u) = stack_view (tcbs s u)" "tw_function (task_wrapper (tcbs s3 idle_task)) = Some idle_fn" for u
    by (simp_all add: s3_def s1_def fabricate_frame_def set_sp_def Let_def first_memory_def stack_top_def bury_canary_def sf_zero_def)
  have "refines s1 a" using r by (auto simp: s1_def refines_def levels_def mail_of_def fun_eq_iff)
  then have r3: "refines s3 a" by (auto simp: s3_def fabricate_frame_def Let_def refines_def levels_def set_sp_def mail_of_def fun_eq_iff)
  have idle: "idle_task \<notin> a_tasks a" by (rule a_inv_idle [OF i])
  have park0: "\<forall>u \<in> a_tasks a. parked s u (K u)" using k cur by (simp add: contexts_def)
  have park: "\<forall>u \<in> ?T. parked s3 u (?K u)" by (rule fresh_parks [OF park0 idle ok st(1)]) (simp add: st(2))
  have ok3: "stacks_ok (tcbs s3) ?K ?T" using ok st(3) by (simp add: stacks_ok_def in_stack_def)
  obtain s' where s': "map_option exception_return (case pick_next_locked s3 of (t, s1) \<Rightarrow> load_context (stack_pointer (tcbs s1 t)) s1) = Some s'"
    "contexts s' ?K ?T" "refines s' (a_pick a)" "stacks_ok (tcbs s') ?K ?T" "memory s' = memory s3"
    "\<forall>u. stack_view (tcbs s' u) = stack_view (tcbs s3 u)" "\<forall>u. task_wrapper (tcbs s' u) = task_wrapper (tcbs s3 u)"
    by (rule pick_resume [OF park ok3 r3 i refl])
  have pr: "a_prio a u = task_priority (tcbs s u)" for u using refines_prio [OF r, of u] by simp
  obtain t where t: "a_cur (a_pick a) = Some t" "if runnable a = {} then t = idle_task
         else t \<in> runnable a \<and> (\<forall>u \<in> runnable a. task_priority (tcbs s t) \<le> task_priority (tcbs s u))"
    using pick_best [OF i] unfolding pr by blast
  have "\<exists>t. current s' = Some t \<and> (if runnable a = {} then t = idle_task
         else t \<in> runnable a \<and> (\<forall>u \<in> runnable a. task_priority (tcbs s t) \<le> task_priority (tcbs s u)))"
    by (rule exI [of _ t]) (use t refines_cur [OF s'(3)] in simp)
  moreover have "fast_check_stack (memory s') (tcbs s' u) = fast_check_stack (memory s) (tcbs s u)" if u: "u \<in> a_tasks a" for u
  proof -
    have ne: "u \<noteq> idle_task" using u idle by auto
    have "span_at (stack_view (tcbs s u)) (kCanarySize - 1) + 4 \<le> span_data (stack_view (tcbs s idle_task))
      \<or> stack_top (tcbs s idle_task) \<le> span_at (stack_view (tcbs s u)) (kCanarySize - 1)" "64 \<le> 4 * span_size (stack_view (tcbs s idle_task))"
      using ok u ne by (force simp: in_stack_def span_at_def kCanarySize_def stacks_ok_def stack_top_def)+
    from first_memory_other [OF this] show ?thesis using s'(5,6) st(1,3) by (simp add: fast_check_stack_def)
  qed
  ultimately show ?thesis using start s' st(4) by simp
qed

text \<open>The whole of PendSV, from the stacking of the core to its unstacking.\<close>

lemma switch_spec:
  assumes k: "contexts s K T" and ok: "stacks_ok (tcbs s) K T" and r: "refines s a" and i: "a_inv a"
    and T: "T = insert idle_task (a_tasks a)" and c: "current s = Some c" and can: "\<not> fast_check_stack (memory s) (tcbs s c)"
  shows "\<exists>s'. take_PendSV report s = Some s' \<and> contexts s' K T \<and> stacks_ok (tcbs s') K T
    \<and> refines s' (a_pick (a\<lparr>a_pend := False\<rparr>)) \<and> a_inv (a_pick (a\<lparr>a_pend := False\<rparr>))
    \<and> (\<exists>t. current s' = Some t \<and> (if runnable a = {} then t = idle_task
         else t \<in> runnable a \<and> (\<forall>u \<in> runnable a. task_priority (tcbs s t) \<le> task_priority (tcbs s u))))
    \<and> (\<forall>u \<in> T. fast_check_stack (memory s') (tcbs s' u) = fast_check_stack (memory s) (tcbs s u))
    \<and> memory s' = write_words (psp s - 64) (sf_words (callee s)) (write_words (psp s - 32) (ef_words (core s)) (memory s))
    \<and> (\<exists>cf ef p. s' = (snd (pick_next_locked (set_sp c (Some (psp s - 64)) ((exception_entry s)\<lparr>memory := memory s'\<rparr>))))
         \<lparr>callee := cf, core := ef, psp := p\<rparr>)"
proof -
  let ?a = "a\<lparr>a_pend := False\<rparr>"
  let ?m = "write_words (psp s - 64) (sf_words (callee s)) (write_words (psp s - 32) (ef_words (core s)) (memory s))"
  define s2 where "s2 = set_sp c (Some (psp s - 64)) ((exception_entry s)\<lparr>memory := ?m\<rparr>)"
  have cT: "c \<in> T" using a_inv_cur [OF i, of c] refines_cur [OF r] c T by auto
  have Kc: "K c = (callee s, core s, psp s)" using k c cT by (simp add: contexts_def)
  have inc: "in_stack (tcbs s c) (psp s)" using ok cT Kc by (auto simp: stacks_ok_def)
  have park: "\<forall>t \<in> T. parked s2 t (K t)" unfolding s2_def by (rule save_parks [OF k ok c cT])
  have views: "stack_view (tcbs s2 u) = stack_view (tcbs s u)" for u by (simp add: s2_def set_sp_def exception_entry_def)
  have ok2: "stacks_ok (tcbs s2) K T" using ok views by (simp add: stacks_ok_def in_stack_def)
  have "refines (exception_entry s) ?a" using r by (auto simp: refines_def levels_def exception_entry_def)
  then have r2: "refines s2 ?a" by (simp add: s2_def)
  have i2: "a_inv ?a" using i by (simp add: a_inv_cong)
  have T2: "T = insert idle_task (a_tasks ?a)" using T by simp
  have mem2: "memory s2 = ?m" by (simp add: s2_def set_sp_def)
  have fc: "\<not> fast_check_stack ?m (tcbs s2 c)"
    using canary_stays [OF inc can, of "callee s" "core s"] views by (simp add: fast_check_stack_def)
  have n0: "psp s - 32 \<noteq> 0" "psp s - 32 - 32 = psp s - 64" using inc by (auto simp: in_stack_def)
  have sw: "take_PendSV report s = map_option exception_return (case pick_next_locked s2 of (t, s1) \<Rightarrow> load_context (stack_pointer (tcbs s1 t)) s1)"
    using n0 c fc mem2
    by (simp add: take_PendSV_def PendSV_Handler_def context_switch_def current_task_def s2_def exception_entry_def set_sp_def
        split: prod.splits)
  obtain s' where s': "map_option exception_return (case pick_next_locked s2 of (t, s1) \<Rightarrow> load_context (stack_pointer (tcbs s1 t)) s1) = Some s'"
    "contexts s' K T" "refines s' (a_pick ?a)" "stacks_ok (tcbs s') K T" "memory s' = memory s2"
    "\<forall>u. stack_view (tcbs s' u) = stack_view (tcbs s2 u)"
    "\<exists>cf ef p. s' = (snd (pick_next_locked s2))\<lparr>callee := cf, core := ef, psp := p\<rparr>"
    by (rule pick_resume [OF park ok2 r2 i2 T2])
  have inv': "a_inv (a_pick ?a)" using a_inv_pick [OF i2] by simp
  have run: "runnable ?a = runnable a" by (simp add: runnable_def)
  have pr: "a_prio ?a u = task_priority (tcbs s u)" for u using refines_prio [OF r, of u] by simp
  obtain t where t: "a_cur (a_pick ?a) = Some t" "if runnable a = {} then t = idle_task
         else t \<in> runnable a \<and> (\<forall>u \<in> runnable a. task_priority (tcbs s t) \<le> task_priority (tcbs s u))"
    using pick_best [OF i2] unfolding run pr by blast
  have cur': "\<exists>t. current s' = Some t \<and> (if runnable a = {} then t = idle_task
         else t \<in> runnable a \<and> (\<forall>u \<in> runnable a. task_priority (tcbs s t) \<le> task_priority (tcbs s u)))"
    by (rule exI [of _ t]) (use t refines_cur [OF s'(3)] in simp)
  have can': "fast_check_stack (memory s') (tcbs s' u) = fast_check_stack (memory s) (tcbs s u)" if u: "u \<in> T" for u
  proof -
    have "span_at (stack_view (tcbs s u)) (kCanarySize - 1) + 4 \<le> psp s - 64 \<or> psp s \<le> span_at (stack_view (tcbs s u)) (kCanarySize - 1)"
      using ok u cT inc Kc by (cases "u = c") (force simp: in_stack_def span_at_def kCanarySize_def stacks_ok_def)+
    then have "?m (span_at (stack_view (tcbs s u)) (kCanarySize - 1)) = memory s (span_at (stack_view (tcbs s u)) (kCanarySize - 1))"
      using n0 by (subst write_words_other, force, subst write_words_other) force+
    then show ?thesis using s'(5,6) views mem2 by (simp add: fast_check_stack_def)
  qed
  have m': "memory s' = ?m" using s'(5) mem2 by simp
  have shape: "\<exists>cf ef p. s' = (snd (pick_next_locked (set_sp c (Some (psp s - 64)) ((exception_entry s)\<lparr>memory := memory s'\<rparr>))))
         \<lparr>callee := cf, core := ef, psp := p\<rparr>"
    using s'(7) unfolding s2_def m' by blast
  have "take_PendSV report s = Some s'" using sw s'(1) by simp
  then show ?thesis using s'(2-4) inv' cur' can' m' shape by (intro exI [of _ s'] conjI ballI; assumption?) simp
qed

section \<open>Properties\<close>

text \<open>C3: the context switch. When PendSV is taken while a task runs, the context switch ends, the best runnable task
  runs, and no task's context changes: the one that was running finds, the next time it is picked, exactly
  the registers and the stack pointer it had, and the others stay parked as they were. Stacks keep their
  extent and canaries their value.\<close>

theorem switch_keeps_contexts:
  assumes k: "contexts s K T" and ok: "stacks_ok (tcbs s) K T" and r: "refines s a" and i: "a_inv a"
    and T: "T = insert idle_task (a_tasks a)" and c: "current s = Some c" and can: "\<not> fast_check_stack (memory s) (tcbs s c)"
  shows "\<exists>s'. take_PendSV report s = Some s' \<and> contexts s' K T \<and> stacks_ok (tcbs s') K T
    \<and> refines s' (a_pick (a\<lparr>a_pend := False\<rparr>)) \<and> a_inv (a_pick (a\<lparr>a_pend := False\<rparr>))
    \<and> (\<exists>t. current s' = Some t \<and> (if runnable a = {} then t = idle_task
         else t \<in> runnable a \<and> (\<forall>u \<in> runnable a. task_priority (tcbs s t) \<le> task_priority (tcbs s u))))
    \<and> (\<forall>u \<in> T. fast_check_stack (memory s') (tcbs s' u) = fast_check_stack (memory s) (tcbs s u))"
  using switch_spec [OF assms, of report] by blast



text \<open>The first context of a task. Spawning a task whose stack has at least 24 words of its own puts it on the
  scheduler and gives it a context that enters the trampoline with the task's wrapper as argument, returns
  into the trap, and has the whole stack free; its canary is intact, and no other task's context changes.\<close>

theorem spawn_gives_first_context:
  assumes k: "contexts s K T" and ok: "stacks_ok (tcbs s) (K(t := (sf_zero, first_frame im t, stack_top (tcbs s t)))) (insert t T)"
    and t: "t \<notin> T" "current s \<noteq> Some t" and r: "refines s a" and i: "a_inv a" and add: "op_ok (OpAdd (Some t)) a"
  shows "contexts (spawn im t s) (K(t := (sf_zero, first_frame im t, stack_top (tcbs s t)))) (insert t T)
    \<and> refines (spawn im t s) (a_op (OpAdd (Some t)) a)
    \<and> ef_pc (first_frame im t) = of_nat (invoke_addr im) \<and> ef_r0 (first_frame im t) = of_nat (t + wrapper_off im)
    \<and> ef_lr (first_frame im t) = of_nat (trap_addr im)
    \<and> \<not> fast_check_stack (memory (spawn im t s)) (tcbs (spawn im t s) t)"
proof -
  have size: "24 \<le> span_size (stack_view (tcbs s t))" using ok by (simp add: stacks_ok_def in_stack_def stack_top_def kCanarySize_def)
  have "fast_check_stack m (tcbs (spawn im t s) t) = fast_check_stack m (tcbs s t)" for m
    by (simp add: fast_check_stack_def spawn_state)
  then show ?thesis
    using spawn_parks [OF k ok t] spawn_refines(1) [OF r i add] first_memory_canary [OF size]
    by (simp add: spawn_state first_frame_def)
qed

text \<open>A machine that has booted nothing but the scheduler, and its image.\<close>

definition demo_image :: image where
  "demo_image = \<lparr>trap_addr = 0x8000101, invoke_addr = 0x8000201, wrapper_off = 32, tcb_size = 64, tcb_align = 4\<rparr>"

definition mach_new :: "(addr \<Rightarrow> span) \<Rightarrow> mach" where
  "mach_new views = sys.extend (sys_new\<lparr>tcbs := (\<lambda>t. (tcbs sys_new t)\<lparr>stack_view := views t\<rparr>)\<rparr>)
     \<lparr>memory = (\<lambda>_. 0), psp = 0, callee = sf_zero, core = ef_of (replicate 8 0), shpr3 = 0, overflow_reporter = None,
      task_arena = Arena_new 0 0\<rparr>"

lemma mail_of_view: "mail_of (t\<lparr>stack_view := v\<rparr>) = mail_of t"
  by (simp add: mail_of_def)

lemma mach_new_refines: "refines (mach_new views) asched_new" "current (mach_new views) = None" "stack_view (tcbs (mach_new views) t) = views t"
  using sys_new_refines refines_cur [OF sys_new_refines]
  by (simp_all add: refines_def levels_def mach_new_def sys.defs mail_of_view asched_new_def)

definition two_stacks :: "addr \<Rightarrow> span" where
  "two_stacks t = (if t = idle_task then \<lparr>span_data = 1000, span_size = 32\<rparr> else \<lparr>span_data = 2000, span_size = 64\<rparr>)"

theorem spawn_gives_first_context_witness:
  "contexts (spawn demo_image 7 (mach_new two_stacks)) (\<lambda>_. (sf_zero, first_frame demo_image 7, 2256)) {7}
    \<and> \<not> fast_check_stack (memory (spawn demo_image 7 (mach_new two_stacks))) (tcbs (spawn demo_image 7 (mach_new two_stacks)) 7)"
proof -
  let ?s = "mach_new two_stacks" and ?K = "\<lambda>_ :: addr. (sf_zero, first_frame demo_image 7, 2256 :: addr)"
  have top: "stack_top (tcbs ?s 7) = 2256" by (simp add: stack_top_def mach_new_refines two_stacks_def idle_task_def)
  have "contexts ?s ?K {}" by (simp add: contexts_def)
  moreover have "stacks_ok (tcbs ?s) (?K(7 := (sf_zero, first_frame demo_image 7, stack_top (tcbs ?s 7)))) (insert 7 {})"
    by (simp add: stacks_ok_def in_stack_def mach_new_refines two_stacks_def idle_task_def kCanarySize_def top)
  moreover have "op_ok (OpAdd (Some 7)) asched_new" by (simp add: small_run_simps)
  ultimately have "contexts (spawn demo_image 7 ?s) (?K(7 := (sf_zero, first_frame demo_image 7, stack_top (tcbs ?s 7)))) (insert 7 {})"
    "\<not> fast_check_stack (memory (spawn demo_image 7 ?s)) (tcbs (spawn demo_image 7 ?s) 7)"
    using spawn_gives_first_context [of ?s ?K "{}" 7 demo_image asched_new] mach_new_refines new_refines(2) by auto
  moreover have "?K(7 := (sf_zero, first_frame demo_image 7, stack_top (tcbs ?s 7))) = ?K" using top by auto
  ultimately show ?thesis by simp
qed


text \<open>Starting the scheduler. \<open>start_scheduler\<close> gives the idle task its first context and loads the context of
  the best task that was spawned, or of the idle task when there is none; the contexts of all tasks and
  their canaries are kept.\<close>

theorem start_scheduler_runs_best:
  assumes k: "contexts s K (a_tasks a)" and cur: "current s = None" and r: "refines s a" and i: "a_inv a"
    and ok: "stacks_ok (tcbs s) (K(idle_task := (sf_zero, first_frame im idle_task, stack_top (tcbs s idle_task)))) (insert idle_task (a_tasks a))"
  shows "\<exists>s'. start_scheduler im idle_fn report s = Some s'
    \<and> contexts s' (K(idle_task := (sf_zero, first_frame im idle_task, stack_top (tcbs s idle_task)))) (insert idle_task (a_tasks a))
    \<and> refines s' (a_pick a) \<and> tw_function (task_wrapper (tcbs s' idle_task)) = Some idle_fn
    \<and> stacks_ok (tcbs s') (K(idle_task := (sf_zero, first_frame im idle_task, stack_top (tcbs s idle_task)))) (insert idle_task (a_tasks a))
    \<and> (\<forall>u \<in> a_tasks a. fast_check_stack (memory s') (tcbs s' u) = fast_check_stack (memory s) (tcbs s u))
    \<and> (\<exists>t. current s' = Some t \<and> (if runnable a = {} then t = idle_task
         else t \<in> runnable a \<and> (\<forall>u \<in> runnable a. task_priority (tcbs s t) \<le> task_priority (tcbs s u))))"
  by (rule start_spec [OF assms])

text \<open>Task 7 and the idle task.\<close>

lemma spawned_7:
  defines "s \<equiv> spawn demo_image 7 (mach_new two_stacks)" and "a \<equiv> a_op (OpAdd (Some 7)) asched_new"
    and "K \<equiv> \<lambda>_ :: addr. (sf_zero, first_frame demo_image 7, 2256 :: addr)"
  shows "contexts s K (a_tasks a)" "current s = None" "refines s a" "a_inv a" "a_tasks a = {7}" "runnable a = {7}"
    "stacks_ok (tcbs s) (K(idle_task := (sf_zero, first_frame demo_image idle_task, stack_top (tcbs s idle_task)))) (insert idle_task (a_tasks a))"
    "\<not> fast_check_stack (memory s) (tcbs s 7)"
proof -
  let ?s = "mach_new two_stacks"
  have top: "stack_top (tcbs ?s 7) = 2256" by (simp add: stack_top_def mach_new_refines two_stacks_def idle_task_def)
  have ok: "op_ok (OpAdd (Some 7)) asched_new" by (simp add: small_run_simps)
  show T: "a_tasks a = {7}" by (simp add: a_def small_run_simps)
  show "runnable a = {7}" by (auto simp: a_def runnable_def small_run_simps)
  have "stacks_ok (tcbs ?s) (K(7 := (sf_zero, first_frame demo_image 7, stack_top (tcbs ?s 7)))) (insert 7 {})"
    by (simp add: stacks_ok_def in_stack_def mach_new_refines two_stacks_def idle_task_def kCanarySize_def top)
  then have "contexts s (K(7 := (sf_zero, first_frame demo_image 7, stack_top (tcbs ?s 7)))) (insert 7 {})"
    unfolding s_def by (intro spawn_parks) (simp_all add: contexts_def mach_new_refines)
  moreover have "K(7 := (sf_zero, first_frame demo_image 7, stack_top (tcbs ?s 7))) = K" using top by (auto simp: K_def)
  ultimately show "contexts s K (a_tasks a)" using T by simp
  show "current s = None" by (simp add: s_def spawn_state mach_new_refines)
  show "refines s a" "a_inv a" unfolding s_def a_def using spawn_refines [OF mach_new_refines(1) new_refines(2) ok] by simp_all
  show "stacks_ok (tcbs s) (K(idle_task := (sf_zero, first_frame demo_image idle_task, stack_top (tcbs s idle_task)))) (insert idle_task (a_tasks a))"
    by (simp add: T stacks_ok_def in_stack_def s_def spawn_state mach_new_refines two_stacks_def idle_task_def kCanarySize_def stack_top_def K_def)
  have "\<not> fast_check_stack (first_memory demo_image 7 (tcbs ?s 7) (memory ?s)) (tcbs ?s 7)"
    by (rule first_memory_canary) (simp add: mach_new_refines two_stacks_def idle_task_def)
  then show "\<not> fast_check_stack (memory s) (tcbs s 7)" by (simp add: s_def fast_check_stack_def spawn_state)
qed

theorem start_scheduler_runs_best_witness:
  "\<exists>s'. start_scheduler demo_image 99 (\<lambda>f t n s. None) (spawn demo_image 7 (mach_new two_stacks)) = Some s' \<and> current s' = Some 7"
  using start_scheduler_runs_best [OF spawned_7(1-4,7), of 99 "\<lambda>f t n s. None"] spawned_7(6) by auto

theorem switch_keeps_contexts_witness:
  "\<exists>s s'. start_scheduler demo_image 99 (\<lambda>f t n s. None) (spawn demo_image 7 (mach_new two_stacks)) = Some s
     \<and> take_PendSV (\<lambda>f t n s. None) s = Some s' \<and> current s' = Some 7 \<and> core s' = core s \<and> callee s' = callee s \<and> psp s' = psp s"
proof -
  let ?s0 = "spawn demo_image 7 (mach_new two_stacks)" and ?a0 = "a_op (OpAdd (Some 7)) asched_new" and ?r = "\<lambda>f t n s. None"
  let ?K = "(\<lambda>_ :: addr. (sf_zero, first_frame demo_image 7, 2256 :: addr))
    (idle_task := (sf_zero, first_frame demo_image idle_task, stack_top (tcbs ?s0 idle_task)))"
  let ?T = "insert idle_task (a_tasks ?a0)"
  obtain s where s: "start_scheduler demo_image 99 ?r ?s0 = Some s" "contexts s ?K ?T" "refines s (a_pick ?a0)"
    "stacks_ok (tcbs s) ?K ?T" "current s = Some 7" "\<not> fast_check_stack (memory s) (tcbs s 7)"
    using start_spec [OF spawned_7(1-4,7), of 99 ?r] spawned_7(5,6,8) by auto
  have i: "a_inv (a_pick ?a0)" using a_inv_pick [OF spawned_7(4)] .
  have T: "?T = insert idle_task (a_tasks (a_pick ?a0))" and run: "runnable (a_pick ?a0) = {7}"
    by (auto simp: runnable_def small_run_simps)
  obtain s' where s': "take_PendSV ?r s = Some s'" "contexts s' ?K ?T" "current s' = Some 7"
    using switch_keeps_contexts [OF s(2,4,3) i T s(5,6), of ?r] run by auto
  have "7 \<in> ?T" using spawned_7(5) by simp
  then have "?K 7 = (callee s, core s, psp s)" "?K 7 = (callee s', core s', psp s')"
    using s(2,5) s'(2,3) by (auto simp: contexts_def)
  then show ?thesis using s(1) s'(1,3) by auto
qed

lemma read_words_nth: "i < n \<Longrightarrow> read_words a n m ! i = m (a + 4 * i)"
  by (simp add: read_words_def)

text \<open>A stack of 16 to 23 words passes for one whose canary was eaten: the first context is laid over the canary.\<close>

lemma small_stack_trips_canary:
  assumes "16 \<le> span_size (stack_view (tcbs s t))" and "span_size (stack_view (tcbs s t)) < 24"
  shows "fast_check_stack (memory (spawn im t s)) (tcbs (spawn im t s) t)"
proof -
  let ?tc = "tcbs s t" and ?n = "span_size (stack_view (tcbs s t))"
  have at: "span_at (stack_view ?tc) 7 = stack_top ?tc - 64 + 4 * (23 - ?n)" using assms by (simp add: span_at_def stack_top_def)
  have "read_words (stack_top ?tc - 64) 8 (first_memory im t ?tc (memory s)) = sf_words sf_zero"
    using assms unfolding first_memory_def by (subst read_write_apart) (simp_all add: read_write_frames stack_top_def)
  then have "first_memory im t ?tc (memory s) (stack_top ?tc - 64 + 4 * (23 - ?n)) = sf_words sf_zero ! (23 - ?n)"
    using assms read_words_nth [of "23 - ?n" 8 "stack_top ?tc - 64" "first_memory im t ?tc (memory s)"] by simp
  moreover have "sf_words sf_zero ! i = 0" if "i < 8" for i
    using that by (auto simp: sf_words_def sf_zero_def less_Suc_eq numeral_eq_Suc nth_Cons')
  ultimately have "first_memory im t ?tc (memory s) (span_at (stack_view ?tc) 7) = 0" using at assms by simp
  then show ?thesis by (simp add: fast_check_stack_def spawn_state kCanarySize_def kCanaryWord_def)
qed

end
