(* ===== verification/Systick_Port.thy ===== *)
theory Systick_Port
  imports Switch_Port
begin

text \<open>
  The tick source of \<^verbatim>\<open>src/arch/arm_cortex_m3/time_kernel_cm3.cpp\<close>: starting SysTick, its handler, and the idle
  task's bed with the tickless one-shot. The state adds the SysTick registers, the pending state of the
  SysTick exception, the writes to the NVIC clear-pending register, and the file's own variables. As the
  architecture says, reading the control register clears its count flag, writing the current-value
  register clears it too, and the NVIC registers do not reach system exceptions such as SysTick. What
  sleeping in \<^verbatim>\<open>wfi\<close> brings is the parameter \<open>wfi\<close>; reactions of due waiters are \<open>on_time\<close>, as in the time kernel.
\<close>

section \<open>State\<close>

record stk = mach +
  syst_csr :: u32
  syst_rvr :: u32
  syst_cvr :: u32
  count_flag :: bool
  systick_pending :: bool
  nvic_icpr :: "u32 list"
  cycles_per_tick :: u32
  one_shot_ticks :: u32
  zeros_tick_periodic :: u32
  zeros_tick_oneshot :: u32

definition kSystEnable :: u32 where "kSystEnable = 1"
definition kSystTickInt :: u32 where "kSystTickInt = 2"
definition kSystClkSource :: u32 where "kSystClkSource = 4"
definition kSystCountFlag :: u32 where "kSystCountFlag = push_bit 16 1"
definition kSystickIrqBit :: u32 where "kSystickIrqBit = push_bit 15 1"
definition kTicklessThreshold :: u32 where "kTicklessThreshold = 2"

text \<open>Register accesses.\<close>

definition read_csr :: "'a stk_scheme \<Rightarrow> u32 \<times> 'a stk_scheme" where
  "read_csr s = ((syst_csr s AND NOT kSystCountFlag) OR (if count_flag s then kSystCountFlag else 0), s\<lparr>count_flag := False\<rparr>)"

definition write_timer :: "u32 \<Rightarrow> 'a stk_scheme \<Rightarrow> 'a stk_scheme" where
  "write_timer reload s = s\<lparr>syst_rvr := reload, syst_cvr := 0, count_flag := False,
     syst_csr := kSystEnable OR kSystTickInt OR kSystClkSource\<rparr>"

definition write_icpr :: "u32 \<Rightarrow> 'a stk_scheme \<Rightarrow> 'a stk_scheme" where
  "write_icpr v s = s\<lparr>nvic_icpr := v # nvic_icpr s\<rparr>"

section \<open>The operations\<close>

type_synonym 's reactions = "waiter \<Rightarrow> 's \<Rightarrow> 's option"

definition periodic_table_restore :: "'a stk_scheme \<Rightarrow> 'a stk_scheme" where
  "periodic_table_restore s = (if cycles_per_tick s = 0 then s else write_timer (cycles_per_tick s - 1) s)"

definition drain_pending_expiry :: "'a stk_scheme reactions \<Rightarrow> u32 \<Rightarrow> 'a stk_scheme \<Rightarrow> 'a stk_scheme option" where
  "drain_pending_expiry on_time settle_ticks s =
     (let (csr, s1) = read_csr s;
          wrapped = (csr AND kSystCountFlag \<noteq> 0);
          s2 = write_icpr kSystickIrqBit s1
      in if wrapped \<and> settle_ticks \<noteq> 0 then on_elapsed on_time settle_ticks s2 else Some s2)"

definition init_time :: "u32 \<Rightarrow> 'a stk_scheme \<Rightarrow> 'a stk_scheme" where
  "init_time cycles s =
     (let s1 = s\<lparr>shpr3 := (shpr3 s AND 0x00FFFFFF) OR push_bit 24 0xFF, cycles_per_tick := cycles\<rparr>
      in write_timer (cycles - 1) s1)"

text \<open>The decision in the arming section of \<open>idle_sleep\<close>.\<close>

definition arm_one_shot :: "'a stk_scheme \<Rightarrow> 'a stk_scheme" where
  "arm_one_shot s =
     (case next_due_in s of
        (Some d, s1) \<Rightarrow>
          if d > kTicklessThreshold
          then let max_per_shot = 0xFFFFFF div cycles_per_tick s1;
                   shot = (if d > max_per_shot then max_per_shot else d)
               in write_timer (shot * cycles_per_tick s1 - 1) (s1\<lparr>one_shot_ticks := shot\<rparr>)
          else s1
      | (None, s1) \<Rightarrow> s1\<lparr>syst_csr := kSystClkSource\<rparr>)"

definition idle_arm :: "'a stk_scheme reactions \<Rightarrow> 'a stk_scheme \<Rightarrow> 'a stk_scheme option" where
  "idle_arm on_time s = map_option arm_one_shot (drain_pending_expiry on_time 1 s)"

definition idle_wake :: "'a stk_scheme reactions \<Rightarrow> 'a stk_scheme \<Rightarrow> 'a stk_scheme option" where
  "idle_wake on_time s = do {
     s1 \<leftarrow> (if one_shot_ticks s \<noteq> 0
           then map_option (\<lambda>s'. s'\<lparr>one_shot_ticks := 0\<rparr>) (drain_pending_expiry on_time (one_shot_ticks s) s)
           else drain_pending_expiry on_time 1 s);
     Some (periodic_table_restore s1)
   }"

definition idle_sleep ::
  "bool \<Rightarrow> 'a stk_scheme reactions \<Rightarrow> ('a stk_scheme \<Rightarrow> 'a stk_scheme option) \<Rightarrow> 'a stk_scheme \<Rightarrow> 'a stk_scheme option" where
  "idle_sleep tickless on_time wfi s =
     (if \<not> tickless \<or> cycles_per_tick s = 0 then wfi s
      else do {
        s1 \<leftarrow> idle_arm on_time s;
        s2 \<leftarrow> wfi s1;
        idle_wake on_time s2
      })"

definition SysTick_Handler :: "'a stk_scheme reactions \<Rightarrow> 'a stk_scheme \<Rightarrow> 'a stk_scheme option" where
  "SysTick_Handler on_time s =
     (if one_shot_ticks s \<noteq> 0
      then let n = one_shot_ticks s;
               s1 = periodic_table_restore (s\<lparr>one_shot_ticks := 0\<rparr>)
           in on_elapsed on_time n (s1\<lparr>zeros_tick_oneshot := zeros_tick_oneshot s1 + 1\<rparr>)
      else do {
        s1 \<leftarrow> on_elapsed on_time 1 (s\<lparr>zeros_tick_periodic := zeros_tick_periodic s + 1\<rparr>);
        on_tick s1
      })"

text \<open>The counter reaches zero; then the core takes the exception: the pending state goes down and the handler runs.\<close>

definition expire :: "'a stk_scheme \<Rightarrow> 'a stk_scheme" where
  "expire s = s\<lparr>count_flag := True, systick_pending := True\<rparr>"

definition take_SysTick :: "'a stk_scheme reactions \<Rightarrow> 'a stk_scheme \<Rightarrow> 'a stk_scheme option" where
  "take_SysTick on_time s = SysTick_Handler on_time (s\<lparr>systick_pending := False\<rparr>)"

section \<open>Frames\<close>

lemma stk_inv [simp]:
  "tk_inv (write_timer r s) qs = tk_inv s qs" "tk_inv (write_icpr v s) qs = tk_inv s qs" "tk_inv (s\<lparr>one_shot_ticks := n\<rparr>) qs = tk_inv s qs"
  "tk_inv (s\<lparr>count_flag := b\<rparr>) qs = tk_inv s qs" "tk_inv (s\<lparr>zeros_tick_oneshot := n\<rparr>) qs = tk_inv s qs"
  "tk_inv (s\<lparr>systick_pending := b\<rparr>) qs = tk_inv s qs" "tk_inv (s\<lparr>syst_csr := n\<rparr>) qs = tk_inv s qs"
  "tk_inv (s\<lparr>zeros_tick_periodic := n\<rparr>) qs = tk_inv s qs"
  by (rule tk_inv_cong; simp add: write_timer_def write_icpr_def)+

lemma stk_sleepers [simp]:
  "sleepers T qs (write_timer r s) = sleepers T qs s" "sleepers T qs (write_icpr v s) = sleepers T qs s"
  "sleepers T qs (s\<lparr>one_shot_ticks := n\<rparr>) = sleepers T qs s" "sleepers T qs (s\<lparr>count_flag := b\<rparr>) = sleepers T qs s"
  "sleepers T qs (s\<lparr>zeros_tick_oneshot := n\<rparr>) = sleepers T qs s" "sleepers T qs (s\<lparr>systick_pending := b\<rparr>) = sleepers T qs s"
  "sleepers T qs (s\<lparr>syst_csr := n\<rparr>) = sleepers T qs s" "sleepers T qs (s\<lparr>zeros_tick_periodic := n\<rparr>) = sleepers T qs s"
  by (simp_all add: sleepers_def refines_def levels_def write_timer_def write_icpr_def)

lemma stk_rel [simp]:
  "rel (write_timer r s) = rel s" "rel (write_icpr v s) = rel s" "rel (s\<lparr>one_shot_ticks := n\<rparr>) = rel s"
  "rel (s\<lparr>count_flag := b\<rparr>) = rel s" "rel (s\<lparr>zeros_tick_oneshot := n\<rparr>) = rel s" "rel (s\<lparr>systick_pending := b\<rparr>) = rel s"
  "rel (s\<lparr>syst_csr := n\<rparr>) = rel s" "rel (s\<lparr>zeros_tick_periodic := n\<rparr>) = rel s"
  by (simp_all add: rel_def fun_eq_iff write_timer_def write_icpr_def)

lemma stk_sel [simp]:
  "now_tick (write_timer r s) = now_tick s" "tcbs (write_timer r s) = tcbs s" "waiters (write_timer r s) = waiters s"
  "one_shot_ticks (write_timer r s) = one_shot_ticks s" "cycles_per_tick (write_timer r s) = cycles_per_tick s"
  "syst_rvr (write_timer r s) = r" "systick_pending (write_timer r s) = systick_pending s"
  "now_tick (write_icpr v s) = now_tick s" "tcbs (write_icpr v s) = tcbs s" "waiters (write_icpr v s) = waiters s"
  "one_shot_ticks (write_icpr v s) = one_shot_ticks s" "cycles_per_tick (write_icpr v s) = cycles_per_tick s"
  "systick_pending (write_icpr v s) = systick_pending s" "current (write_timer r s) = current s" "current (write_icpr v s) = current s"
  by (simp_all add: write_timer_def write_icpr_def)

lemma stk_time [simp]:
  "one_shot_ticks (time_lock s) = one_shot_ticks s" "one_shot_ticks (time_unlock s) = one_shot_ticks s"
  "cycles_per_tick (time_lock s) = cycles_per_tick s" "cycles_per_tick (time_unlock s) = cycles_per_tick s"
  "systick_pending (time_lock s) = systick_pending s" "systick_pending (time_unlock s) = systick_pending s"
  "count_flag (time_lock s) = count_flag s" "count_flag (time_unlock s) = count_flag s"
  "sleepers T qs (time_lock s) = sleepers T qs s" "sleepers T qs (time_unlock s) = sleepers T qs s"
  by (simp_all add: time_lock_def time_unlock_def crit_lock_def crit_unlock_def write_basepri_def Let_def sleepers_def refines_def levels_def)

lemma next_due_shape: "snd (next_due_in s) = time_unlock (time_lock s)"
  by (cases "TimerQueue_head (time_lock s)") (simp_all add: next_due_in_def CriticalGuard_ret_def Let_def)

lemma next_due_frame:
  assumes "next_due_in s = (r, s')"
  shows "one_shot_ticks s' = one_shot_ticks s" "cycles_per_tick s' = cycles_per_tick s" "systick_pending s' = systick_pending s"
    "now_tick s' = now_tick s" "tcbs s' = tcbs s" "waiters s' = waiters s" "sleepers T qs s' = sleepers T qs s" "rel s' = rel s"
    "current s' = current s"
proof -
  have s': "s' = time_unlock (time_lock s)" using assms next_due_shape [of s] by simp
  show "one_shot_ticks s' = one_shot_ticks s" "cycles_per_tick s' = cycles_per_tick s" "systick_pending s' = systick_pending s"
    "now_tick s' = now_tick s" "tcbs s' = tcbs s" "waiters s' = waiters s" "sleepers T qs s' = sleepers T qs s" "rel s' = rel s"
    "current s' = current s"
    unfolding s' by simp_all
qed

text \<open>The length of a shot fits the 24-bit counter and does not reach past the next deadline.\<close>

lemma shot_fits:
  fixes d c :: u32
  assumes c: "0 < c" "c \<le> 0xFFFFFF" and d: "2 < d"
  defines "shot \<equiv> (if d > 0xFFFFFF div c then 0xFFFFFF div c else d)"
  shows "unat shot * unat c \<le> 0xFFFFFF" "unat (shot * c - 1) + 1 = unat shot * unat c" "0 < shot" "shot \<le> d"
proof -
  have q: "unat (0xFFFFFF div c) = 0xFFFFFF div unat c" by (simp add: unat_div)
  have c': "0 < unat c" "unat c \<le> 0xFFFFFF" using c by (simp_all add: word_less_nat_alt word_le_nat_alt)
  have s: "unat shot \<le> 0xFFFFFF div unat c" using q by (auto simp: shot_def word_less_nat_alt not_less)
  show le: "unat shot * unat c \<le> 0xFFFFFF"
    using mult_le_mono1 [OF s, of "unat c"] div_times_less_eq_dividend order_trans by blast
  have "0 < 0xFFFFFF div unat c" using c' by (simp add: div_greater_zero_iff)
  then show pos: "0 < shot" using d q by (auto simp: shot_def word_less_nat_alt)
  show "shot \<le> d" by (auto simp: shot_def)
  have m: "unat (shot * c) = unat shot * unat c" using le by (simp add: unat_word_ariths)
  have "shot * c \<noteq> 0" using m pos c' by (auto simp: word_less_nat_alt)
  then show "unat (shot * c - 1) + 1 = unat shot * unat c" using m unat_minus_one [of "shot * c"] pos c' by (auto simp: word_less_nat_alt)
qed

lemma sint_below:
  fixes x d :: u32
  assumes "x \<le> d" "0 \<le> sint d"
  shows "0 \<le> sint x" "sint x \<le> sint d" "0 < x \<Longrightarrow> 0 < sint x"
proof -
  have "take_bit 32 (uint d) = uint d" using uint_bounded [of d] by (simp add: take_bit_int_eq_self)
  then have "sint d = uint d - 2 ^ 32 * of_bool (bit (uint d) 31)"
    using signed_take_bit_eq_take_bit_minus [of 31 "uint d"] by (simp add: sint_uint)
  moreover have "uint d < 2 ^ 32" using uint_bounded [of d] by simp
  ultimately have d: "sint d = uint d" using assms(2) by (cases "bit (uint d) 31") simp_all
  have x: "uint x \<le> uint d" using assms(1) by (simp add: word_le_def)
  moreover have "uint d < 2 ^ 31" using d sint_range32(2) [of d] by simp
  ultimately have "sint x = uint x" using signed_take_bit_int_eq_self [of 31 "uint x"] uint_nonnegative [of x] by (simp add: sint_uint)
  then show "0 \<le> sint x" "sint x \<le> sint d" "0 < x \<Longrightarrow> 0 < sint x" using d x by (simp_all add: word_less_def)
qed

section \<open>Arming\<close>

text \<open>What the arming section may leave behind.\<close>

lemma arm_frame:
  assumes "tk_inv s qs" "sleepers T qs s"
  defines "s' \<equiv> arm_one_shot s"
  shows "tk_inv s' qs" "sleepers T qs s'" "now_tick s' = now_tick s" "tcbs s' = tcbs s" "rel s' = rel s"
    "cycles_per_tick s' = cycles_per_tick s" "systick_pending s' = systick_pending s"
    "current s' = current s"
proof -
  obtain r s1 where ndi: "next_due_in s = (r, s1)" by fastforce
  note fr = next_due_frame [OF ndi]
  have inv: "tk_inv s1 qs" "sleepers T qs s1" using next_due_in_is_minimum [OF assms(1)] ndi fr(7) assms(2) by auto
  consider "s' = s1" | "s' = s1\<lparr>syst_csr := kSystClkSource\<rparr>"
    | n m where "s' = write_timer n (s1\<lparr>one_shot_ticks := m\<rparr>)"
  proof (cases r)
    case None
    then show ?thesis using ndi that(2) by (simp add: s'_def arm_one_shot_def)
  next
    case (Some d)
    then show ?thesis
      using ndi that(1,3) by (cases "d > kTicklessThreshold") (simp_all add: s'_def arm_one_shot_def Let_def)
  qed
  then have "tk_inv s' qs \<and> sleepers T qs s' \<and> now_tick s' = now_tick s \<and> tcbs s' = tcbs s \<and> rel s' = rel s
    \<and> cycles_per_tick s' = cycles_per_tick s \<and> systick_pending s' = systick_pending s \<and> current s' = current s"
    by cases (use fr inv in simp_all)
  then show "tk_inv s' qs" "sleepers T qs s'" "now_tick s' = now_tick s" "tcbs s' = tcbs s" "rel s' = rel s"
    "cycles_per_tick s' = cycles_per_tick s" "systick_pending s' = systick_pending s"
    "current s' = current s" by blast+
qed

lemma arm_spec:
  assumes inv: "tk_inv s qs" and none: "one_shot_ticks s = 0"
    and c: "0 < cycles_per_tick s" "cycles_per_tick s \<le> 0xFFFFFF"
  defines "s' \<equiv> arm_one_shot s"
  shows "one_shot_ticks s' = 0 \<longleftrightarrow> qs = [] \<or> (\<exists>w \<in> set qs. rel s w \<le> 2)"
    "one_shot_ticks s' \<noteq> 0 \<Longrightarrow> 0 < sint (one_shot_ticks s') \<and> (\<forall>w \<in> set qs. sint (one_shot_ticks s') \<le> rel s w)
       \<and> unat (syst_rvr s') + 1 = unat (one_shot_ticks s') * unat (cycles_per_tick s) \<and> unat (syst_rvr s') < 0xFFFFFF"
proof -
  obtain r s1 where ndi: "next_due_in s = (r, s1)" by fastforce
  note fr = next_due_frame [OF ndi]
  have min: "case r of None \<Rightarrow> qs = []
     | Some d \<Rightarrow> (\<exists>w \<in> set qs. rel s w = sint d) \<and> (\<forall>w \<in> set qs. sint d \<le> rel s w)"
    using next_due_in_is_minimum [OF inv] ndi by auto
  have "(one_shot_ticks s' = 0 \<longleftrightarrow> qs = [] \<or> (\<exists>w \<in> set qs. rel s w \<le> 2)) \<and>
    (one_shot_ticks s' \<noteq> 0 \<longrightarrow> 0 < sint (one_shot_ticks s') \<and> (\<forall>w \<in> set qs. sint (one_shot_ticks s') \<le> rel s w)
       \<and> unat (syst_rvr s') + 1 = unat (one_shot_ticks s') * unat (cycles_per_tick s) \<and> unat (syst_rvr s') < 0xFFFFFF)"
  proof (cases r)
    case None
    then show ?thesis using min ndi fr(1) none by (simp add: s'_def arm_one_shot_def)
  next
    case (Some d)
    obtain w where w: "w \<in> set qs" "rel s w = sint d" and all: "\<forall>w \<in> set qs. sint d \<le> rel s w" using min Some by auto
    have d0: "0 \<le> sint d" using tk_invD(3) [OF inv w(1)] w(2) by simp
    have d2: "d > 2 \<longleftrightarrow> 2 < sint d"
    proof (cases "d \<le> 2")
      case True
      then show ?thesis using sint_below(2) [of d 2] by simp
    next
      case False
      moreover have "d = word_of_int (sint d)" by simp
      ultimately have "sint d \<noteq> 2" by (metis of_int_numeral order_refl)
      moreover have "2 \<le> sint d" using False sint_below(2) [of 2 d] d0 by (simp add: not_le less_imp_le)
      ultimately show ?thesis using False by (simp add: not_le)
    qed
    show ?thesis
    proof (cases "d > 2")
      case False
      then have "s' = s1" using ndi Some by (simp add: s'_def arm_one_shot_def kTicklessThreshold_def)
      moreover have "rel s w \<le> 2" using False d2 w(2) by simp
      ultimately show ?thesis using w(1) fr(1) none by auto
    next
      case True
      let ?c = "cycles_per_tick s"
      define shot where "shot = (if d > 0xFFFFFF div ?c then 0xFFFFFF div ?c else d)"
      have s': "s' = write_timer (shot * ?c - 1) (s1\<lparr>one_shot_ticks := shot\<rparr>)"
        using True ndi Some fr(2) by (simp add: s'_def shot_def arm_one_shot_def kTicklessThreshold_def Let_def)
      note sf = shot_fits [OF c True, folded shot_def]
      have "\<forall>w \<in> set qs. sint shot \<le> rel s w" using all sint_below(2) [OF sf(4) d0] by (meson order_trans)
      moreover have "one_shot_ticks s' = shot" "syst_rvr s' = shot * ?c - 1" using s' by simp_all
      moreover have "\<not> (qs = [] \<or> (\<exists>w \<in> set qs. rel s w \<le> 2))" using all True d2 w(1) by force
      moreover have "unat (shot * ?c - 1) < 0xFFFFFF" using sf(1,2) by linarith
      moreover have "0 < sint shot" using sint_below(3) [OF sf(4) d0 sf(3)] .
      moreover have "shot \<noteq> 0" using sf(3) by (metis word_gt_0)
      ultimately show ?thesis using sf(2) by simp
    qed
  qed
  then show "one_shot_ticks s' = 0 \<longleftrightarrow> qs = [] \<or> (\<exists>w \<in> set qs. rel s w \<le> 2)"
    "one_shot_ticks s' \<noteq> 0 \<Longrightarrow> 0 < sint (one_shot_ticks s') \<and> (\<forall>w \<in> set qs. sint (one_shot_ticks s') \<le> rel s w)
       \<and> unat (syst_rvr s') + 1 = unat (one_shot_ticks s') * unat (cycles_per_tick s) \<and> unat (syst_rvr s') < 0xFFFFFF"
    by blast+
qed

section \<open>The handler\<close>

lemma stk_more:
  assumes "sys.more s' = sys.more s"
  shows "one_shot_ticks s' = one_shot_ticks s" "cycles_per_tick s' = cycles_per_tick s" "count_flag s' = count_flag s"
    "syst_rvr s' = syst_rvr s" "systick_pending s' = systick_pending s"
  using assms by (cases s; cases s'; simp)+

lemma elapse_stk:
  assumes "tk_inv s qs" "sleepers T qs s" "0 < sint n" "on_elapsed (react user) n s = Some s2"
  shows "one_shot_ticks s2 = one_shot_ticks s" "cycles_per_tick s2 = cycles_per_tick s" "count_flag s2 = count_flag s"
    "syst_rvr s2 = syst_rvr s" "systick_pending s2 = systick_pending s"
  using stk_more [OF elapse_more(1) [OF assms]] by blast+

text \<open>The tasks after a report of \<open>n\<close> ticks: who was due has become ready.\<close>

definition woken :: "'a tk_scheme \<Rightarrow> waiter list \<Rightarrow> int \<Rightarrow> (addr \<Rightarrow> task_state) \<Rightarrow> bool" where
  "woken s qs n st \<longleftrightarrow> (\<forall>u. st u =
     (if TaskAction u \<in> set qs \<and> rel s (TaskAction u) \<le> n \<and> tcb_state (tcbs s u) = Blocked then Ready else tcb_state (tcbs s u)))"

lemma woken_cong: "rel s' = rel s \<Longrightarrow> tcbs s' = tcbs s \<Longrightarrow> woken s' qs n st = woken s qs n st"
  by (simp add: woken_def)

text \<open>A one-shot expiry: the handler reports the whole shot and goes back to the periodic table.\<close>

lemma one_shot_handler:
  assumes inv: "tk_inv s qs" and sl: "sleepers T qs s" and n: "0 < sint (one_shot_ticks s)" and c: "cycles_per_tick s \<noteq> 0"
  shows "\<exists>s2 qs2. SysTick_Handler (react user) s = Some s2 \<and> tk_inv s2 qs2 \<and> sleepers T qs2 s2
    \<and> now_tick s2 = now_tick s + one_shot_ticks s \<and> woken s qs (sint (one_shot_ticks s)) (\<lambda>u. tcb_state (tcbs s2 u))
    \<and> one_shot_ticks s2 = 0 \<and> \<not> count_flag s2 \<and> syst_rvr s2 = cycles_per_tick s - 1
    \<and> cycles_per_tick s2 = cycles_per_tick s \<and> systick_pending s2 = systick_pending s"
proof -
  let ?n = "one_shot_ticks s"
  let ?s1 = "write_timer (cycles_per_tick s - 1) (s\<lparr>one_shot_ticks := 0\<rparr>)"
  define s0 where "s0 = ?s1\<lparr>zeros_tick_oneshot := zeros_tick_oneshot ?s1 + 1\<rparr>"
  have n0: "?n \<noteq> 0" using n by auto
  have run: "SysTick_Handler (react user) s = on_elapsed (react user) ?n s0"
    using n0 c by (simp add: SysTick_Handler_def periodic_table_restore_def s0_def Let_def)
  have i0: "tk_inv s0 qs" "sleepers T qs s0" "now_tick s0 = now_tick s" "rel s0 = rel s" "tcbs s0 = tcbs s"
    using inv sl by (simp_all add: s0_def)
  obtain s2 qs2 where s2: "on_elapsed (react user) ?n s0 = Some s2" "tk_inv s2 qs2" "sleepers T qs2 s2"
    "now_tick s2 = now_tick s0 + ?n" "\<forall>u. tcb_state (tcbs s2 u) = (if TaskAction u \<in> set qs \<and> rel s0 (TaskAction u) \<le> sint ?n
       \<and> tcb_state (tcbs s0 u) = Blocked then Ready else tcb_state (tcbs s0 u))"
    using elapse_wakes [OF i0(1,2) n] by blast
  have "woken s qs (sint ?n) (\<lambda>u. tcb_state (tcbs s2 u))" using s2(5) i0(4,5) by (simp add: woken_def)
  moreover note elapse_stk [OF i0(1,2) n s2(1)]
  moreover have "one_shot_ticks s0 = 0" "cycles_per_tick s0 = cycles_per_tick s" "\<not> count_flag s0"
    "syst_rvr s0 = cycles_per_tick s - 1" "systick_pending s0 = systick_pending s"
    by (simp_all add: s0_def write_timer_def)
  ultimately show ?thesis using run s2(1-4) i0(3) by auto
qed

text \<open>A report that nobody is due for only moves the clock.\<close>

lemma elapse_none:
  assumes inv: "tk_inv s qs" and sl: "sleepers T qs s" and n: "0 < sint n" and far: "\<forall>w \<in> set qs. sint n < rel s w"
  defines "s' \<equiv> time_unlock (update_alarm (tick_forward n (time_lock s)))"
  shows "on_elapsed on_time n s = Some s'" "tk_inv s' qs" "sleepers T qs s'" "\<forall>w \<in> set qs. rel s' w = rel s w - sint n"
    "now_tick s' = now_tick s + n"
proof -
  let ?s = "tick_forward n (time_lock s)"
  have fwd: "tq_inv ?s qs" "\<And>w. w \<in> set qs \<Longrightarrow> rel ?s w = rel s w - sint n"
    using tick_forward_inv [of "time_lock s" qs n] tk_invD(1,3) [OF inv] n by simp_all
  have pos: "\<forall>w \<in> set qs. 0 < rel ?s w" using far fwd(2) by simp
  then have "pop_due (now_tick ?s) ?s = (None, ?s)"
    using tq_pop_due [OF fwd(1)] by (cases qs) (auto simp: due_def split: if_splits)
  then have "fire_due on_time ?s = Some ?s" by (simp add: fire_due.simps Clock_current_def)
  moreover have "n \<noteq> 0" using n by auto
  ultimately show "on_elapsed on_time n s = Some s'" by (simp add: on_elapsed_def CriticalGuard_opt_def s'_def)
  have "alarm_inv (update_alarm ?s) qs" by (rule update_alarm_inv [OF fwd(1)]) (use pos in \<open>simp add: less_imp_le\<close>)
  then have "tk_inv (update_alarm ?s) qs" using fwd(1) pos by (auto simp: tk_inv_def less_imp_le)
  then show "tk_inv s' qs" by (simp add: s'_def)
  show "\<forall>w \<in> set qs. rel s' w = rel s w - sint n" using fwd(2) by (simp add: s'_def)
  show "sleepers T qs s'" using sl by (auto simp: s'_def sleepers_def)
  show "now_tick s' = now_tick s + n" by (simp add: s'_def tick_forward_def Ticks_forward_def)
qed

lemma countflag_read: "(x AND NOT kSystCountFlag) AND kSystCountFlag = 0"
  "((x AND NOT kSystCountFlag) OR kSystCountFlag) AND kSystCountFlag = kSystCountFlag" "kSystCountFlag \<noteq> 0"
  by (auto intro: bit_eqI simp: bit_simps kSystCountFlag_def)

abbreviation drained :: "'a stk_scheme \<Rightarrow> 'a stk_scheme" where
  "drained s \<equiv> write_icpr kSystickIrqBit (s\<lparr>count_flag := False\<rparr>)"

lemma drain_quiet: "\<not> count_flag s \<Longrightarrow> drain_pending_expiry on_time n s = Some (drained s)"
  by (simp add: drain_pending_expiry_def read_csr_def countflag_read)

lemma drain_flagged: "count_flag s \<Longrightarrow> n \<noteq> 0 \<Longrightarrow> drain_pending_expiry on_time n s = on_elapsed on_time n (drained s)"
  by (simp add: drain_pending_expiry_def read_csr_def countflag_read)

text \<open>The flag left by a handled tick is drained again on waking.\<close>

lemma wake_quiet:
  assumes "\<not> count_flag s" "one_shot_ticks s = 0" "cycles_per_tick s \<noteq> 0"
  shows "idle_wake on_time s = Some (write_timer (cycles_per_tick s - 1) (drained s))"
  using assms by (simp add: idle_wake_def drain_quiet periodic_table_restore_def write_icpr_def)

section \<open>Properties\<close>

text \<open>What sleeping means when nothing but the tick source wakes the core.\<close>

definition wfi_tick :: "'a stk_scheme reactions \<Rightarrow> 'a stk_scheme \<Rightarrow> 'a stk_scheme option" where
  "wfi_tick on_time s = take_SysTick on_time (expire s)"

lemma expire_frame [simp]:
  "tk_inv (expire s) qs = tk_inv s qs" "sleepers T qs (expire s) = sleepers T qs s" "rel (expire s) = rel s"
  "now_tick (expire s) = now_tick s" "tcbs (expire s) = tcbs s" "one_shot_ticks (expire s) = one_shot_ticks s"
  "cycles_per_tick (expire s) = cycles_per_tick s" "current (expire s) = current s" "count_flag (expire s)"
  by (simp_all add: expire_def)

text \<open>C13: tickless sleep is exact. With the next deadline more than two ticks away and no expiry outstanding,
  the idle task arms one shot that fits the 24-bit counter and passes nobody's deadline; when it expires, the
  handler reports exactly the shot, the sleepers due by then and no others become ready, and \<open>idle_sleep\<close>
  returns with the periodic tick restored, nothing settled twice.\<close>

theorem tickless_sleep_exact:
  assumes inv: "tk_inv s qs" and sl: "sleepers T qs s" and none: "one_shot_ticks s = 0"
    and c: "0 < cycles_per_tick s" "cycles_per_tick s \<le> 0xFFFFFF" and quiet: "\<not> count_flag s"
    and far: "qs \<noteq> []" "\<forall>w \<in> set qs. 2 < rel s w"
  shows "\<exists>s1 s' qs' shot. idle_arm (react user) s = Some s1 \<and> one_shot_ticks s1 = shot \<and> 0 < sint shot
    \<and> unat (syst_rvr s1) + 1 = unat shot * unat (cycles_per_tick s) \<and> unat (syst_rvr s1) < 0xFFFFFF
    \<and> (\<forall>w \<in> set qs. sint shot \<le> rel s w)
    \<and> idle_sleep True (react user) (wfi_tick (react user)) s = Some s' \<and> now_tick s' = now_tick s + shot
    \<and> (\<forall>u. tcb_state (tcbs s' u) = (if TaskAction u \<in> set qs \<and> rel s (TaskAction u) = sint shot
         \<and> tcb_state (tcbs s u) = Blocked then Ready else tcb_state (tcbs s u)))
    \<and> tk_inv s' qs' \<and> sleepers T qs' s' \<and> one_shot_ticks s' = 0 \<and> syst_rvr s' = cycles_per_tick s - 1"
proof -
  let ?d = "drained s"
  have d: "tk_inv ?d qs" "sleepers T qs ?d" "one_shot_ticks ?d = 0" "rel ?d = rel s" "cycles_per_tick ?d = cycles_per_tick s"
    "now_tick ?d = now_tick s" "tcbs ?d = tcbs s" using inv sl none by simp_all
  define s1 where "s1 = arm_one_shot ?d"
  have arm: "idle_arm (react user) s = Some s1" using drain_quiet [OF quiet] by (simp add: idle_arm_def s1_def)
  note af = arm_frame [OF d(1,2), folded s1_def]
  note as = arm_spec [OF d(1,3), unfolded d(5), OF c, folded s1_def]
  have shot: "one_shot_ticks s1 \<noteq> 0" using as(1) far d(4) by force
  note sh = as(2) [OF shot]
  let ?e = "(expire s1)\<lparr>systick_pending := False\<rparr>"
  have e: "tk_inv ?e qs" "sleepers T qs ?e" "0 < sint (one_shot_ticks ?e)" "cycles_per_tick ?e \<noteq> 0"
    using af(1,2,6) sh c by simp_all
  obtain s2 qs2 where s2: "SysTick_Handler (react user) ?e = Some s2" "tk_inv s2 qs2" "sleepers T qs2 s2"
    "now_tick s2 = now_tick ?e + one_shot_ticks ?e" "woken ?e qs (sint (one_shot_ticks ?e)) (\<lambda>u. tcb_state (tcbs s2 u))"
    "one_shot_ticks s2 = 0" "\<not> count_flag s2" "syst_rvr s2 = cycles_per_tick ?e - 1" "cycles_per_tick s2 = cycles_per_tick ?e"
    using one_shot_handler [OF e] by blast
  define s' where "s' = write_timer (cycles_per_tick s2 - 1) (drained s2)"
  have "idle_wake (react user) s2 = Some s'" using wake_quiet [of s2 "react user"] s2(6,7,9) e(4) by (simp add: s'_def)
  then have run: "idle_sleep True (react user) (wfi_tick (react user)) s = Some s'"
    using arm s2(1) e(4) af(6) d(5) by (simp add: idle_sleep_def wfi_tick_def take_SysTick_def)
  have "tcb_state (tcbs s' u) = (if TaskAction u \<in> set qs \<and> rel s (TaskAction u) = sint (one_shot_ticks s1)
         \<and> tcb_state (tcbs s u) = Blocked then Ready else tcb_state (tcbs s u))" for u
    using s2(5) sh af(4,5) d(4,7) by (auto simp: woken_def s'_def)
  moreover have "now_tick s' = now_tick s + one_shot_ticks s1" using s2(4) af(3) d(6) by (simp add: s'_def)
  moreover have "tk_inv s' qs2" "sleepers T qs2 s'" "one_shot_ticks s' = 0" "syst_rvr s' = cycles_per_tick s - 1"
    using s2 af(6) d(5) by (simp_all add: s'_def)
  ultimately show ?thesis using arm run sh d(4,5) by auto
qed

text \<open>The periodic tick while the idle task runs.\<close>

lemma idle_tick:
  assumes "current s = Some idle_task"
  shows "on_tick s = Some (sched_unlock (sched_lock s))"
  using assms by (simp add: on_tick_def CriticalGuard_opt_def on_tick_body_def)

lemma sched_guard_frame:
  "tk_inv (sched_unlock (sched_lock s)) qs = tk_inv s qs" "sleepers T qs (sched_unlock (sched_lock s)) = sleepers T qs s"
  "now_tick (sched_unlock (sched_lock s)) = now_tick s"
proof -
  show "tk_inv (sched_unlock (sched_lock s)) qs = tk_inv s qs" by (rule tk_inv_cong) simp_all
  show "sleepers T qs (sched_unlock (sched_lock s)) = sleepers T qs s" by (simp add: sleepers_def refines_def levels_def)
qed simp

text \<open>C38: a periodic tick in the idle task's bed is counted twice. The handler reports the tick and leaves the
  count flag up, since only reading the control register takes it down; the wake path then reads the flag and
  reports the same tick again. One period of the timer moves the clock by two ticks.\<close>

theorem idle_tick_counted_twice:
  assumes inv: "tk_inv s qs" and sl: "sleepers T qs s" and none: "one_shot_ticks s = 0"
    and c: "0 < cycles_per_tick s" "cycles_per_tick s \<le> 0xFFFFFF" and quiet: "\<not> count_flag s"
    and idle: "current s = Some idle_task" and near: "\<exists>w \<in> set qs. rel s w \<le> 2"
  shows "\<exists>s' qs'. idle_sleep True (react user) (wfi_tick (react user)) s = Some s' \<and> now_tick s' = now_tick s + 2
    \<and> tk_inv s' qs' \<and> sleepers T qs' s'"
proof -
  let ?d = "drained s"
  have d: "tk_inv ?d qs" "sleepers T qs ?d" "one_shot_ticks ?d = 0" "rel ?d = rel s" "cycles_per_tick ?d = cycles_per_tick s"
    "now_tick ?d = now_tick s" "current ?d = current s" using inv sl none by simp_all
  define s1 where "s1 = arm_one_shot ?d"
  have arm: "idle_arm (react user) s = Some s1" using drain_quiet [OF quiet] by (simp add: idle_arm_def s1_def)
  note af = arm_frame [OF d(1,2), folded s1_def]
  have os: "one_shot_ticks s1 = 0" using arm_spec(1) [OF d(1,3), unfolded d(5), OF c, folded s1_def] near d(4) by simp
  define e where "e = (expire s1)\<lparr>systick_pending := False, zeros_tick_periodic := zeros_tick_periodic s1 + 1\<rparr>"
  have e: "tk_inv e qs" "sleepers T qs e" "now_tick e = now_tick s" "count_flag e" "one_shot_ticks e = 0" "current e = Some idle_task"
    using af(1-3,8) os idle d(6,7) by (simp_all add: e_def expire_def)
  have one: "0 < sint (1 :: u32)" by simp
  obtain s2 qs2 where s2: "on_elapsed (react user) 1 e = Some s2" "tk_inv s2 qs2" "sleepers T qs2 s2" "now_tick s2 = now_tick e + 1"
    using elapse_wakes [OF e(1,2) one] by blast
  define s3 where "s3 = sched_unlock (sched_lock s2)"
  have "current s2 = Some idle_task" using elapse_more(2) [OF e(1,2) one s2(1)] e(6) by simp
  then have run: "wfi_tick (react user) s1 = Some s3"
    using s2(1) os idle_tick [of s2]
    by (simp add: wfi_tick_def take_SysTick_def SysTick_Handler_def e_def s3_def expire_def)
  have "sys.more s3 = sys.more s2" by (simp add: s3_def)
  then have f3: "count_flag s3" "one_shot_ticks s3 = 0"
    using stk_more [of s3 s2] elapse_stk [OF e(1,2) one s2(1)] e(4,5) by simp_all
  have i3: "tk_inv (drained s3) qs2" "sleepers T qs2 (drained s3)" "now_tick (drained s3) = now_tick s + 1"
    using s2(2-4) e(3) by (simp_all add: s3_def sched_guard_frame)
  obtain s4 qs4 where s4: "on_elapsed (react user) 1 (drained s3) = Some s4" "tk_inv s4 qs4" "sleepers T qs4 s4"
    "now_tick s4 = now_tick (drained s3) + 1" using elapse_wakes [OF i3(1,2) one] by blast
  have "idle_wake (react user) s3 = Some (periodic_table_restore s4)"
    using f3 drain_flagged [of s3 1 "react user"] s4(1) by (simp add: idle_wake_def)
  then have "idle_sleep True (react user) (wfi_tick (react user)) s = Some (periodic_table_restore s4)"
    using arm run c(1) by (auto simp: idle_sleep_def)
  moreover have "now_tick (periodic_table_restore s4) = now_tick s + 2" "tk_inv (periodic_table_restore s4) qs4"
    "sleepers T qs4 (periodic_table_restore s4)"
    using s4 i3(3) by (simp_all add: periodic_table_restore_def)
  ultimately show ?thesis by blast
qed

text \<open>C40: an expiry that races the arming is misread. When a periodic tick expires on the way in, the drain
  reports it and writes the interrupt controller, which does not un-pend SysTick; the handler then runs with
  the shot armed and reports all of it, though only that one tick has passed.\<close>

theorem raced_tick_settles_shot:
  assumes inv: "tk_inv s qs" and sl: "sleepers T qs s" and none: "one_shot_ticks s = 0"
    and c: "0 < cycles_per_tick s" "cycles_per_tick s \<le> 0xFFFFFF"
    and raced: "count_flag s" "systick_pending s" and far: "qs \<noteq> []" "\<forall>w \<in> set qs. 3 < rel s w"
  shows "\<exists>s1 s2. idle_arm (react user) s = Some s1 \<and> now_tick s1 = now_tick s + 1 \<and> systick_pending s1
    \<and> one_shot_ticks s1 \<noteq> 0 \<and> take_SysTick (react user) s1 = Some s2 \<and> now_tick s2 = now_tick s1 + one_shot_ticks s1"
proof -
  let ?d = "drained s"
  have d: "tk_inv ?d qs" "sleepers T qs ?d" "rel ?d = rel s" using inv sl by simp_all
  have one: "0 < sint (1 :: u32)" by simp
  have "\<forall>w \<in> set qs. sint (1 :: u32) < rel ?d w" using far(2) by force
  from elapse_none [OF d(1,2) one this] obtain s0 where s0: "on_elapsed (react user) 1 ?d = Some s0" "tk_inv s0 qs"
    "sleepers T qs s0" "\<forall>w \<in> set qs. rel s0 w = rel s w - 1" "now_tick s0 = now_tick s + 1"
    using d(3) by auto
  note st = elapse_stk [OF d(1,2) one s0(1)]
  define s1 where "s1 = arm_one_shot s0"
  have arm: "idle_arm (react user) s = Some s1"
    using drain_flagged [OF raced(1), of 1 "react user"] s0(1) by (simp add: idle_arm_def s1_def)
  have s0c: "one_shot_ticks s0 = 0" "0 < cycles_per_tick s0" "cycles_per_tick s0 \<le> 0xFFFFFF" "systick_pending s0"
    using st none c raced(2) by simp_all
  note af = arm_frame [OF s0(2,3), folded s1_def]
  note as = arm_spec [OF s0(2) s0c(1-3), folded s1_def]
  have shot: "one_shot_ticks s1 \<noteq> 0" using as(1) far s0(4) by force
  let ?e = "s1\<lparr>systick_pending := False\<rparr>"
  have e: "tk_inv ?e qs" "sleepers T qs ?e" "0 < sint (one_shot_ticks ?e)" "cycles_per_tick ?e \<noteq> 0"
    using af(1,2,6) as(2) [OF shot] s0c(2) by auto
  obtain s2 where "SysTick_Handler (react user) ?e = Some s2" "now_tick s2 = now_tick ?e + one_shot_ticks ?e"
    using one_shot_handler [OF e] by blast
  then show ?thesis
    using arm af(3,7) s0(5) s0c(4) shot by (auto simp: take_SysTick_def)
qed

text \<open>A machine with one task asleep for \<open>span\<close> ticks and the idle task running, the timer at 8000 cycles a tick.\<close>

lemma one_asleep:
  fixes span :: tick
  assumes "0 \<le> sint span"
  obtains s :: sys where "tk_inv s [TaskAction 1]" "sleepers {1} [TaskAction 1] s" "rel s (TaskAction 1) = sint span"
    "current s = Some idle_task" "tcb_state (tcbs s 1) = Blocked" "task_priority (tcbs s idle_task) = kIdlePrio"
proof -
  let ?a = "a_op OpPick (a_op (OpAdd (Some 1)) asched_new)"
  let ?b = "a_op (OpBlock (Some 1)) ?a"
  obtain s1 where s1: "sys_sleep_for (Some 1) span one_up = Some s1" "refines s1 ?b" "rel s1 = (rel one_up)(TaskAction 1 := sint span)"
    "tk_inv s1 (ins_rel s1 (TaskAction 1) (remove1 (TaskAction 1) []))" "OnTime (waiters s1 (TaskAction 1)) = Some WakeFromSleep"
    using sleep_spec [OF one_up_state(1,5) assms, of 1] by blast
  have i1: "a_inv ?b" by (rule a_inv_op [OF one_up_state(2)]) (simp add: small_run_simps)
  define s where "s = snd (pick_next s1)"
  have r: "refines s (a_op OpPick ?b)" using sim_pick(1) [OF s1(2) i1] by (simp add: s_def)
  have i: "a_inv (a_op OpPick ?b)" by (rule a_inv_op [OF i1]) simp
  have "tk_inv s [TaskAction 1]" using s1(4) by (subst tk_inv_cong [of s s1]) (simp_all add: s_def ins_rel_def ins_by_def)
  moreover have "a_tasks (a_op OpPick ?b) = {1}" by (simp add: small_run_simps)
  then have "sleepers {1} [TaskAction 1] s" using s1(5) r i by (auto simp: sleepers_def s_def)
  moreover have "rel s (TaskAction 1) = sint span" using s1(3) rel_cong [of s s1] by (simp add: s_def)
  moreover have "current s = Some idle_task" 
    using refines_cur [OF r] best_level_None [of "(\<lambda>_. [])(0 := [])"] by (simp add: small_run_simps)
  moreover have "tcb_state (tcbs s 1) = Blocked" 
    using refines_state [OF r, of 1] best_level_None [of "(\<lambda>_. [])(0 := [])"] by (simp add: small_run_simps idle_task_def)
  moreover have "task_priority (tcbs s idle_task) = kIdlePrio"
    using refines_prio [OF r, of idle_task] by (simp add: small_run_simps)
  ultimately show ?thesis by (rule that)
qed

definition on_chip :: "bool \<Rightarrow> sys \<Rightarrow> stk" where
  "on_chip raced s = sys.extend s
     \<lparr>memory = (\<lambda>_. 0), psp = 0, callee = sf_zero, core = ef_of (replicate 8 0), shpr3 = 0, overflow_reporter = None,
      task_arena = Arena_new 0 0, syst_csr = 7, syst_rvr = 7999, syst_cvr = 0, count_flag = raced, systick_pending = raced,
      nvic_icpr = [], cycles_per_tick = 8000, one_shot_ticks = 0, zeros_tick_periodic = 0, zeros_tick_oneshot = 0\<rparr>"

lemma on_chip_frame:
  "tk_inv (on_chip b s) qs = tk_inv s qs" "sleepers T qs (on_chip b s) = sleepers T qs s" "rel (on_chip b s) = rel s"
  "current (on_chip b s) = current s" "tcbs (on_chip b s) = tcbs s" "one_shot_ticks (on_chip b s) = 0"
  "cycles_per_tick (on_chip b s) = 8000" "count_flag (on_chip b s) = b" "systick_pending (on_chip b s) = b"
  by (simp_all add: on_chip_def sys.defs tk_inv_def tq_inv_def alarm_inv_def by_rel_def half_circle_def rel_def fun_eq_iff
      sleepers_def refines_def levels_def)

theorem tickless_sleep_exact_witness:
  "\<exists>s s' :: stk. idle_sleep True (react (\<lambda>f x s. Some s)) (wfi_tick (react (\<lambda>f x s. Some s))) s = Some s'
     \<and> one_shot_ticks s' = 0 \<and> syst_rvr s' = 7999"
proof -
  obtain s :: sys where s: "tk_inv s [TaskAction 1]" "sleepers {1} [TaskAction 1] s" "rel s (TaskAction 1) = sint (10 :: u32)"
    using one_asleep [of 10] by auto
  have "\<exists>s' :: stk. idle_sleep True (react (\<lambda>f x s. Some s)) (wfi_tick (react (\<lambda>f x s. Some s))) (on_chip False s) = Some s'
     \<and> one_shot_ticks s' = 0 \<and> syst_rvr s' = 7999"
    using tickless_sleep_exact [of "on_chip False s" "[TaskAction 1]" "{1}" "\<lambda>f x s. Some s"] s by (auto simp: on_chip_frame)
  then show ?thesis by blast
qed

theorem idle_tick_counted_twice_witness:
  "\<exists>s s' :: stk. idle_sleep True (react (\<lambda>f x s. Some s)) (wfi_tick (react (\<lambda>f x s. Some s))) s = Some s' \<and> now_tick s' = now_tick s + 2"
proof -
  obtain s :: sys where s: "tk_inv s [TaskAction 1]" "sleepers {1} [TaskAction 1] s" "rel s (TaskAction 1) = sint (2 :: u32)"
    "current s = Some idle_task" using one_asleep [of 2] by auto
  show ?thesis
    using idle_tick_counted_twice [of "on_chip False s" "[TaskAction 1]" "{1}" "\<lambda>f x s. Some s"] s by (auto simp: on_chip_frame)
qed

theorem raced_tick_settles_shot_witness:
  "\<exists>s s1 s2 :: stk. idle_arm (react (\<lambda>f x s. Some s)) s = Some s1 \<and> systick_pending s1
     \<and> take_SysTick (react (\<lambda>f x s. Some s)) s1 = Some s2 \<and> now_tick s2 = now_tick s + 1 + one_shot_ticks s1"
proof -
  obtain s :: sys where s: "tk_inv s [TaskAction 1]" "sleepers {1} [TaskAction 1] s" "rel s (TaskAction 1) = sint (10 :: u32)"
    using one_asleep [of 10] by auto
  have "\<exists>s1 s2 :: stk. idle_arm (react (\<lambda>f x s. Some s)) (on_chip True s) = Some s1 \<and> now_tick s1 = now_tick (on_chip True s) + 1 \<and> systick_pending s1
     \<and> one_shot_ticks s1 \<noteq> 0 \<and> take_SysTick (react (\<lambda>f x s. Some s)) s1 = Some s2 \<and> now_tick s2 = now_tick s1 + one_shot_ticks s1"
    by (rule raced_tick_settles_shot [of _ "[TaskAction 1]" "{1}"]) (use s in \<open>simp_all add: on_chip_frame\<close>)
  then show ?thesis by (metis (no_types, lifting))
qed

end
