(* ===== verification/Machine_Step.thy ===== *)
theory Machine_Step
  imports Systick_Port
begin

text \<open>
  The machine as a whole: the scheduler, the time kernel, the context switch and the tick source composed into
  one step relation. Between two steps a task computes on its own registers and stack, calls the kernel,
  goes to sleep, the timer expires, one of the two kernel exceptions is taken, or the idle task arms and
  leaves its bed. Kernel calls run under their guards, so they are atomic; PendSV has the smaller exception
  number at the same priority as SysTick, so a pending switch is taken before the next tick and before the
  thread goes on. Interrupt handlers of devices may still make a task ready or notify it meanwhile. The ghost
  component of a machine state says which context every task must find when it runs again.
\<close>

section \<open>Steps\<close>

datatype label = Compute addr | Call sched_op | Sleep tick | Expire | Tick | Switch | Arm | Wake

text \<open>A task may write anywhere but in the stacks of others and over its own canary.\<close>

definition own_memory :: "addr set \<Rightarrow> addr \<Rightarrow> (addr \<Rightarrow> tcb) \<Rightarrow> mem \<Rightarrow> mem \<Rightarrow> bool" where
  "own_memory T t tc m m' \<longleftrightarrow> (\<forall>u \<in> T. \<forall>x. span_data (stack_view (tc u)) \<le> x \<and> x < stack_top (tc u)
     \<and> (u \<noteq> t \<or> x < span_data (stack_view (tc t)) + 4 * kCanarySize) \<longrightarrow> m' x = m x)"

fun call_ok :: "addr set \<Rightarrow> sched_op \<Rightarrow> 'a sched_scheme \<Rightarrow> bool" where
  "call_ok T (OpReady t) s \<longleftrightarrow> (case t of None \<Rightarrow> True | Some t \<Rightarrow> t \<in> T)"
| "call_ok T (OpNotify t v) s \<longleftrightarrow> (case t of None \<Rightarrow> True | Some t \<Rightarrow> t \<in> insert idle_task T)"
| "call_ok T (OpBlock t) s \<longleftrightarrow> \<not> pendsv s \<and> t = current s \<and> t \<noteq> Some idle_task"
| "call_ok T OpYield s \<longleftrightarrow> \<not> pendsv s"
| "call_ok T OpWaitNotify s \<longleftrightarrow> \<not> pendsv s"
| "call_ok T op s \<longleftrightarrow> False"

type_synonym 'a mstate = "(addr \<Rightarrow> ctx) \<times> 'a stk_scheme"

inductive mstep :: "addr set \<Rightarrow> 'a stk_scheme user \<Rightarrow> 'a stk_scheme reporter \<Rightarrow> label \<Rightarrow> 'a mstate \<Rightarrow> 'a mstate \<Rightarrow> bool"
  for T user report where
  compute: "current s = Some t \<Longrightarrow> \<not> pendsv s \<Longrightarrow> in_stack (tcbs s t) p \<Longrightarrow>
    own_memory (insert idle_task T) t (tcbs s) (memory s) m \<Longrightarrow>
    mstep T user report (Compute t) (K, s) (K(t := (cf, ef, p)), s\<lparr>callee := cf, core := ef, psp := p, memory := m\<rparr>)"
| call: "call_ok T op s \<Longrightarrow> run_op op s = Some (r, s') \<Longrightarrow> mstep T user report (Call op) (K, s) (K, s')"
| sleep: "current s = Some t \<Longrightarrow> t \<noteq> idle_task \<Longrightarrow> \<not> pendsv s \<Longrightarrow> 0 \<le> sint span \<Longrightarrow>
    ThisTask_sleep_for span s = Some s' \<Longrightarrow> mstep T user report (Sleep span) (K, s) (K, s')"
| expires: "mstep T user report Expire (K, s) (K, expire s)"
| tick: "systick_pending s \<Longrightarrow> \<not> pendsv s \<Longrightarrow> take_SysTick (react user) s = Some s' \<Longrightarrow>
    mstep T user report Tick (K, s) (K, s')"
| switch: "pendsv s \<Longrightarrow> take_PendSV report s = Some s' \<Longrightarrow> mstep T user report Switch (K, s) (K, s')"
| arm: "current s = Some idle_task \<Longrightarrow> \<not> pendsv s \<Longrightarrow> one_shot_ticks s = 0 \<Longrightarrow> idle_arm (react user) s = Some s' \<Longrightarrow>
    mstep T user report Arm (K, s) (K, s')"
| wake: "current s = Some idle_task \<Longrightarrow> \<not> pendsv s \<Longrightarrow> idle_wake (react user) s = Some s' \<Longrightarrow>
    mstep T user report Wake (K, s) (K, s')"

section \<open>The scheduler between steps\<close>

text \<open>The current task runs, unless a switch away from it is pending.\<close>

definition calm :: "asched \<Rightarrow> bool" where
  "calm a \<longleftrightarrow> a_pend a \<or> cur_runs a"

lemma calm_wake: "calm a \<Longrightarrow> calm (a_wake t a)"
  by (auto simp: calm_def cur_runs_def a_wake_def a_preempt_def a_enqueue_def)

lemma calm_op:
  assumes "calm a" and inv: "a_inv a" and ok: "op_ok op a"
  shows "calm (a_op op a)"
proof (cases op)
  case (OpAdd t)
  then show ?thesis
    using assms by (cases t) (auto simp: calm_def cur_runs_def a_preempt_def a_enqueue_def dest: a_inv_cur)
next
  case OpPick
  then show ?thesis by (auto simp: calm_def cur_runs_def a_pick_def Let_def)
next
  case (OpReady t)
  then show ?thesis using assms(1) by (cases t) (simp_all add: calm_wake)
next
  case (OpNotify t v)
  have "calm (a\<lparr>a_mail := m\<rparr>) = calm a" for m by (simp add: calm_def cur_runs_def)
  then show ?thesis using OpNotify assms(1) by (cases t) (simp_all add: calm_wake)
next
  case (OpReprio t p)
  then show ?thesis
    using assms(1) by (auto simp: calm_def cur_runs_def a_enqueue_def a_unqueue_def)
next
  case (OpBlock t)
  then show ?thesis using assms(1) by (cases t) (auto simp: calm_def cur_runs_def)
next
  case OpYield
  then show ?thesis using assms(1) by (cases "a_cur a") (simp_all add: calm_def cur_runs_def)
next
  case OpWaitNotify
  then show ?thesis using assms(1) by (cases "a_cur a") (simp_all add: calm_def cur_runs_def)
next
  case OpTick
  then show ?thesis using assms(1) by (cases "a_cur a") (simp_all add: calm_def cur_runs_def Let_def)
qed

section \<open>The time kernel between steps\<close>

text \<open>Whoever is booked is a task that went to sleep; the scheduler is in order.\<close>

definition crew :: "addr set \<Rightarrow> waiter list \<Rightarrow> 'a tk_scheme \<Rightarrow> bool" where
  "crew T qs s \<longleftrightarrow> (\<forall>w \<in> set qs. \<exists>t \<in> T. w = TaskAction t \<and> OnTime (waiters s w) = Some WakeFromSleep)
     \<and> (\<exists>a. refines s a \<and> a_inv a \<and> settled a \<and> calm a \<and> a_tasks a = T)"

lemma crew_sleepers: "crew T qs s \<Longrightarrow> sleepers T qs s"
  by (auto simp: crew_def sleepers_def)

lemma crew_cong:
  assumes "waiters s' = waiters s" and "\<And>a. refines s' a = refines s a"
  shows "crew T qs s' = crew T qs s"
  using assms by (simp add: crew_def)

text \<open>What stays between the calls of two reactions, apart from the scheduler's own bookkeeping.\<close>

definition resting :: "addr set \<Rightarrow> 'a sys_scheme \<Rightarrow> addr set \<Rightarrow> waiter list \<Rightarrow> 'a sys_scheme \<Rightarrow> bool" where
  "resting T s0 B qs s \<longleftrightarrow> crew T qs s \<and> waiters s = waiters s0 \<and> sys.more s = sys.more s0 \<and> current s = current s0
     \<and> (\<forall>u. stack_pointer (tcbs s u) = stack_pointer (tcbs s0 u) \<and> stack_view (tcbs s u) = stack_view (tcbs s0 u)
        \<and> task_priority (tcbs s u) = task_priority (tcbs s0 u))
     \<and> (\<forall>u \<in> B. TaskAction u \<in> set qs \<or> tcb_state (tcbs s u) \<noteq> Blocked)"

lemma crew_ready:
  assumes "crew T qs s" and "t \<in> T"
  shows "crew T qs (sched_ready (Some t) s)"
proof -
  obtain a where a: "refines s a" "a_inv a" "settled a" "calm a" "a_tasks a = T" using assms(1) by (auto simp: crew_def)
  have "refines (sched_ready (Some t) s) (a_wake t a)" using sim_ready [OF a(1,2), of "Some t"] a(5) assms(2) by simp
  moreover have "a_inv (a_wake t a)" "settled (a_wake t a)" "calm (a_wake t a)"
    using a assms(2) a_inv_level [OF a(2)] by (auto intro: a_inv_wake settled_wake calm_wake)
  moreover have "a_tasks (a_wake t a) = T" using a(5) by (simp add: a_wake_def a_preempt_def a_enqueue_def)
  ultimately show ?thesis using assms(1) by (auto simp: crew_def)
qed

lemma resting_reaction: "reaction_ok (resting T s0 B) (react user)"
  unfolding reaction_ok_def
proof (intro conjI allI impI)
  show "resting T s0 B ws (s\<lparr>tq := l, w_next := nx\<rparr>)" if "resting T s0 B ws s" for ws s l nx
    using that by (auto simp: resting_def crew_def)
  fix w qs s
  assume I: "resting T s0 B (w # qs) s" and inv: "tq_inv s qs"
  obtain t where t: "t \<in> T" "w = TaskAction t" "OnTime (waiters s w) = Some WakeFromSleep"
    using I by (auto simp: resting_def crew_def)
  let ?s = "sched_ready (Some t) s"
  have "crew T qs s" using I by (auto simp: resting_def crew_def)
  then have c: "crew T qs ?s" by (rule crew_ready [OF _ t(1)])
  obtain a where a: "refines s a" "a_inv a" "a_tasks a = T" using I by (auto simp: resting_def crew_def)
  have "prio_level s t < 32" using a_inv_level [OF a(2), of t] refines_level [OF a(1), of t] a(3) t(1) by simp
  note tc = ready_tcbs [OF this]
  have "TaskAction u \<in> set qs \<or> tcb_state (tcbs ?s u) \<noteq> Blocked" if "u \<in> B" for u
    using I that t(2) by (auto simp: resting_def tc)
  then have "resting T s0 B qs ?s" using I c by (auto simp: resting_def tc)
  moreover have "tq_inv ?s qs" using inv tq_inv_cong [of ?s s] by simp
  moreover have "due ?s = due s" using rel_cong [of ?s s] by (simp add: due_def fun_eq_iff)
  ultimately show "\<exists>s' qs'. react user w s = Some s' \<and> tq_inv s' qs' \<and> now_tick s' = now_tick s
      \<and> filter (due s') qs' = filter (due s) qs \<and> resting T s0 B qs' s'"
    using react_sleeper [of s t user] t by auto
qed

lemma crew_frame [simp]:
  "crew T qs (time_unlock s) = crew T qs s" "crew T qs (update_alarm s) = crew T qs s" "crew T qs (time_lock s) = crew T qs s"
  "crew T qs (tick_forward n s) = crew T qs s"
  by (rule crew_cong; simp)+

lemma tick_forward_current [simp]: "current (tick_forward n s) = current s"
  by (simp add: tick_forward_def)

lemma resting_frame [simp]:
  "resting T s0 B qs (time_unlock s) = resting T s0 B qs s" "resting T s0 B qs (update_alarm s) = resting T s0 B qs s"
  "resting T s0 B qs (time_lock s) = resting T s0 B qs s" "resting T s0 B qs (tick_forward n s) = resting T s0 B qs s"
  by (simp_all add: resting_def)

text \<open>Reporting ticks: who is due wakes, who is not comes closer, everything else stays.\<close>

lemma elapse_rest:
  assumes inv: "tk_inv s qs" and c: "crew T qs s" and n: "0 < sint n"
  shows "\<exists>s2 qs2. on_elapsed (react user) n s = Some s2 \<and> tk_inv s2 qs2 \<and> resting T s {u. TaskAction u \<in> set qs} qs2 s2
    \<and> (\<forall>w \<in> set qs. rel s2 w = rel s w - sint n) \<and> (\<forall>w \<in> set qs2. 0 < rel s2 w)
    \<and> (\<forall>u. tcb_state (tcbs s2 u) = tcb_state (tcbs s u) \<or> tcb_state (tcbs s u) = Blocked \<and> tcb_state (tcbs s2 u) = Ready)"
proof -
  let ?s = "tick_forward n (time_lock s)" and ?B = "{u. TaskAction u \<in> set qs}"
  have init: "resting T s ?B qs ?s" using c by (simp add: resting_def)
  obtain s3 s2 qs2 where s2: "on_elapsed (react user) n s = Some s2" "tk_inv s2 qs2"
    "s2 = time_unlock (update_alarm s3)" "resting T s ?B qs2 s3" "now_tick s2 = now_tick s + n"
    "\<forall>w \<in> set qs2. 0 < rel s2 w"
    using on_elapsed_spec [OF resting_reaction inv n init] by blast
  have rest: "resting T s ?B qs2 s2" using s2(3,4) by simp
  have "tcb_state (tcbs s2 u) = tcb_state (tcbs s u) \<or> tcb_state (tcbs s u) = Blocked \<and> tcb_state (tcbs s2 u) = Ready" for u
    using elapse_wakes [OF inv crew_sleepers [OF c] n, of user] s2(1) by (auto split: if_splits)
  moreover have "rel s2 w = rel s w - sint n" if "w \<in> set qs" for w
  proof -
    have "rel s2 = rel ?s"
      using s2(5) rest by (intro rel_cong) (simp_all add: resting_def tick_forward_def Ticks_forward_def)
    then show ?thesis using tick_forward_inv [of "time_lock s" qs n] tk_invD(1,3) [OF inv] n that by simp
  qed
  ultimately show ?thesis using s2(1,2,6) rest by blast
qed

section \<open>The invariant of the machine\<close>

text \<open>All contexts are where they belong, the stacks are apart and their canaries alive.\<close>

definition homes :: "addr set \<Rightarrow> (addr \<Rightarrow> ctx) \<Rightarrow> 'a mach_scheme \<Rightarrow> bool" where
  "homes T K s \<longleftrightarrow> contexts s K (insert idle_task T) \<and> stacks_ok (tcbs s) K (insert idle_task T)
     \<and> (\<forall>u \<in> insert idle_task T. \<not> fast_check_stack (memory s) (tcbs s u)) \<and> current s \<noteq> None"

definition timer_ok :: "'a stk_scheme \<Rightarrow> bool" where
  "timer_ok s \<longleftrightarrow> 0 < cycles_per_tick s \<and> cycles_per_tick s \<le> 0xFFFFFF \<and> (one_shot_ticks s = 0 \<or> 0 < sint (one_shot_ticks s))"

definition good :: "addr set \<Rightarrow> (addr \<Rightarrow> ctx) \<Rightarrow> waiter list \<Rightarrow> 'a stk_scheme \<Rightarrow> bool" where
  "good T K qs s \<longleftrightarrow> tk_inv s qs \<and> crew T qs s \<and> homes T K s \<and> timer_ok s"

definition machine_inv :: "addr set \<Rightarrow> 'a mstate \<Rightarrow> bool" where
  "machine_inv T x \<longleftrightarrow> (\<exists>qs. good T (fst x) qs (snd x))"

text \<open>A step that moves no context.\<close>

definition still :: "'a mach_scheme \<Rightarrow> 'a mach_scheme \<Rightarrow> bool" where
  "still s s' \<longleftrightarrow> memory s' = memory s \<and> psp s' = psp s \<and> callee s' = callee s \<and> core s' = core s \<and> current s' = current s
     \<and> (\<forall>u. stack_pointer (tcbs s' u) = stack_pointer (tcbs s u) \<and> stack_view (tcbs s' u) = stack_view (tcbs s u)
        \<and> task_priority (tcbs s' u) = task_priority (tcbs s u))"

lemma still_refl [simp]: "still s s"
  by (simp add: still_def)

lemma still_trans: "still s s1 \<Longrightarrow> still s1 s2 \<Longrightarrow> still s s2"
  by (simp add: still_def)

lemma still_homes: "still s s' \<Longrightarrow> homes T K s' = homes T K s"
  by (simp add: still_def homes_def contexts_def parked_def stacks_ok_def in_stack_def fast_check_stack_def)

lemma mach_more:
  assumes "sys.more s' = sys.more s"
  shows "memory s' = memory s" "psp s' = psp s" "callee s' = callee s" "core s' = core s"
  using assms by (cases s; cases s'; simp)+

lemma sched_more:
  assumes "sched.more s' = sched.more s"
  shows "sys.more s' = sys.more s" "waiters s' = waiters s" "now_tick s' = now_tick s" "tq s' = tq s" "w_next s' = w_next s"
    "armed s' = armed s" "arm_valid s' = arm_valid s"
  using assms by (cases s; cases s'; simp)+

lemma resting_still: "resting T s B qs s' \<Longrightarrow> still s s'"
  using mach_more [of s' s] by (simp add: resting_def still_def)

lemma same_tasks_still: "same_tasks s s' \<Longrightarrow> still s s'"
  using mach_more [OF sched_more(1), of s' s] by (simp add: same_tasks_def still_def)

text \<open>A task that is off the processor stays ready, or its wake-up comes closer by \<open>d\<close> ticks.\<close>

definition closer :: "addr \<Rightarrow> int \<Rightarrow> 'a tk_scheme \<Rightarrow> waiter list \<Rightarrow> 'a tk_scheme \<Rightarrow> waiter list \<Rightarrow> bool" where
  "closer t d s qs s' qs' \<longleftrightarrow> (tcb_state (tcbs s t) = Ready \<longrightarrow> tcb_state (tcbs s' t) = Ready)
     \<and> (tcb_state (tcbs s t) = Blocked \<and> TaskAction t \<in> set qs \<longrightarrow> tcb_state (tcbs s' t) = Ready
        \<or> tcb_state (tcbs s' t) = Blocked \<and> TaskAction t \<in> set qs' \<and> rel s' (TaskAction t) \<le> rel s (TaskAction t) - d
           \<and> (0 < rel s' (TaskAction t) \<or> rel s' (TaskAction t) = rel s (TaskAction t)))"

lemma closer_trans: "closer t d s qs s1 qs1 \<Longrightarrow> closer t e s1 qs1 s2 qs2 \<Longrightarrow> closer t (d + e) s qs s2 qs2"
  by (auto simp: closer_def)

lemma closer_less: "closer t d s qs s' qs' \<Longrightarrow> e \<le> d \<Longrightarrow> closer t e s qs s' qs'"
  by (auto simp: closer_def)

lemma closer_same:
  assumes "tcb_state (tcbs s' t) = tcb_state (tcbs s t)" and "rel s' = rel s"
  shows "closer t 0 s qs s' qs"
  using assms by (simp add: closer_def)

section \<open>Steps keep the invariant\<close>

lemma timer_more: "sys.more s' = sys.more s \<Longrightarrow> timer_ok s' = timer_ok s"
  using stk_more [of s' s] by (simp add: timer_ok_def)

lemma good_still:
  assumes "good T K qs s" and "still s s'" and "tk_inv s' qs'" and "crew T qs' s'" and "timer_ok s'"
  shows "good T K qs' s'"
  using assms still_homes [OF assms(2)] by (simp add: good_def)

text \<open>A call of the scheduler.\<close>

lemma call_op_ok:
  assumes "call_ok T op s" and r: "refines s a" and "a_inv a" and "calm a" and "a_tasks a = T"
  shows "op_ok op a"
proof -
  have run: "\<not> pendsv s \<Longrightarrow> cur_runs a" using assms by (simp add: calm_def refines_def)
  show ?thesis
  proof (cases op)
    case (OpBlock t)
    show ?thesis
    proof (cases t)
      case (Some c)
      then have c: "a_cur a = Some c" "c \<noteq> idle_task" "\<not> pendsv s" using OpBlock assms(1) refines_cur [OF r] by auto
      then have "a_state a c = Running" "c \<in> a_tasks a" using run a_inv_cur [OF assms(3)] by (auto simp: cur_runs_def)
      then show ?thesis using OpBlock Some by simp
    qed (simp add: OpBlock)
  qed (use assms run in \<open>auto split: option.splits\<close>)
qed

lemma call_states:
  assumes "call_ok T op s" and "refines s a" and "current s \<noteq> Some t"
  shows "a_state (a_op op a) t = a_state a t \<or> a_state a t = Blocked \<and> a_state (a_op op a) t = Ready"
proof -
  have cur: "a_cur a \<noteq> Some t" using assms(3) refines_cur [OF assms(2)] by simp
  have wake: "a_state (a_wake u b) t = a_state b t \<or> a_state b t = Blocked \<and> a_state (a_wake u b) t = Ready" for u b
    by (simp add: a_wake_def a_preempt_def a_enqueue_def)
  show ?thesis
  proof (cases op)
    case (OpNotify u v)
    then show ?thesis using wake [of "the u" "a\<lparr>a_mail := (a_mail a)(the u := Some v)\<rparr>"] by (auto split: option.splits)
  qed (use assms(1) cur wake refines_cur [OF assms(2)] in \<open>auto simp: a_enqueue_def split: option.splits\<close>)
qed

lemma call_step:
  assumes g: "good T K qs s" and ok: "call_ok T op s"
  shows "\<exists>r s' qs'. run_op op s = Some (r, s') \<and> good T K qs' s' \<and> still s s'
    \<and> (\<forall>t. current s \<noteq> Some t \<longrightarrow> closer t 0 s qs s' qs')"
proof -
  have inv: "tk_inv s qs" "crew T qs s" "timer_ok s" using g by (simp_all add: good_def)
  obtain a where a: "refines s a" "a_inv a" "settled a" "calm a" "a_tasks a = T" using inv(2) by (auto simp: crew_def)
  have op: "op_ok op a" by (rule call_op_ok [OF ok a(1,2,4,5)])
  obtain r s' where s': "run_op op s = Some (r, s')" "refines s' (a_op op a)" using sim_op [OF a(1,2) op] by blast
  have same: "same_tasks s s'" by (rule op_same_tasks [OF s'(1)]) (use ok in auto)
  then have more: "sched.more s' = sched.more s" by (simp add: same_tasks_def)
  note m = sched_more [OF more]
  have "a_tasks (a_op op a) = T" using ok a(5) by (cases op) (auto simp: a_wake_def a_preempt_def a_enqueue_def split: option.splits)
  moreover have "settled (a_op op a)" by (rule settled_op [OF a(3,2) op]) (use ok in auto)
  ultimately have "crew T qs s'"
    using inv(2) s'(2) a_inv_op [OF a(2) op] calm_op [OF a(4,2) op] m(2) by (auto simp: crew_def)
  moreover have "tk_inv s' qs" using inv(1) tk_inv_cong [of s' s] m by simp
  ultimately have "good T K qs s'" using good_still [OF g same_tasks_still [OF same]] inv(3) timer_more [OF m(1)] by simp
  moreover have "closer t 0 s qs s' qs" if "current s \<noteq> Some t" for t
    using call_states [OF ok a(1) that] refines_state [OF a(1), of t] refines_state [OF s'(2), of t] rel_cong [OF m(2,3)]
    by (auto simp: closer_def)
  ultimately show ?thesis using s'(1) same_tasks_still [OF same] by blast
qed

text \<open>Going to sleep.\<close>

lemma enqueue_more:
  assumes "enqueue_locked w span wake s = Some s'"
  shows "sys.more s' = sys.more s" "tcbs s' = tcbs s" "current s' = current s"
  using assms by (auto simp: enqueue_locked_def TimerQueue_remove_def TimerQueue_insert_def Let_def split: bind_splits if_splits)

lemma sleep_still:
  assumes "sys_sleep_for (Some t) span s = Some s'"
  shows "still s s'" "sys.more s' = sys.more s" "u \<noteq> t \<Longrightarrow> tcb_state (tcbs s' u) = tcb_state (tcbs s u)"
proof -
  obtain s1 where s1: "enqueue_locked (TaskAction t) span (Some WakeFromSleep) (time_lock s) = Some s1"
    "s' = time_unlock (sched_block (Some t) s1)"
    using assms by (auto simp: sys_sleep_for_def sched_sleep_for_def park_for_def CriticalGuard_opt_def split: bind_splits)
  note e = enqueue_more [OF s1(1)]
  have b: "same_tasks s1 (sched_block (Some t) s1)" by simp
  have m: "sys.more (sched_block (Some t) s1) = sys.more s1"
    using b sched_more(1) [of "sched_block (Some t) s1" s1] by (simp add: same_tasks_def)
  then show more: "sys.more s' = sys.more s" using e(1) by (simp add: s1(2))
  show "still s s'" using mach_more [OF more] b e by (simp add: still_def same_tasks_def s1(2))
  show "tcb_state (tcbs s' u) = tcb_state (tcbs s u)" if "u \<noteq> t"
    using that e(2) by (simp add: s1(2) sched_block_def CriticalGuard_def Let_def set_tcb_state_def request_switch_def)
qed

lemma sleep_step:
  assumes g: "good T K qs s" and c: "current s = Some c" "c \<noteq> idle_task" "\<not> pendsv s" and span: "0 \<le> sint span"
  shows "\<exists>s' qs'. ThisTask_sleep_for span s = Some s' \<and> good T K qs' s' \<and> still s s' \<and> pendsv s'
    \<and> tcb_state (tcbs s' c) = Blocked \<and> TaskAction c \<in> set qs' \<and> rel s' (TaskAction c) = sint span
    \<and> (\<forall>t. current s \<noteq> Some t \<longrightarrow> closer t 0 s qs s' qs')"
proof -
  let ?w = "TaskAction c"
  have inv: "tk_inv s qs" "crew T qs s" "timer_ok s" using g by (simp_all add: good_def)
  obtain a where a: "refines s a" "a_inv a" "settled a" "calm a" "a_tasks a = T" using inv(2) by (auto simp: crew_def)
  have cur: "a_cur a = Some c" using refines_cur [OF a(1)] c(1) by simp
  have "op_ok (OpBlock (current s)) a" by (rule call_op_ok [OF _ a(1,2,4,5)]) (use c in auto)
  then have op: "op_ok (OpBlock (Some c)) a" using c(1) by simp
  let ?a = "a_op (OpBlock (Some c)) a"
  obtain s' where s': "sys_sleep_for (Some c) span s = Some s'" "refines s' ?a" "rel s' = (rel s)(?w := sint span)"
    "tk_inv s' (ins_rel s' ?w (remove1 ?w qs))" "OnTime (waiters s' ?w) = Some WakeFromSleep"
    "\<forall>w. w \<noteq> ?w \<longrightarrow> OnTime (waiters s' w) = OnTime (waiters s w)"
    using sleep_spec [OF a(1) inv(1) span, of c] by blast
  let ?qs = "ins_rel s' ?w (remove1 ?w qs)"
  have qs: "set ?qs = insert ?w (set qs)" using tk_invD(4) [OF inv(1)] by (auto simp: ins_rel_def)
  have cT: "c \<in> T" using op a(5) by simp
  have "\<exists>t \<in> T. w = TaskAction t \<and> OnTime (waiters s' w) = Some WakeFromSleep" if "w \<in> set ?qs" for w
    using that cT inv(2) s'(5,6) by (cases "w = ?w") (auto simp: qs crew_def)
  moreover have "settled ?a" by (rule settled_op [OF a(3,2) op]) simp
  ultimately have crew: "crew T ?qs s'"
    using s'(2) a(5) a_inv_op [OF a(2) op] calm_op [OF a(4,2) op] unfolding crew_def by (intro conjI exI [of _ ?a] ballI) auto
  note st = sleep_still [OF s'(1)]
  have "good T K ?qs s'" using good_still [OF g st(1) s'(4) crew] inv(3) timer_more [OF st(2)] by simp
  moreover have "closer t 0 s qs s' ?qs" if "current s \<noteq> Some t" for t
    using that c(1) st(3) [of t] s'(3) qs by (auto simp: closer_def)
  moreover have "ThisTask_sleep_for span s = Some s'" using s'(1) c(1) by (simp add: ThisTask_defs sys_current_task_def current_task_def)
  moreover have "pendsv s'" using s'(2) cur by (simp add: refines_def)
  moreover have "tcb_state (tcbs s' c) = Blocked" using refines_state [OF s'(2), of c] by simp
  moreover have "rel s' ?w = sint span" "?w \<in> set ?qs" using s'(3) qs by simp_all
  ultimately show ?thesis using st(1) by blast
qed

text \<open>The timer: its registers are nobody's context.\<close>

lemma crew_stk [simp]:
  "crew T qs (write_timer r s) = crew T qs s" "crew T qs (write_icpr v s) = crew T qs s"
  "crew T qs (s\<lparr>one_shot_ticks := n\<rparr>) = crew T qs s" "crew T qs (s\<lparr>count_flag := b\<rparr>) = crew T qs s"
  "crew T qs (s\<lparr>zeros_tick_oneshot := n\<rparr>) = crew T qs s" "crew T qs (s\<lparr>systick_pending := b\<rparr>) = crew T qs s"
  "crew T qs (s\<lparr>syst_csr := n\<rparr>) = crew T qs s" "crew T qs (s\<lparr>zeros_tick_periodic := n\<rparr>) = crew T qs s"
  "crew T qs (expire s) = crew T qs s"
  by (rule crew_cong; simp add: write_timer_def write_icpr_def expire_def refines_def levels_def)+

lemma still_stk [simp]:
  "still s (write_timer r s') = still s s'" "still s (write_icpr v s') = still s s'"
  "still s (s'\<lparr>one_shot_ticks := n\<rparr>) = still s s'" "still s (s'\<lparr>count_flag := b\<rparr>) = still s s'"
  "still s (s'\<lparr>zeros_tick_oneshot := n\<rparr>) = still s s'" "still s (s'\<lparr>systick_pending := b\<rparr>) = still s s'"
  "still s (s'\<lparr>syst_csr := n\<rparr>) = still s s'" "still s (s'\<lparr>zeros_tick_periodic := n\<rparr>) = still s s'"
  "still s (expire s') = still s s'"
  by (simp_all add: still_def write_timer_def write_icpr_def expire_def)

lemma timer_stk [simp]:
  "timer_ok (write_timer r s) = timer_ok s" "timer_ok (write_icpr v s) = timer_ok s" "timer_ok (s\<lparr>count_flag := b\<rparr>) = timer_ok s"
  "timer_ok (s\<lparr>zeros_tick_oneshot := n\<rparr>) = timer_ok s" "timer_ok (s\<lparr>systick_pending := b\<rparr>) = timer_ok s"
  "timer_ok (s\<lparr>syst_csr := n\<rparr>) = timer_ok s" "timer_ok (s\<lparr>zeros_tick_periodic := n\<rparr>) = timer_ok s"
  "timer_ok (expire s) = timer_ok s"
  by (simp_all add: timer_ok_def expire_def)

lemma homes_stk [simp]:
  "homes T K (write_timer r s) = homes T K s" "homes T K (write_icpr v s) = homes T K s" "homes T K (s\<lparr>one_shot_ticks := n\<rparr>) = homes T K s"
  "homes T K (s\<lparr>count_flag := b\<rparr>) = homes T K s" "homes T K (s\<lparr>zeros_tick_oneshot := n\<rparr>) = homes T K s"
  "homes T K (s\<lparr>systick_pending := b\<rparr>) = homes T K s" "homes T K (s\<lparr>zeros_tick_periodic := n\<rparr>) = homes T K s"
  "homes T K (s\<lparr>syst_csr := n\<rparr>) = homes T K s" "homes T K (expire s) = homes T K s"
  by (rule still_homes, simp)+

lemma good_stk [simp]:
  "good T K qs (write_timer r s) = good T K qs s" "good T K qs (write_icpr v s) = good T K qs s"
  "good T K qs (s\<lparr>count_flag := b\<rparr>) = good T K qs s" "good T K qs (s\<lparr>zeros_tick_oneshot := n\<rparr>) = good T K qs s"
  "good T K qs (s\<lparr>systick_pending := b\<rparr>) = good T K qs s" "good T K qs (s\<lparr>zeros_tick_periodic := n\<rparr>) = good T K qs s"
  "good T K qs (s\<lparr>syst_csr := n\<rparr>) = good T K qs s" "good T K qs (expire s) = good T K qs s"
  by (simp_all add: good_def)

lemma good_shot: "good T K qs s \<Longrightarrow> n = 0 \<or> 0 < sint n \<Longrightarrow> good T K qs (s\<lparr>one_shot_ticks := n\<rparr>)"
  by (simp add: good_def timer_ok_def)

lemma closer_cong:
  "tcbs s' = tcbs s \<Longrightarrow> rel s' = rel s \<Longrightarrow> closer t d s' qs s2 qs2 = closer t d s qs s2 qs2"
  by (simp add: closer_def)

lemma elapse_step:
  assumes g: "good T K qs s" and n: "0 < sint n"
  shows "\<exists>s2 qs2. on_elapsed (react user) n s = Some s2 \<and> good T K qs2 s2 \<and> still s s2 \<and> sys.more s2 = sys.more s
    \<and> (\<forall>t. closer t (sint n) s qs s2 qs2) \<and> (\<forall>u. tcb_state (tcbs s u) = Running \<longrightarrow> tcb_state (tcbs s2 u) = Running)"
proof -
  have inv: "tk_inv s qs" "crew T qs s" "timer_ok s" using g by (simp_all add: good_def)
  obtain s2 qs2 where s2: "on_elapsed (react user) n s = Some s2" "tk_inv s2 qs2" "resting T s {u. TaskAction u \<in> set qs} qs2 s2"
    "\<forall>w \<in> set qs. rel s2 w = rel s w - sint n"
    "\<forall>u. tcb_state (tcbs s2 u) = tcb_state (tcbs s u) \<or> tcb_state (tcbs s u) = Blocked \<and> tcb_state (tcbs s2 u) = Ready"
    "\<forall>w \<in> set qs2. 0 < rel s2 w"
    using elapse_rest [OF inv(1,2) n] by blast
  have more: "sys.more s2 = sys.more s" and crew: "crew T qs2 s2" using s2(3) by (simp_all add: resting_def)
  have "good T K qs2 s2" using good_still [OF g resting_still [OF s2(3)] s2(2) crew] inv(3) timer_more [OF more] by simp
  moreover have "closer t (sint n) s qs s2 qs2" for t
    using s2(3-6) unfolding closer_def resting_def by (metis mem_Collect_eq order_refl task_state.distinct)
  moreover have "tcb_state (tcbs s2 u) = Running" if "tcb_state (tcbs s u) = Running" for u
    using that s2(5) [rule_format, of u] by auto
  ultimately show ?thesis using s2(1) resting_still [OF s2(3)] more by blast
qed

text \<open>The round-robin tick.\<close>

lemma good_runs:
  assumes "good T K qs s" and "\<not> pendsv s" and "current s = Some c" and "c \<noteq> idle_task"
  shows "tcb_state (tcbs s c) = Running"
proof -
  obtain a where a: "refines s a" "calm a" using assms(1) by (auto simp: good_def crew_def)
  then have "a_state a c = Running" using assms(2-4) refines_cur [OF a(1)] by (auto simp: calm_def cur_runs_def refines_def)
  then show ?thesis using refines_state [OF a(1)] by simp
qed

lemma round_robin_step:
  assumes g: "good T K qs s" and run: "\<And>c. current s = Some c \<Longrightarrow> c \<noteq> idle_task \<Longrightarrow> tcb_state (tcbs s c) = Running"
  shows "\<exists>s'. on_tick s = Some s' \<and> good T K qs s' \<and> still s s' \<and> (\<forall>t. current s \<noteq> Some t \<longrightarrow> closer t 0 s qs s' qs)"
proof -
  have inv: "tk_inv s qs" "crew T qs s" "timer_ok s" using g by (simp_all add: good_def)
  obtain a where a: "refines s a" "a_inv a" "settled a" "calm a" "a_tasks a = T" using inv(2) by (auto simp: crew_def)
  have cur: "a_cur a = current s" by (rule refines_cur [OF a(1)])
  have op: "op_ok OpTick a" using run refines_state [OF a(1)] cur by (simp add: cur_runs_def)
  obtain s' where s': "on_tick s = Some s'" "refines s' (a_op OpTick a)" using sim_op [OF a(1,2) op] by auto
  have same: "same_tasks s s'" by (rule op_same_tasks [of OpTick s Done]) (use s'(1) in simp_all)
  then have more: "sched.more s' = sched.more s" by (simp add: same_tasks_def)
  note m = sched_more [OF more]
  have "a_tasks (a_op OpTick a) = T" using a(5) by (auto simp: a_enqueue_def Let_def split: option.splits)
  moreover have "settled (a_op OpTick a)" by (rule settled_op [OF a(3,2) op]) simp
  ultimately have "crew T qs s'"
    using inv(2) s'(2) a_inv_op [OF a(2) op] calm_op [OF a(4,2) op] m(2) by (auto simp: crew_def)
  moreover have "tk_inv s' qs" using inv(1) tk_inv_cong [of s' s] m by simp
  ultimately have "good T K qs s'" using good_still [OF g same_tasks_still [OF same]] inv(3) timer_more [OF m(1)] by simp
  moreover have "closer t 0 s qs s' qs" if "current s \<noteq> Some t" for t
  proof (rule closer_same)
    have "a_state (a_op OpTick a) t = a_state a t" using that cur by (auto simp: a_enqueue_def Let_def split: option.splits)
    then show "tcb_state (tcbs s' t) = tcb_state (tcbs s t)" using refines_state [OF s'(2)] refines_state [OF a(1)] by metis
  qed (rule rel_cong [OF m(2,3)])
  ultimately show ?thesis using s'(1) same_tasks_still [OF same] by blast
qed

text \<open>SysTick, periodic or at the end of a shot.\<close>

lemma tick_step:
  assumes g: "good T K qs s" and np: "\<not> pendsv s"
  shows "\<exists>s' qs'. take_SysTick (react user) s = Some s' \<and> good T K qs' s' \<and> still s s'
    \<and> (\<forall>t. current s \<noteq> Some t \<longrightarrow> closer t 1 s qs s' qs')"
proof (cases "one_shot_ticks s = 0")
  case True
  define e where "e = s\<lparr>systick_pending := False, zeros_tick_periodic := zeros_tick_periodic s + 1\<rparr>"
  have e: "good T K qs e" "still s e" "tcbs e = tcbs s" "rel e = rel s" "current e = current s" using g by (simp_all add: e_def)
  have one: "0 < sint (1 :: u32)" by simp
  obtain s2 qs2 where s2: "on_elapsed (react user) 1 e = Some s2" "good T K qs2 s2" "still e s2" "\<forall>t. closer t 1 e qs s2 qs2"
    "\<forall>u. tcb_state (tcbs e u) = Running \<longrightarrow> tcb_state (tcbs s2 u) = Running"
    using elapse_step [OF e(1) one, of user] by auto
  have cur: "current s2 = current s" using s2(3) e(5) by (simp add: still_def)
  have "tcb_state (tcbs s2 c) = Running" if "current s2 = Some c" "c \<noteq> idle_task" for c
    using good_runs [OF g np, of c] that cur s2(5) e(3) by simp
  then obtain s' where s': "on_tick s2 = Some s'" "good T K qs2 s'" "still s2 s'" "\<forall>t. current s2 \<noteq> Some t \<longrightarrow> closer t 0 s2 qs2 s' qs2"
    using round_robin_step [OF s2(2)] by blast
  have "take_SysTick (react user) s = Some s'"
    using True s2(1) s'(1) by (simp add: take_SysTick_def SysTick_Handler_def e_def)
  moreover have "closer t 1 s qs s' qs2" if "current s \<noteq> Some t" for t
    using closer_trans [of t 1 e qs s2 qs2 0 s' qs2] s2(4) s'(4) that cur closer_cong [OF e(3,4)] by simp
  ultimately show ?thesis using s'(2) still_trans [OF e(2) still_trans [OF s2(3) s'(3)]] by blast
next
  case False
  have t: "0 < sint (one_shot_ticks s)" "cycles_per_tick s \<noteq> 0" using False g by (auto simp: good_def timer_ok_def)
  let ?s1 = "write_timer (cycles_per_tick s - 1) (s\<lparr>systick_pending := False, one_shot_ticks := 0\<rparr>)"
  define e where "e = ?s1\<lparr>zeros_tick_oneshot := zeros_tick_oneshot ?s1 + 1\<rparr>"
  have e: "good T K qs e" "still s e" "tcbs e = tcbs s" "rel e = rel s" using g by (simp_all add: e_def good_shot)
  obtain s2 qs2 where s2: "on_elapsed (react user) (one_shot_ticks s) e = Some s2" "good T K qs2 s2" "still e s2"
    "\<forall>t. closer t (sint (one_shot_ticks s)) e qs s2 qs2"
    using elapse_step [OF e(1) t(1), of user] by blast
  have "take_SysTick (react user) s = Some s2"
    using False t(2) s2(1) by (simp add: take_SysTick_def SysTick_Handler_def periodic_table_restore_def e_def Let_def)
  moreover have "closer u 1 s qs s2 qs2" for u
    using closer_less [of u "sint (one_shot_ticks s)" e qs s2 qs2 1] s2(4) t(1) closer_cong [OF e(3,4)] by simp
  ultimately show ?thesis using s2(2) still_trans [OF e(2) s2(3)] by blast
qed

text \<open>The bed of the idle task.\<close>

lemma good_guard [simp]:
  "good T K qs (time_lock s) = good T K qs s" "good T K qs (time_unlock s) = good T K qs s" "still s (time_unlock s') = still s s'"
  "still s (time_lock s') = still s s'"
proof -
  show still: "still s (time_unlock s') = still s s'" "still s (time_lock s') = still s s'" for s s'
    using mach_more [of "time_unlock s'" s'] mach_more [of "time_lock s'" s'] by (simp_all add: still_def)
  have "timer_ok (time_lock s) = timer_ok s" "timer_ok (time_unlock s) = timer_ok s" by (rule timer_more; simp)+
  moreover have "homes T K (time_lock s) = homes T K s" "homes T K (time_unlock s) = homes T K s"
    by (rule still_homes; simp add: still)+
  ultimately show "good T K qs (time_lock s) = good T K qs s" "good T K qs (time_unlock s) = good T K qs s"
    by (simp_all add: good_def)
qed

lemma drain_step:
  assumes g: "good T K qs s" and n: "0 < sint n"
  shows "\<exists>s' qs'. drain_pending_expiry (react user) n s = Some s' \<and> good T K qs' s' \<and> still s s'
    \<and> one_shot_ticks s' = one_shot_ticks s \<and> cycles_per_tick s' = cycles_per_tick s \<and> (\<forall>t. closer t 0 s qs s' qs')"
proof (cases "count_flag s")
  case False
  have "closer t 0 s qs (drained s) qs" for t by (rule closer_same) simp_all
  then show ?thesis using drain_quiet [OF False, of "react user" n] g by auto
next
  case True
  have e: "good T K qs (drained s)" "still s (drained s)" "tcbs (drained s) = tcbs s" "rel (drained s) = rel s" using g by simp_all
  obtain s2 qs2 where s2: "on_elapsed (react user) n (drained s) = Some s2" "good T K qs2 s2" "still (drained s) s2"
    "\<forall>t. closer t (sint n) (drained s) qs s2 qs2" "sys.more s2 = sys.more (drained s)"
    using elapse_step [OF e(1) n, of user] by blast
  have "closer t 0 s qs s2 qs2" for t
    using closer_less [of t "sint n" "drained s" qs s2 qs2 0] s2(4) n closer_cong [OF e(3,4)] by simp
  moreover have "n \<noteq> 0" using n by auto
  ultimately show ?thesis
    using drain_flagged [OF True, of n "react user"] s2(1,2) still_trans [OF e(2) s2(3)] stk_more [OF s2(5)] by auto
qed

lemma arm_shape:
  obtains "arm_one_shot s = time_unlock (time_lock s)"
    | "arm_one_shot s = (time_unlock (time_lock s))\<lparr>syst_csr := kSystClkSource\<rparr>"
    | n m where "arm_one_shot s = write_timer n ((time_unlock (time_lock s))\<lparr>one_shot_ticks := m\<rparr>)"
proof -
  obtain r where ndi: "next_due_in s = (r, time_unlock (time_lock s))" using next_due_shape [of s] by (cases "next_due_in s") auto
  show thesis
  proof (cases r)
    case None
    then show thesis using ndi that(2) by (simp add: arm_one_shot_def)
  next
    case (Some d)
    then show thesis using ndi that(1,3) by (cases "d > kTicklessThreshold") (simp_all add: arm_one_shot_def Let_def)
  qed
qed

lemma arm_step:
  assumes g: "good T K qs s" and none: "one_shot_ticks s = 0"
  shows "\<exists>s' qs'. idle_arm (react user) s = Some s' \<and> good T K qs' s' \<and> still s s' \<and> (\<forall>t. closer t 0 s qs s' qs')"
proof -
  have "0 < sint (1 :: u32)" by simp
  from drain_step [OF g this, of user] obtain s1 qs1 where s1: "drain_pending_expiry (react user) 1 s = Some s1" "good T K qs1 s1"
    "still s s1" "one_shot_ticks s1 = 0" "\<forall>t. closer t 0 s qs s1 qs1" using none by auto
  have inv: "tk_inv s1 qs1" "timer_ok s1" using s1(2) by (simp_all add: good_def)
  have shot: "one_shot_ticks (arm_one_shot s1) = 0 \<or> 0 < sint (one_shot_ticks (arm_one_shot s1))"
    using arm_spec(2) [OF inv(1) s1(4)] inv(2) by (auto simp: timer_ok_def)
  have "good T K qs1 (arm_one_shot s1)" using s1(2) shot by (cases s1 rule: arm_shape) (simp_all add: good_shot)
  moreover have "still s1 (arm_one_shot s1)" by (cases s1 rule: arm_shape) simp_all
  moreover have "tcbs (arm_one_shot s1) = tcbs s1" "rel (arm_one_shot s1) = rel s1" by (cases s1 rule: arm_shape; simp)+
  moreover have "closer t 0 s qs (arm_one_shot s1) qs1" for t using s1(5) calculation(3,4) by (simp add: closer_def)
  moreover have "idle_arm (react user) s = Some (arm_one_shot s1)" using s1(1) by (simp add: idle_arm_def)
  ultimately show ?thesis using still_trans [OF s1(3)] by blast
qed

lemma bed_step:
  assumes g: "good T K qs s"
  shows "\<exists>s' qs'. idle_wake (react user) s = Some s' \<and> good T K qs' s' \<and> still s s' \<and> one_shot_ticks s' = 0 \<and> (\<forall>t. closer t 0 s qs s' qs')"
proof -
  let ?n = "if one_shot_ticks s = 0 then 1 else one_shot_ticks s"
  have "0 < sint ?n" using g by (auto simp: good_def timer_ok_def)
  from drain_step [OF g this, of user] obtain s1 qs1 where s1: "drain_pending_expiry (react user) ?n s = Some s1" "good T K qs1 s1"
    "still s s1" "one_shot_ticks s1 = one_shot_ticks s" "\<forall>t. closer t 0 s qs s1 qs1" by blast
  have c: "cycles_per_tick s1 \<noteq> 0" using s1(2) by (auto simp: good_def timer_ok_def)
  define s' where "s' = write_timer (cycles_per_tick s1 - 1) (s1\<lparr>one_shot_ticks := 0\<rparr>)"
  have same: "s1\<lparr>one_shot_ticks := 0\<rparr> = s1" if "one_shot_ticks s1 = 0" using that by (cases s1) simp
  have "idle_wake (react user) s = Some s'"
  proof (cases "one_shot_ticks s = 0")
    case True
    then have "s1\<lparr>one_shot_ticks := 0\<rparr> = s1" using same s1(4) by simp
    then show ?thesis using True s1(1) c unfolding s'_def by (simp only:) (simp add: idle_wake_def periodic_table_restore_def)
  next
    case False
    then show ?thesis using s1(1) c by (simp add: idle_wake_def periodic_table_restore_def s'_def)
  qed
  moreover have "good T K qs1 s'" "still s s'" "one_shot_ticks s' = 0" using s1(2,3) by (simp_all add: s'_def good_shot)
  moreover have "closer t 0 s qs s' qs1" for t using s1(5) by (simp add: s'_def closer_def)
  ultimately show ?thesis by blast
qed

text \<open>The switch.\<close>

definition untouched :: "addr \<Rightarrow> (addr \<Rightarrow> ctx) \<Rightarrow> 'a mach_scheme \<Rightarrow> 'a mach_scheme \<Rightarrow> bool" where
  "untouched u K s s' \<longleftrightarrow> (\<forall>x. snd (snd (K u)) \<le> x \<and> x < stack_top (tcbs s u) \<longrightarrow> memory s' x = memory s x)"

lemma save_untouched:
  assumes ok: "stacks_ok (tcbs s) K T" and "c \<in> T" and "u \<in> T" and Kc: "K c = (cf, ef, p)"
    and x: "snd (snd (K u)) \<le> x" "x < stack_top (tcbs s u)"
  shows "write_words (p - 64) (sf_words cf) (write_words (p - 32) (ef_words ef) m) x = m x"
proof -
  have inc: "in_stack (tcbs s c) p" and inu: "in_stack (tcbs s u) (snd (snd (K u)))" using ok assms(2,3) Kc by (auto simp: stacks_ok_def)
  have "x < p - 64 \<or> p \<le> x"
  proof (cases "u = c")
    case False
    then have "stack_top (tcbs s u) \<le> span_data (stack_view (tcbs s c)) \<or> stack_top (tcbs s c) \<le> span_data (stack_view (tcbs s u))"
      using ok assms(2,3) unfolding stacks_ok_def stack_top_def by blast
    then show ?thesis using inc inu x by (auto simp: in_stack_def stack_top_def)
  qed (use x Kc in simp)
  then show ?thesis using inc by (subst write_words_other, force simp: in_stack_def, subst write_words_other) (force simp: in_stack_def)+
qed

lemma pick_states:
  assumes inv: "a_inv a" and "a_cur a \<noteq> Some t" and "a_cur (a_pick a) \<noteq> Some t"
  shows "a_state (a_pick a) t = a_state a t"
  using assms(2,3) by (auto simp: a_pick_def a_requeue_def Let_def split: option.splits if_splits)

lemma switch_step:
  assumes g: "good T K qs s"
  shows "\<exists>s'. take_PendSV report s = Some s' \<and> good T K qs s' \<and> \<not> pendsv s'
    \<and> (\<forall>u. stack_view (tcbs s' u) = stack_view (tcbs s u) \<and> task_priority (tcbs s' u) = task_priority (tcbs s u))
    \<and> (\<forall>u \<in> insert idle_task T. untouched u K s s')
    \<and> (\<forall>t. current s \<noteq> Some t \<longrightarrow> closer t 0 s qs s' qs \<or> current s' = Some t)"
proof -
  let ?T = "insert idle_task T"
  have inv: "tk_inv s qs" "crew T qs s" "homes T K s" "timer_ok s" using g by (simp_all add: good_def)
  have h: "contexts s K ?T" "stacks_ok (tcbs s) K ?T" "\<forall>u \<in> ?T. \<not> fast_check_stack (memory s) (tcbs s u)" using inv(3) by (simp_all add: homes_def)
  obtain a where a: "refines s a" "a_inv a" "settled a" "calm a" "a_tasks a = T" using inv(2) by (auto simp: crew_def)
  obtain c where c: "current s = Some c" using inv(3) by (auto simp: homes_def)
  have cT: "c \<in> ?T" using a_inv_cur [OF a(2), of c] refines_cur [OF a(1)] c a(5) by auto
  have T: "?T = insert idle_task (a_tasks a)" using a(5) by simp
  let ?b = "a\<lparr>a_pend := False\<rparr>"
  have can: "\<not> fast_check_stack (memory s) (tcbs s c)" using h(3) cT by blast
  obtain s' where s': "take_PendSV report s = Some s'" "contexts s' K ?T" "stacks_ok (tcbs s') K ?T"
    "refines s' (a_pick ?b)" "a_inv (a_pick ?b)" "\<exists>t. current s' = Some t"
    "\<forall>u \<in> ?T. fast_check_stack (memory s') (tcbs s' u) = fast_check_stack (memory s) (tcbs s u)"
    and mem: "memory s' = write_words (psp s - 64) (sf_words (callee s)) (write_words (psp s - 32) (ef_words (core s)) (memory s))"
    and shape: "\<exists>cf ef p. s' = (snd (pick_next_locked (set_sp c (Some (psp s - 64)) ((exception_entry s)\<lparr>memory := memory s'\<rparr>))))
         \<lparr>callee := cf, core := ef, psp := p\<rparr>"
    using switch_spec [OF h(1,2) a(1,2) T c can, of report] by blast
  define s2 where "s2 = set_sp c (Some (psp s - 64)) ((exception_entry s)\<lparr>memory := memory s'\<rparr>)"
  obtain cf ef p where shape: "s' = (snd (pick_next_locked s2))\<lparr>callee := cf, core := ef, psp := p\<rparr>" using shape unfolding s2_def by blast
  note m = sched_more [OF pick_more(1) [of s2]]
  have f: "waiters s' = waiters s" "now_tick s' = now_tick s" "tq s' = tq s" "w_next s' = w_next s" "armed s' = armed s"
    "arm_valid s' = arm_valid s" unfolding shape using m by (simp_all add: s2_def set_sp_def exception_entry_def)
  have tm: "one_shot_ticks s' = one_shot_ticks s" "cycles_per_tick s' = cycles_per_tick s"
    unfolding shape using stk_more [OF m(1)] by (simp_all add: s2_def set_sp_def exception_entry_def)
  have tc: "stack_view (tcbs s' u) = stack_view (tcbs s u)" "task_priority (tcbs s' u) = task_priority (tcbs s u)" for u
    unfolding shape using pick_keeps(2) [of s2] pick_more(2) [of s2] by (simp_all add: s2_def set_sp_def exception_entry_def)
  have b: "a_prio (a_pick ?b) = a_prio a" "a_pend (a_pick ?b) = False" "a_tasks (a_pick ?b) = T"
    using a(5) by (simp_all add: a_pick_def a_requeue_def Let_def split: option.splits)
  have ib: "a_inv ?b" using a(2) by (simp add: a_inv_cong)
  have "settled (a_pick ?b)" using served_pick [OF ib] a(3) b(1) by (simp add: settled_def)
  moreover have "calm (a_pick ?b)" using pick_best [OF ib] by (auto simp: calm_def cur_runs_def)
  ultimately have "crew T qs s'" using inv(2) s'(4,5) b(3) f(1) by (auto simp: crew_def)
  moreover have "homes T K s'" using s' h(3) by (auto simp: homes_def)
  ultimately have "good T K qs s'" using inv(1,4) tk_inv_cong [OF f] tm by (simp add: good_def timer_ok_def)
  moreover have "\<not> pendsv s'" using s'(4) b(2) by (simp add: refines_def)
  moreover have Kc: "K c = (callee s, core s, psp s)" using h(1) c cT by (auto simp: contexts_def)
  moreover have "untouched u K s s'" if "u \<in> ?T" for u
    using save_untouched [OF h(2) cT that Kc] unfolding untouched_def mem by blast
  moreover have "closer t 0 s qs s' qs \<or> current s' = Some t" if "current s \<noteq> Some t" for t
  proof (cases "current s' = Some t")
    case False
    have "a_state (a_pick ?b) t = a_state ?b t"
      by (rule pick_states [OF ib]) (use that False refines_cur [OF a(1)] refines_cur [OF s'(4)] in simp_all)
    then have "tcb_state (tcbs s' t) = tcb_state (tcbs s t)" using refines_state [OF s'(4), of t] refines_state [OF a(1), of t] by simp
    then show ?thesis using closer_same [OF _ rel_cong [OF f(1,2)]] by blast
  qed simp
  ultimately show ?thesis using s'(1) tc by blast
qed

text \<open>A task that computes.\<close>

lemma stacks_ok_upd: "stacks_ok tc K T \<Longrightarrow> in_stack (tc t) p \<Longrightarrow> stacks_ok tc (K(t := (cf, ef, p))) T"
  by (simp add: stacks_ok_def)

lemma compute_step:
  fixes cf :: SoftwareFrame and ef :: ExceptionFrame
  assumes g: "good T K qs s" and c: "current s = Some t" and p: "in_stack (tcbs s t) p"
    and own: "own_memory (insert idle_task T) t (tcbs s) (memory s) m"
  defines "s' \<equiv> s\<lparr>callee := cf, core := ef, psp := p, memory := m\<rparr>"
  shows "good T (K(t := (cf, ef, p))) qs s'" and "u \<in> insert idle_task T \<Longrightarrow> u \<noteq> t \<Longrightarrow> untouched u K s s'"
proof -
  let ?T = "insert idle_task T" and ?K = "K(t := (cf, ef, p))"
  have inv: "tk_inv s qs" "crew T qs s" "homes T K s" "timer_ok s" using g by (simp_all add: good_def)
  have h: "contexts s K ?T" "stacks_ok (tcbs s) K ?T" "\<forall>u \<in> ?T. \<not> fast_check_stack (memory s) (tcbs s u)" using inv(3) by (simp_all add: homes_def)
  have ins: "in_stack (tcbs s u) (snd (snd (K u)))" if "u \<in> ?T" for u using h(2) that unfolding stacks_ok_def by blast
  have same: "m x = memory s x" if "u \<in> ?T" "span_data (stack_view (tcbs s u)) \<le> x" "x < stack_top (tcbs s u)"
    "u \<noteq> t \<or> x < span_data (stack_view (tcbs s t)) + 4 * kCanarySize" for u x
    using own that unfolding own_memory_def by blast
  have "parked s' u (?K u)" if u: "u \<in> ?T" "u \<noteq> t" for u
  proof -
    obtain sf ef' q where Ku: "K u = (sf, ef', q)" using prod_cases3 by blast
    have q: "in_stack (tcbs s u) q" using ins [OF u(1)] Ku by simp
    have "read_words b 8 m = read_words b 8 (memory s)" if "b = q - 64 \<or> b = q - 32" for b
      by (rule read_words_cong, rule same [OF u(1)]) (use that q u(2) in \<open>auto simp: in_stack_def stack_top_def\<close>)
    moreover have "parked s u (K u)" using h(1) u c by (auto simp: contexts_def)
    ultimately show ?thesis using u(2) by (simp add: Ku parked_def s'_def)
  qed
  then have k: "contexts s' ?K ?T" using c by (auto simp: contexts_def s'_def)
  have ok: "stacks_ok (tcbs s') ?K ?T" using stacks_ok_upd [OF h(2) p] by (simp add: s'_def)
  have "fast_check_stack m (tcbs s u) = fast_check_stack (memory s) (tcbs s u)" if u: "u \<in> ?T" for u
    unfolding fast_check_stack_def using same [OF u, of "span_at (stack_view (tcbs s u)) (kCanarySize - 1)"] ins [OF u]
    by (cases "u = t") (auto simp: in_stack_def stack_top_def span_at_def kCanarySize_def)
  then have "homes T ?K s'" using k ok h(3) c by (simp add: homes_def s'_def)
  moreover have "tk_inv s' qs" using inv(1) tk_inv_cong [of s' s] by (simp add: s'_def)
  moreover have "crew T qs s'" using inv(2) crew_cong [of s' s] by (simp add: s'_def)
  ultimately show "good T ?K qs s'" using inv(4) by (simp add: good_def timer_ok_def s'_def)
  show "untouched u K s s'" if "u \<in> ?T" "u \<noteq> t"
    using same [OF that(1)] ins [OF that(1)] that(2) by (auto simp: untouched_def s'_def in_stack_def)
qed

end
