(* ===== verification/Machine_Run.thy ===== *)
theory Machine_Run
  imports Machine_Step
begin

text \<open>
  Runs of the machine: any interleaving of the steps of \<open>Machine_Step\<close>. The properties are the composition of the
  components' own: the kernel keeps the tasks' contexts apart on every run, no handler or call can fail from a
  machine in order, and a task of the best priority is back on the processor when its sleep is over.
\<close>

section \<open>Runs\<close>

inductive mrun :: "addr set \<Rightarrow> 'a stk_scheme user \<Rightarrow> 'a stk_scheme reporter \<Rightarrow> label list \<Rightarrow> 'a mstate \<Rightarrow> 'a mstate \<Rightarrow> bool"
  for T user report where
  mrun_stop: "mrun T user report [] x x"
| mrun_step: "mstep T user report l x y \<Longrightarrow> mrun T user report ls y z \<Longrightarrow> mrun T user report (l # ls) x z"


inductive_cases mstep_computeE: "mstep T user report (Compute t) x y"

lemma untouched_trans:
  assumes "untouched u K s s1" and "untouched u K' s1 s2" and "K' u = K u" and "stack_view (tcbs s1 u) = stack_view (tcbs s u)"
  shows "untouched u K s s2"
  using assms by (simp add: untouched_def stack_top_def)

lemma still_untouched: "still s s' \<Longrightarrow> untouched u K s s'"
  by (simp add: still_def untouched_def)

text \<open>What a step does to the tasks that do not compute in it, and to those that are off the processor.\<close>

lemma step_frame:
  assumes "mstep T user report l (K, s) (K', s')" and g: "good T K qs s"
  shows "\<exists>qs'. good T K' qs' s' \<and> (\<forall>u. task_priority (tcbs s' u) = task_priority (tcbs s u))
    \<and> (\<forall>u. stack_view (tcbs s' u) = stack_view (tcbs s u))
    \<and> (\<forall>u \<in> insert idle_task T. l \<noteq> Compute u \<longrightarrow> K' u = K u \<and> untouched u K s s')
    \<and> (\<forall>t. current s \<noteq> Some t \<longrightarrow> closer t (if l = Tick then 1 else 0) s qs s' qs' \<or> current s' = Some t)"
  using assms(1)
proof (cases rule: mstep.cases)
  case (compute t p m cf ef)
  have "rel s' = rel s" by (rule rel_cong) (simp_all add: compute)
  then have "closer u 0 s qs s' qs" for u by (intro closer_same) (simp_all add: compute)
  then show ?thesis
    using compute compute_step [OF g compute(4,6,7), where cf = cf and ef = ef] by (intro exI [of _ qs]) auto
next
  case (call op r)
  obtain qs' where "good T K qs' s'" "still s s'" "\<forall>t. current s \<noteq> Some t \<longrightarrow> closer t 0 s qs s' qs'"
    using call_step [OF g call(3)] call(4) by auto
  then show ?thesis using call still_untouched [of s s'] by (intro exI [of _ qs']) (auto simp: still_def)
next
  case (sleep t span)
  obtain qs' where "good T K qs' s'" "still s s'" "\<forall>t. current s \<noteq> Some t \<longrightarrow> closer t 0 s qs s' qs'"
    using sleep_step [OF g sleep(3-6)] sleep(7) by auto
  then show ?thesis using sleep still_untouched [of s s'] by (intro exI [of _ qs']) (auto simp: still_def)
next
  case expires
  have "closer u 0 s qs s' qs" for u by (rule closer_same) (simp_all add: expires)
  moreover have "still s s'" using expires by simp
  ultimately show ?thesis using expires g still_untouched [of s s'] by (intro exI [of _ qs]) (auto simp: still_def)
next
  case tick
  obtain qs' where "good T K qs' s'" "still s s'" "\<forall>t. current s \<noteq> Some t \<longrightarrow> closer t 1 s qs s' qs'"
    using tick_step [OF g tick(4), of user] tick(5) by auto
  then show ?thesis using tick still_untouched [of s s'] by (intro exI [of _ qs']) (auto simp: still_def)
next
  case switch
  then show ?thesis using switch_step [OF g, of report] by (intro exI [of _ qs]) auto
next
  case arm
  obtain qs' where "good T K qs' s'" "still s s'" "\<forall>t. closer t 0 s qs s' qs'"
    using arm_step [OF g arm(5), of user] arm(6) by auto
  then show ?thesis using arm still_untouched [of s s'] by (intro exI [of _ qs']) (auto simp: still_def)
next
  case wake
  obtain qs' where "good T K qs' s'" "still s s'" "\<forall>t. closer t 0 s qs s' qs'"
    using bed_step [OF g, of user] wake(5) by auto
  then show ?thesis using wake still_untouched [of s s'] by (intro exI [of _ qs']) (auto simp: still_def)
qed

lemmas step_frame_pair = step_frame [of T user report l "fst x" "snd x" "fst y" "snd y" for T user report l x y, unfolded prod.collapse]

lemma run_frame:
  assumes "mrun T user report ls x y" and "good T (fst x) qs (snd x)"
  shows "\<exists>qs'. good T (fst y) qs' (snd y)
    \<and> (\<forall>u. stack_view (tcbs (snd y) u) = stack_view (tcbs (snd x) u))
    \<and> (\<forall>u \<in> insert idle_task T. Compute u \<notin> set ls \<longrightarrow> fst y u = fst x u \<and> untouched u (fst x) (snd x) (snd y))"
  using assms
proof (induction arbitrary: qs rule: mrun.induct)
  case (mrun_stop x)
  then show ?case by (auto simp: untouched_def)
next
  case (mrun_step l x y ls z)
  obtain qs1 where y: "good T (fst y) qs1 (snd y)" "\<forall>u. stack_view (tcbs (snd y) u) = stack_view (tcbs (snd x) u)"
    "\<forall>u \<in> insert idle_task T. l \<noteq> Compute u \<longrightarrow> fst y u = fst x u \<and> untouched u (fst x) (snd x) (snd y)"
    using step_frame_pair [OF mrun_step.hyps(1) mrun_step.prems] by blast
  obtain qs2 where z: "good T (fst z) qs2 (snd z)" "\<forall>u. stack_view (tcbs (snd z) u) = stack_view (tcbs (snd y) u)"
    "\<forall>u \<in> insert idle_task T. Compute u \<notin> set ls \<longrightarrow> fst z u = fst y u \<and> untouched u (fst y) (snd y) (snd z)"
    using mrun_step.IH [OF y(1)] by blast
  have "fst z u = fst x u \<and> untouched u (fst x) (snd x) (snd z)" if "u \<in> insert idle_task T" "Compute u \<notin> set (l # ls)" for u
  proof -
    have s1: "fst y u = fst x u" "untouched u (fst x) (snd x) (snd y)" using y(3) that by auto
    have s2: "fst z u = fst y u" "untouched u (fst y) (snd y) (snd z)" using z(3) that by auto
    show ?thesis using s1 s2 untouched_trans [OF s1(2) s2(2) s1(1)] y(2) by simp
  qed
  then show ?case using y(2) z(1,2) by (intro exI [of _ qs2]) simp
qed

text \<open>Runs during which a task is off the processor.\<close>

inductive mrun_off :: "addr set \<Rightarrow> 'a stk_scheme user \<Rightarrow> 'a stk_scheme reporter \<Rightarrow> addr \<Rightarrow> label list \<Rightarrow> 'a mstate \<Rightarrow> 'a mstate \<Rightarrow> bool"
  for T user report t where
  off_stop: "mrun_off T user report t [] x x"
| off_step: "current (snd x) \<noteq> Some t \<Longrightarrow> mstep T user report l x y \<Longrightarrow> mrun_off T user report t ls y z \<Longrightarrow>
    mrun_off T user report t (l # ls) x z"

inductive_cases off_NilE: "mrun_off T user report t [] x y"
inductive_cases off_ConsE: "mrun_off T user report t (l # ls) x y"

lemma off_run: "mrun_off T user report t ls x y \<Longrightarrow> mrun T user report ls x y \<and> Compute t \<notin> set ls"
proof (induction rule: mrun_off.induct)
  case (off_step x l y ls z)
  have "l \<noteq> Compute t" using off_step.hyps(1,2) by (auto elim: mstep_computeE)
  then show ?case using off_step by (auto intro: mrun.intros)
qed (auto intro: mrun.intros)

lemma off_closer:
  assumes "mrun_off T user report t ls x y" and "good T (fst x) qs (snd x)"
  shows "\<exists>qs'. good T (fst y) qs' (snd y) \<and> (\<forall>u. task_priority (tcbs (snd y) u) = task_priority (tcbs (snd x) u))
    \<and> (closer t (int (count_list ls Tick)) (snd x) qs (snd y) qs' \<or> current (snd y) = Some t)"
  using assms
proof (induction arbitrary: qs rule: mrun_off.induct)
  case (off_stop x)
  then show ?case using closer_same [of "snd x" t "snd x" qs] by auto
next
  case (off_step x l y ls z)
  obtain qs1 where y: "good T (fst y) qs1 (snd y)" "\<forall>u. task_priority (tcbs (snd y) u) = task_priority (tcbs (snd x) u)"
    "closer t (if l = Tick then 1 else 0) (snd x) qs (snd y) qs1 \<or> current (snd y) = Some t"
    using step_frame_pair [OF off_step.hyps(2) off_step.prems] off_step.hyps(1) by blast
  obtain qs2 where z: "good T (fst z) qs2 (snd z)" "\<forall>u. task_priority (tcbs (snd z) u) = task_priority (tcbs (snd y) u)"
    "closer t (int (count_list ls Tick)) (snd y) qs1 (snd z) qs2 \<or> current (snd z) = Some t"
    using off_step.IH [OF y(1)] by blast
  have "closer t (int (count_list (l # ls) Tick)) (snd x) qs (snd z) qs2 \<or> current (snd z) = Some t"
  proof (cases "current (snd y) = Some t")
    case True
    then have "z = y" using off_step.hyps(3) by (cases ls) (auto elim: off_NilE off_ConsE)
    then show ?thesis using True by simp
  next
    case False
    then show ?thesis
      using y(3) z(3) closer_trans [of t "if l = Tick then 1 else 0" "snd x" qs "snd y" qs1 "int (count_list ls Tick)" "snd z" qs2]
      by (auto simp: add.commute split: if_splits)
  qed
  then show ?case using y(2) z(1,2) by (intro exI [of _ qs2]) simp
qed

section \<open>Properties\<close>

text \<open>C2: the machine keeps its tasks apart. From a machine in order, whatever the tasks compute, call and sleep, and
  however ticks, switches and the idle task's bed interleave with it, the machine stays in order: the
  scheduler's and the time kernel's invariants hold, every context is where the next switch finds it, no
  canary is eaten. A task that has not computed meanwhile still has the registers and the live stack words
  it had, and when it is on the processor these registers are the processor's.\<close>

theorem machine_keeps_tasks_apart:
  assumes inv: "machine_inv T (K, s)" and run: "mrun T user report ls (K, s) (K', s')"
  shows "machine_inv T (K', s')
    \<and> (\<forall>u \<in> insert idle_task T. Compute u \<notin> set ls \<longrightarrow> K' u = K u \<and> untouched u K s s'
         \<and> (current s' = Some u \<longrightarrow> (callee s', core s', psp s') = K u))
    \<and> (\<forall>u \<in> insert idle_task T. \<not> fast_check_stack (memory s') (tcbs s' u))"
proof -
  obtain qs where g: "good T K qs s" using inv by (auto simp: machine_inv_def)
  obtain qs' where g': "good T K' qs' s'"
    "\<forall>u \<in> insert idle_task T. Compute u \<notin> set ls \<longrightarrow> K' u = K u \<and> untouched u K s s'"
    using run_frame [OF run, unfolded fst_conv snd_conv, OF g] by blast
  have "homes T K' s'" using g'(1) by (simp add: good_def)
  then have h: "contexts s' K' (insert idle_task T)" "\<forall>u \<in> insert idle_task T. \<not> fast_check_stack (memory s') (tcbs s' u)"
    by (simp_all add: homes_def)
  have "(callee s', core s', psp s') = K u" if "u \<in> insert idle_task T" "Compute u \<notin> set ls" "current s' = Some u" for u
    using h(1) g'(2) that unfolding contexts_def by metis
  then show ?thesis using g' h(2) by (auto simp: machine_inv_def)
qed

text \<open>C14: the machine is never stuck. In a machine in order a pending switch can be taken; with none pending, a pending
  tick can be taken, the running task can go to sleep, and the idle task can arm and leave its bed; and
  every proper call returns. No check fails and no handler runs into a null pointer.\<close>

theorem machine_never_stuck:
  assumes inv: "machine_inv T (K, s)"
  shows "(pendsv s \<longrightarrow> (\<exists>y. mstep T user report Switch (K, s) y))
    \<and> (\<not> pendsv s \<and> systick_pending s \<longrightarrow> (\<exists>y. mstep T user report Tick (K, s) y))
    \<and> (\<forall>span. \<not> pendsv s \<and> current s \<noteq> Some idle_task \<and> 0 \<le> sint span \<longrightarrow> (\<exists>y. mstep T user report (Sleep span) (K, s) y))
    \<and> (\<not> pendsv s \<and> current s = Some idle_task \<longrightarrow> (\<exists>y. mstep T user report Wake (K, s) y)
        \<and> (one_shot_ticks s = 0 \<longrightarrow> (\<exists>y. mstep T user report Arm (K, s) y)))
    \<and> (\<forall>op. call_ok T op s \<longrightarrow> (\<exists>y. mstep T user report (Call op) (K, s) y))"
proof -
  obtain qs where g: "good T K qs s" using inv by (auto simp: machine_inv_def)
  obtain c where c: "current s = Some c" using g by (auto simp: good_def homes_def)
  have "\<exists>y. mstep T user report Switch (K, s) y" if "pendsv s"
    using switch_step [OF g, of report] mstep.switch [OF that] by blast
  moreover have "\<exists>y. mstep T user report Tick (K, s) y" if "\<not> pendsv s" "systick_pending s"
    using tick_step [OF g that(1), of user] mstep.tick [OF that(2,1)] by blast
  moreover have "\<exists>y. mstep T user report (Sleep span) (K, s) y" if "\<not> pendsv s" "current s \<noteq> Some idle_task" "0 \<le> sint span" for span
    using sleep_step [OF g c _ that(1,3)] mstep.sleep [OF c _ that(1,3)] that(2) c by blast
  moreover have "\<exists>y. mstep T user report Wake (K, s) y" if "\<not> pendsv s" "current s = Some idle_task"
    using bed_step [OF g, of user] mstep.wake [OF that(2,1)] by blast
  moreover have "\<exists>y. mstep T user report Arm (K, s) y" if "\<not> pendsv s" "current s = Some idle_task" "one_shot_ticks s = 0"
    using arm_step [OF g that(3), of user] mstep.arm [OF that(2,1,3)] by blast
  moreover have "\<exists>y. mstep T user report (Call op) (K, s) y" if "call_ok T op s" for op
    using call_step [OF g that] mstep.call [OF that] by blast
  ultimately show ?thesis by blast
qed

text \<open>C5: a sleeper of the best priority is back on the processor in time. Take a sleeping task that outranks all others,
  with at most \<open>n\<close> ticks left. On whatever run the machine takes while the task is off the processor, once \<open>n\<close>
  ticks have been taken and no switch is pending, the task is the one that runs, with the registers and the live
  stack it went to sleep with.\<close>

theorem best_sleeper_back_in_time:
  assumes inv: "good T K qs s" and t: "tcb_state (tcbs s t) = Blocked" "TaskAction t \<in> set qs" "rel s (TaskAction t) \<le> int n"
    and best: "\<forall>u \<in> T - {t}. task_priority (tcbs s t) < task_priority (tcbs s u)"
    and run: "mrun_off T user report t ls (K, s) (K', s')" and n: "0 < n" "n \<le> count_list ls Tick" and quiet: "\<not> pendsv s'"
  shows "current s' = Some t \<and> (callee s', core s', psp s') = K t \<and> untouched t K s s'"
proof -
  obtain qs' where s': "good T K' qs' s'" "\<forall>u. task_priority (tcbs s' u) = task_priority (tcbs s u)"
    "closer t (int (count_list ls Tick)) s qs s' qs' \<or> current s' = Some t"
    using off_closer [OF run] inv by auto
  have inv': "tk_inv s' qs'" "crew T qs' s'" "homes T K' s'" using s'(1) by (simp_all add: good_def)
  obtain a where a: "refines s' a" "a_inv a" "settled a" "calm a" "a_tasks a = T" using inv'(2) by (auto simp: crew_def)
  have tT: "t \<in> T" using inv t(2) by (auto simp: good_def crew_def)
  have cur: "current s' = Some t"
  proof (rule ccontr)
    assume ne: "current s' \<noteq> Some t"
    then have cl: "closer t (int (count_list ls Tick)) s qs s' qs'" using s'(3) by simp
    have "tcb_state (tcbs s' t) = Ready"
    proof (rule ccontr)
      assume "tcb_state (tcbs s' t) \<noteq> Ready"
      then have "rel s' (TaskAction t) \<le> rel s (TaskAction t) - int (count_list ls Tick)"
        "0 < rel s' (TaskAction t) \<or> rel s' (TaskAction t) = rel s (TaskAction t)"
        using cl t(1,2) by (auto simp: closer_def)
      then show False using t(3) n by linarith
    qed
    then have "t \<in> queued (a_queue a)"
      using refines_state [OF a(1), of t] a_inv_level [OF a(2), of t] tT a(5) by (auto simp: queued_def a_inv_queue(1) [OF a(2)])
    moreover have "served a" using a(1,3) quiet by (simp add: settled_def refines_def)
    moreover obtain c where c: "current s' = Some c" using inv'(3) by (auto simp: homes_def)
    ultimately have "a_prio a c \<le> a_prio a t" using refines_cur [OF a(1)] by (simp add: served_def)
    then have le: "task_priority (tcbs s c) \<le> task_priority (tcbs s t)" using refines_prio [OF a(1)] s'(2) by simp
    have "c \<noteq> idle_task"
    proof
      assume "c = idle_task"
      then have "kIdlePrio \<le> a_prio a t" using \<open>a_prio a c \<le> a_prio a t\<close> a(3) by (simp add: settled_def)
      then show False using a_inv_level [OF a(2), of t] tT a(5) by (simp add: a_level_def kIdlePrio_def word_le_nat_alt)
    qed
    then have "c \<in> T - {t}" using a_inv_cur [OF a(2)] refines_cur [OF a(1)] c a(5) ne by auto
    then show False using best le by (meson leD)
  qed
  moreover have r: "mrun T user report ls (K, s) (K', s')" "Compute t \<notin> set ls" using off_run [OF run] by auto
  moreover have "K' t = K t" "untouched t K s s'" using run_frame [OF r(1), unfolded fst_conv snd_conv, OF inv] r(2) tT by blast+
  ultimately show ?thesis using inv'(3) tT by (auto simp: homes_def contexts_def)
qed

text \<open>A machine with task 1 asleep and the idle task on the processor.\<close>

definition chip_memory :: mem where
  "chip_memory = (\<lambda>x. if x = 1028 \<or> x = 2028 then kCanaryWord else 0)"

definition asleep_chip :: "sys \<Rightarrow> stk" where
  "asleep_chip s = sys.extend (s\<lparr>pendsv := False,
       tcbs := (\<lambda>t. (tcbs s t)\<lparr>stack_view := two_stacks t, stack_pointer := Some (if t = 1 then 2192 else 1064)\<rparr>)\<rparr>)
     \<lparr>memory = chip_memory, psp = 1128, callee = sf_zero, core = ef_of (replicate 8 0), shpr3 = 0, overflow_reporter = None,
      task_arena = Arena_new 0 0, syst_csr = 7, syst_rvr = 7999, syst_cvr = 0, count_flag = False, systick_pending = False,
      nvic_icpr = [], cycles_per_tick = 8000, one_shot_ticks = 0, zeros_tick_periodic = 0, zeros_tick_oneshot = 0\<rparr>"

definition chip_contexts :: "addr \<Rightarrow> ctx" where
  "chip_contexts t = (sf_zero, ef_of (replicate 8 0), if t = 1 then 2256 else 1128)"

lemma chip_homes:
  assumes "current s = Some idle_task"
  shows "homes {1} chip_contexts (asleep_chip s)"
proof -
  let ?s = "asleep_chip s"
  have f: "current ?s = Some idle_task" "memory ?s = chip_memory" "callee ?s = sf_zero" "core ?s = ef_of (replicate 8 0)" "psp ?s = 1128"
    "stack_view (tcbs ?s t) = two_stacks t" "stack_pointer (tcbs ?s t) = Some (if t = 1 then 2192 else 1064)" for t
    using assms by (simp_all add: asleep_chip_def sys.defs)
  have "read_words 2192 8 chip_memory = replicate 8 0" "read_words 2224 8 chip_memory = replicate 8 0"
    by (simp_all add: read_words_def chip_memory_def upt_conv_Cons numeral_eq_Suc del: upt_Suc) 
  then have "contexts ?s chip_contexts {idle_task, 1}"
    by (simp add: contexts_def parked_def f chip_contexts_def idle_task_def sf_words_def sf_zero_def ef_words_def ef_of_def numeral_eq_Suc)
  moreover have "stacks_ok (tcbs ?s) chip_contexts {idle_task, 1}"
    by (simp add: stacks_ok_def in_stack_def f chip_contexts_def two_stacks_def idle_task_def kCanarySize_def)
  moreover have "\<not> fast_check_stack (memory ?s) (tcbs ?s u)" if "u \<in> {idle_task, 1}" for u
    using that by (auto simp: fast_check_stack_def f chip_memory_def two_stacks_def idle_task_def kCanarySize_def span_at_def)
  ultimately show ?thesis using f(1) by (simp add: homes_def)
qed

lemma asleep_good:
  fixes s :: sys
  assumes tk: "tk_inv s [TaskAction 1]" and sl: "sleepers {1} [TaskAction 1] s" and c: "current s = Some idle_task"
    and b: "tcb_state (tcbs s 1) = Blocked" and idle: "task_priority (tcbs s idle_task) = kIdlePrio"
  shows "good {1} chip_contexts [TaskAction 1] (asleep_chip s)" "rel (asleep_chip s) = rel s" "\<not> pendsv (asleep_chip s)"
    "current (asleep_chip s) = Some idle_task" "tcb_state (tcbs (asleep_chip s) 1) = Blocked"
proof -
  let ?s = "asleep_chip s"
  have f: "waiters ?s = waiters s" "now_tick ?s = now_tick s" "tq ?s = tq s" "w_next ?s = w_next s" "armed ?s = armed s"
    "arm_valid ?s = arm_valid s" by (simp_all add: asleep_chip_def sys.defs)
  show rel: "rel ?s = rel s" using f(1,2) by (simp add: rel_def fun_eq_iff)
  show "\<not> pendsv ?s" "current ?s = Some idle_task" "tcb_state (tcbs ?s 1) = Blocked"
    using c b by (simp_all add: asleep_chip_def sys.defs)
  obtain a where a: "refines s a" "a_inv a" "a_tasks a = {1}" "OnTime (waiters s (TaskAction 1)) = Some WakeFromSleep"
    using sl by (auto simp: sleepers_def)
  let ?a = "a\<lparr>a_pend := False\<rparr>"
  have r: "refines ?s ?a" using a(1) by (simp add: refines_def levels_def asleep_chip_def sys.defs mail_of_def fun_eq_iff)
  have "queued (a_queue a) = {}"
    using a_inv_queue(1) [OF a(2)] a(3) b refines_state [OF a(1), of 1] by (auto simp: queued_def)
  then have "settled ?a" using idle refines_prio [OF a(1), of idle_task] by (simp add: settled_def served_def)
  moreover have "calm ?a" using refines_cur [OF a(1)] c by (simp add: calm_def cur_runs_def)
  moreover have "a_inv ?a" using a(2) by (simp add: a_inv_cong)
  ultimately have "crew {1} [TaskAction 1] ?s" using r a(3,4) f(1) unfolding crew_def by (intro conjI exI [of _ ?a]) simp_all
  moreover have "tk_inv ?s [TaskAction 1]"
    using tk f rel by (simp add: tk_inv_def tq_inv_def alarm_inv_def by_rel_def half_circle_def)
  moreover have "timer_ok ?s" by (simp add: timer_ok_def asleep_chip_def sys.defs)
  ultimately show "good {1} chip_contexts [TaskAction 1] ?s" using chip_homes [OF c] by (simp add: good_def)
qed

lemma asleep_machine:
  obtains s :: stk where "good {1} chip_contexts [TaskAction 1] s" "rel s (TaskAction 1) = 1" "\<not> pendsv s"
    "current s = Some idle_task" "tcb_state (tcbs s 1) = Blocked"
proof -
  obtain s :: sys where s: "tk_inv s [TaskAction 1]" "sleepers {1} [TaskAction 1] s" "rel s (TaskAction 1) = sint (1 :: u32)"
    "current s = Some idle_task" "tcb_state (tcbs s 1) = Blocked" "task_priority (tcbs s idle_task) = kIdlePrio"
    using one_asleep [of 1] by auto
  show thesis using that [of "asleep_chip s"] asleep_good [OF s(1,2,4-6)] s(3) by simp
qed

text \<open>The tick that ends the sleep, and the switch it asks for.\<close>

lemma asleep_runs:
  assumes g: "good {1} K [TaskAction 1] s" and np: "\<not> pendsv s" and c: "current s = Some idle_task"
  obtains ls s' where "mrun_off {1} user report 1 ls (K, s) (K, s')" "count_list ls Tick = 1" "\<not> pendsv s'" "\<forall>u. Compute u \<notin> set ls"
proof -
  have e: "good {1} K [TaskAction 1] (expire s)" "\<not> pendsv (expire s)" "systick_pending (expire s)" "current (expire s) \<noteq> Some 1"
    using g np c by (simp_all add: expire_def idle_task_def)
  obtain s2 qs2 where s2: "take_SysTick (react user) (expire s) = Some s2" "good {1} K qs2 s2" "still (expire s) s2"
    using tick_step [OF e(1,2), of user] by blast
  have c2: "current s2 \<noteq> Some 1" using s2(3) c by (simp add: still_def idle_task_def)
  have st: "mstep {1} user report Expire (K, s) (K, expire s)" "mstep {1} user report Tick (K, expire s) (K, s2)"
    by (rule mstep.expires, rule mstep.tick [OF e(3,2) s2(1)])
  show thesis
  proof (cases "pendsv s2")
    case True
    obtain s3 where s3: "take_PendSV report s2 = Some s3" "\<not> pendsv s3" using switch_step [OF s2(2), of report] by blast
    have "mrun_off {1} user report 1 [Expire, Tick, Switch] (K, s) (K, s3)"
      using st mstep.switch [OF True s3(1)] e(4) c2 c by (intro off_step [where y = "(K, expire s)"] off_step [where y = "(K, s2)"]
          off_step [where y = "(K, s3)"] off_stop) (simp_all add: idle_task_def)
    then show thesis by (rule that) (use s3(2) in simp_all)
  next
    case False
    have "mrun_off {1} user report 1 [Expire, Tick] (K, s) (K, s2)"
      using st e(4) c by (intro off_step [where y = "(K, expire s)"] off_step [where y = "(K, s2)"] off_stop) (simp_all add: idle_task_def)
    then show thesis by (rule that) (use False in simp_all)
  qed
qed

theorem machine_keeps_tasks_apart_witness:
  "\<exists>ls (s :: stk) s'. mrun {1} (\<lambda>f x s. Some s) (\<lambda>f t n s. None) ls (chip_contexts, s) (chip_contexts, s')
     \<and> count_list ls Tick = 1 \<and> machine_inv {1} (chip_contexts, s')"
proof -
  obtain s :: stk where s: "good {1} chip_contexts [TaskAction 1] s" "\<not> pendsv s" "current s = Some idle_task" using asleep_machine by blast
  obtain ls s' where r: "mrun_off {1} (\<lambda>f x s. Some s) (\<lambda>f t n s. None) 1 ls (chip_contexts, s) (chip_contexts, s')" "count_list ls Tick = 1"
    using asleep_runs [OF s] by blast
  have i: "machine_inv {1} (chip_contexts, s)" using s(1) by (auto simp: machine_inv_def)
  note run = off_run [OF r(1), THEN conjunct1]
  from machine_keeps_tasks_apart [OF i run] r(2) run show ?thesis by blast
qed

theorem machine_never_stuck_witness:
  "\<exists>(s :: stk) y. mstep {1} (\<lambda>f x s. Some s) (\<lambda>f t n s. None) Wake (chip_contexts, s) y"
proof -
  obtain s :: stk where s: "good {1} chip_contexts [TaskAction 1] s" "\<not> pendsv s" "current s = Some idle_task" using asleep_machine by blast
  have i: "machine_inv {1} (chip_contexts, s)" using s(1) by (auto simp: machine_inv_def)
  show ?thesis using machine_never_stuck [OF i, of "\<lambda>f x s. Some s" "\<lambda>f t n s. None"] s(2,3) by blast
qed

theorem best_sleeper_back_in_time_witness:
  "\<exists>ls (s :: stk) s'. mrun_off {1} (\<lambda>f x s. Some s) (\<lambda>f t n s. None) 1 ls (chip_contexts, s) (chip_contexts, s')
     \<and> current s' = Some 1 \<and> psp s' = 2256"
proof -
  obtain s :: stk where s: "good {1} chip_contexts [TaskAction 1] s" "rel s (TaskAction 1) = 1" "\<not> pendsv s" "current s = Some idle_task"
    "tcb_state (tcbs s 1) = Blocked" by (rule asleep_machine)
  obtain ls s' where r: "mrun_off {1} (\<lambda>f x s. Some s) (\<lambda>f t n s. None) 1 ls (chip_contexts, s) (chip_contexts, s')" "count_list ls Tick = 1"
    "\<not> pendsv s'" using asleep_runs [OF s(1,3,4)] by blast
  have "current s' = Some 1 \<and> (callee s', core s', psp s') = chip_contexts 1"
    using best_sleeper_back_in_time [OF s(1) s(5), of 1, OF _ _ _ r(1) _ _ r(3)] s(2) r(2) by simp
  then show ?thesis using r(1) by (auto simp: chip_contexts_def)
qed

end
