(* ===== verification/Semaphore.thy ===== *)
theory Semaphore
  imports System_Face
begin

text \<open>
  The counting semaphore of \<^verbatim>\<open>include/ZerOS/kernel/sync/semaphore.hpp\<close>, and the stores that all the
  synchronisation objects share: waiter nodes (locals of the waiting call, threaded into an object's
  list) and the objects by address. One turn of a waiting loop is one critical section and one
  definition; between two turns the caller is parked and the rest of the system, the parameter
  \<open>world\<close>, runs.
\<close>

section \<open>Nodes and objects\<close>

record sema =
  sem_count :: u32
  sem_waiters :: "addr self_list"

record mutex =
  owner :: "addr option"
  saved_prio :: TaskPriority_t
  boosted :: bool
  mtx_waiters :: "addr self_list"

record event_group =
  ev_bits :: u32
  ev_waiters :: "addr self_list"

record wn = sys +
  node_next :: "addr links"
  node_task :: "addr \<Rightarrow> addr option"
  node_prio :: "addr \<Rightarrow> TaskPriority_t"
  semas :: "addr \<Rightarrow> sema"
  mutexes :: "addr \<Rightarrow> mutex"
  events :: "addr \<Rightarrow> event_group"

text \<open>A node constructed for a task: its \<open>next\<close> pointer is null.\<close>

definition SemaWaiter_new :: "addr \<Rightarrow> addr option \<Rightarrow> 'a wn_scheme \<Rightarrow> 'a wn_scheme" where
  "SemaWaiter_new me task s = s\<lparr>node_next := (node_next s)(me := None), node_task := (node_task s)(me := task)\<rparr>"

definition Semaphore_new :: "u32 \<Rightarrow> sema" where
  "Semaphore_new initial = \<lparr>sem_count = initial, sem_waiters = SelfList_new\<rparr>"

text \<open>List operations on the waiters of semaphore \<open>m\<close>.\<close>

definition set_sema :: "addr \<Rightarrow> sema \<Rightarrow> 'a wn_scheme \<Rightarrow> 'a wn_scheme" where
  "set_sema m v s = s\<lparr>semas := (semas s)(m := v)\<rparr>"

definition sem_insert :: "addr \<Rightarrow> addr \<Rightarrow> 'a wn_scheme \<Rightarrow> 'a wn_scheme option" where
  "sem_insert m me s = map_option
     (\<lambda>(l, nx). set_sema m ((semas s m)\<lparr>sem_waiters := l\<rparr>) (s\<lparr>node_next := nx\<rparr>))
     (SelfList_insert AlwaysFalse me (sem_waiters (semas s m), node_next s))"

definition sem_remove :: "addr \<Rightarrow> addr \<Rightarrow> 'a wn_scheme \<Rightarrow> 'a wn_scheme option" where
  "sem_remove m me s = map_option
     (\<lambda>(_, l, nx). set_sema m ((semas s m)\<lparr>sem_waiters := l\<rparr>) (s\<lparr>node_next := nx\<rparr>))
     (SelfList_remove me (sem_waiters (semas s m), node_next s))"

section \<open>The operations\<close>

text \<open>One turn of \<open>acquire\<close>: \<open>True\<close> when the unit was taken.\<close>

definition acquire_turn :: "addr \<Rightarrow> addr \<Rightarrow> addr option \<Rightarrow> 'a wn_scheme \<Rightarrow> (bool \<times> 'a wn_scheme) option" where
  "acquire_turn m me task s =
     (let s0 = sys_lock s
      in if sem_count (semas s0 m) > 0
         then do {
           s1 \<leftarrow> sem_remove m me (set_sema m ((semas s0 m)\<lparr>sem_count := sem_count (semas s0 m) - 1\<rparr>) s0);
           Some (True, sys_unlock s1)
         }
         else do {
           s1 \<leftarrow> sem_insert m me s0;
           Some (False, sys_unlock (sys_block task s1))
         })"

partial_function (option) acquire_loop ::
  "('a wn_scheme \<Rightarrow> 'a wn_scheme option) \<Rightarrow> addr \<Rightarrow> addr \<Rightarrow> addr option \<Rightarrow> 'a wn_scheme \<Rightarrow> 'a wn_scheme option" where
  "acquire_loop world m me task s =
     (case acquire_turn m me task s of None \<Rightarrow> None
      | Some (done, s1) \<Rightarrow>
          if done then Some s1
          else (case world s1 of None \<Rightarrow> None | Some s2 \<Rightarrow> acquire_loop world m me task s2))"

definition acquire ::
  "('a wn_scheme \<Rightarrow> 'a wn_scheme option) \<Rightarrow> addr \<Rightarrow> addr \<Rightarrow> 'a wn_scheme \<Rightarrow> 'a wn_scheme option" where
  "acquire world m me s =
     (let task = sys_current_task s in acquire_loop world m me task (SemaWaiter_new me task s))"

text \<open>One turn of \<open>try_acquire\<close>: a verdict, or none yet.\<close>

definition try_acquire_turn :: "addr \<Rightarrow> addr \<Rightarrow> tick \<Rightarrow> 'a wn_scheme \<Rightarrow> (SyncError option \<times> 'a wn_scheme) option" where
  "try_acquire_turn m me ddl s =
     (let s0 = sys_lock s
      in if sem_count (semas s0 m) > 0
         then do {
           s1 \<leftarrow> sem_remove m me (set_sema m ((semas s0 m)\<lparr>sem_count := sem_count (semas s0 m) - 1\<rparr>) s0);
           Some (Some Ok, sys_unlock s1)
         }
         else let left = sint (ddl - sys_now s0)
              in if left \<le> 0
                 then do { s1 \<leftarrow> sem_remove m me s0; Some (Some TimedOut, sys_unlock s1) }
                 else do {
                   s1 \<leftarrow> sem_insert m me s0;
                   s2 \<leftarrow> sys_sleep_for (sys_current_task s1) (word_of_int left) s1;
                   Some (None, sys_unlock s2)
                 })"

partial_function (option) try_acquire_loop ::
  "('a wn_scheme \<Rightarrow> 'a wn_scheme option) \<Rightarrow> addr \<Rightarrow> addr \<Rightarrow> tick \<Rightarrow> 'a wn_scheme \<Rightarrow>
     (SyncError \<times> 'a wn_scheme) option" where
  "try_acquire_loop world m me ddl s =
     (case try_acquire_turn m me ddl s of None \<Rightarrow> None
      | Some (verdict, s1) \<Rightarrow>
          (case verdict of Some v \<Rightarrow> Some (v, s1)
           | None \<Rightarrow> (case world s1 of None \<Rightarrow> None | Some s2 \<Rightarrow> try_acquire_loop world m me ddl s2)))"

definition try_acquire ::
  "('a wn_scheme \<Rightarrow> 'a wn_scheme option) \<Rightarrow> addr \<Rightarrow> addr \<Rightarrow> Milliseconds \<Rightarrow> 'a wn_scheme \<Rightarrow>
     (SyncError \<times> 'a wn_scheme) option" where
  "try_acquire world m me t s =
     try_acquire_loop world m me (sys_now s + t) (SemaWaiter_new me (sys_current_task s) s)"

definition release_body :: "addr \<Rightarrow> 'a wn_scheme \<Rightarrow> 'a wn_scheme" where
  "release_body m s =
     (let s1 = set_sema m ((semas s m)\<lparr>sem_count := sem_count (semas s m) + 1\<rparr>) s;
          (head, l, nx) = SelfList_pop_head (sem_waiters (semas s1 m), node_next s1);
          s2 = set_sema m ((semas s1 m)\<lparr>sem_waiters := l\<rparr>) (s1\<lparr>node_next := nx\<rparr>)
      in case head of None \<Rightarrow> s2 | Some w \<Rightarrow> sys_ready (node_task s2 w) s2)"

definition release :: "addr \<Rightarrow> 'a wn_scheme \<Rightarrow> 'a wn_scheme" where
  "release m = CriticalGuard sys_lock sys_unlock (release_body m)"

section \<open>Frames\<close>

text \<open>Scheduler and time kernel calls leave the waiters' nodes and the objects alone.\<close>

lemma nodes_lock [simp]:
  "node_next (sys_lock s) = node_next s" "node_task (sys_lock s) = node_task s" "node_prio (sys_lock s) = node_prio s"
  "semas (sys_lock s) = semas s" "mutexes (sys_lock s) = mutexes s" "events (sys_lock s) = events s"
  "node_next (sys_unlock s) = node_next s" "node_task (sys_unlock s) = node_task s" "node_prio (sys_unlock s) = node_prio s"
  "semas (sys_unlock s) = semas s" "mutexes (sys_unlock s) = mutexes s" "events (sys_unlock s) = events s"
  "node_next (sched_lock s) = node_next s" "node_task (sched_lock s) = node_task s" "node_prio (sched_lock s) = node_prio s"
  "semas (sched_lock s) = semas s" "mutexes (sched_lock s) = mutexes s" "events (sched_lock s) = events s"
  "node_next (sched_unlock s) = node_next s" "node_task (sched_unlock s) = node_task s" "node_prio (sched_unlock s) = node_prio s"
  "semas (sched_unlock s) = semas s" "mutexes (sched_unlock s) = mutexes s" "events (sched_unlock s) = events s"
  by (simp_all add: sys_lock_def sys_unlock_def sched_lock_def sched_unlock_def crit_lock_def crit_unlock_def
      write_basepri_def Let_def)

lemma nodes_time [simp]:
  "node_next (time_lock s) = node_next s" "node_task (time_lock s) = node_task s" "node_prio (time_lock s) = node_prio s"
  "semas (time_lock s) = semas s" "mutexes (time_lock s) = mutexes s" "events (time_lock s) = events s"
  "node_next (time_unlock s) = node_next s" "node_task (time_unlock s) = node_task s" "node_prio (time_unlock s) = node_prio s"
  "semas (time_unlock s) = semas s" "mutexes (time_unlock s) = mutexes s" "events (time_unlock s) = events s"
  "node_next (update_alarm s) = node_next s" "node_task (update_alarm s) = node_task s" "node_prio (update_alarm s) = node_prio s"
  "semas (update_alarm s) = semas s" "mutexes (update_alarm s) = mutexes s" "events (update_alarm s) = events s"
  by (simp_all add: time_lock_def time_unlock_def crit_lock_def crit_unlock_def write_basepri_def update_alarm_def
      Let_def split: option.splits)

lemma nodes_push [simp]:
  "node_next (sched_push_back t s) = node_next s" "node_task (sched_push_back t s) = node_task s" "node_prio (sched_push_back t s) = node_prio s"
  "semas (sched_push_back t s) = semas s" "mutexes (sched_push_back t s) = mutexes s" "events (sched_push_back t s) = events s"
  "node_next (set_tcb_state t v s) = node_next s" "node_task (set_tcb_state t v s) = node_task s" "node_prio (set_tcb_state t v s) = node_prio s"
  "semas (set_tcb_state t v s) = semas s" "mutexes (set_tcb_state t v s) = mutexes s" "events (set_tcb_state t v s) = events s"
  "node_next (request_switch s) = node_next s" "node_task (request_switch s) = node_task s" "node_prio (request_switch s) = node_prio s"
  "semas (request_switch s) = semas s" "mutexes (request_switch s) = mutexes s" "events (request_switch s) = events s"
  "node_next (set_priority t p s) = node_next s" "node_task (set_priority t p s) = node_task s" "node_prio (set_priority t p s) = node_prio s"
  "semas (set_priority t p s) = semas s" "mutexes (set_priority t p s) = mutexes s" "events (set_priority t p s) = events s"
  by (simp_all add: sched_push_back_def set_tcb_state_def request_switch_def set_priority_def Let_def split: prod.splits)

lemma nodes_call [simp]:
  "node_next (sched_ready t s) = node_next s" "node_task (sched_ready t s) = node_task s" "node_prio (sched_ready t s) = node_prio s"
  "semas (sched_ready t s) = semas s" "mutexes (sched_ready t s) = mutexes s" "events (sched_ready t s) = events s"
  "node_next (sched_block t s) = node_next s" "node_task (sched_block t s) = node_task s" "node_prio (sched_block t s) = node_prio s"
  "semas (sched_block t s) = semas s" "mutexes (sched_block t s) = mutexes s" "events (sched_block t s) = events s"
  by (simp_all add: sched_ready_def sched_block_def CriticalGuard_def Let_def split: option.splits)

lemma set_sema_sel [simp]:
  "semas (set_sema m v s) = (semas s)(m := v)" "node_next (set_sema m v s) = node_next s"
  "node_task (set_sema m v s) = node_task s" "tcbs (set_sema m v s) = tcbs s" "current (set_sema m v s) = current s"
  "now_tick (set_sema m v s) = now_tick s" "waiters (set_sema m v s) = waiters s" "tq (set_sema m v s) = tq s"
  "w_next (set_sema m v s) = w_next s" "armed (set_sema m v s) = armed s" "arm_valid (set_sema m v s) = arm_valid s"
  by (simp_all add: set_sema_def)

lemma sys_lock_sched [simp]:
  "tcbs (sys_lock s) = tcbs s" "current (sys_lock s) = current s" "tcbs (sys_unlock s) = tcbs s"
  "current (sys_unlock s) = current s" "pendsv (sys_unlock s) = pendsv s" "pendsv (sys_lock s) = pendsv s"
  by (simp_all add: sys_lock_def sys_unlock_def crit_lock_def crit_unlock_def write_basepri_def Let_def)

lemma block_sched [simp]:
  "current (sched_block b s) = current s"
  "tcbs (sched_block (Some t) s) = (tcbs s)(t := (tcbs s t)\<lparr>tcb_state := Blocked\<rparr>)"
  by (auto simp: sched_block_def CriticalGuard_def Let_def set_tcb_state_def request_switch_def split: option.splits)

text \<open>The objects and their nodes are no part of what the scheduler represents.\<close>

lemma sys_lock_refines [simp]: "refines (sys_lock s) a = refines s a" "refines (sys_unlock s) a = refines s a"
  by (simp_all add: sys_lock_def sys_unlock_def crit_lock_def crit_unlock_def write_basepri_def Let_def refines_def levels_def)

lemma node_next_refines [simp]: "refines (s\<lparr>node_next := nx\<rparr>) a = refines s a"
  by (simp add: refines_def levels_def)

lemma set_sema_refines [simp]: "refines (set_sema m v s) a = refines s a"
  by (simp add: set_sema_def refines_def levels_def)

section \<open>Waiting lists\<close>

definition sem_holds :: "'a wn_scheme \<Rightarrow> addr \<Rightarrow> addr list \<Rightarrow> bool" where
  "sem_holds s m ws \<longleftrightarrow> rep (sem_waiters (semas s m), node_next s) ws"

lemma sem_holds_cong:
  "semas s' m = semas s m \<Longrightarrow> node_next s' = node_next s \<Longrightarrow> sem_holds s' m ws = sem_holds s m ws"
  by (simp add: sem_holds_def)

lemma sem_insert_spec:
  assumes "sem_holds s m ws" and "me \<notin> set ws"
  obtains s' where "sem_insert m me s = Some s'" "sem_holds s' m (ws @ [me])"
    "sem_count (semas s' m) = sem_count (semas s m)" "node_task s' = node_task s" "tcbs s' = tcbs s"
    "current s' = current s" "now_tick s' = now_tick s" "\<forall>qs. tk_inv s' qs = tk_inv s qs"
    "waiters s' = waiters s" "\<forall>a. refines s' a = refines s a"
proof -
  have r: "rep (sem_waiters (semas s m), node_next s) ws" using assms(1) by (simp add: sem_holds_def)
  obtain l nx where i: "SelfList_insert AlwaysFalse me (sem_waiters (semas s m), node_next s) = Some (l, nx)"
    "rep (l, nx) (ws @ [me])"
    using sl.holds_sorted_in [OF r assms(2), of AlwaysFalse] by (auto simp: ins_by_AlwaysFalse)
  let ?s = "set_sema m ((semas s m)\<lparr>sem_waiters := l\<rparr>) (s\<lparr>node_next := nx\<rparr>)"
  have "tk_inv ?s qs = tk_inv s qs" for qs by (rule tk_inv_cong) simp_all
  moreover have "refines ?s a = refines s a" for a by (simp add: refines_def levels_def set_sema_def)
  ultimately show thesis using that [of ?s] i by (simp add: sem_insert_def sem_holds_def)
qed

lemma sem_remove_spec:
  assumes "sem_holds s m ws"
  obtains s' where "sem_remove m me s = Some s'" "sem_holds s' m (remove1 me ws)"
    "sem_count (semas s' m) = sem_count (semas s m)" "node_task s' = node_task s" "tcbs s' = tcbs s"
    "current s' = current s" "now_tick s' = now_tick s" "\<forall>qs. tk_inv s' qs = tk_inv s qs"
proof -
  have r: "rep (sem_waiters (semas s m), node_next s) ws" using assms(1) by (simp add: sem_holds_def)
  obtain l nx where i: "SelfList_remove me (sem_waiters (semas s m), node_next s) = Some (me \<in> set ws, (l, nx))"
    "rep (l, nx) (remove1 me ws)"
    using sl.holds_unlink [OF r, of me] by auto
  let ?s = "set_sema m ((semas s m)\<lparr>sem_waiters := l\<rparr>) (s\<lparr>node_next := nx\<rparr>)"
  have "tk_inv ?s qs = tk_inv s qs" for qs by (rule tk_inv_cong) simp_all
  then show thesis using that [of ?s] i by (simp add: sem_remove_def sem_holds_def)
qed

text \<open>A turn of \<open>acquire\<close> by a caller whose node is not linked.\<close>

lemma acquire_turn_spec:
  assumes h: "sem_holds s m ws" and me: "me \<notin> set ws"
  shows "\<exists>s'. acquire_turn m me (Some t) s = Some (0 < sem_count (semas s m), s')
    \<and> sem_holds s' m (if 0 < sem_count (semas s m) then ws else ws @ [me])
    \<and> sem_count (semas s' m) = (if 0 < sem_count (semas s m) then sem_count (semas s m) - 1 else 0)
    \<and> node_task s' = node_task s
    \<and> tcb_state (tcbs s' t) = (if 0 < sem_count (semas s m) then tcb_state (tcbs s t) else Blocked)"
proof (cases "0 < sem_count (semas s m)")
  case True
  let ?s = "set_sema m ((semas s m)\<lparr>sem_count := sem_count (semas s m) - 1\<rparr>) (sys_lock s)"
  have "sem_holds ?s m ws" using h by (simp add: sem_holds_def)
  then obtain s1 where "sem_remove m me ?s = Some s1" "sem_holds s1 m (remove1 me ws)"
    "sem_count (semas s1 m) = sem_count (semas s m) - 1" "node_task s1 = node_task s" "tcbs s1 = tcbs s"
    by (rule sem_remove_spec) simp
  then show ?thesis
    using True me sem_holds_cong [of "sys_unlock s1" m s1] by (simp add: acquire_turn_def Let_def remove1_idem)
next
  case False
  have "sem_holds (sys_lock s) m ws" using h by (simp add: sem_holds_def)
  then obtain s1 where "sem_insert m me (sys_lock s) = Some s1" "sem_holds s1 m (ws @ [me])"
    "sem_count (semas s1 m) = sem_count (semas s m)" "node_task s1 = node_task s" "tcbs s1 = tcbs s"
    using me by (rule sem_insert_spec) simp
  then show ?thesis
    using False sem_holds_cong [of "sys_unlock (sched_block (Some t) s1)" m s1]
    by (simp add: acquire_turn_def Let_def sys_block_def word_neq_0_conv [symmetric])
qed

lemma release_spec:
  assumes h: "sem_holds s m ws"
  shows "sem_count (semas (release m s) m) = sem_count (semas s m) + 1
    \<and> sem_holds (release m s) m (tl ws)
    \<and> (case ws of [] \<Rightarrow> tcbs (release m s) = tcbs s
       | w # _ \<Rightarrow> \<forall>t. node_task s w = Some t \<longrightarrow> prio_level s t < 32 \<longrightarrow> tcb_state (tcbs (release m s) t) \<noteq> Blocked)"
proof -
  let ?s1 = "set_sema m ((semas s m)\<lparr>sem_count := sem_count (semas s m) + 1\<rparr>) (sys_lock s)"
  have r: "rep (sem_waiters (semas s m), node_next s) ws" using h by (simp add: sem_holds_def)
  show ?thesis
  proof (cases ws)
    case Nil
    then have "SelfList_pop_head (sem_waiters (semas s m), node_next s) = (None, (sem_waiters (semas s m), node_next s))"
      using sl.holds_deq_Nil r by blast
    then show ?thesis
      using Nil r by (simp add: release_def release_body_def CriticalGuard_def Let_def sem_holds_def)
  next
    case (Cons w ws')
    obtain l nx where p: "SelfList_pop_head (sem_waiters (semas s m), node_next s) = (Some w, (l, nx))" "rep (l, nx) ws'"
      using sl.holds_deq [of _ w ws'] r Cons by fastforce
    let ?s2 = "set_sema m ((semas ?s1 m)\<lparr>sem_waiters := l\<rparr>) (?s1\<lparr>node_next := nx\<rparr>)"
    have rel: "release m s = sys_unlock (sched_ready (node_task s w) ?s2)"
      using p(1) by (simp add: release_def release_body_def CriticalGuard_def Let_def sys_ready_def)
    have "tcb_state (tcbs (release m s) t) \<noteq> Blocked" if "node_task s w = Some t" "prio_level s t < 32" for t
    proof -
      have "prio_level ?s2 t < 32" using that(2) by (simp add: prio_level_def)
      from ready_tcbs [OF this] show ?thesis using that(1) by (simp add: rel)
    qed
    then show ?thesis using Cons p(2) by (simp add: rel sem_holds_def)
  qed
qed

section \<open>Timed waits\<close>

lemma sys_sleep_wn:
  assumes "sys_sleep_for (Some t) span s = Some s'"
  shows "semas s' = semas s" "node_next s' = node_next s" "node_task s' = node_task s" "current s' = current s"
  using assms
  by (auto simp: sys_sleep_for_def sched_sleep_for_def park_for_def CriticalGuard_opt_def enqueue_locked_def
      TimerQueue_remove_def TimerQueue_insert_def Let_def split: bind_splits if_splits)

lemma try_acquire_turn_spec:
  assumes h: "sem_holds s m ws" and k: "tk_inv s qs" and c: "current s = Some t"
    and me: "me \<in> set ws \<longrightarrow> sint (ddl - now_tick s) \<le> 0"
  shows "\<exists>v s' qs' ws'. try_acquire_turn m me ddl s = Some (v, s') \<and> tk_inv s' qs' \<and> sem_holds s' m ws'
    \<and> now_tick s' = now_tick s \<and> current s' = Some t
    \<and> v = (if 0 < sem_count (semas s m) then Some Ok else if sint (ddl - now_tick s) \<le> 0 then Some TimedOut else None)
    \<and> (v \<noteq> None \<longrightarrow> me \<notin> set ws' \<and> ws' = remove1 me ws
         \<and> sem_count (semas s' m) = (if v = Some Ok then sem_count (semas s m) - 1 else sem_count (semas s m))
         \<and> qs' = qs)
    \<and> (v = None \<longrightarrow> ws' = ws @ [me] \<and> TaskAction t \<in> set qs' \<and> tcb_state (tcbs s' t) = Blocked)"
proof -
  have d: "distinct ws" using h rep_distinct by (auto simp: sem_holds_def)
  have h0: "sem_holds (sys_lock s) m ws" using h by (simp add: sem_holds_def)
  have k0: "tk_inv (sys_lock s) qs" using k by simp
  consider (ok) "0 < sem_count (semas s m)" | (out) "sem_count (semas s m) = 0" "sint (ddl - now_tick s) \<le> 0"
    | (sleep) "sem_count (semas s m) = 0" "0 < sint (ddl - now_tick s)"
    by (metis not_le word_neq_0_conv)
  then show ?thesis
  proof cases
    case ok
    let ?s = "set_sema m ((semas s m)\<lparr>sem_count := sem_count (semas s m) - 1\<rparr>) (sys_lock s)"
    have "sem_holds ?s m ws" using h by (simp add: sem_holds_def)
    then obtain s1 where s1: "sem_remove m me ?s = Some s1" "sem_holds s1 m (remove1 me ws)"
      "sem_count (semas s1 m) = sem_count (semas s m) - 1" "current s1 = Some t" "now_tick s1 = now_tick s"
      "\<forall>q. tk_inv s1 q = tk_inv ?s q" by (rule sem_remove_spec [where me = me]) (simp_all add: c)
    have "tk_inv ?s qs" using k0 by (subst tk_inv_cong [of _ "sys_lock s"]) simp_all
    then show ?thesis
      using ok s1 d sem_holds_cong [of "sys_unlock s1" m s1]
      by (intro exI [of _ "Some Ok"] exI [of _ "sys_unlock s1"] exI [of _ qs] exI [of _ "remove1 me ws"])
        (simp add: try_acquire_turn_def Let_def)
  next
    case out
    obtain s1 where s1: "sem_remove m me (sys_lock s) = Some s1" "sem_holds s1 m (remove1 me ws)"
      "sem_count (semas s1 m) = sem_count (semas s m)" "current s1 = Some t" "now_tick s1 = now_tick s"
      "\<forall>q. tk_inv s1 q = tk_inv (sys_lock s) q" using h0 by (rule sem_remove_spec [where me = me]) (simp_all add: c)
    then show ?thesis
      using out k d sem_holds_cong [of "sys_unlock s1" m s1]
      by (intro exI [of _ "Some TimedOut"] exI [of _ "sys_unlock s1"] exI [of _ qs] exI [of _ "remove1 me ws"])
        (simp add: try_acquire_turn_def Let_def sys_now_def time_current_def Clock_current_def)
  next
    case sleep
    let ?left = "word_of_int (sint (ddl - now_tick s)) :: tick"
    have fresh: "me \<notin> set ws" using me sleep by auto
    obtain s1 where s1: "sem_insert m me (sys_lock s) = Some s1" "sem_holds s1 m (ws @ [me])"
      "current s1 = Some t" "now_tick s1 = now_tick s" "\<forall>q. tk_inv s1 q = tk_inv (sys_lock s) q"
      using h0 fresh by (rule sem_insert_spec) (simp_all add: c)
    have k1: "tk_inv (time_lock s1) qs" using k s1(5) by simp
    have span: "0 \<le> sint ?left" using sleep by simp
    obtain s2 where s2: "enqueue_locked (TaskAction t) ?left (Some WakeFromSleep) (time_lock s1) = Some s2"
      "tk_inv s2 (ins_rel s2 (TaskAction t) (remove1 (TaskAction t) qs))" "now_tick s2 = now_tick s"
      using enqueue_tk_inv [OF k1 span, of "TaskAction t" "Some WakeFromSleep"] s1(4) by auto
    let ?s3 = "time_unlock (sched_block (Some t) s2)" and ?q = "ins_rel s2 (TaskAction t) (remove1 (TaskAction t) qs)"
    have sl: "sys_sleep_for (Some t) ?left s1 = Some ?s3"
      using s2(1) by (simp add: sys_sleep_for_def sched_sleep_for_def park_for_def CriticalGuard_opt_def)
    have k3: "tk_inv ?s3 ?q" using s2(2) tk_inv_cong [of "sched_block (Some t) s2" s2] by simp
    have h3: "sem_holds (sys_unlock ?s3) m (ws @ [me])"
      using s1(2) sys_sleep_wn [OF sl] by (simp add: sem_holds_def)
    show ?thesis
      using sleep s1 sl k3 h3 s2(3) sys_sleep_wn(4) [OF sl]
      by (intro exI [of _ None] exI [of _ "sys_unlock ?s3"] exI [of _ ?q] exI [of _ "ws @ [me]"])
        (simp add: try_acquire_turn_def Let_def sys_now_def time_current_def Clock_current_def sys_current_task_def
          current_task_def ins_rel_def)
  qed
qed

section \<open>A wake-up nobody sent\<close>

lemma elapse_nodes:
  assumes "tk_inv s qs" and "sleepers T qs s" and "0 < sint n" and "on_elapsed (react user) n s = Some s2"
  shows "node_next s2 = node_next s \<and> semas s2 = semas s"
proof -
  have "sys.more s2 = sys.more s" by (rule elapse_more [OF assms])
  then show ?thesis by (cases s, cases s2) simp
qed

lemma reinsert_turn:
  assumes h: "sem_holds s m (ws @ [me])" and zero: "sem_count (semas s m) = 0"
  shows "\<exists>s'. acquire_turn m me (Some t) s = Some (False, s') \<and> node_next s' me = Some me
    \<and> (\<forall>other task. acquire_turn m other task s' = None)"
proof -
  have r: "rep (sem_waiters (semas s m), node_next s) (ws @ me # [])" using h by (simp add: sem_holds_def)
  obtain l nx where i: "SelfList_insert AlwaysFalse me (sem_waiters (semas s m), node_next s) = Some (l, nx)"
    "nx me = Some me" "\<And>y. SelfList_insert AlwaysFalse y (l, nx) = None"
    using reinsert_linked [OF r] by auto
  let ?s1 = "set_sema m ((semas s m)\<lparr>sem_waiters := l\<rparr>) ((sys_lock s)\<lparr>node_next := nx\<rparr>)"
  let ?s = "sys_unlock (sched_block (Some t) ?s1)"
  have "acquire_turn m me (Some t) s = Some (False, ?s)"
    using i(1) zero by (simp add: acquire_turn_def sem_insert_def Let_def sys_block_def)
  moreover have "acquire_turn m other task ?s = None" for other task
    using i(3) zero by (simp add: acquire_turn_def sem_insert_def Let_def)
  ultimately show ?thesis using i(2) by auto
qed

section \<open>Properties\<close>

text \<open>C18: the semaphore. A turn of \<open>acquire\<close> takes a unit exactly when there is one, and otherwise queues the
  caller behind the others and blocks it. \<open>release\<close> always puts its unit in the counter and makes the
  task that waited longest runnable, taking its node out of the list.\<close>

theorem semaphore_turns:
  assumes h: "sem_holds s m ws" and me: "me \<notin> set ws"
  shows "(\<exists>s'. acquire_turn m me (Some t) s = Some (0 < sem_count (semas s m), s')
      \<and> sem_holds s' m (if 0 < sem_count (semas s m) then ws else ws @ [me])
      \<and> sem_count (semas s' m) = (if 0 < sem_count (semas s m) then sem_count (semas s m) - 1 else 0)
      \<and> tcb_state (tcbs s' t) = (if 0 < sem_count (semas s m) then tcb_state (tcbs s t) else Blocked))
    \<and> sem_count (semas (release m s) m) = sem_count (semas s m) + 1
    \<and> sem_holds (release m s) m (tl ws)
    \<and> (\<forall>w ws' u. ws = w # ws' \<longrightarrow> node_task s w = Some u \<longrightarrow> prio_level s u < 32 \<longrightarrow>
         tcb_state (tcbs (release m s) u) \<noteq> Blocked)"
  using acquire_turn_spec [OF h me, of t] release_spec [OF h] by (auto split: list.splits)

text \<open>One running task, no unit in any semaphore.\<close>

definition wn_up :: wn where
  "wn_up = sys.extend one_up \<lparr>node_next = (\<lambda>_. None), node_task = (\<lambda>_. None), node_prio = (\<lambda>_. 0),
     semas = (\<lambda>_. Semaphore_new 0), mutexes = (\<lambda>_. \<lparr>owner = None, saved_prio = 0, boosted = False, mtx_waiters = SelfList_new\<rparr>),
     events = (\<lambda>_. \<lparr>ev_bits = 0, ev_waiters = SelfList_new\<rparr>)\<rparr>"

lemma wn_up_sel [simp]:
  "tcbs wn_up = tcbs one_up" "current wn_up = Some 1" "semas wn_up = (\<lambda>_. Semaphore_new 0)" "node_next wn_up = (\<lambda>_. None)"
  "tk_inv wn_up []" "refines wn_up a = refines one_up a"
proof -
  show "tk_inv wn_up []"
    using one_up_state(5)
    by (simp add: tk_inv_def tq_inv_def alarm_inv_def by_rel_def half_circle_def wn_up_def sys.defs)
qed (use one_up_state(3) in \<open>simp_all add: wn_up_def sys.defs refines_def levels_def\<close>)

lemma wn_up_sem: "sem_holds wn_up m []"
  by (simp add: sem_holds_def Semaphore_new_def rep_new)

theorem semaphore_turns_witness:
  "sem_count (semas (release 3 wn_up) 3) = 1 \<and> (\<exists>s'. acquire_turn 3 8 (Some 1) wn_up = Some (False, s') \<and> sem_holds s' 3 [8])"
  using semaphore_turns [OF wn_up_sem [of 3], of 8 1] by (auto simp: Semaphore_new_def)

end
