(* ===== verification/Mutex.thy ===== *)
theory Mutex
  imports Semaphore
begin

text \<open>
  The mutex of \<^verbatim>\<open>include/ZerOS/kernel/sync/mutex.hpp\<close>: direct handover to the waiter of best priority,
  and priority inheritance through \<open>reprioritize\<close>. One turn of the loop of \<open>lock\<close> is one definition, as for
  the semaphore.
\<close>

section \<open>The operations\<close>

datatype MutexError = MutexOk | NotYourLock | SelfLocked

definition Mutex_new :: mutex where
  "Mutex_new = \<lparr>owner = None, saved_prio = 0, boosted = False, mtx_waiters = SelfList_new\<rparr>"

definition MutexWaiter_new :: "addr \<Rightarrow> addr \<Rightarrow> TaskPriority_t \<Rightarrow> 'a wn_scheme \<Rightarrow> 'a wn_scheme" where
  "MutexWaiter_new me task p s = s\<lparr>node_next := (node_next s)(me := None),
     node_task := (node_task s)(me := Some task), node_prio := (node_prio s)(me := p)\<rparr>"

definition ByPrio :: "(addr \<Rightarrow> TaskPriority_t) \<Rightarrow> addr \<Rightarrow> addr \<Rightarrow> bool" where
  "ByPrio prio_of fresh parked \<longleftrightarrow> prio_of fresh < prio_of parked"

definition set_mutex :: "addr \<Rightarrow> mutex \<Rightarrow> 'a wn_scheme \<Rightarrow> 'a wn_scheme" where
  "set_mutex m v s = s\<lparr>mutexes := (mutexes s)(m := v)\<rparr>"

definition mtx_insert :: "addr \<Rightarrow> addr \<Rightarrow> 'a wn_scheme \<Rightarrow> 'a wn_scheme option" where
  "mtx_insert m me s = map_option
     (\<lambda>(l, nx). set_mutex m ((mutexes s m)\<lparr>mtx_waiters := l\<rparr>) (s\<lparr>node_next := nx\<rparr>))
     (SelfList_insert (ByPrio (node_prio s)) me (mtx_waiters (mutexes s m), node_next s))"

definition mtx_remove :: "addr \<Rightarrow> addr \<Rightarrow> 'a wn_scheme \<Rightarrow> 'a wn_scheme option" where
  "mtx_remove m me s = map_option
     (\<lambda>(_, l, nx). set_mutex m ((mutexes s m)\<lparr>mtx_waiters := l\<rparr>) (s\<lparr>node_next := nx\<rparr>))
     (SelfList_remove me (mtx_waiters (mutexes s m), node_next s))"

text \<open>One turn of \<open>lock\<close>: \<open>True\<close> when the mutex is the caller's.\<close>

definition lock_turn :: "addr \<Rightarrow> addr \<Rightarrow> addr \<Rightarrow> 'a wn_scheme \<Rightarrow> (bool \<times> 'a wn_scheme) option" where
  "lock_turn m me t s =
     (let s0 = sys_lock s
      in if owner (mutexes s0 m) = Some t
         then do { s1 \<leftarrow> mtx_remove m me s0; Some (True, sys_unlock s1) }
         else case owner (mutexes s0 m) of
           None \<Rightarrow> do {
             s1 \<leftarrow> mtx_remove m me (set_mutex m ((mutexes s0 m)\<lparr>owner := Some t\<rparr>) s0);
             Some (True, sys_unlock s1)
           }
         | Some ow \<Rightarrow> do {
             s1 \<leftarrow> mtx_insert m me s0;
             s2 \<leftarrow> (if sys_prio ow s1 > sys_prio t s1
                   then sys_reprioritize ow (sys_prio t s1)
                     (if \<not> boosted (mutexes s1 m)
                      then set_mutex m ((mutexes s1 m)\<lparr>saved_prio := sys_prio ow s1, boosted := True\<rparr>) s1 else s1)
                   else Some s1);
             Some (False, sys_unlock (sys_block (Some t) s2))
           })"

partial_function (option) lock_loop ::
  "('a wn_scheme \<Rightarrow> 'a wn_scheme option) \<Rightarrow> addr \<Rightarrow> addr \<Rightarrow> addr \<Rightarrow> 'a wn_scheme \<Rightarrow> 'a wn_scheme option" where
  "lock_loop world m me t s =
     (case lock_turn m me t s of None \<Rightarrow> None
      | Some (done, s1) \<Rightarrow>
          if done then Some s1
          else (case world s1 of None \<Rightarrow> None | Some s2 \<Rightarrow> lock_loop world m me t s2))"

definition mutex_lock ::
  "('a wn_scheme \<Rightarrow> 'a wn_scheme option) \<Rightarrow> addr \<Rightarrow> addr \<Rightarrow> 'a wn_scheme \<Rightarrow> (MutexError \<times> 'a wn_scheme) option" where
  "mutex_lock world m me s =
     (let cur = sys_current_task s; s0 = sys_unlock (sys_lock s)
      in if owner (mutexes s m) = cur then Some (SelfLocked, s0)
         else case cur of None \<Rightarrow> None
         | Some t \<Rightarrow> map_option (\<lambda>s'. (MutexOk, s'))
             (lock_loop world m me t (MutexWaiter_new me t (sys_prio t s0) s0)))"

definition hand_over :: "addr \<Rightarrow> 'a wn_scheme \<Rightarrow> 'a wn_scheme option" where
  "hand_over m s =
     (case SelfList_pop_head (mtx_waiters (mutexes s m), node_next s) of
        (None, _) \<Rightarrow> Some (set_mutex m ((mutexes s m)\<lparr>owner := None\<rparr>) s)
      | (Some w, l, nx) \<Rightarrow>
          (case node_task s w of None \<Rightarrow> None
           | Some u \<Rightarrow>
               let s1 = set_mutex m ((mutexes s m)\<lparr>mtx_waiters := l, owner := Some u\<rparr>) (s\<lparr>node_next := nx\<rparr>)
               in do {
                 s2 \<leftarrow> (case SelfList_head (l, nx) of None \<Rightarrow> Some s1
                        | Some nxt \<Rightarrow>
                            if node_prio s1 nxt < sys_prio u s1
                            then sys_reprioritize u (node_prio s1 nxt)
                              (set_mutex m ((mutexes s1 m)\<lparr>saved_prio := sys_prio u s1, boosted := True\<rparr>) s1)
                            else Some s1);
                 Some (sys_ready (Some u) s2)
               }))"

definition restore_prio :: "addr \<Rightarrow> addr option \<Rightarrow> 'a wn_scheme \<Rightarrow> 'a wn_scheme option" where
  "restore_prio m cur s =
     (if boosted (mutexes s m)
      then (case cur of None \<Rightarrow> None
            | Some t \<Rightarrow> map_option (\<lambda>s'. set_mutex m ((mutexes s' m)\<lparr>boosted := False\<rparr>) s')
                (sys_reprioritize t (saved_prio (mutexes s m)) s))
      else Some s)"

definition mutex_unlock :: "addr \<Rightarrow> 'a wn_scheme \<Rightarrow> (MutexError \<times> 'a wn_scheme) option" where
  "mutex_unlock m s =
     (let cur = sys_current_task s; s0 = sys_lock s
      in if owner (mutexes s0 m) \<noteq> cur then Some (NotYourLock, sys_unlock s0)
         else do {
           s1 \<leftarrow> restore_prio m cur s0;
           s2 \<leftarrow> hand_over m s1;
           Some (MutexOk, sys_unlock s2)
         })"

section \<open>Steps\<close>

definition mtx_holds :: "'a wn_scheme \<Rightarrow> addr \<Rightarrow> addr list \<Rightarrow> bool" where
  "mtx_holds s m ws \<longleftrightarrow> rep (mtx_waiters (mutexes s m), node_next s) ws"

text \<open>The waiting list is in priority order, by the priorities the waiters came with.\<close>

definition by_prio :: "'a wn_scheme \<Rightarrow> addr list \<Rightarrow> bool" where
  "by_prio s ws \<longleftrightarrow> sorted_wrt (\<lambda>x y. node_prio s x \<le> node_prio s y) ws"

lemma set_mutex_sel [simp]:
  "mutexes (set_mutex m v s) = (mutexes s)(m := v)" "node_next (set_mutex m v s) = node_next s"
  "node_task (set_mutex m v s) = node_task s" "node_prio (set_mutex m v s) = node_prio s"
  "tcbs (set_mutex m v s) = tcbs s" "current (set_mutex m v s) = current s"
  "refines (set_mutex m v s) a = refines s a"
  by (simp_all add: set_mutex_def refines_def levels_def)

lemma reprio_nodes:
  assumes "reprioritize t p s = Some s'"
  shows "node_next s' = node_next s" "node_task s' = node_task s" "node_prio s' = node_prio s" "mutexes s' = mutexes s"
proof -
  obtain s1 where s1: "reprioritize_body t p (sched_lock s) = Some s1" "s' = sched_unlock s1"
    using assms by (auto simp: reprioritize_def CriticalGuard_opt_def)
  have "node_next s1 = node_next s \<and> node_task s1 = node_task s \<and> node_prio s1 = node_prio s \<and> mutexes s1 = mutexes s"
    using s1(1) by (auto simp: reprioritize_body_def Let_def split: if_splits bind_splits)
  then show "node_next s' = node_next s" "node_task s' = node_task s" "node_prio s' = node_prio s" "mutexes s' = mutexes s"
    by (simp_all add: s1(2))
qed

lemma reprio_step:
  assumes "refines s a" and "a_inv a" and "t \<in> a_tasks a" and "unat p < 32"
  obtains s' where "sys_reprioritize t p s = Some s'" "refines s' (a_op (OpReprio t p) a)" "a_inv (a_op (OpReprio t p) a)"
    "node_next s' = node_next s" "node_task s' = node_task s" "node_prio s' = node_prio s" "mutexes s' = mutexes s"
proof -
  have ok: "op_ok (OpReprio t p) a" using assms(3,4) by simp
  obtain s' where s': "run_op (OpReprio t p) s = Some (Done, s')" "refines s' (a_op (OpReprio t p) a)"
    using sim_op [OF assms(1,2) ok] by auto
  have r: "reprioritize t p s = Some s'" using s'(1) by auto
  show thesis
    using that [of s'] r s'(2) a_inv_op [OF assms(2) ok] reprio_nodes [OF r] by (simp add: sys_reprioritize_def)
qed

lemma a_reprio_sel:
  "a_tasks (a_op (OpReprio t p) a) = a_tasks a" "a_prio (a_op (OpReprio t p) a) = (a_prio a)(t := p)"
  "a_state (a_op (OpReprio t p) a) = a_state a" "a_cur (a_op (OpReprio t p) a) = a_cur a"
  by (auto simp: a_enqueue_def a_unqueue_def fun_eq_iff)

lemma mtx_insert_spec:
  assumes "mtx_holds s m ws" and "me \<notin> set ws" and "by_prio s ws"
  obtains s' where "mtx_insert m me s = Some s'"
    "mtx_holds s' m (ins_by (\<lambda>x y. node_prio s x < node_prio s y) me ws)"
    "by_prio s' (ins_by (\<lambda>x y. node_prio s x < node_prio s y) me ws)"
    "owner (mutexes s' m) = owner (mutexes s m)" "boosted (mutexes s' m) = boosted (mutexes s m)"
    "saved_prio (mutexes s' m) = saved_prio (mutexes s m)"
    "\<forall>a. refines s' a = refines s a" "tcbs s' = tcbs s" "current s' = current s" "node_task s' = node_task s" "node_prio s' = node_prio s"
proof -
  have r: "rep (mtx_waiters (mutexes s m), node_next s) ws" using assms(1) by (simp add: mtx_holds_def)
  have o: "ByPrio (node_prio s) = (\<lambda>x y. node_prio s x < node_prio s y)" by (simp add: ByPrio_def fun_eq_iff)
  obtain l nx where i: "SelfList_insert (ByPrio (node_prio s)) me (mtx_waiters (mutexes s m), node_next s) = Some (l, nx)"
    "rep (l, nx) (ins_by (\<lambda>x y. node_prio s x < node_prio s y) me ws)"
    using sl.holds_sorted_in [OF r assms(2), of "ByPrio (node_prio s)"] unfolding o by auto
  have "sorted_wrt (\<lambda>x y. uint (node_prio s x) \<le> uint (node_prio s y))
      (ins_by (\<lambda>x y. uint (node_prio s x) < uint (node_prio s y)) me ws)"
    by (rule sorted_ins_by) (use assms(3) in \<open>simp add: by_prio_def word_le_def\<close>)
  then have "by_prio s (ins_by (\<lambda>x y. node_prio s x < node_prio s y) me ws)"
    by (simp add: by_prio_def word_le_def word_less_def)
  then show thesis
    using that [of "set_mutex m ((mutexes s m)\<lparr>mtx_waiters := l\<rparr>) (s\<lparr>node_next := nx\<rparr>)"] i
    by (simp add: mtx_insert_def mtx_holds_def by_prio_def)
qed

lemma mtx_remove_spec:
  assumes "mtx_holds s m ws"
  obtains s' where "mtx_remove m me s = Some s'" "mtx_holds s' m (remove1 me ws)" "owner (mutexes s' m) = owner (mutexes s m)"
    "\<forall>a. refines s' a = refines s a" "tcbs s' = tcbs s" "node_prio s' = node_prio s" "node_task s' = node_task s"
    "boosted (mutexes s' m) = boosted (mutexes s m)" "saved_prio (mutexes s' m) = saved_prio (mutexes s m)"
proof -
  have r: "rep (mtx_waiters (mutexes s m), node_next s) ws" using assms(1) by (simp add: mtx_holds_def)
  obtain l nx where i: "SelfList_remove me (mtx_waiters (mutexes s m), node_next s) = Some (me \<in> set ws, (l, nx))"
    "rep (l, nx) (remove1 me ws)" using sl.holds_unlink [OF r, of me] by auto
  then show thesis
    using that [of "set_mutex m ((mutexes s m)\<lparr>mtx_waiters := l\<rparr>) (s\<lparr>node_next := nx\<rparr>)"]
    by (simp add: mtx_remove_def mtx_holds_def)
qed


lemma mutexes_unlock_ready [simp]:
  "mtx_holds (sys_unlock s) m ws = mtx_holds s m ws" "by_prio (sys_unlock s) ws = by_prio s ws"
  "mtx_holds (sched_block b s) m ws = mtx_holds s m ws" "by_prio (sched_block b s) ws = by_prio s ws"
  "mtx_holds (sched_ready b s) m ws = mtx_holds s m ws" "by_prio (sched_ready b s) ws = by_prio s ws"
  "mtx_holds (sys_lock s) m ws = mtx_holds s m ws" "by_prio (sys_lock s) ws = by_prio s ws"
  by (simp_all add: mtx_holds_def by_prio_def)

lemma mtx_cong:
  "node_next s' = node_next s \<Longrightarrow> mtx_waiters (mutexes s' m) = mtx_waiters (mutexes s m) \<Longrightarrow> mtx_holds s' m ws = mtx_holds s m ws"
  "node_prio s' = node_prio s \<Longrightarrow> by_prio s' ws = by_prio s ws"
  by (simp_all add: mtx_holds_def by_prio_def)

lemma block_step:
  assumes "refines s a" and "a_inv a" and "t \<in> a_tasks a" and "a_state a t \<noteq> Ready"
  shows "refines (sys_block (Some t) s) (a_op (OpBlock (Some t)) a)" "a_inv (a_op (OpBlock (Some t)) a)"
proof -
  have ok: "op_ok (OpBlock (Some t)) a" using assms(3,4) by simp
  show "refines (sys_block (Some t) s) (a_op (OpBlock (Some t)) a)"
    using sim_block [OF assms(1)] by (simp add: sys_block_def del: a_op.simps)
  show "a_inv (a_op (OpBlock (Some t)) a)" by (rule a_inv_op [OF assms(2) ok])
qed

text \<open>A boost: when \<open>worse\<close>, task \<open>u\<close> gets the better priority \<open>p\<close> and its own one is remembered.\<close>

lemma boost_step:
  assumes "refines s a" and "a_inv a" and "u \<in> a_tasks a" and "unat p < 32"
  obtains s' a' where
    "(if p < sys_prio u s then sys_reprioritize u p (set_mutex m v s) else Some s) = Some s'"
    "refines s' a'" "a_inv a'" "a_tasks a' = a_tasks a" "a_state a' = a_state a" "a_cur a' = a_cur a"
    "a_prio a' = (a_prio a)(u := min (a_prio a u) p)"
    "node_next s' = node_next s" "node_task s' = node_task s" "node_prio s' = node_prio s"
    "mutexes s' = (if p < a_prio a u then (mutexes s)(m := v) else mutexes s)"
proof (cases "p < sys_prio u s")
  case True
  have "refines (set_mutex m v s) a" using assms(1) by simp
  then obtain s' where s': "sys_reprioritize u p (set_mutex m v s) = Some s'" "refines s' (a_op (OpReprio u p) a)"
    "a_inv (a_op (OpReprio u p) a)" "node_next s' = node_next (set_mutex m v s)" "node_task s' = node_task (set_mutex m v s)"
    "node_prio s' = node_prio (set_mutex m v s)" "mutexes s' = mutexes (set_mutex m v s)"
    using reprio_step [OF _ assms(2-4)] by blast
  have p: "p < a_prio a u" using True refines_prio [OF assms(1), of u] by (simp add: sys_prio_def sched_prio_def)
  then have "min (a_prio a u) p = p" by (rule min.absorb4)
  then show thesis
    using that [of s' "a_op (OpReprio u p) a"] p True s' by (simp add: a_reprio_sel del: a_op.simps)
next
  case False
  then have "\<not> p < a_prio a u" using refines_prio [OF assms(1), of u] by (simp add: sys_prio_def sched_prio_def)
  then have "min (a_prio a u) p = a_prio a u" by simp
  then show thesis using that [of s a] \<open>\<not> p < a_prio a u\<close> False assms by simp
qed


lemma set_mutex_same [simp]: "set_mutex m (mutexes s m) s = s"
  by (simp add: set_mutex_def)

lemma lock_turn_free:
  assumes h: "mtx_holds s m ws" and own: "owner (mutexes s m) = None \<or> owner (mutexes s m) = Some t"
  shows "\<exists>s'. lock_turn m me t s = Some (True, s') \<and> owner (mutexes s' m) = Some t \<and> mtx_holds s' m (remove1 me ws)
    \<and> tcbs s' = tcbs s \<and> (\<forall>a. refines s' a = refines s a) \<and> node_task s' = node_task s \<and> node_prio s' = node_prio s
    \<and> boosted (mutexes s' m) = boosted (mutexes s m) \<and> saved_prio (mutexes s' m) = saved_prio (mutexes s m)"
proof -
  define s0 where "s0 = (if owner (mutexes s m) = None then set_mutex m ((mutexes s m)\<lparr>owner := Some t\<rparr>) (sys_lock s) else sys_lock s)"
  have "mtx_holds s0 m ws" using h by (simp add: s0_def mtx_holds_def)
  then obtain s1 where s1: "mtx_remove m me s0 = Some s1" "mtx_holds s1 m (remove1 me ws)"
    "owner (mutexes s1 m) = owner (mutexes s0 m)" "\<forall>a. refines s1 a = refines s0 a" "tcbs s1 = tcbs s0" "node_prio s1 = node_prio s0"
    "node_task s1 = node_task s0" "boosted (mutexes s1 m) = boosted (mutexes s0 m)" "saved_prio (mutexes s1 m) = saved_prio (mutexes s0 m)"
    by (rule mtx_remove_spec)
  have "owner (mutexes s0 m) = Some t" "tcbs s0 = tcbs s" using own by (auto simp: s0_def)
  moreover have "refines s0 a = refines s a" "node_task s0 = node_task s" "node_prio s0 = node_prio s"
    "boosted (mutexes s0 m) = boosted (mutexes s m)" "saved_prio (mutexes s0 m) = saved_prio (mutexes s m)" for a by (simp_all add: s0_def)
  moreover have "lock_turn m me t s = Some (True, sys_unlock s1)"
    using own s1(1) by (auto simp: lock_turn_def s0_def Let_def)
  ultimately show ?thesis using s1 by simp
qed

lemma lock_turn_wait:
  assumes r: "refines s a" and i: "a_inv a" and h: "mtx_holds s m ws" and o: "by_prio s ws" and me: "me \<notin> set ws"
    and own: "owner (mutexes s m) = Some ow" "ow \<noteq> t" and T: "ow \<in> a_tasks a" "t \<in> a_tasks a" and run: "a_state a t = Running"
  obtains s' a' where "lock_turn m me t s = Some (False, s')" "refines s' a'" "a_inv a'"
    "mtx_holds s' m (ins_by (\<lambda>x y. node_prio s x < node_prio s y) me ws)"
    "by_prio s' (ins_by (\<lambda>x y. node_prio s x < node_prio s y) me ws)"
    "a_prio a' = (a_prio a)(ow := min (a_prio a ow) (a_prio a t))" "a_state a' = (a_state a)(t := Blocked)"
    "owner (mutexes s' m) = Some ow"
    "boosted (mutexes s' m) = (boosted (mutexes s m) \<or> a_prio a t < a_prio a ow)"
    "saved_prio (mutexes s' m) =
       (if a_prio a t < a_prio a ow \<and> \<not> boosted (mutexes s m) then a_prio a ow else saved_prio (mutexes s m))"
    "a_tasks a' = a_tasks a" "a_cur a' = a_cur a" "node_task s' = node_task s" "node_prio s' = node_prio s"
proof -
  let ?ws = "ins_by (\<lambda>x y. node_prio s x < node_prio s y) me ws"
  have h': "mtx_holds (sys_lock s) m ws" "by_prio (sys_lock s) ws" using h o by simp_all
  obtain s1 where ins: "mtx_insert m me (sys_lock s) = Some s1" "mtx_holds s1 m ?ws" "by_prio s1 ?ws"
    "owner (mutexes s1 m) = owner (mutexes s m)" "boosted (mutexes s1 m) = boosted (mutexes s m)"
    "saved_prio (mutexes s1 m) = saved_prio (mutexes s m)" "\<forall>a. refines s1 a = refines (sys_lock s) a" "tcbs s1 = tcbs s"
    "node_task s1 = node_task s" "node_prio s1 = node_prio s"
    using mtx_insert_spec [OF h'(1) me h'(2)] by auto
  define v where "v = (if boosted (mutexes s1 m) then mutexes s1 m
     else (mutexes s1 m)\<lparr>saved_prio := sys_prio ow s1, boosted := True\<rparr>)"
  have r1: "refines s1 a" using ins(7) r by simp
  have p: "a_prio a u = task_priority (tcbs s1 u)" for u using refines_prio [OF r1] by simp
  have lt: "unat (a_prio a t) < 32" using a_inv_level [OF i T(2)] by (simp add: a_level_def)
  obtain s2 a2 where b: "(if a_prio a t < sys_prio ow s1 then sys_reprioritize ow (a_prio a t) (set_mutex m v s1) else Some s1) = Some s2"
    "refines s2 a2" "a_inv a2" "a_tasks a2 = a_tasks a" "a_state a2 = a_state a" "a_cur a2 = a_cur a"
    "a_prio a2 = (a_prio a)(ow := min (a_prio a ow) (a_prio a t))"
    "node_next s2 = node_next s1" "node_task s2 = node_task s1" "node_prio s2 = node_prio s1"
    "mutexes s2 = (if a_prio a t < a_prio a ow then (mutexes s1)(m := v) else mutexes s1)"
    by (rule boost_step [OF r1 i T(1) lt, of m v])
  have w: "mtx_waiters v = mtx_waiters (mutexes s1 m)" by (simp add: v_def)
  have turn: "lock_turn m me t s = Some (False, sys_unlock (sys_block (Some t) s2))"
    using own ins(1) b(1) p [of t]
    by (cases "boosted (mutexes s1 m)") (simp_all add: lock_turn_def Let_def v_def sys_prio_def sched_prio_def split: if_splits)
  have h2: "mtx_holds s2 m ?ws = mtx_holds s1 m ?ws" "by_prio s2 ?ws = by_prio s1 ?ws"
    using mtx_cong [of s2 s1] b(8,10,11) w by simp_all
  have blk: "refines (sys_block (Some t) s2) (a_op (OpBlock (Some t)) a2)" "a_inv (a_op (OpBlock (Some t)) a2)"
    using block_step [OF b(2,3)] T(2) b(4,5) run by simp_all
  show thesis
    by (rule that [OF turn _ blk(2)])
       (use blk(1) h2 ins own b(4-7,9-11) p [of ow] in \<open>simp_all add: sys_block_def v_def sys_prio_def sched_prio_def\<close>)
qed


lemma hand_over_spec:
  assumes r: "refines s a" and i: "a_inv a" and h: "mtx_holds s m (w # ws)" and o: "by_prio s (w # ws)"
    and u: "node_task s w = Some u" "u \<in> a_tasks a" and np: "\<forall>x \<in> set ws. unat (node_prio s x) < 32"
    and nb: "\<not> boosted (mutexes s m)"
  obtains s' a' where "hand_over m s = Some s'" "refines s' a'" "a_inv a'" "mtx_holds s' m ws" "by_prio s' ws"
    "owner (mutexes s' m) = Some u" "a_state a' u \<noteq> Blocked" "\<forall>v. v \<noteq> u \<longrightarrow> a_prio a' v = a_prio a v"
    "a_prio a' u = (case ws of [] \<Rightarrow> a_prio a u | x # _ \<Rightarrow> min (a_prio a u) (node_prio s x))"
    "boosted (mutexes s' m) = (case ws of [] \<Rightarrow> False | x # _ \<Rightarrow> node_prio s x < a_prio a u)"
    "boosted (mutexes s' m) \<longrightarrow> saved_prio (mutexes s' m) = a_prio a u"
    "a_tasks a' = a_tasks a" "node_task s' = node_task s" "node_prio s' = node_prio s"
proof -
  have "rep (mtx_waiters (mutexes s m), node_next s) (w # ws)" using h by (simp add: mtx_holds_def)
  then obtain l nx where pop: "SelfList_pop_head (mtx_waiters (mutexes s m), node_next s) = (Some w, (l, nx))" "rep (l, nx) ws"
    using sl.holds_deq [of _ w ws] by fastforce
  define s1 where "s1 = set_mutex m ((mutexes s m)\<lparr>mtx_waiters := l, owner := Some u\<rparr>) (s\<lparr>node_next := nx\<rparr>)"
  have r1: "refines s1 a" using r by (simp add: s1_def)
  have s1: "mtx_holds s1 m ws" "by_prio s1 ws" "owner (mutexes s1 m) = Some u" "\<not> boosted (mutexes s1 m)" "node_prio s1 = node_prio s"
    using pop(2) o nb by (simp_all add: s1_def mtx_holds_def by_prio_def)
  have hd: "SelfList_head (l, nx) = (case ws of [] \<Rightarrow> None | x # _ \<Rightarrow> Some x)"
    using rep_head [OF pop(2)] by (cases ws) simp_all
  have pu: "sys_prio u s1 = a_prio a u" using refines_prio [OF r1, of u] by (simp add: sys_prio_def sched_prio_def)
  define v where "v = (mutexes s1 m)\<lparr>saved_prio := sys_prio u s1, boosted := True\<rparr>"
  obtain s2 a2 where b: "refines s2 a2" "a_inv a2" "a_tasks a2 = a_tasks a" "mtx_holds s2 m ws" "by_prio s2 ws"
    "hand_over m s = Some (sys_ready (Some u) s2)"
    "\<forall>v. v \<noteq> u \<longrightarrow> a_prio a2 v = a_prio a v"
    "a_prio a2 u = (case ws of [] \<Rightarrow> a_prio a u | x # _ \<Rightarrow> min (a_prio a u) (node_prio s x))"
    "mutexes s2 m = (if (case ws of [] \<Rightarrow> False | x # _ \<Rightarrow> node_prio s x < a_prio a u) then v else mutexes s1 m)"
    "node_task s2 = node_task s" "node_prio s2 = node_prio s"
  proof (cases ws)
    case Nil
    then have "hand_over m s = Some (sys_ready (Some u) s1)" using pop(1) u hd by (simp add: hand_over_def s1_def Let_def)
    then show thesis using that [of s1 a] Nil r1 i s1 by (simp add: s1_def)
  next
    case (Cons x xs)
    then have np': "unat (node_prio s x) < 32" using np by simp
    obtain s2 a2 where b: "(if node_prio s x < sys_prio u s1 then sys_reprioritize u (node_prio s x) (set_mutex m v s1) else Some s1) = Some s2"
      "refines s2 a2" "a_inv a2" "a_tasks a2 = a_tasks a" "a_state a2 = a_state a" "a_cur a2 = a_cur a"
      "a_prio a2 = (a_prio a)(u := min (a_prio a u) (node_prio s x))"
      "node_next s2 = node_next s1" "node_task s2 = node_task s1" "node_prio s2 = node_prio s1"
      "mutexes s2 = (if node_prio s x < a_prio a u then (mutexes s1)(m := v) else mutexes s1)"
      by (rule boost_step [OF r1 i u(2) np', of m v])
    have "hand_over m s = Some (sys_ready (Some u) s2)"
      using pop(1) u hd Cons b(1) s1(5) by (simp add: hand_over_def s1_def [symmetric] v_def [symmetric] Let_def split: if_splits)
    moreover have "mtx_holds s2 m ws = mtx_holds s1 m ws" "by_prio s2 ws = by_prio s1 ws"
      using mtx_cong [of s2 s1] b(8,10,11) by (simp_all add: v_def)
    moreover have "node_task s2 = node_task s" using b(9) by (simp add: s1_def)
    ultimately show thesis using that [of s2 a2] Cons b s1 by simp
  qed
  have ok: "op_ok (OpReady (Some u)) a2" using u(2) b(3) by simp
  have rd: "refines (sys_ready (Some u) s2) (a_wake u a2)" "a_inv (a_wake u a2)"
    using sim_ready [OF b(1,2) ok] a_inv_wake [OF b(2)] u(2) b(3) by (simp_all add: sys_ready_def)
  have wake: "a_state (a_wake u a2) u \<noteq> Blocked" "a_prio (a_wake u a2) = a_prio a2"
    "a_tasks (a_wake u a2) = a_tasks a2" by (simp_all add: a_wake_def a_preempt_def a_enqueue_def)
  show thesis
    by (rule that [OF b(6) rd]) (use b s1 wake pu in \<open>auto simp: sys_ready_def v_def split: list.splits if_splits\<close>)
qed


lemma ins_by_sorted:
  fixes f :: "'p \<Rightarrow> 'b::linorder"
  assumes "sorted_wrt (\<lambda>x y. f x \<le> f y) xs"
  shows "\<exists>as bs. xs = as @ bs \<and> ins_by (\<lambda>x y. f x < f y) z xs = as @ z # bs \<and> (\<forall>x \<in> set bs. f z < f x)"
proof -
  define as where "as = takeWhile (\<lambda>y. \<not> f z < f y) xs"
  define bs where "bs = dropWhile (\<lambda>y. \<not> f z < f y) xs"
  have xs: "xs = as @ bs" by (simp add: as_def bs_def)
  have "sorted_wrt (\<lambda>x y. f x \<le> f y) bs" using assms unfolding xs sorted_wrt_append by blast
  moreover have "bs \<noteq> [] \<Longrightarrow> f z < f (hd bs)" using hd_dropWhile [of "\<lambda>y. \<not> f z < f y" xs] by (simp add: bs_def)
  ultimately have "\<forall>x \<in> set bs. f z < f x" by (cases bs) (auto intro: order_less_le_trans)
  moreover have "ins_by (\<lambda>x y. f x < f y) z xs = as @ z # bs" by (simp add: ins_by_def as_def bs_def)
  ultimately show ?thesis using xs by blast
qed

lemma restore_step:
  assumes r: "refines s a" and i: "a_inv a" and t: "t \<in> a_tasks a" and sp: "boosted (mutexes s m) \<longrightarrow> unat (saved_prio (mutexes s m)) < 32"
  obtains s' a' where
    "restore_prio m (Some t) s = Some s'"
    "refines s' a'" "a_inv a'" "a_tasks a' = a_tasks a" "a_state a' = a_state a" "a_cur a' = a_cur a"
    "a_prio a' = (if boosted (mutexes s m) then (a_prio a)(t := saved_prio (mutexes s m)) else a_prio a)"
    "node_next s' = node_next s" "node_task s' = node_task s" "node_prio s' = node_prio s"
    "mutexes s' = (mutexes s)(m := (mutexes s m)\<lparr>boosted := False\<rparr>)"
proof (cases "boosted (mutexes s m)")
  case True
  obtain s1 where s1: "sys_reprioritize t (saved_prio (mutexes s m)) s = Some s1"
    "refines s1 (a_op (OpReprio t (saved_prio (mutexes s m))) a)" "a_inv (a_op (OpReprio t (saved_prio (mutexes s m))) a)"
    "node_next s1 = node_next s" "node_task s1 = node_task s" "node_prio s1 = node_prio s" "mutexes s1 = mutexes s"
    by (rule reprio_step [OF r i t sp [rule_format, OF True]])
  show thesis
    by (rule that [of "set_mutex m ((mutexes s m)\<lparr>boosted := False\<rparr>) s1" "a_op (OpReprio t (saved_prio (mutexes s m))) a"])
       (use True s1 in \<open>simp_all add: restore_prio_def a_reprio_sel del: a_op.simps\<close>)
next
  case False
  then have "(mutexes s m)\<lparr>boosted := False\<rparr> = mutexes s m" by (cases "mutexes s m") simp
  then have "mutexes s = (mutexes s)(m := (mutexes s m)\<lparr>boosted := False\<rparr>)" by (simp only: fun_upd_triv)
  then show thesis using that [of s a] False r i by (simp add: restore_prio_def)
qed

lemma unlock_free:
  assumes own: "owner (mutexes s m) = Some t" "current s = Some t" and h: "mtx_holds s m []"
    and r: "refines s a" and i: "a_inv a" and t: "t \<in> a_tasks a" and sp: "boosted (mutexes s m) \<longrightarrow> unat (saved_prio (mutexes s m)) < 32"
  obtains s' a' where "mutex_unlock m s = Some (MutexOk, s')" "refines s' a'" "a_inv a'" "mtx_holds s' m []"
    "owner (mutexes s' m) = None" "\<not> boosted (mutexes s' m)" "a_state a' = a_state a"
    "a_prio a' = (if boosted (mutexes s m) then (a_prio a)(t := saved_prio (mutexes s m)) else a_prio a)"
    "a_tasks a' = a_tasks a" "node_task s' = node_task s" "node_prio s' = node_prio s"
proof -
  have r0: "refines (sys_lock s) a" "boosted (mutexes (sys_lock s) m) \<longrightarrow> unat (saved_prio (mutexes (sys_lock s) m)) < 32" using r sp by simp_all
  obtain s1 a1 where b:
    "restore_prio m (Some t) (sys_lock s) = Some s1"
    "refines s1 a1" "a_inv a1" "a_tasks a1 = a_tasks a" "a_state a1 = a_state a" "a_cur a1 = a_cur a"
    "a_prio a1 = (if boosted (mutexes (sys_lock s) m) then (a_prio a)(t := saved_prio (mutexes (sys_lock s) m)) else a_prio a)"
    "node_next s1 = node_next (sys_lock s)" "node_task s1 = node_task (sys_lock s)" "node_prio s1 = node_prio (sys_lock s)"
    "mutexes s1 = (mutexes (sys_lock s))(m := (mutexes (sys_lock s) m)\<lparr>boosted := False\<rparr>)"
    by (rule restore_step [OF r0(1) i t r0(2)])
  have "rep (mtx_waiters (mutexes s m), node_next s) []" using h by (simp add: mtx_holds_def)
  then have "SelfList_pop_head (mtx_waiters (mutexes s1 m), node_next s1) = (None, (mtx_waiters (mutexes s1 m), node_next s1))"
    using sl.holds_deq_Nil b(8,11) by simp
  then have "hand_over m s1 = Some (set_mutex m ((mutexes s1 m)\<lparr>owner := None\<rparr>) s1)" by (simp add: hand_over_def)
  then have u: "mutex_unlock m s = Some (MutexOk, sys_unlock (set_mutex m ((mutexes s1 m)\<lparr>owner := None\<rparr>) s1))"
    using own b(1) by (simp add: mutex_unlock_def sys_current_task_def current_task_def Let_def)
  show thesis by (rule that [OF u _ b(3)]) (use b h in \<open>simp_all add: mtx_holds_def\<close>)
qed

lemma unlock_handover:
  assumes own: "owner (mutexes s m) = Some t" "current s = Some t" and h: "mtx_holds s m (w # ws)" and o: "by_prio s (w # ws)"
    and r: "refines s a" and i: "a_inv a" and t: "t \<in> a_tasks a" and sp: "boosted (mutexes s m) \<longrightarrow> unat (saved_prio (mutexes s m)) < 32"
    and u: "node_task s w = Some u" "u \<in> a_tasks a" "u \<noteq> t" and np: "\<forall>x \<in> set ws. unat (node_prio s x) < 32"
  obtains s' a' where "mutex_unlock m s = Some (MutexOk, s')" "refines s' a'" "a_inv a'" "mtx_holds s' m ws" "by_prio s' ws"
    "owner (mutexes s' m) = Some u" "a_state a' u \<noteq> Blocked"
    "a_prio a' t = (if boosted (mutexes s m) then saved_prio (mutexes s m) else a_prio a t)"
    "a_prio a' u = (case ws of [] \<Rightarrow> a_prio a u | x # _ \<Rightarrow> min (a_prio a u) (node_prio s x))"
    "boosted (mutexes s' m) = (case ws of [] \<Rightarrow> False | x # _ \<Rightarrow> node_prio s x < a_prio a u)"
    "boosted (mutexes s' m) \<longrightarrow> saved_prio (mutexes s' m) = a_prio a u"
    "a_tasks a' = a_tasks a" "node_task s' = node_task s" "node_prio s' = node_prio s"
    "\<forall>v. v \<noteq> t \<longrightarrow> v \<noteq> u \<longrightarrow> a_prio a' v = a_prio a v"
proof -
  have r0: "refines (sys_lock s) a" "boosted (mutexes (sys_lock s) m) \<longrightarrow> unat (saved_prio (mutexes (sys_lock s) m)) < 32" using r sp by simp_all
  obtain s1 a1 where b:
    "restore_prio m (Some t) (sys_lock s) = Some s1"
    "refines s1 a1" "a_inv a1" "a_tasks a1 = a_tasks a" "a_state a1 = a_state a" "a_cur a1 = a_cur a"
    "a_prio a1 = (if boosted (mutexes (sys_lock s) m) then (a_prio a)(t := saved_prio (mutexes (sys_lock s) m)) else a_prio a)"
    "node_next s1 = node_next (sys_lock s)" "node_task s1 = node_task (sys_lock s)" "node_prio s1 = node_prio (sys_lock s)"
    "mutexes s1 = (mutexes (sys_lock s))(m := (mutexes (sys_lock s) m)\<lparr>boosted := False\<rparr>)"
    by (rule restore_step [OF r0(1) i t r0(2)])
  have h1: "mtx_holds s1 m (w # ws)" "by_prio s1 (w # ws)" using h o b(8,10,11) by (simp_all add: mtx_holds_def by_prio_def)
  have u1: "node_task s1 w = Some u" "u \<in> a_tasks a1" "\<forall>x \<in> set ws. unat (node_prio s1 x) < 32" "\<not> boosted (mutexes s1 m)"
    using u b np by simp_all
  obtain s2 a2 where g: "hand_over m s1 = Some s2" "refines s2 a2" "a_inv a2" "mtx_holds s2 m ws" "by_prio s2 ws"
    "owner (mutexes s2 m) = Some u" "a_state a2 u \<noteq> Blocked" "\<forall>v. v \<noteq> u \<longrightarrow> a_prio a2 v = a_prio a1 v"
    "a_prio a2 u = (case ws of [] \<Rightarrow> a_prio a1 u | x # _ \<Rightarrow> min (a_prio a1 u) (node_prio s1 x))"
    "boosted (mutexes s2 m) = (case ws of [] \<Rightarrow> False | x # _ \<Rightarrow> node_prio s1 x < a_prio a1 u)"
    "boosted (mutexes s2 m) \<longrightarrow> saved_prio (mutexes s2 m) = a_prio a1 u"
    "a_tasks a2 = a_tasks a1" "node_task s2 = node_task s1" "node_prio s2 = node_prio s1"
    by (rule hand_over_spec [OF b(2,3) h1 u1])
  have ul: "mutex_unlock m s = Some (MutexOk, sys_unlock s2)"
    using own b(1) g(1) by (simp add: mutex_unlock_def sys_current_task_def current_task_def Let_def)
  have pu: "a_prio a1 u = a_prio a u" and np1: "node_prio s1 = node_prio s" using b(7,10) u(3) by simp_all
  have pt: "a_prio a2 t = (if boosted (mutexes s m) then saved_prio (mutexes s m) else a_prio a t)"
    using g(8) b(7) u(3) by simp
  have un: "mutexes (sys_unlock s2) = mutexes s2" by simp
  have nd: "node_task (sys_unlock s2) = node_task s" "node_prio (sys_unlock s2) = node_prio s" "a_tasks a2 = a_tasks a"
    using g(12-14) b(4,9,10) by simp_all
  have pv: "\<forall>v. v \<noteq> t \<longrightarrow> v \<noteq> u \<longrightarrow> a_prio a2 v = a_prio a v" using g(8) b(7) by simp
  show thesis
    by (rule that [OF ul _ g(3) _ _ _ g(7) pt _ _ _ _ _ _ pv]) (use g nd in \<open>simp_all only: un pu np1 mutexes_unlock_ready sys_lock_refines\<close>)
qed

section \<open>Properties\<close>

text \<open>Task 1 runs at priority 0, task 2 is ready at priority 5, nobody waits for a mutex.\<close>

lemma two_tasks:
  fixes mx :: mutex and nd :: "addr links" and nt :: "addr \<Rightarrow> addr option"
  obtains s :: wn and a where "refines s a" "a_inv a" "a_tasks a = {1, 2}" "a_state a 1 = Running" "current s = Some 1"
    "a_prio a 1 = 0" "a_prio a 2 = 5" "mutexes s = (\<lambda>_. mx)" "node_next s = nd" "node_task s = nt" "node_prio s = (\<lambda>_. 0)"
proof -
  let ?a = "a_op OpPick (a_op (OpAdd (Some 1)) asched_new)"
  let ?ops = "[OpAdd (Some 2), OpReprio 2 5]"
  have "refines wn_up ?a" "a_inv ?a" using one_up_state(1,2) by simp_all
  moreover have "ops_ok ?ops ?a" by (simp add: small_run_simps)
  ultimately obtain s :: wn where s: "refines s (snd (a_ops ?ops ?a))" "a_inv (snd (a_ops ?ops ?a))"
    using sim_ops by blast
  have 1: "a_tasks (snd (a_ops ?ops ?a)) = {1, 2}" "a_state (snd (a_ops ?ops ?a)) 1 = Running"
    "a_prio (snd (a_ops ?ops ?a)) 1 = 0" "a_prio (snd (a_ops ?ops ?a)) 2 = 5" "a_cur (snd (a_ops ?ops ?a)) = Some 1"
    by (auto simp: small_run_simps a_unqueue_def)
  let ?s = "s\<lparr>mutexes := (\<lambda>_. mx), node_next := nd, node_task := nt, node_prio := (\<lambda>_. 0)\<rparr>"
  have "refines ?s (snd (a_ops ?ops ?a))" using s(1) by (simp add: refines_def levels_def)
  moreover have "current ?s = Some 1" using refines_cur [OF s(1)] 1(5) by simp
  ultimately show thesis using that [of ?s "snd (a_ops ?ops ?a)"] s(2) 1 by simp
qed

text \<open>Taking a mutex. A turn of \<open>lock\<close> on a free mutex, or on one that was handed to the caller while it
  was parked, ends the call with the caller as owner and its node out of the list. On a mutex that
  another task holds it queues the caller by priority (behind its equals), blocks it, and lets the owner
  inherit the caller's priority if that is better; the owner's own priority is remembered at the first boost.\<close>

theorem mutex_lock_turns:
  assumes r: "refines s a" and i: "a_inv a" and h: "mtx_holds s m ws" and o: "by_prio s ws" and me: "me \<notin> set ws"
    and t: "t \<in> a_tasks a" "a_state a t = Running" and ow: "\<forall>ow. owner (mutexes s m) = Some ow \<longrightarrow> ow \<in> a_tasks a"
  shows "case owner (mutexes s m) of
      None \<Rightarrow> (\<exists>s'. lock_turn m me t s = Some (True, s') \<and> owner (mutexes s' m) = Some t \<and> mtx_holds s' m ws \<and> tcbs s' = tcbs s)
    | Some ow \<Rightarrow>
        if ow = t then (\<exists>s'. lock_turn m me t s = Some (True, s') \<and> owner (mutexes s' m) = Some t \<and> mtx_holds s' m ws \<and> tcbs s' = tcbs s)
        else (\<exists>s' a'. lock_turn m me t s = Some (False, s') \<and> refines s' a' \<and> a_inv a' \<and> owner (mutexes s' m) = Some ow
          \<and> (\<exists>as bs. ws = as @ bs \<and> mtx_holds s' m (as @ me # bs) \<and> by_prio s' (as @ me # bs)
               \<and> (\<forall>x \<in> set bs. node_prio s me < node_prio s x))
          \<and> tcb_state (tcbs s' t) = Blocked
          \<and> task_priority (tcbs s' ow) = min (task_priority (tcbs s ow)) (task_priority (tcbs s t))
          \<and> (\<forall>u. u \<noteq> ow \<longrightarrow> task_priority (tcbs s' u) = task_priority (tcbs s u))
          \<and> (boosted (mutexes s' m) \<longleftrightarrow> boosted (mutexes s m) \<or> task_priority (tcbs s t) < task_priority (tcbs s ow))
          \<and> (boosted (mutexes s' m) \<longrightarrow> saved_prio (mutexes s' m) =
               (if boosted (mutexes s m) then saved_prio (mutexes s m) else task_priority (tcbs s ow))))"
proof (cases "owner (mutexes s m) = None \<or> owner (mutexes s m) = Some t")
  case True
  from lock_turn_free [OF h this, of me] show ?thesis
    using True me by (auto simp: remove1_idem split: option.splits)
next
  case False
  then obtain ow where own: "owner (mutexes s m) = Some ow" "ow \<noteq> t" by auto
  have T: "ow \<in> a_tasks a" using ow own by simp
  let ?lt = "\<lambda>x y. node_prio s x < node_prio s y"
  obtain s' a' where w: "lock_turn m me t s = Some (False, s')" "refines s' a'" "a_inv a'"
    "mtx_holds s' m (ins_by ?lt me ws)" "by_prio s' (ins_by ?lt me ws)"
    "a_prio a' = (a_prio a)(ow := min (a_prio a ow) (a_prio a t))" "a_state a' = (a_state a)(t := Blocked)"
    "owner (mutexes s' m) = Some ow"
    "boosted (mutexes s' m) = (boosted (mutexes s m) \<or> a_prio a t < a_prio a ow)"
    "saved_prio (mutexes s' m) =
       (if a_prio a t < a_prio a ow \<and> \<not> boosted (mutexes s m) then a_prio a ow else saved_prio (mutexes s m))"
    by (rule lock_turn_wait [OF r i h o me own T t])
  have p: "task_priority (tcbs s u) = a_prio a u" "task_priority (tcbs s' u) = a_prio a' u" "tcb_state (tcbs s' u) = a_state a' u" for u
    using refines_prio [OF r] refines_prio [OF w(2)] refines_state [OF w(2)] by simp_all
  have "\<exists>as bs. ws = as @ bs \<and> mtx_holds s' m (as @ me # bs) \<and> by_prio s' (as @ me # bs) \<and> (\<forall>x \<in> set bs. ?lt me x)"
    using ins_by_sorted [of "node_prio s" ws me] w(4,5) o unfolding by_prio_def by metis
  then show ?thesis using own w p by auto
qed

theorem mutex_lock_turns_witness:
  "\<exists>s s' :: wn. lock_turn 3 8 1 s = Some (False, s') \<and> tcb_state (tcbs s' 1) = Blocked
     \<and> task_priority (tcbs s 2) = 5 \<and> task_priority (tcbs s' 2) = 0 \<and> saved_prio (mutexes s' 3) = 5"
proof -
  obtain s :: wn and a where s: "refines s a" "a_inv a" "a_tasks a = {1, 2}" "a_state a 1 = Running" "current s = Some 1"
    "a_prio a 1 = 0" "a_prio a 2 = 5" "mutexes s = (\<lambda>_. Mutex_new\<lparr>owner := Some 2\<rparr>)" "node_next s = (\<lambda>_. None)"
    "node_task s = (\<lambda>_. None)" "node_prio s = (\<lambda>_. 0)"
    by (rule two_tasks)
  have "mtx_holds s 3 []" "by_prio s []" using s(8,9) by (simp_all add: mtx_holds_def by_prio_def Mutex_new_def rep_new)
  from mutex_lock_turns [OF s(1,2) this, of 8 1] show ?thesis
    using s refines_prio [OF s(1), of 1] refines_prio [OF s(1), of 2] by (auto simp: Mutex_new_def)
qed

text \<open>C12: giving a mutex up. The owner gets back the priority it had before it was boosted. A mutex that
  somebody waits for is handed over directly: the new owner is the waiter of best priority that came first, it is
  not blocked any more, its node is out of the list, and it inherits the priority of the next waiter if
  that is better than its own. A mutex nobody waits for becomes free.\<close>

theorem mutex_unlock_hands_over:
  assumes r: "refines s a" and i: "a_inv a" and h: "mtx_holds s m ws" and o: "by_prio s ws"
    and t: "current s = Some t" "t \<in> a_tasks a" "owner (mutexes s m) = Some t" and sp: "unat (saved_prio (mutexes s m)) < 32"
    and ws: "\<forall>x \<in> set ws. \<exists>u \<in> a_tasks a. u \<noteq> t \<and> node_task s x = Some u \<and> unat (node_prio s x) < 32"
  shows "\<exists>s' a'. mutex_unlock m s = Some (MutexOk, s') \<and> refines s' a' \<and> a_inv a' \<and> mtx_holds s' m (tl ws) \<and> by_prio s' (tl ws)
    \<and> task_priority (tcbs s' t) = (if boosted (mutexes s m) then saved_prio (mutexes s m) else task_priority (tcbs s t))
    \<and> (case ws of [] \<Rightarrow> owner (mutexes s' m) = None \<and> \<not> boosted (mutexes s' m)
       | w # ws' \<Rightarrow> (\<exists>u. node_task s w = Some u \<and> owner (mutexes s' m) = Some u \<and> tcb_state (tcbs s' u) \<noteq> Blocked
           \<and> (\<forall>x \<in> set ws'. node_prio s w \<le> node_prio s x)
           \<and> task_priority (tcbs s' u) =
               (case ws' of [] \<Rightarrow> task_priority (tcbs s u) | x # _ \<Rightarrow> min (task_priority (tcbs s u)) (node_prio s x))
           \<and> (boosted (mutexes s' m) \<longrightarrow> saved_prio (mutexes s' m) = task_priority (tcbs s u))
           \<and> (boosted (mutexes s' m) \<longleftrightarrow> task_priority (tcbs s' u) \<noteq> task_priority (tcbs s u))))"
proof (cases ws)
  case Nil
  have "mtx_holds s m []" using h Nil by simp
  from unlock_free [OF t(3,1) this r i t(2)] sp obtain s' a' where
    f: "mutex_unlock m s = Some (MutexOk, s')" "refines s' a'" "a_inv a'" "mtx_holds s' m []"
    "owner (mutexes s' m) = None" "\<not> boosted (mutexes s' m)" "a_state a' = a_state a"
    "a_prio a' = (if boosted (mutexes s m) then (a_prio a)(t := saved_prio (mutexes s m)) else a_prio a)"
    by blast
  then show ?thesis using Nil refines_prio [OF f(2), of t] refines_prio [OF r, of t] by (auto simp: by_prio_def)
next
  case (Cons w ws')
  have hw: "mtx_holds s m (w # ws')" "by_prio s (w # ws')" using h o Cons by simp_all
  obtain u where u: "node_task s w = Some u" "u \<in> a_tasks a" "u \<noteq> t" using ws Cons by auto
  have np: "\<forall>x \<in> set ws'. unat (node_prio s x) < 32" using ws Cons by auto
  obtain s' a' where g: "mutex_unlock m s = Some (MutexOk, s')" "refines s' a'" "a_inv a'" "mtx_holds s' m ws'" "by_prio s' ws'"
    "owner (mutexes s' m) = Some u" "a_state a' u \<noteq> Blocked"
    "a_prio a' t = (if boosted (mutexes s m) then saved_prio (mutexes s m) else a_prio a t)"
    "a_prio a' u = (case ws' of [] \<Rightarrow> a_prio a u | x # _ \<Rightarrow> min (a_prio a u) (node_prio s x))"
    "boosted (mutexes s' m) = (case ws' of [] \<Rightarrow> False | x # _ \<Rightarrow> node_prio s x < a_prio a u)"
    "boosted (mutexes s' m) \<longrightarrow> saved_prio (mutexes s' m) = a_prio a u"
    by (rule unlock_handover [OF t(3,1) hw r i t(2) _ u np]) (use sp in simp)
  have p: "task_priority (tcbs s x) = a_prio a x" "task_priority (tcbs s' x) = a_prio a' x" "tcb_state (tcbs s' x) = a_state a' x" for x
    using refines_prio [OF r] refines_prio [OF g(2)] refines_state [OF g(2)] by simp_all
  have "a_prio a' u \<noteq> a_prio a u \<longleftrightarrow> boosted (mutexes s' m)" using g(9,10) by (auto simp: min_def split: list.splits)
  note prio = g(8,9,11,7) this [symmetric]
  have best: "\<forall>x \<in> set ws'. node_prio s w \<le> node_prio s x" using hw(2) by (simp add: by_prio_def)
  show ?thesis
    using Cons g(1-6) u(1) best prio [folded p] by auto
qed


theorem mutex_unlock_hands_over_witness:
  "\<exists>s s' :: wn. mutex_unlock 3 s = Some (MutexOk, s') \<and> mtx_holds s 3 [8] \<and> owner (mutexes s' 3) = Some 2
     \<and> task_priority (tcbs s 1) = 0 \<and> task_priority (tcbs s' 1) = 7"
proof -
  let ?l = "\<lparr>stuff = Some 8, tail = Some 8\<rparr> :: addr self_list"
  obtain s :: wn and a where s: "refines s a" "a_inv a" "a_tasks a = {1, 2}" "a_state a 1 = Running" "current s = Some 1"
    "a_prio a 1 = 0" "a_prio a 2 = 5" "mutexes s = (\<lambda>_. \<lparr>owner = Some 1, saved_prio = 7, boosted = True, mtx_waiters = ?l\<rparr>)"
    "node_next s = (\<lambda>_. None)" "node_task s = (\<lambda>_. Some 2)" "node_prio s = (\<lambda>_. 0)"
    by (rule two_tasks)
  have h: "mtx_holds s 3 [8]" "by_prio s [8]" using s(8,9) by (simp_all add: mtx_holds_def by_prio_def rep_def)
  from mutex_unlock_hands_over [OF s(1,2) h s(5)] show ?thesis
    using s h refines_prio [OF s(1), of 1] by auto
qed

text \<open>Misuse. Locking a mutex that the caller owns and unlocking one that it does not own are refused, and
  change neither the mutex nor the waiters nor any task.\<close>

theorem mutex_misuse_refused:
  "\<exists>s'. (if owner (mutexes s m) = current s then mutex_lock world m me s = Some (SelfLocked, s')
         else mutex_unlock m s = Some (NotYourLock, s'))
    \<and> mutexes s' = mutexes s \<and> node_next s' = node_next s \<and> tcbs s' = tcbs s \<and> current s' = current s \<and> pendsv s' = pendsv s"
  by (auto simp: mutex_lock_def mutex_unlock_def sys_current_task_def current_task_def Let_def)

end
