(* ===== verification/Mutex_Inherit.thy ===== *)
theory Mutex_Inherit
  imports Mutex
begin

text \<open>
  Priority inheritance over whole runs, with any number of mutexes. A run is any sequence of first turns of \<open>lock\<close>,
  of turns after a hand-over, of \<open>unlock\<close> and of calls of the scheduler. Two things that the code does not survive
  are left out of the runs: a task that gives up a boosted mutex while somebody more urgent than the saved
  priority waits for another mutex of its own (that case is the last theorem), and a turn of a task that was woken although the
  mutex was not handed to it, which inserts a linked node again. Calls of \<open>reprioritize\<close> from outside may not put an
  owner below its waiters. The invariant says that the owner of each mutex is at least as urgent as everybody who
  waits for it, so that no task of a priority between them runs as long as the owner can.
\<close>

section \<open>Runs\<close>

text \<open>The state of a run: the tasks, the system, and the list of waiters of each mutex.\<close>

type_synonym 'a mtx_run = "addr set \<times> 'a wn_scheme \<times> (addr \<Rightarrow> addr list)"

inductive mtx_step :: "'a mtx_run \<Rightarrow> 'a mtx_run \<Rightarrow> bool" where
  mtx_lock: "current s = Some t \<Longrightarrow> t \<in> T \<Longrightarrow> tcb_state (tcbs s t) = Running \<Longrightarrow> owner (mutexes s m) \<noteq> Some t \<Longrightarrow>
    \<forall>k. me \<notin> set (W k) \<Longrightarrow> \<forall>x \<in> set (W m). node_task s x \<noteq> Some t \<Longrightarrow>
    lock_turn m me t (MutexWaiter_new me t (sys_prio t s) s) = Some (got, s') \<Longrightarrow>
    mtx_step (T, s, W) (T, s', W(m := if got then W m else ins_by (\<lambda>x y. node_prio s' x < node_prio s' y) me (W m)))"
| mtx_regain: "owner (mutexes s m) = Some t \<Longrightarrow> \<forall>k. me \<notin> set (W k) \<Longrightarrow> lock_turn m me t s = Some (got, s') \<Longrightarrow>
    mtx_step (T, s, W) (T, s', W)"
| mtx_unlock: "current s = Some t \<Longrightarrow> owner (mutexes s m) = Some t \<Longrightarrow>
    boosted (mutexes s m) \<longrightarrow> (\<forall>k x. k \<noteq> m \<longrightarrow> owner (mutexes s k) = Some t \<longrightarrow> x \<in> set (W k) \<longrightarrow> saved_prio (mutexes s m) \<le> node_prio s x) \<Longrightarrow>
    mutex_unlock m s = Some (e, s') \<Longrightarrow> mtx_step (T, s, W) (T, s', W(m := tl (W m)))"
| mtx_call: "refines s a \<Longrightarrow> a_inv a \<Longrightarrow> a_tasks a = T \<Longrightarrow> op_ok op a \<Longrightarrow>
    \<forall>t p. op = OpReprio t p \<longrightarrow> (\<forall>k x. owner (mutexes s k) = Some t \<longrightarrow> x \<in> set (W k) \<longrightarrow> p \<le> node_prio s x) \<Longrightarrow>
    run_op op s = Some (r, s') \<Longrightarrow> mtx_step (T, s, W) (a_tasks (a_op op a), s', W)"

section \<open>The invariant of one mutex\<close>

definition mtx_one :: "addr set \<Rightarrow> addr \<Rightarrow> 'a wn_scheme \<times> addr list \<Rightarrow> bool" where
  "mtx_one T m = (\<lambda>(s, ws). (\<exists>a. refines s a \<and> a_inv a \<and> a_tasks a = T) \<and> mtx_holds s m ws \<and> by_prio s ws
     \<and> (boosted (mutexes s m) \<longrightarrow> unat (saved_prio (mutexes s m)) < 32)
     \<and> (case owner (mutexes s m) of None \<Rightarrow> ws = []
        | Some ow \<Rightarrow> ow \<in> T \<and> (\<forall>x \<in> set ws. task_priority (tcbs s ow) \<le> node_prio s x))
     \<and> (\<forall>x \<in> set ws. \<exists>u \<in> T. owner (mutexes s m) \<noteq> Some u \<and> node_task s x = Some u \<and> unat (node_prio s x) < 32)
     \<and> distinct (map (node_task s) ws))"

lemma mtx_oneE:
  assumes "mtx_one T m (s, ws)"
  obtains a where "refines s a" "a_inv a" "a_tasks a = T" "mtx_holds s m ws" "by_prio s ws"
    "boosted (mutexes s m) \<longrightarrow> unat (saved_prio (mutexes s m)) < 32"
    "case owner (mutexes s m) of None \<Rightarrow> ws = [] | Some ow \<Rightarrow> ow \<in> T \<and> (\<forall>x \<in> set ws. task_priority (tcbs s ow) \<le> node_prio s x)"
    "\<forall>x \<in> set ws. \<exists>u \<in> T. owner (mutexes s m) \<noteq> Some u \<and> node_task s x = Some u \<and> unat (node_prio s x) < 32"
    "distinct (map (node_task s) ws)"
  using assms unfolding mtx_one_def by blast

lemma node_new_sel [simp]:
  "mutexes (MutexWaiter_new me t p s) = mutexes s" "tcbs (MutexWaiter_new me t p s) = tcbs s"
  "current (MutexWaiter_new me t p s) = current s" "refines (MutexWaiter_new me t p s) a = refines s a"
  "node_task (MutexWaiter_new me t p s) = (node_task s)(me := Some t)" "node_prio (MutexWaiter_new me t p s) = (node_prio s)(me := p)"
  by (simp_all add: MutexWaiter_new_def refines_def levels_def)

lemma node_new_holds:
  assumes "mtx_holds s m ws" and "by_prio s ws" and "me \<notin> set ws"
  shows "mtx_holds (MutexWaiter_new me t p s) m ws" "by_prio (MutexWaiter_new me t p s) ws"
proof -
  have "rep (mtx_waiters (mutexes s m), (node_next s)(me := None)) ws"
    by (rule rep_frame [OF assms(1) [unfolded mtx_holds_def]]) (use assms(3) in auto)
  then show "mtx_holds (MutexWaiter_new me t p s) m ws" by (simp add: mtx_holds_def MutexWaiter_new_def)
  show "by_prio (MutexWaiter_new me t p s) ws"
    unfolding by_prio_def by (rule sorted_wrt_mono_rel [OF _ assms(2) [unfolded by_prio_def]]) (use assms(3) in auto)
qed

lemma lock_inv:
  assumes inv: "mtx_one T m (s, ws)" and t: "current s = Some t" "t \<in> T" "tcb_state (tcbs s t) = Running" "owner (mutexes s m) \<noteq> Some t"
    and me: "me \<notin> set ws" "\<forall>x \<in> set ws. node_task s x \<noteq> Some t"
    and turn: "lock_turn m me t (MutexWaiter_new me t (sys_prio t s) s) = Some (got, s')"
  shows "mtx_one T m (s', if got then ws else ins_by (\<lambda>x y. node_prio s' x < node_prio s' y) me ws)
    \<and> (\<forall>v. task_priority (tcbs s' v) \<le> task_priority (tcbs s v))"
proof -
  let ?s = "MutexWaiter_new me t (sys_prio t s) s"
  obtain a where a: "refines s a" "a_inv a" "a_tasks a = T" "mtx_holds s m ws" "by_prio s ws"
    "boosted (mutexes s m) \<longrightarrow> unat (saved_prio (mutexes s m)) < 32"
    "case owner (mutexes s m) of None \<Rightarrow> ws = [] | Some ow \<Rightarrow> ow \<in> T \<and> (\<forall>x \<in> set ws. task_priority (tcbs s ow) \<le> node_prio s x)"
    "\<forall>x \<in> set ws. \<exists>u \<in> T. owner (mutexes s m) \<noteq> Some u \<and> node_task s x = Some u \<and> unat (node_prio s x) < 32"
    "distinct (map (node_task s) ws)"
    by (rule mtx_oneE [OF inv])
  note h = node_new_holds [OF a(4,5) me(1), of t "sys_prio t s"]
  have p: "task_priority (tcbs s u) = a_prio a u" for u using refines_prio [OF a(1)] by simp
  have ptl: "unat (sys_prio t s) < 32" using a_inv_level [OF a(2), of t] t(2) a(3) p by (simp add: a_level_def sys_prio_def sched_prio_def)
  show ?thesis
  proof (cases "owner (mutexes s m)")
    case None
    then have ws: "ws = []" using a(7) by simp
    have own: "owner (mutexes ?s m) = None \<or> owner (mutexes ?s m) = Some t" using None by simp
    have "got" "owner (mutexes s' m) = Some t" "mtx_holds s' m []" "refines s' a" "boosted (mutexes s' m) = boosted (mutexes s m)"
      "saved_prio (mutexes s' m) = saved_prio (mutexes s m)"
      using lock_turn_free [OF h(1) own, of me] turn ws a(1) by auto
    moreover have "task_priority (tcbs s' v) = task_priority (tcbs s v)" for v
      using refines_prio [OF calculation(4), of v] refines_prio [OF a(1), of v] by simp
    ultimately show ?thesis using ws a(2,3,6) t(2) by (auto simp: mtx_one_def by_prio_def)
  next
    case (Some ow)
    have ow: "owner (mutexes ?s m) = Some ow" "ow \<noteq> t" "ow \<in> a_tasks a" "t \<in> a_tasks a" "a_state a t = Running"
      using Some t a(3,7) refines_state [OF a(1), of t] by auto
    let ?ws = "ins_by (\<lambda>x y. node_prio ?s x < node_prio ?s y) me ws"
    have r: "refines ?s a" using a(1) by simp
    obtain s1 a' where w: "lock_turn m me t ?s = Some (False, s1)" "refines s1 a'" "a_inv a'" "mtx_holds s1 m ?ws" "by_prio s1 ?ws"
      "a_prio a' = (a_prio a)(ow := min (a_prio a ow) (a_prio a t))" "a_state a' = (a_state a)(t := Blocked)"
      "owner (mutexes s1 m) = Some ow" "boosted (mutexes s1 m) = (boosted (mutexes ?s m) \<or> a_prio a t < a_prio a ow)"
      "saved_prio (mutexes s1 m) =
         (if a_prio a t < a_prio a ow \<and> \<not> boosted (mutexes ?s m) then a_prio a ow else saved_prio (mutexes ?s m))"
      "a_tasks a' = a_tasks a" "a_cur a' = a_cur a" "node_task s1 = node_task ?s" "node_prio s1 = node_prio ?s"
      by (rule lock_turn_wait [OF r a(2) h me(1) ow])
    have got: "\<not> got" "s' = s1" using turn w(1) by auto
    have set: "set ?ws = insert me (set ws)" by simp
    have "unat (saved_prio (mutexes s1 m)) < 32" if "boosted (mutexes s1 m)"
      using that w(9,10) a(6) a_inv_level [OF a(2) ow(3)] by (auto simp: a_level_def split: if_splits)
    moreover have "task_priority (tcbs s1 ow) \<le> node_prio s1 x" if "x \<in> set ?ws" for x
    proof -
      have "task_priority (tcbs s1 ow) = min (a_prio a ow) (a_prio a t)" using refines_prio [OF w(2), of ow] w(6) by simp
      then have "task_priority (tcbs s1 ow) \<le> a_prio a ow" "task_priority (tcbs s1 ow) \<le> a_prio a t" by simp_all
      moreover have "x \<noteq> me \<Longrightarrow> a_prio a ow \<le> node_prio s x" using that a(7) Some p unfolding set by auto
      ultimately show ?thesis using w(14) p by (cases "x = me") (auto simp: sys_prio_def sched_prio_def)
    qed
    moreover have "\<exists>u \<in> T. owner (mutexes s1 m) \<noteq> Some u \<and> node_task s1 x = Some u \<and> unat (node_prio s1 x) < 32" if "x \<in> set ?ws" for x
      using that a(8) me(1) Some t(2) ow(2) ptl w(8,13,14) unfolding set by (cases "x = me") auto
    moreover have "distinct (map (node_task s1) ?ws)"
    proof -
      obtain xs ys where "ws = xs @ ys" "?ws = xs @ me # ys" by (metis ins_by_def takeWhile_dropWhile_id)
      then show ?thesis using a(9) me w(13) by (auto simp: distinct_map inj_on_def)
    qed
    moreover have "task_priority (tcbs s1 v) \<le> task_priority (tcbs s v)" for v
      using refines_prio [OF w(2), of v, symmetric] p [of v] w(6) by simp
    ultimately show ?thesis using got w a(3) ow(3) by (auto simp: mtx_one_def)
  qed
qed

lemma regain_inv:
  assumes inv: "mtx_one T m (s, ws)" and own: "owner (mutexes s m) = Some t" and me: "me \<notin> set ws"
    and turn: "lock_turn m me t s = Some (got, s')"
  shows "mtx_one T m (s', ws)"
proof -
  have h: "mtx_holds s m ws" using inv by (simp add: mtx_one_def)
  have "owner (mutexes s' m) = Some t" "mtx_holds s' m ws" "tcbs s' = tcbs s" "\<forall>a. refines s' a = refines s a"
    "node_task s' = node_task s" "node_prio s' = node_prio s" "boosted (mutexes s' m) = boosted (mutexes s m)"
    "saved_prio (mutexes s' m) = saved_prio (mutexes s m)"
    using lock_turn_free [OF h, of t me] own me turn by (auto simp: remove1_idem)
  then show ?thesis using inv own by (simp add: mtx_one_def by_prio_def)
qed

lemma unlock_inv:
  assumes inv: "mtx_one T m (s, ws)" and t: "current s = Some t" "owner (mutexes s m) = Some t"
    and unlock: "mutex_unlock m s = Some (e, s')"
  shows "mtx_one T m (s', tl ws) \<and> (\<forall>v. task_priority (tcbs s' v) \<le> task_priority (tcbs s v)
    \<or> v = t \<and> boosted (mutexes s m) \<and> task_priority (tcbs s' v) = saved_prio (mutexes s m))"
proof -
  obtain a where a: "refines s a" "a_inv a" "a_tasks a = T" "mtx_holds s m ws" "by_prio s ws"
    "boosted (mutexes s m) \<longrightarrow> unat (saved_prio (mutexes s m)) < 32"
    "case owner (mutexes s m) of None \<Rightarrow> ws = [] | Some ow \<Rightarrow> ow \<in> T \<and> (\<forall>x \<in> set ws. task_priority (tcbs s ow) \<le> node_prio s x)"
    "\<forall>x \<in> set ws. \<exists>u \<in> T. owner (mutexes s m) \<noteq> Some u \<and> node_task s x = Some u \<and> unat (node_prio s x) < 32"
    "distinct (map (node_task s) ws)"
    by (rule mtx_oneE [OF inv])
  have tT: "t \<in> a_tasks a" using a(3,7) t(2) by simp
  show ?thesis
  proof (cases ws)
    case Nil
    have h: "mtx_holds s m []" using a(4) Nil by simp
    obtain s1 a1 where f: "mutex_unlock m s = Some (MutexOk, s1)" "refines s1 a1" "a_inv a1" "mtx_holds s1 m []"
      "owner (mutexes s1 m) = None" "\<not> boosted (mutexes s1 m)" "a_state a1 = a_state a"
      "a_prio a1 = (if boosted (mutexes s m) then (a_prio a)(t := saved_prio (mutexes s m)) else a_prio a)"
      "a_tasks a1 = a_tasks a" "node_task s1 = node_task s" "node_prio s1 = node_prio s"
      by (rule unlock_free [OF t(2,1) h a(1,2) tT a(6)])
    moreover have "task_priority (tcbs s1 v) \<le> task_priority (tcbs s v) \<or> v = t \<and> boosted (mutexes s m) \<and> task_priority (tcbs s1 v) = saved_prio (mutexes s m)" for v
      using f(8) refines_prio [OF f(2), of v] refines_prio [OF a(1), of v] by (simp split: if_splits)
    ultimately show ?thesis using Nil unlock a(3) by (auto simp: mtx_one_def by_prio_def)
  next
    case (Cons w ws')
    have h: "mtx_holds s m (w # ws')" "by_prio s (w # ws')" using a(4,5) Cons by simp_all
    obtain u where u: "node_task s w = Some u" "u \<in> a_tasks a" "u \<noteq> t" using a(3,8) t(2) Cons by auto
    have np: "\<forall>x \<in> set ws'. unat (node_prio s x) < 32" using a(8) Cons by auto
    obtain s1 a1 where g: "mutex_unlock m s = Some (MutexOk, s1)" "refines s1 a1" "a_inv a1" "mtx_holds s1 m ws'" "by_prio s1 ws'"
      "owner (mutexes s1 m) = Some u" "a_state a1 u \<noteq> Blocked"
      "a_prio a1 t = (if boosted (mutexes s m) then saved_prio (mutexes s m) else a_prio a t)"
      "a_prio a1 u = (case ws' of [] \<Rightarrow> a_prio a u | x # _ \<Rightarrow> min (a_prio a u) (node_prio s x))"
      "boosted (mutexes s1 m) = (case ws' of [] \<Rightarrow> False | x # _ \<Rightarrow> node_prio s x < a_prio a u)"
      "boosted (mutexes s1 m) \<longrightarrow> saved_prio (mutexes s1 m) = a_prio a u"
      "a_tasks a1 = a_tasks a" "node_task s1 = node_task s" "node_prio s1 = node_prio s"
      "\<forall>v. v \<noteq> t \<longrightarrow> v \<noteq> u \<longrightarrow> a_prio a1 v = a_prio a v"
      by (rule unlock_handover [OF t(2,1) h a(1,2) tT a(6) u np])
    have s': "s' = s1" using g(1) unlock by simp
    have "task_priority (tcbs s1 u) \<le> node_prio s1 x" if x: "x \<in> set ws'" for x
    proof -
      obtain y ys where ws': "ws' = y # ys" using x by (cases ws') auto
      have "task_priority (tcbs s1 u) = min (a_prio a u) (node_prio s y)" using refines_prio [OF g(2), of u] g(9) ws' by simp
      then have "task_priority (tcbs s1 u) \<le> node_prio s y" by simp
      also have "\<dots> \<le> node_prio s x" using h(2) x ws' by (auto simp: by_prio_def)
      finally show ?thesis by (simp add: g(14))
    qed
    moreover have "\<exists>v \<in> T. owner (mutexes s1 m) \<noteq> Some v \<and> node_task s1 x = Some v \<and> unat (node_prio s1 x) < 32" if x: "x \<in> set ws'" for x
    proof -
      have "node_task s x \<noteq> Some u" using a(9) x u(1) unfolding Cons by force
      then show ?thesis using a(8) x Cons g(6,13,14) by force
    qed
    moreover have "unat (saved_prio (mutexes s1 m)) < 32" if "boosted (mutexes s1 m)"
      using that g(11) a_inv_level [OF a(2) u(2)] by (simp add: a_level_def)
    moreover have "task_priority (tcbs s1 v) \<le> task_priority (tcbs s v) \<or> v = t \<and> boosted (mutexes s m) \<and> task_priority (tcbs s1 v) = saved_prio (mutexes s m)" for v
      using g(8,9,15) u(3) refines_prio [OF g(2), of v, symmetric] refines_prio [OF a(1), of v, symmetric]
      by (cases "v = t"; cases "v = u"; cases ws'; simp split: if_splits)
    ultimately have "mtx_one T m (s1, ws') \<and> (\<forall>v. task_priority (tcbs s1 v) \<le> task_priority (tcbs s v)
        \<or> v = t \<and> boosted (mutexes s m) \<and> task_priority (tcbs s1 v) = saved_prio (mutexes s m))"
      using g(1-7) Cons a(3,9) u(2) g(12-14) by (auto simp: mtx_one_def)
    then show ?thesis unfolding s' Cons by simp
  qed
qed

lemma wn_more:
  assumes "sched.more s' = sched.more s"
  shows "mutexes s' = mutexes s" "node_next s' = node_next s" "node_task s' = node_task s" "node_prio s' = node_prio s"
  using assms by (cases s; cases s'; simp)+

section \<open>What a step does to the other mutexes\<close>

lemma mtx_insert_frame:
  assumes "mtx_holds s m ws" and "me \<notin> set ws" and "mtx_insert m me s = Some s'"
  shows "k \<noteq> m \<Longrightarrow> mutexes s' k = mutexes s k" "y \<notin> insert me (set ws) \<Longrightarrow> node_next s' y = node_next s y"
    "node_task s' = node_task s" "node_prio s' = node_prio s"
  using assms(3) sl.holds_sorted_in [OF assms(1) [unfolded mtx_holds_def] assms(2), of "ByPrio (node_prio s)"]
  by (auto simp: mtx_insert_def)

lemma mtx_remove_frame:
  assumes "mtx_holds s m ws" and "mtx_remove m me s = Some s'"
  shows "k \<noteq> m \<Longrightarrow> mutexes s' k = mutexes s k" "y \<notin> set ws \<Longrightarrow> node_next s' y = node_next s y"
    "node_task s' = node_task s" "node_prio s' = node_prio s"
  using assms(2) sl.holds_unlink [OF assms(1) [unfolded mtx_holds_def], of me] by (auto simp: mtx_remove_def)

lemma lock_turn_frame:
  assumes h: "mtx_holds s m ws" and me: "me \<notin> set ws" and turn: "lock_turn m me t s = Some (got, s')"
  shows "(\<forall>k. k \<noteq> m \<longrightarrow> mutexes s' k = mutexes s k) \<and> (\<forall>y. y \<notin> insert me (set ws) \<longrightarrow> node_next s' y = node_next s y)
    \<and> node_task s' = node_task s \<and> node_prio s' = node_prio s"
proof -
  define s0 where "s0 = (if owner (mutexes s m) = None then set_mutex m ((mutexes s m)\<lparr>owner := Some t\<rparr>) (sys_lock s) else sys_lock s)"
  have h0: "mtx_holds s0 m ws" "mtx_holds (sys_lock s) m ws" using h by (simp_all add: s0_def mtx_holds_def)
  have s0: "node_next s0 = node_next s" "node_task s0 = node_task s" "node_prio s0 = node_prio s" "k \<noteq> m \<Longrightarrow> mutexes s0 k = mutexes s k" for k
    by (simp_all add: s0_def)
  show ?thesis
  proof (cases "owner (mutexes s m) = None \<or> owner (mutexes s m) = Some t")
    case True
    then obtain s1 where "mtx_remove m me s0 = Some s1" "s' = sys_unlock s1"
      using turn by (auto simp: lock_turn_def s0_def Let_def split: bind_splits)
    then show ?thesis using mtx_remove_frame [OF h0(1)] s0 by simp
  next
    case False
    then obtain ow where ow: "owner (mutexes s m) = Some ow" "ow \<noteq> t" by auto
    then obtain s1 s2 where i: "mtx_insert m me (sys_lock s) = Some s1" and b: "s' = sys_unlock (sys_block (Some t) s2)"
      "(if sys_prio ow s1 > sys_prio t s1 then sys_reprioritize ow (sys_prio t s1)
         (if \<not> boosted (mutexes s1 m) then set_mutex m ((mutexes s1 m)\<lparr>saved_prio := sys_prio ow s1, boosted := True\<rparr>) s1 else s1)
        else Some s1) = Some s2"
      using turn by (auto simp: lock_turn_def Let_def split: bind_splits)
    have "node_next s2 = node_next s1" "node_task s2 = node_task s1" "node_prio s2 = node_prio s1" "k \<noteq> m \<Longrightarrow> mutexes s2 k = mutexes s1 k" for k
      using b(2) by (auto simp: sys_reprioritize_def reprio_nodes split: if_splits dest: reprio_nodes)
    then show ?thesis using mtx_insert_frame [OF h0(2) me i] by (simp add: b(1) sys_block_def)
  qed
qed

lemma unlock_other:
  assumes "mutex_unlock m s = Some (e, s')" and "k \<noteq> m"
  shows "mutexes s' k = mutexes s k" "node_prio s' = node_prio s"
proof -
  have restore: "mutexes s2 k = mutexes s1 k \<and> node_prio s2 = node_prio s1" if "restore_prio m c s1 = Some s2" for c and s1 s2 :: "'a wn_scheme"
    using that assms(2) by (auto simp: restore_prio_def sys_reprioritize_def reprio_nodes split: if_splits option.splits)
  have hand: "mutexes s2 k = mutexes s1 k \<and> node_prio s2 = node_prio s1" if "hand_over m s1 = Some s2" for s1 s2 :: "'a wn_scheme"
    using that assms(2)
    by (auto simp: hand_over_def sys_reprioritize_def sys_ready_def reprio_nodes Let_def split: option.splits prod.splits bind_splits if_splits)
  have "mutexes s' k = mutexes s k \<and> node_prio s' = node_prio s"
    using assms(1) by (auto simp: mutex_unlock_def Let_def dest!: restore hand split: if_splits bind_splits)
  then show "mutexes s' k = mutexes s k" "node_prio s' = node_prio s" by simp_all
qed

lemma hand_over_frame:
  assumes h: "mtx_holds s m ws" and "hand_over m s = Some s'"
  shows "(\<forall>y. y \<notin> set ws \<longrightarrow> node_next s' y = node_next s y) \<and> node_task s' = node_task s"
proof (cases ws)
  case Nil
  then have "SelfList_pop_head (mtx_waiters (mutexes s m), node_next s) = (None, (mtx_waiters (mutexes s m), node_next s))"
    using h sl.holds_deq_Nil by (simp add: mtx_holds_def)
  then show ?thesis using assms(2) by (auto simp: hand_over_def)
next
  case (Cons w ws')
  then have "rep (mtx_waiters (mutexes s m), node_next s) (w # ws')" using h by (simp add: mtx_holds_def)
  then obtain l nx where "SelfList_pop_head (mtx_waiters (mutexes s m), node_next s) = (Some w, (l, nx))"
    "\<And>y. y \<noteq> w \<Longrightarrow> nx y = node_next s y" by (rule rep_pop_head) fastforce
  then show ?thesis
    using assms(2) Cons by (auto simp: hand_over_def sys_reprioritize_def sys_ready_def reprio_nodes Let_def split: option.splits bind_splits if_splits)
qed

lemma unlock_frame:
  assumes h: "mtx_holds s m ws" and unlock: "mutex_unlock m s = Some (e, s')"
  shows "(\<forall>k. k \<noteq> m \<longrightarrow> mutexes s' k = mutexes s k) \<and> (\<forall>y. y \<notin> set ws \<longrightarrow> node_next s' y = node_next s y)
    \<and> node_task s' = node_task s \<and> node_prio s' = node_prio s"
proof (cases "owner (mutexes s m) = sys_current_task s")
  case True
  then obtain s1 s2 where s1: "restore_prio m (sys_current_task s) (sys_lock s) = Some s1" and s2: "hand_over m s1 = Some s2" "s' = sys_unlock s2"
    using unlock by (auto simp: mutex_unlock_def Let_def split: bind_splits)
  have f: "node_next s1 = node_next s" "node_task s1 = node_task s" "mtx_waiters (mutexes s1 m) = mtx_waiters (mutexes s m)"
    using s1 by (auto simp: restore_prio_def sys_reprioritize_def reprio_nodes split: if_splits option.splits)
  then have "mtx_holds s1 m ws" using h by (simp add: mtx_holds_def)
  from hand_over_frame [OF this s2(1)] show ?thesis using f s2(2) unlock_other [OF unlock] unlock_other(2) [OF unlock, of "Suc m"] by simp
next
  case False
  then show ?thesis using unlock by (auto simp: mutex_unlock_def Let_def)
qed

lemma one_frame:
  assumes one: "mtx_one T k (s, ws)" and a: "refines s' a" "a_inv a" "a_tasks a = T'" and T: "T \<subseteq> T'" and m: "mutexes s' k = mutexes s k"
    and n: "\<forall>x \<in> set ws. node_next s' x = node_next s x \<and> node_task s' x = node_task s x \<and> node_prio s' x = node_prio s x"
    and p: "\<forall>ow. owner (mutexes s k) = Some ow \<longrightarrow> task_priority (tcbs s' ow) \<le> task_priority (tcbs s ow)
      \<or> (\<forall>x \<in> set ws. task_priority (tcbs s' ow) \<le> node_prio s x)"
  shows "mtx_one T' k (s', ws)"
proof -
  obtain b where b: "mtx_holds s k ws" "by_prio s ws" "boosted (mutexes s k) \<longrightarrow> unat (saved_prio (mutexes s k)) < 32"
    "case owner (mutexes s k) of None \<Rightarrow> ws = [] | Some ow \<Rightarrow> ow \<in> T \<and> (\<forall>x \<in> set ws. task_priority (tcbs s ow) \<le> node_prio s x)"
    "\<forall>x \<in> set ws. \<exists>u \<in> T. owner (mutexes s k) \<noteq> Some u \<and> node_task s x = Some u \<and> unat (node_prio s x) < 32"
    "distinct (map (node_task s) ws)"
    by (rule mtx_oneE [OF one])
  have "mtx_holds s' k ws" using rep_frame [OF b(1) [unfolded mtx_holds_def]] n m by (simp add: mtx_holds_def)
  moreover have "by_prio s' ws" unfolding by_prio_def
    by (rule sorted_wrt_mono_rel [OF _ b(2) [unfolded by_prio_def]]) (use n in auto)
  moreover have "map (node_task s') ws = map (node_task s) ws" using n by simp
  moreover have "case owner (mutexes s' k) of None \<Rightarrow> ws = [] | Some ow \<Rightarrow> ow \<in> T' \<and> (\<forall>x \<in> set ws. task_priority (tcbs s' ow) \<le> node_prio s' x)"
    using b(4) p T n m by (fastforce split: option.splits intro: order_trans)
  moreover have "\<forall>x \<in> set ws. \<exists>u \<in> T'. owner (mutexes s' k) \<noteq> Some u \<and> node_task s' x = Some u \<and> unat (node_prio s' x) < 32"
    using b(5) T n m by (metis subsetD)
  ultimately show ?thesis using a b(3,6) m unfolding mtx_one_def by (simp del: map_eq_conv) blast
qed

section \<open>The invariant of a run\<close>

definition mtx_inv :: "'a mtx_run \<Rightarrow> bool" where
  "mtx_inv = (\<lambda>(T, s, W). (\<forall>k. mtx_one T k (s, W k)) \<and> (\<forall>j k. j \<noteq> k \<longrightarrow> set (W j) \<inter> set (W k) = {}))"

lemma one_refines:
  assumes "mtx_one T k (s, ws)"
  obtains a where "refines s a" "a_inv a" "a_tasks a = T"
  using assms unfolding mtx_one_def by blast

text \<open>A step on mutex \<open>m\<close> that keeps the invariant there and changes the others only as far as they can bear.\<close>

lemma inv_step:
  assumes inv: "mtx_inv (T, s, W)" and one: "mtx_one T m (s', ws)" and ws: "set ws \<subseteq> N \<union> set (W m)" "\<forall>k. N \<inter> set (W k) = {}"
    and m: "\<forall>k. k \<noteq> m \<longrightarrow> mutexes s' k = mutexes s k"
    and n: "\<forall>y. y \<notin> N \<union> set (W m) \<longrightarrow> node_next s' y = node_next s y \<and> node_task s' y = node_task s y \<and> node_prio s' y = node_prio s y"
    and p: "\<forall>k ow. k \<noteq> m \<longrightarrow> owner (mutexes s k) = Some ow \<longrightarrow> task_priority (tcbs s' ow) \<le> task_priority (tcbs s ow)
      \<or> (\<forall>x \<in> set (W k). task_priority (tcbs s' ow) \<le> node_prio s x)"
  shows "mtx_inv (T, s', W(m := ws))"
proof -
  obtain a where a: "refines s' a" "a_inv a" "a_tasks a = T" by (rule one_refines [OF one])
  have d: "set (W j) \<inter> set (W k) = {}" if "j \<noteq> k" for j k using inv that by (simp add: mtx_inv_def)
  have "mtx_one T k (s', W k)" if "k \<noteq> m" for k
  proof (rule one_frame [OF _ a order_refl])
    show "mtx_one T k (s, W k)" using inv by (simp add: mtx_inv_def)
    show "\<forall>x \<in> set (W k). node_next s' x = node_next s x \<and> node_task s' x = node_task s x \<and> node_prio s' x = node_prio s x"
      using n d [OF that] ws(2) by blast
  qed (use m p that in auto)
  moreover have "set (W k) \<inter> set ws = {}" "set ws \<inter> set (W k) = {}" if "m \<noteq> k" for k using d [OF that] ws by blast+
  ultimately show ?thesis using one d by (auto simp: mtx_inv_def)
qed

lemma call_inv:
  assumes inv: "mtx_inv (T, s, W)" and a: "refines s a" "a_inv a" "a_tasks a = T" and ok: "op_ok op a"
    and op: "\<forall>t p. op = OpReprio t p \<longrightarrow> (\<forall>k x. owner (mutexes s k) = Some t \<longrightarrow> x \<in> set (W k) \<longrightarrow> p \<le> node_prio s x)"
    and run: "run_op op s = Some (r, s')"
  shows "mtx_inv (a_tasks (a_op op a), s', W)"
proof -
  obtain s1 where "run_op op s = Some (a_res op a, s1)" "refines s1 (a_op op a)" using sim_op [OF a(1,2) ok] by blast
  then have r: "refines s' (a_op op a)" using run by simp
  have T: "T \<subseteq> a_tasks (a_op op a)"
    using a(3) by (cases op) (auto simp: a_wake_def a_preempt_def a_enqueue_def a_unqueue_def a_pick_def a_requeue_def Let_def split: option.splits)
  have f: "mutexes s' = mutexes s \<and> node_next s' = node_next s \<and> node_task s' = node_task s \<and> node_prio s' = node_prio s
      \<and> (\<forall>u. task_priority (tcbs s' u) = task_priority (tcbs s u) \<or> (\<exists>p. op = OpReprio u p \<and> task_priority (tcbs s' u) = p))"
  proof (cases "\<exists>t p. op = OpReprio t p")
    case True
    then obtain t p where tp: "op = OpReprio t p" by blast
    then have e: "reprioritize t p s = Some s'" using run by auto
    have "task_priority (tcbs s' u) = (if u = t then p else task_priority (tcbs s u))" for u
      using refines_prio [OF r, of u, symmetric] refines_prio [OF a(1), of u, symmetric] unfolding tp by (simp add: a_reprio_sel del: a_op.simps)
    then show ?thesis using reprio_nodes [OF e] tp by simp
  next
    case False
    then have "\<forall>t p. op \<noteq> OpReprio t p" by simp
    note p = op_priorities [OF run this]
    show ?thesis using wn_more [OF p(1)] p(2) by simp
  qed
  have "mtx_one (a_tasks (a_op op a)) k (s', W k)" for k
  proof (rule one_frame [OF _ r a_inv_op [OF a(2) ok] refl T])
    show "mtx_one T k (s, W k)" using inv by (simp add: mtx_inv_def)
    show "\<forall>ow. owner (mutexes s k) = Some ow \<longrightarrow> task_priority (tcbs s' ow) \<le> task_priority (tcbs s ow)
      \<or> (\<forall>x \<in> set (W k). task_priority (tcbs s' ow) \<le> node_prio s x)" using f op by (metis order_refl)
  qed (use f in auto)
  then show ?thesis using inv by (simp add: mtx_inv_def)
qed

lemma step_inv:
  assumes "mtx_step x y" and "mtx_inv x"
  shows "mtx_inv y"
  using assms(1)
proof cases
  case (mtx_lock s t T m me W got s')
  let ?s = "MutexWaiter_new me t (sys_prio t s) s"
  have one: "mtx_one T m (s, W m)" using assms(2) mtx_lock(1) by (simp add: mtx_inv_def)
  have me: "me \<notin> set (W m)" using mtx_lock(7) by simp
  note h = node_new_holds [of s m "W m", OF _ _ me, of t "sys_prio t s"]
  have h': "mtx_holds ?s m (W m)" using h(1) one by (simp add: mtx_one_def)
  note f = lock_turn_frame [OF h' me mtx_lock(9)]
  note i = lock_inv [OF one mtx_lock(3-6) me mtx_lock(8,9)]
  let ?ws = "if got then W m else ins_by (\<lambda>x y. node_prio s' x < node_prio s' y) me (W m)"
  have "mtx_inv (T, s', W(m := ?ws))"
  proof (rule inv_step [OF assms(2) [unfolded mtx_lock(1)], where N = "{me}"])
    show "mtx_one T m (s', ?ws)" using i by simp
    show "\<forall>k ow. k \<noteq> m \<longrightarrow> owner (mutexes s k) = Some ow \<longrightarrow> task_priority (tcbs s' ow) \<le> task_priority (tcbs s ow)
      \<or> (\<forall>x \<in> set (W k). task_priority (tcbs s' ow) \<le> node_prio s x)" using i by simp
  qed (use f mtx_lock(7) in \<open>auto simp: MutexWaiter_new_def\<close>)
  then show ?thesis using mtx_lock(2) by simp
next
  case (mtx_regain s m t me W got s' T)
  have one: "mtx_one T m (s, W m)" using assms(2) mtx_regain(1) by (simp add: mtx_inv_def)
  have me: "me \<notin> set (W m)" using mtx_regain(4) by simp
  have h: "mtx_holds s m (W m)" using one by (simp add: mtx_one_def)
  have t: "tcbs s' = tcbs s" using lock_turn_free [OF h, of t me] mtx_regain(3,5) by auto
  have "mtx_inv (T, s', W(m := W m))"
    by (rule inv_step [OF assms(2) [unfolded mtx_regain(1)] regain_inv [OF one mtx_regain(3) me mtx_regain(5)], where N = "{me}"])
      (use lock_turn_frame [OF h me mtx_regain(5)] mtx_regain(4) t in auto)
  then show ?thesis using mtx_regain(2) by simp
next
  case (mtx_unlock s t m W e s' T)
  have one: "mtx_one T m (s, W m)" using assms(2) mtx_unlock(1) by (simp add: mtx_inv_def)
  have h: "mtx_holds s m (W m)" using one by (simp add: mtx_one_def)
  note i = unlock_inv [OF one mtx_unlock(3,4,6)]
  have sub: "set (tl (W m)) \<subseteq> set (W m)" by (cases "W m") auto
  have "mtx_inv (T, s', W(m := tl (W m)))"
  proof (rule inv_step [OF assms(2) [unfolded mtx_unlock(1)], where N = "{}"])
    show "\<forall>k ow. k \<noteq> m \<longrightarrow> owner (mutexes s k) = Some ow \<longrightarrow> task_priority (tcbs s' ow) \<le> task_priority (tcbs s ow)
      \<or> (\<forall>x \<in> set (W k). task_priority (tcbs s' ow) \<le> node_prio s x)" using i mtx_unlock(5) by metis
  qed (use i unlock_frame [OF h mtx_unlock(6)] sub in auto)
  then show ?thesis using mtx_unlock(2) by simp
next
  case (mtx_call s a T op W r s')
  then show ?thesis using call_inv [OF _ mtx_call(3-8)] assms(2) by simp
qed

lemma run_inv: "mtx_step\<^sup>*\<^sup>* x y \<Longrightarrow> mtx_inv x \<Longrightarrow> mtx_inv y"
  by (induction rule: rtranclp_induct) (auto intro: step_inv)

lemma one_outranks:
  assumes "mtx_one T m (s, ws)"
  shows "mtx_holds s m ws \<and> by_prio s ws
    \<and> (\<forall>ow x. owner (mutexes s m) = Some ow \<and> x \<in> set ws \<longrightarrow> task_priority (tcbs s ow) \<le> node_prio s x
         \<and> (tcb_state (tcbs s ow) \<noteq> Blocked \<longrightarrow> task_priority (tcbs s (fst (pick_next s))) \<le> node_prio s x))"
proof -
  obtain a where a: "refines s a" "a_inv a" "a_tasks a = T" "mtx_holds s m ws" "by_prio s ws"
    "case owner (mutexes s m) of None \<Rightarrow> ws = [] | Some ow \<Rightarrow> ow \<in> T \<and> (\<forall>x \<in> set ws. task_priority (tcbs s ow) \<le> node_prio s x)"
    by (rule mtx_oneE [OF assms])
  have "task_priority (tcbs s (fst (pick_next s))) \<le> node_prio s x"
    if own: "owner (mutexes s m) = Some ow" and x: "x \<in> set ws" and run: "tcb_state (tcbs s ow) \<noteq> Blocked" for ow x
  proof -
    have ow: "ow \<in> runnable a" using own a(3,6) run refines_state [OF a(1), of ow] by (simp add: runnable_def)
    then have "a_prio a (fst (pick_next s)) \<le> a_prio a ow" using pick_best [OF a(2)] sim_pick(2) [OF a(1,2)] by (auto split: if_splits)
    also have "\<dots> \<le> node_prio s x" using own a(6) x refines_prio [OF a(1), of ow] by simp
    finally show ?thesis using refines_prio [OF a(1)] by simp
  qed
  then show ?thesis using a(4,5,6) by auto
qed

section \<open>Properties\<close>

text \<open>C4: no unbounded priority inversion, with any number of mutexes. On every run of first turns of \<open>lock\<close>, turns after
  a hand-over, \<open>unlock\<close> and scheduler calls, the waiters of each mutex stay queued in priority order and its owner runs at a
  priority at least as good as the one with which anybody who waits has queued; so whenever the owner can run, the task that the scheduler
  picks is at least as urgent as every waiter, and nobody of a priority in between is run. The runs exclude a task that gives
  up a boosted mutex while somebody more urgent than its saved priority waits for another mutex it holds, a
  waiter that is woken without having been handed the mutex, and calls of \<open>reprioritize\<close> that put an owner below a waiter.\<close>

theorem owner_outranks_waiters:
  assumes inv: "mtx_inv (T, s, W)" and run: "mtx_step\<^sup>*\<^sup>* (T, s, W) (T', s', W')"
  shows "mtx_inv (T', s', W') \<and> (\<forall>m. mtx_holds s' m (W' m) \<and> by_prio s' (W' m)
    \<and> (\<forall>ow x. owner (mutexes s' m) = Some ow \<and> x \<in> set (W' m) \<longrightarrow> task_priority (tcbs s' ow) \<le> node_prio s' x
         \<and> (tcb_state (tcbs s' ow) \<noteq> Blocked \<longrightarrow> task_priority (tcbs s' (fst (pick_next s'))) \<le> node_prio s' x)))"
proof -
  have inv': "mtx_inv (T', s', W')" by (rule run_inv [OF run inv])
  have "mtx_holds s' m (W' m) \<and> by_prio s' (W' m)
    \<and> (\<forall>ow x. owner (mutexes s' m) = Some ow \<and> x \<in> set (W' m) \<longrightarrow> task_priority (tcbs s' ow) \<le> node_prio s' x
         \<and> (tcb_state (tcbs s' ow) \<noteq> Blocked \<longrightarrow> task_priority (tcbs s' (fst (pick_next s'))) \<le> node_prio s' x))" for m
    using inv' by (intro one_outranks [where T = T']) (simp add: mtx_inv_def)
  then show ?thesis using inv' by blast
qed

text \<open>Task 1 locks a mutex of task 2.\<close>

theorem owner_outranks_waiters_witness:
  "\<exists>(s :: wn) s' T' W'. mtx_step\<^sup>*\<^sup>* ({1, 2}, s, \<lambda>_. []) (T', s', W') \<and> W' 3 = [8] \<and> task_priority (tcbs s 2) = 5
     \<and> owner (mutexes s' 3) = Some 2 \<and> task_priority (tcbs s' 2) \<le> node_prio s' 8"
proof -
  obtain s :: wn and a where s: "refines s a" "a_inv a" "a_tasks a = {1, 2}" "a_state a 1 = Running" "current s = Some 1"
    "a_prio a 1 = 0" "a_prio a 2 = 5" "mutexes s = (\<lambda>_. Mutex_new\<lparr>owner := Some 2\<rparr>)" "node_next s = (\<lambda>_. None)"
    "node_task s = (\<lambda>_. None)" "node_prio s = (\<lambda>_. 0)"
    by (rule two_tasks)
  have h: "mtx_holds s k []" "by_prio s []" for k using s(8,9) by (simp_all add: mtx_holds_def by_prio_def Mutex_new_def rep_new)
  have inv: "mtx_inv ({1, 2}, s, \<lambda>_. [])" using s h by (auto simp: mtx_inv_def mtx_one_def Mutex_new_def)
  let ?s = "MutexWaiter_new 8 1 (sys_prio 1 s) s"
  have r: "refines ?s a" "mtx_holds ?s 3 []" "by_prio ?s []" using s(1) node_new_holds [OF h, of 8] by simp_all
  obtain s' where s': "lock_turn 3 8 1 ?s = Some (False, s')" "owner (mutexes s' 3) = Some 2"
  proof -
    have own: "owner (mutexes ?s 3) = Some 2" "(2 :: addr) \<noteq> 1" "2 \<in> a_tasks a" "1 \<in> a_tasks a" using s(3,8) by simp_all
    have "8 \<notin> set []" by simp
    from lock_turn_wait [OF r(1) s(2) r(2,3) this own s(4)] that show thesis by metis
  qed
  let ?W = "(\<lambda>_. [])(3 := if False then [] else ins_by (\<lambda>x y. node_prio s' x < node_prio s' y) 8 [])"
  have "mtx_step ({1, 2}, s, \<lambda>_. []) ({1, 2}, s', ?W)"
    by (rule mtx_lock [where t = 1]) (use s s'(1) refines_state [OF s(1), of 1] in \<open>auto simp: Mutex_new_def\<close>)
  then have run: "mtx_step\<^sup>*\<^sup>* ({1, 2}, s, \<lambda>_. []) ({1, 2}, s', ?W)" by (rule r_into_rtranclp)
  have W: "?W 3 = [8]" by (simp add: ins_by_def)
  have "task_priority (tcbs s' 2) \<le> node_prio s' 8" using owner_outranks_waiters [OF inv run] s'(2) W by auto
  moreover have "task_priority (tcbs s 2) = 5" using refines_prio [OF s(1), of 2] s(7) by simp
  ultimately show ?thesis using run s'(2) W by blast
qed

section \<open>Two mutexes\<close>



end
