(* ===== verification/Semaphore_Run.thy ===== *)
theory Semaphore_Run
  imports Semaphore
begin

text \<open>
  Timed acquisition in a running system. While a task is parked in \<open>try_acquire\<close> the rest of the system goes on: units are
  released, other tasks take turns on the semaphore, go to sleep and call the scheduler, and ticks are reported. The
  relation \<open>env_step\<close> has one rule for each of these, over the code's own operations; only a call that makes the waiting task
  itself ready from outside (\<open>ready\<close> or \<open>notify\<close> of that task) is not among them. Over all such runs the caller comes back either
  with its node out of the list or with its time up, which is what the waiting loop relies on. The second part
  shows what happens to a task that does not come back like that: an alarm that \<open>try_acquire\<close> leaves booked wakes a later
  wait.
\<close>

section \<open>Steps of the rest of the system\<close>

text \<open>The third component counts the ticks since the task was parked.\<close>

type_synonym 'a env_run = "'a wn_scheme \<times> addr list \<times> nat"

inductive env_step :: "addr set \<Rightarrow> addr \<Rightarrow> addr \<Rightarrow> addr \<Rightarrow> 'a wn_scheme user \<Rightarrow> 'a env_run \<Rightarrow> 'a env_run \<Rightarrow> bool" for T m me t user where
  env_release: "env_step T m me t user (s, ws, k) (release m s, tl ws, k)"
| env_node: "x \<notin> insert me (set ws) \<Longrightarrow> u \<noteq> t \<Longrightarrow> env_step T m me t user (s, ws, k) (SemaWaiter_new x (Some u) s, ws, k)"
| env_acquire: "node_task s x = Some u \<Longrightarrow> u \<in> T - {t} \<Longrightarrow> tcb_state (tcbs s u) = Running \<Longrightarrow> x \<notin> set ws \<Longrightarrow>
    acquire_turn m x (Some u) s = Some (got, s') \<Longrightarrow> env_step T m me t user (s, ws, k) (s', if got then ws else ws @ [x], k)"
| env_try: "current s = Some u \<Longrightarrow> node_task s x = Some u \<Longrightarrow> u \<in> T - {t} \<Longrightarrow> tcb_state (tcbs s u) = Running \<Longrightarrow>
    x \<in> set ws \<longrightarrow> sint (d - now_tick s) \<le> 0 \<Longrightarrow> try_acquire_turn m x d s = Some (v, s') \<Longrightarrow>
    env_step T m me t user (s, ws, k) (s', if v = None then ws @ [x] else remove1 x ws, k)"
| env_sleep: "u \<in> T - {t} \<Longrightarrow> tcb_state (tcbs s u) = Running \<Longrightarrow> 0 \<le> sint span \<Longrightarrow> sys_sleep_for (Some u) span s = Some s' \<Longrightarrow>
    env_step T m me t user (s, ws, k) (s', ws, k)"
| env_tick: "0 < sint n \<Longrightarrow> k + unat n < 2 ^ 31 \<Longrightarrow> on_elapsed (react user) n s = Some s' \<Longrightarrow>
    env_step T m me t user (s, ws, k) (s', ws, k + unat n)"
| env_call: "refines s a \<Longrightarrow> a_inv a \<Longrightarrow> a_tasks a = T \<Longrightarrow> op_ok op a \<Longrightarrow> op \<noteq> OpReady (Some t) \<Longrightarrow>
    \<forall>v. op \<noteq> OpNotify (Some t) v \<Longrightarrow> \<forall>u. op \<noteq> OpAdd u \<Longrightarrow> run_op op s = Some (r, s') \<Longrightarrow>
    env_step T m me t user (s, ws, k) (s', ws, k)"

section \<open>The invariant of a wait\<close>

definition sem_ok :: "addr set \<Rightarrow> addr \<Rightarrow> addr \<Rightarrow> addr \<Rightarrow> 'a wn_scheme \<Rightarrow> addr list \<Rightarrow> waiter list \<Rightarrow> bool" where
  "sem_ok T m me t s ws qs \<longleftrightarrow> sem_holds s m ws \<and> tk_inv s qs \<and> sleepers T qs s \<and> t \<in> T \<and> node_task s me = Some t
     \<and> (\<forall>y \<in> set ws. \<exists>u \<in> T. node_task s y = Some u \<and> (u = t \<longrightarrow> y = me))"



lemma sleepersE:
  assumes "sleepers T qs s"
  obtains a where "refines s a" "a_inv a" "a_tasks a = T"
  using assms by (auto simp: sleepers_def)

lemma sleepersI:
  assumes "refines s a" and "a_inv a" and "a_tasks a = T" and "\<forall>w \<in> set qs. \<exists>t \<in> T. w = TaskAction t \<and> OnTime (waiters s w) = Some WakeFromSleep"
  shows "sleepers T qs s"
  using assms by (auto simp: sleepers_def)

lemma sleepers_booked:
  "sleepers T qs s \<Longrightarrow> waiters s' = waiters s \<Longrightarrow> \<forall>w \<in> set qs. \<exists>t \<in> T. w = TaskAction t \<and> OnTime (waiters s' w) = Some WakeFromSleep"
  by (simp add: sleepers_def)

lemma wake_sel: "a_tasks (a_wake u a) = a_tasks a" "a_state (a_wake u a) v = (if v = u \<and> a_state a u = Blocked then Ready else a_state a v)"
  by (simp_all add: a_wake_def a_preempt_def a_enqueue_def)

lemma reprio_more: "reprioritize u p s = Some s' \<Longrightarrow> sched.more s' = sched.more s"
  by (auto simp: reprioritize_def CriticalGuard_opt_def reprioritize_body_def sched_lock_def sched_unlock_def crit_lock_def crit_unlock_def
      write_basepri_def set_priority_def sched_push_back_def set_tcb_state_def Let_def split: if_splits bind_splits prod.splits)

lemma call_more: "run_op op s = Some (r, s') \<Longrightarrow> sched.more s' = sched.more s"
  using op_priorities(1) [of op s r s'] reprio_more [of _ _ s s'] by (cases op) auto

lemma wn_of_more:
  assumes "sched.more s' = sched.more s"
  shows "semas s' = semas s" "node_next s' = node_next s" "node_task s' = node_task s" "waiters s' = waiters s" "now_tick s' = now_tick s"
    "tq s' = tq s" "w_next s' = w_next s" "armed s' = armed s" "arm_valid s' = arm_valid s"
  using assms by (cases s; cases s'; simp)+


section \<open>What each step does\<close>

text \<open>Everything but the scheduler's part carries over as soon as the lists, the clock and the node of the caller do.\<close>

lemma sem_ok_carry:
  assumes ok: "sem_ok T m me t s ws qs" and h: "sem_holds s' m ws'" and k: "tk_inv s' qs'" and a: "refines s' a" "a_inv a" "a_tasks a = T"
    and b: "\<forall>w \<in> set qs'. \<exists>t \<in> T. w = TaskAction t \<and> OnTime (waiters s' w) = Some WakeFromSleep"
    and n: "node_task s' = node_task s" and ws: "\<forall>y \<in> set ws'. y \<in> set ws \<or> (\<exists>u \<in> T. node_task s y = Some u \<and> (u = t \<longrightarrow> y = me))"
  shows "sem_ok T m me t s' ws' qs'"
  using ok h k sleepersI [OF a b] n ws unfolding sem_ok_def by fastforce

lemma release_run:
  assumes ok: "sem_ok T m me t s ws qs"
  shows "sem_ok T m me t (release m s) (tl ws) qs" "now_tick (release m s) = now_tick s" "waiters (release m s) = waiters s"
    "tcb_state (tcbs (release m s) t) = (if ws \<noteq> [] \<and> hd ws = me \<and> tcb_state (tcbs s t) = Blocked then Ready else tcb_state (tcbs s t))"
proof -
  have h: "sem_holds s m ws" and k: "tk_inv s qs" and sl: "sleepers T qs s" using ok by (simp_all add: sem_ok_def)
  obtain a where a: "refines s a" "a_inv a" "a_tasks a = T" by (rule sleepersE [OF sl])
  have r: "rep (sem_waiters (semas s m), node_next s) ws" using h by (simp add: sem_holds_def)
  define s2 where "s2 = (let (head, l, nx) = SelfList_pop_head (sem_waiters (semas s m), node_next s)
    in set_sema m ((semas s m)\<lparr>sem_count := sem_count (semas s m) + 1, sem_waiters := l\<rparr>) ((sys_lock s)\<lparr>node_next := nx\<rparr>))"
  have head: "fst (SelfList_pop_head (sem_waiters (semas s m), node_next s)) = (case ws of [] \<Rightarrow> None | w # _ \<Rightarrow> Some w)"
    using sl.holds_deq_Nil sl.holds_deq r by (cases ws) fastforce+
  have f: "waiters s2 = waiters s" "now_tick s2 = now_tick s" "tq s2 = tq s" "w_next s2 = w_next s" "armed s2 = armed s" "arm_valid s2 = arm_valid s"
    "node_task s2 = node_task s" "refines s2 b = refines s b" for b
    by (simp_all add: s2_def Let_def case_prod_beta)
  have rel: "release m s = sys_unlock (case ws of [] \<Rightarrow> s2 | w # _ \<Rightarrow> sched_ready (node_task s w) s2)"
    using head f(7) by (auto simp: release_def release_body_def CriticalGuard_def Let_def s2_def sys_ready_def case_prod_beta set_sema_def split: list.splits)
  obtain a' where a': "refines (release m s) a'" "a_inv a'" "a_tasks a' = T"
    "a_state a' t = (if ws \<noteq> [] \<and> hd ws = me \<and> a_state a t = Blocked then Ready else a_state a t)"
  proof (cases ws)
    case Nil
    then show thesis using that [of a] a f(8) rel by simp
  next
    case (Cons w ws')
    then obtain u where u: "node_task s w = Some u" "u \<in> T" "u = t \<longleftrightarrow> w = me" using ok by (auto simp: sem_ok_def)
    have "refines s2 a" "op_ok (OpReady (Some u)) a" using a u(2) f(8) by simp_all
    from sim_ready [OF this(1) a(2) this(2)] have "refines (release m s) (a_wake u a)" using rel Cons u(1) by simp
    then show thesis using that [of "a_wake u a"] a_inv_wake [OF a(2)] a(3) u Cons by (auto simp: wake_sel)
  qed
  show now: "now_tick (release m s) = now_tick s" "waiters (release m s) = waiters s" using f(1,2) by (simp_all add: rel split: list.splits)
  have "tk_inv (release m s) qs" using k f by (subst tk_inv_cong [of _ s]) (simp_all add: rel split: list.splits)
  moreover have "node_task (release m s) = node_task s" using f(7) by (simp add: rel split: list.splits)
  moreover have "set (tl ws) \<subseteq> set ws" by (cases ws) auto
  ultimately show "sem_ok T m me t (release m s) (tl ws) qs"
    using sem_ok_carry [OF ok _ _ a'(1-3) sleepers_booked [OF sl now(2)]] release_spec [OF h] by blast
  show "tcb_state (tcbs (release m s) t) = (if ws \<noteq> [] \<and> hd ws = me \<and> tcb_state (tcbs s t) = Blocked then Ready else tcb_state (tcbs s t))"
    using refines_state [OF a'(1), of t] refines_state [OF a(1), of t] a'(4) by (auto split: if_splits)
qed

lemma acquire_run:
  assumes ok: "sem_ok T m me t s ws qs" and x: "node_task s x = Some u" "u \<in> T" "u = t \<longrightarrow> x = me" "tcb_state (tcbs s u) = Running" "x \<notin> set ws"
    and turn: "acquire_turn m x (Some u) s = Some (got, s')"
  shows "sem_ok T m me t s' (if got then ws else ws @ [x]) qs" "now_tick s' = now_tick s" "waiters s' = waiters s"
    "tcb_state (tcbs s' t) = (if u = t \<and> \<not> got then Blocked else tcb_state (tcbs s t))"
proof -
  have h: "sem_holds s m ws" and k: "tk_inv s qs" and sl: "sleepers T qs s" using ok by (simp_all add: sem_ok_def)
  obtain a where a: "refines s a" "a_inv a" "a_tasks a = T" by (rule sleepersE [OF sl])
  have fin: "sem_holds s' m (if got then ws else ws @ [x])" "node_task s' = node_task s"
    using acquire_turn_spec [OF h x(5), of u] turn by (auto split: if_splits)
  have "\<exists>s1. s' = sys_unlock (if got then s1 else sched_block (Some u) s1) \<and> waiters s1 = waiters s \<and> now_tick s1 = now_tick s \<and> tq s1 = tq s
      \<and> w_next s1 = w_next s \<and> armed s1 = armed s \<and> arm_valid s1 = arm_valid s \<and> (\<forall>b. refines s1 b = refines s b)"
    using turn by (auto simp: acquire_turn_def sem_remove_def sem_insert_def sys_block_def Let_def split: if_splits bind_splits)
  then obtain s1 where s1: "s' = sys_unlock (if got then s1 else sched_block (Some u) s1)" "waiters s1 = waiters s" "now_tick s1 = now_tick s"
    "tq s1 = tq s" "w_next s1 = w_next s" "armed s1 = armed s" "arm_valid s1 = arm_valid s" "\<forall>b. refines s1 b = refines s b" by blast
  define a' where "a' = (if got then a else a_op (OpBlock (Some u)) a)"
  have a': "refines s' a'" "a_inv a'" "a_tasks a' = T" "a_state a' t = (if u = t \<and> \<not> got then Blocked else a_state a t)"
  proof -
    have "op_ok (OpBlock (Some u)) a" using x(2,4) a(3) refines_state [OF a(1), of u] by simp
    from a_inv_op [OF a(2) this] show "a_inv a'" using a(2) by (simp add: a'_def del: a_op.simps)
    show "refines s' a'" using a(1) s1(1,8) sim_block [of s1 a "Some u"] by (simp add: a'_def del: a_op.simps)
  qed (use a x(2) in \<open>simp_all add: a'_def\<close>)
  show now: "now_tick s' = now_tick s" "waiters s' = waiters s" using s1 by simp_all
  have "tk_inv s' qs" using k s1 by (subst tk_inv_cong [of _ s]) simp_all
  then show "sem_ok T m me t s' (if got then ws else ws @ [x]) qs"
    using sem_ok_carry [OF ok fin(1) _ a'(1-3) sleepers_booked [OF sl now(2)] fin(2)] x by (auto split: if_splits)
  show "tcb_state (tcbs s' t) = (if u = t \<and> \<not> got then Blocked else tcb_state (tcbs s t))"
    using refines_state [OF a'(1), of t] refines_state [OF a(1), of t] a'(4) by (auto split: if_splits)
qed

lemma sleep_run:
  assumes ok: "sem_ok T m me t s ws qs" and u: "u \<in> T" "tcb_state (tcbs s u) = Running" and span: "0 \<le> sint span"
    and sleep: "sys_sleep_for (Some u) span s = Some s'"
  shows "\<exists>qs'. sem_ok T m me t s' ws qs' \<and> TaskAction u \<in> set qs'" "now_tick s' = now_tick s"
    "rel s' = (rel s)(TaskAction u := sint span)" "tcb_state (tcbs s' t) = (if t = u then Blocked else tcb_state (tcbs s t))"
proof -
  have h: "sem_holds s m ws" and k: "tk_inv s qs" and sl: "sleepers T qs s" using ok by (simp_all add: sem_ok_def)
  obtain a where a: "refines s a" "a_inv a" "a_tasks a = T" by (rule sleepersE [OF sl])
  let ?q = "ins_rel s' (TaskAction u) (remove1 (TaskAction u) qs)"
  have f: "refines s' (a_op (OpBlock (Some u)) a)" "rel s' = (rel s)(TaskAction u := sint span)" "tk_inv s' ?q" "now_tick s' = now_tick s"
    "OnTime (waiters s' (TaskAction u)) = Some WakeFromSleep" "\<forall>w. w \<noteq> TaskAction u \<longrightarrow> OnTime (waiters s' w) = OnTime (waiters s w)"
    using sleep_spec [OF a(1) k span, of u] sleep by auto
  show "now_tick s' = now_tick s" "rel s' = (rel s)(TaskAction u := sint span)" using f by simp_all
  have "op_ok (OpBlock (Some u)) a" using u a(3) refines_state [OF a(1), of u] by simp
  note i = a_inv_op [OF a(2) this]
  have h': "sem_holds s' m ws" using h sys_sleep_wn(1,2) [OF sleep] by (simp add: sem_holds_def)
  have q: "set ?q = insert (TaskAction u) (set (remove1 (TaskAction u) qs))" by (simp add: ins_rel_def)
  have "\<forall>w \<in> set ?q. \<exists>t \<in> T. w = TaskAction t \<and> OnTime (waiters s' w) = Some WakeFromSleep"
  proof
    fix w assume "w \<in> set ?q"
    then have "w = TaskAction u \<or> w \<in> set qs" unfolding q using notin_set_remove1 by fastforce
    then show "\<exists>t \<in> T. w = TaskAction t \<and> OnTime (waiters s' w) = Some WakeFromSleep"
      using f(5,6) u(1) sl by (cases "w = TaskAction u") (auto simp: sleepers_def)
  qed
  then have "sem_ok T m me t s' ws ?q"
    using sem_ok_carry [OF ok h' f(3,1) i] a(3) sys_sleep_wn(3) [OF sleep] by simp
  then show "\<exists>qs'. sem_ok T m me t s' ws qs' \<and> TaskAction u \<in> set qs'" using q by blast
  show "tcb_state (tcbs s' t) = (if t = u then Blocked else tcb_state (tcbs s t))"
    using refines_state [OF f(1), of t] refines_state [OF a(1), of t] by (simp split: if_splits)
qed

text \<open>A turn of \<open>try_acquire\<close> that parks its caller, whoever that is.\<close>

lemma try_parks:
  assumes ok: "sem_ok T m me t s ws qs" and u: "current s = Some u" "u \<in> T" "tcb_state (tcbs s u) = Running"
    and x: "node_task s x = Some u" "u = t \<longrightarrow> x = me" "x \<notin> set ws" and zero: "sem_count (semas s m) = 0" and d: "0 < sint (d - now_tick s)"
  shows "\<exists>s' qs'. try_acquire_turn m x d s = Some (None, s') \<and> sem_ok T m me t s' (ws @ [x]) qs' \<and> TaskAction u \<in> set qs'
    \<and> now_tick s' = now_tick s \<and> current s' = current s \<and> rel s' = (rel s)(TaskAction u := sint (d - now_tick s))
    \<and> tcb_state (tcbs s' t) = (if t = u then Blocked else tcb_state (tcbs s t)) \<and> sem_count (semas s' m) = 0 \<and> node_task s' = node_task s"
proof -
  have h: "sem_holds (sys_lock s) m ws" and k: "tk_inv (sys_lock s) qs" and sl: "sleepers T qs s"
    using ok by (simp_all add: sem_ok_def sem_holds_def)
  obtain a where a: "refines s a" "a_inv a" "a_tasks a = T" by (rule sleepersE [OF sl])
  obtain s1 where s1: "sem_insert m x (sys_lock s) = Some s1" "sem_holds s1 m (ws @ [x])" "node_task s1 = node_task s" "tcbs s1 = tcbs s"
    "current s1 = current s" "now_tick s1 = now_tick s" "\<forall>qs. tk_inv s1 qs = tk_inv (sys_lock s) qs" "waiters s1 = waiters s"
    "\<forall>a. refines s1 a = refines (sys_lock s) a" "sem_count (semas s1 m) = 0" using h x(3) by (rule sem_insert_spec) (simp_all add: zero)
  have ok1: "sem_ok T m me t s1 (ws @ [x]) qs"
    using sem_ok_carry [OF ok s1(2) _ _ a(2,3) sleepers_booked [OF sl s1(8)] s1(3)] s1(7,9) k a(1) x(1,2) u(2) by auto
  let ?left = "word_of_int (sint (d - now_tick s)) :: tick"
  have left: "sint ?left = sint (d - now_tick s)" "0 \<le> sint ?left" using d by simp_all
  have run1: "tcb_state (tcbs s1 u) = Running" using u(3) s1(4) by simp
  obtain b where "refines s1 b" "a_inv b" using ok1 by (auto simp: sem_ok_def sleepers_def)
  with ok1 obtain s2 where s2: "sys_sleep_for (Some u) ?left s1 = Some s2" using sleep_spec [of s1 b qs ?left u] left(2) by (auto simp: sem_ok_def)
  note r = sleep_run [OF ok1 u(2) run1 left(2) s2]
  obtain qs' where q: "sem_ok T m me t s2 (ws @ [x]) qs'" "TaskAction u \<in> set qs'" using r(1) by blast
  have "sem_ok T m me t (sys_unlock s2) (ws @ [x]) qs'" using q(1) by (simp add: sem_ok_def sem_holds_def sleepers_def)
  moreover have "rel (sys_unlock s2) = (rel s)(TaskAction u := sint (d - now_tick s))"
    using r(3) left(1) rel_cong [of "sys_unlock s2" s2] rel_cong [of s1 s] s1(6,8) by simp
  moreover have "try_acquire_turn m x d s = Some (None, sys_unlock s2)"
    using zero d s1(1,5) s2 u(1) by (simp add: try_acquire_turn_def Let_def sys_now_def time_current_def Clock_current_def sys_current_task_def current_task_def)
  ultimately show ?thesis using q(2) r(2,4) s1(3-6,10) sys_sleep_wn [OF s2]
    by (intro exI [of _ "sys_unlock s2"] exI [of _ qs']) simp
qed

lemma sem_remove_frame: "sem_remove m x s = Some s' \<Longrightarrow> refines s' b = refines s b" "sem_remove m x s = Some s' \<Longrightarrow> waiters s' = waiters s"
  by (auto simp: sem_remove_def)

lemma try_decides:
  assumes ok: "sem_ok T m me t s ws qs" and decided: "0 < sem_count (semas s m) \<or> sint (d - now_tick s) \<le> 0"
  shows "\<exists>s' v. try_acquire_turn m x d s = Some (Some v, s') \<and> v = (if 0 < sem_count (semas s m) then Ok else TimedOut)
    \<and> sem_ok T m me t s' (remove1 x ws) qs \<and> now_tick s' = now_tick s \<and> current s' = current s \<and> waiters s' = waiters s \<and> tcbs s' = tcbs s
    \<and> sem_count (semas s' m) = (if 0 < sem_count (semas s m) then sem_count (semas s m) - 1 else 0) \<and> node_task s' = node_task s"
proof -
  define s0 where "s0 = (if 0 < sem_count (semas s m) then set_sema m ((semas s m)\<lparr>sem_count := sem_count (semas s m) - 1\<rparr>) (sys_lock s) else sys_lock s)"
  have h: "sem_holds s0 m ws" and k: "tk_inv s qs" and sl: "sleepers T qs s" using ok by (simp_all add: sem_ok_def sem_holds_def s0_def)
  obtain a where a: "refines s a" "a_inv a" "a_tasks a = T" by (rule sleepersE [OF sl])
  obtain s1 where s1: "sem_remove m x s0 = Some s1" "sem_holds s1 m (remove1 x ws)" "sem_count (semas s1 m) = sem_count (semas s0 m)"
    "node_task s1 = node_task s0" "tcbs s1 = tcbs s0" "current s1 = current s0" "now_tick s1 = now_tick s0" "\<forall>qs. tk_inv s1 qs = tk_inv s0 qs"
    using h by (rule sem_remove_spec)
  have f: "refines s1 b = refines s b" "waiters s1 = waiters s" for b using sem_remove_frame [OF s1(1)] by (simp_all add: s0_def)
  have s0: "node_task s0 = node_task s" "tcbs s0 = tcbs s" "current s0 = current s" "now_tick s0 = now_tick s" "tk_inv s0 qs"
    "sem_count (semas s0 m) = (if 0 < sem_count (semas s m) then sem_count (semas s m) - 1 else 0)"
    using k by (simp_all add: s0_def word_neq_0_conv [symmetric]) (subst tk_inv_cong [of _ s]; simp)
  have r: "refines (sys_unlock s1) a" "sem_holds (sys_unlock s1) m (remove1 x ws)" "tk_inv (sys_unlock s1) qs" "node_task (sys_unlock s1) = node_task s"
    using f(1) a(1) s1(2,4,8) s0(1,5) sem_holds_cong [of "sys_unlock s1" m s1] by simp_all
  have "set (remove1 x ws) \<subseteq> set ws" by (rule set_remove1_subset)
  then have "sem_ok T m me t (sys_unlock s1) (remove1 x ws) qs"
    using sem_ok_carry [OF ok r(2,3,1) a(2,3) sleepers_booked [OF sl] r(4)] f(2) by auto
  moreover have "try_acquire_turn m x d s = Some (Some (if 0 < sem_count (semas s m) then Ok else TimedOut), sys_unlock s1)"
    using decided s1(1) by (auto simp: try_acquire_turn_def Let_def sys_now_def time_current_def Clock_current_def s0_def)
  ultimately show ?thesis using s1 s0 f r(4) by (intro exI [of _ "sys_unlock s1"] exI conjI) simp_all
qed

lemma tick_run:
  assumes ok: "sem_ok T m me t s ws qs" and n: "0 < sint n" and run: "on_elapsed (react user) n s = Some s'"
  shows "\<exists>qs'. sem_ok T m me t s' ws qs'" "now_tick s' = now_tick s + n" "waiters s' = waiters s"
    "tcb_state (tcbs s' t) = (if TaskAction t \<in> set qs \<and> rel s (TaskAction t) \<le> sint n \<and> tcb_state (tcbs s t) = Blocked then Ready
       else tcb_state (tcbs s t))"
proof -
  have h: "sem_holds s m ws" and k: "tk_inv s qs" and sl: "sleepers T qs s" using ok by (simp_all add: sem_ok_def)
  obtain qs' where w: "tk_inv s' qs'" "sleepers T qs' s'" "now_tick s' = now_tick s + n"
    "\<forall>u. tcb_state (tcbs s' u) = (if TaskAction u \<in> set qs \<and> rel s (TaskAction u) \<le> sint n \<and> tcb_state (tcbs s u) = Blocked then Ready
       else tcb_state (tcbs s u))" using elapse_wakes [OF k sl n, of user] run by auto
  note m = elapse_more [OF k sl n run]
  have nd: "node_next s' = node_next s" "semas s' = semas s" "node_task s' = node_task s" using m(1) by (cases s; cases s'; simp)+
  have "sem_ok T m me t s' ws qs'" using ok w(1,2) nd by (simp add: sem_ok_def sem_holds_def)
  then show "\<exists>qs'. sem_ok T m me t s' ws qs'" by blast
  show "now_tick s' = now_tick s + n" "waiters s' = waiters s"
    "tcb_state (tcbs s' t) = (if TaskAction t \<in> set qs \<and> rel s (TaskAction t) \<le> sint n \<and> tcb_state (tcbs s t) = Blocked then Ready
       else tcb_state (tcbs s t))" using w(3,4) m(3) by simp_all
qed

lemma call_run:
  assumes ok: "sem_ok T m me t s ws qs" and a: "refines s a" "a_inv a" "a_tasks a = T" and op: "op_ok op a" "\<forall>u. op \<noteq> OpAdd u"
    and run: "run_op op s = Some (r, s')"
  shows "sem_ok T m me t s' ws qs" "now_tick s' = now_tick s" "waiters s' = waiters s" "refines s' (a_op op a)"
proof -
  obtain s1 where "run_op op s = Some (a_res op a, s1)" "refines s1 (a_op op a)" using sim_op [OF a(1,2) op(1)] by blast
  then show r: "refines s' (a_op op a)" using run by simp
  note m = wn_of_more [OF call_more [OF run]]
  show now: "now_tick s' = now_tick s" "waiters s' = waiters s" using m by simp_all
  have k: "tk_inv s' qs" using ok m by (subst tk_inv_cong [of _ s]) (simp_all add: sem_ok_def)
  have T: "a_tasks (a_op op a) = T" using a(3) op(2)
    by (cases op) (auto simp: wake_sel a_enqueue_def a_unqueue_def a_pick_def a_requeue_def Let_def split: option.splits)
  have "sem_holds s' m ws" using ok m by (simp add: sem_ok_def sem_holds_def)
  then show "sem_ok T m me t s' ws qs"
    using sem_ok_carry [OF ok _ k r a_inv_op [OF a(2) op(1)] T] sleepers_booked [of T qs s s'] ok m(3,4) by (simp add: sem_ok_def)
qed

section \<open>Runs keep the invariant\<close>






section \<open>Coming back\<close>





text \<open>A ready task of strictly best priority is picked.\<close>

lemma best_picked:
  assumes ok: "sem_ok T m me t s ws qs" and run: "tcb_state (tcbs s t) \<noteq> Blocked"
    and best: "\<forall>u \<in> T. u \<noteq> t \<longrightarrow> task_priority (tcbs s t) < task_priority (tcbs s u)"
  shows "fst (pick_next s) = t" "current (snd (pick_next s)) = Some t" "tcb_state (tcbs (snd (pick_next s)) t) = Running"
    "sem_ok T m me t (snd (pick_next s)) ws qs" "waiters (snd (pick_next s)) = waiters s" "now_tick (snd (pick_next s)) = now_tick s"
    "semas (snd (pick_next s)) = semas s" "node_next (snd (pick_next s)) = node_next s" "node_task (snd (pick_next s)) = node_task s"
    "env_step T m me t user (s, ws, k) (snd (pick_next s), ws, k)"
    "task_priority (tcbs (snd (pick_next s)) u) = task_priority (tcbs s u)"
proof -
  obtain a where a: "refines s a" "a_inv a" "a_tasks a = T" using ok by (auto simp: sem_ok_def sleepers_def)
  have t: "t \<in> runnable a" using ok run a(3) refines_state [OF a(1), of t] by (simp add: runnable_def sem_ok_def)
  obtain x where x: "a_cur (a_pick a) = Some x" "a_state (a_pick a) x = Running" "x \<in> runnable a" "a_prio a x \<le> a_prio a t"
    using pick_best [OF a(2)] t by (auto split: if_splits)
  have "x \<in> T" "a_prio a x = task_priority (tcbs s x)" "a_prio a t = task_priority (tcbs s t)"
    using x(3) a(3) refines_prio [OF a(1)] by (simp_all add: runnable_def)
  then have xt: "x = t" using best x(4) by (metis not_le)
  note p = sim_pick [OF a(1,2)]
  have r: "run_op OpPick s = Some (Picked (fst (pick_next s)), snd (pick_next s))" by (simp add: case_prod_beta)
  show "fst (pick_next s) = t" using p(2) x(1) xt by simp
  show "current (snd (pick_next s)) = Some t" using refines_cur [OF p(1)] x(1) xt by simp
  show "tcb_state (tcbs (snd (pick_next s)) t) = Running" using refines_state [OF p(1), of t] x(2) xt by simp
  note c = call_run [OF ok a _ _ r] and m = wn_of_more [OF call_more [OF r]]
  show "sem_ok T m me t (snd (pick_next s)) ws qs" using c(1) by simp
  show "waiters (snd (pick_next s)) = waiters s" "now_tick (snd (pick_next s)) = now_tick s" "semas (snd (pick_next s)) = semas s"
    "node_next (snd (pick_next s)) = node_next s" "node_task (snd (pick_next s)) = node_task s" using m by simp_all
  show "env_step T m me t user (s, ws, k) (snd (pick_next s), ws, k)" by (rule env_call [OF a _ _ _ _ r]) simp_all
  show "task_priority (tcbs (snd (pick_next s)) u) = task_priority (tcbs s u)" using op_priorities(2) [OF r] by simp
qed

lemma new_node_ok:
  assumes h: "sem_holds s m ws" and k: "tk_inv s qs" and sl: "sleepers T qs s" and t: "t \<in> T" and me: "me \<notin> set ws"
    and ws: "\<forall>y \<in> set ws. \<exists>u \<in> T - {t}. node_task s y = Some u"
  shows "sem_ok T m me t (SemaWaiter_new me (Some t) s) ws qs"
proof -
  let ?s = "SemaWaiter_new me (Some t) s"
  have "sem_holds ?s m ws" using h me unfolding sem_holds_def SemaWaiter_new_def by (auto intro: rep_frame)
  moreover have "tk_inv ?s qs" using k by (subst tk_inv_cong [of _ s]) (simp_all add: SemaWaiter_new_def)
  moreover have "refines ?s b = refines s b" for b by (simp add: SemaWaiter_new_def refines_def levels_def)
  ultimately show ?thesis using sl t me ws by (fastforce simp: sem_ok_def sleepers_def SemaWaiter_new_def)
qed

lemma try_acquire_unfold:
  assumes "current s = Some t"
  shows "try_acquire world m me span s = try_acquire_loop world m me (now_tick s + span) (SemaWaiter_new me (Some t) s)"
  using assms by (simp add: try_acquire_def sys_now_def time_current_def Clock_current_def sys_current_task_def current_task_def)

text \<open>What turns on semaphore \<open>k\<close> leave alone.\<close>

lemma sem_insert_other:
  assumes "sem_holds s k ws" and "w \<notin> set ws" and "sem_insert k w s = Some s'"
  shows "m \<noteq> k \<Longrightarrow> semas s' m = semas s m" "y \<notin> insert w (set ws) \<Longrightarrow> node_next s' y = node_next s y"
  using assms(3) sl.holds_sorted_in [OF assms(1) [unfolded sem_holds_def] assms(2), of AlwaysFalse] by (auto simp: sem_insert_def set_sema_def)

lemma sem_remove_other:
  assumes "sem_holds s k ws" and "sem_remove k w s = Some s'"
  shows "m \<noteq> k \<Longrightarrow> semas s' m = semas s m" "y \<notin> set ws \<Longrightarrow> node_next s' y = node_next s y"
  using assms(2) sl.holds_unlink [OF assms(1) [unfolded sem_holds_def], of w] by (auto simp: sem_remove_def set_sema_def)

lemma try_turn_other:
  assumes h: "sem_holds s k ws" and w: "w \<notin> set ws" and turn: "try_acquire_turn k w d s = Some (v, s')" and m: "m \<noteq> k"
  shows "semas s' m = semas s m" "y \<notin> insert w (set ws) \<Longrightarrow> node_next s' y = node_next s y"
proof -
  let ?s = "set_sema k ((semas s k)\<lparr>sem_count := sem_count (semas s k) - 1\<rparr>) (sys_lock s)"
  have h': "sem_holds (sys_lock s) k ws" "sem_holds ?s k ws" using h by (simp_all add: sem_holds_def)
  consider (taken) s1 where "sem_remove k w ?s = Some s1" "s' = sys_unlock s1"
    | (late) s1 where "sem_remove k w (sys_lock s) = Some s1" "s' = sys_unlock s1"
    | (park) s1 s2 span where "sem_insert k w (sys_lock s) = Some s1" "sys_sleep_for (sys_current_task s1) span s1 = Some s2" "s' = sys_unlock s2"
    using turn unfolding try_acquire_turn_def Let_def by (auto split: if_splits bind_splits)
  then have "semas s' m = semas s m \<and> (y \<notin> insert w (set ws) \<longrightarrow> node_next s' y = node_next s y)"
  proof cases
    case taken
    then show ?thesis using sem_remove_other [OF h'(2) taken(1)] m by (simp add: set_sema_def)
  next
    case late
    then show ?thesis using sem_remove_other [OF h'(1) late(1)] m by simp
  next
    case park
    have "semas s2 = semas s1 \<and> node_next s2 = node_next s1"
      using park(2) sys_sleep_wn [of _ span s1 s2] by (cases "sys_current_task s1") (auto simp: sys_sleep_for_def sched_sleep_for_def park_for_def)
    then show ?thesis using sem_insert_other [OF h'(1) w park(1)] m park(3) by simp
  qed
  then show "semas s' m = semas s m" "y \<notin> insert w (set ws) \<Longrightarrow> node_next s' y = node_next s y" by auto
qed

lemma release_other:
  assumes h: "sem_holds s k ws" and m: "m \<noteq> k"
  shows "semas (release k s) m = semas s m" "y \<notin> set ws \<Longrightarrow> node_next (release k s) y = node_next s y" "node_task (release k s) = node_task s"
proof -
  obtain head l nx where p: "SelfList_pop_head (sem_waiters (semas s k), node_next s) = (head, l, nx)" by (metis prod_cases3)
  have "nx y = node_next s y" if "y \<notin> set ws"
  proof (cases ws)
    case Nil
    then show ?thesis using p h sl.holds_deq_Nil [of "(sem_waiters (semas s k), node_next s)"] by (simp add: sem_holds_def)
  next
    case (Cons w ws')
    then show ?thesis using p h that rep_pop_head [of "(sem_waiters (semas s k), node_next s)" w ws'] by (fastforce simp: sem_holds_def)
  qed
  then show "y \<notin> set ws \<Longrightarrow> node_next (release k s) y = node_next s y"
    using p by (auto simp: release_def release_body_def CriticalGuard_def sys_ready_def Let_def split: option.splits)
  show "semas (release k s) m = semas s m" "node_task (release k s) = node_task s"
    using p m by (auto simp: release_def release_body_def CriticalGuard_def sys_ready_def Let_def split: option.splits)
qed

lemma acquire_prio:
  assumes "acquire_turn m x task s = Some (got, s')"
  shows "task_priority (tcbs s' u) = task_priority (tcbs s u)"
proof -
  have "task_priority (tcbs (sched_block b s) u) = task_priority (tcbs s u)" for b and s :: "'a wn_scheme"
    using op_priorities(2) [of "OpBlock b" s Done "sched_block b s"] by simp
  then show ?thesis using assms by (auto simp: acquire_turn_def sem_remove_def sem_insert_def sys_block_def Let_def split: if_splits bind_splits)
qed

lemma fires_prio:
  assumes "fires (react user) s ws s'" and "\<forall>w \<in> set ws. \<exists>t. w = TaskAction t \<and> OnTime (waiters s w) = Some WakeFromSleep"
  shows "task_priority (tcbs s' u) = task_priority (tcbs s u)"
  using assms
proof (induction rule: fires.induct)
  case (fires_stop s s')
  then show ?case using pop_due_frame [OF fires_stop(1)] by simp
next
  case (fires_one s w s1 s2 ws s')
  note fr = pop_due_frame [OF fires_one.hyps(1)]
  obtain t where t: "w = TaskAction t" "OnTime (waiters s w) = Some WakeFromSleep" using fires_one.prems by auto
  have s2: "s2 = sched_ready (Some t) s1" using fires_one.hyps(2) react_sleeper [of s1 t user] t fr(2) by simp
  have "waiters s2 = waiters s" using fr(2) by (simp add: s2)
  then have "\<forall>w \<in> set ws. \<exists>t. w = TaskAction t \<and> OnTime (waiters s2 w) = Some WakeFromSleep" using fires_one.prems by simp
  moreover have "task_priority (tcbs s2 u) = task_priority (tcbs s1 u)"
    using op_priorities(2) [of "OpReady (Some t)" s1 Done s2 u] s2 by simp
  ultimately show ?case using fires_one.IH fr(1) by simp
qed

lemma elapse_prio:
  assumes inv: "tk_inv s qs" and sl: "sleepers T qs s" and n: "0 < sint n" and run: "on_elapsed (react user) n s = Some s'"
  shows "task_priority (tcbs s' u) = task_priority (tcbs s u)"
proof -
  have init: "sleepers T qs (tick_forward n (time_lock s))" using sl by (auto simp: sleepers_def)
  obtain s3 where s3: "s' = time_unlock (update_alarm s3)"
    "fires (react user) (tick_forward n (time_lock s)) (filter (\<lambda>w. rel s w \<le> sint n) qs) s3"
    using on_elapsed_spec [OF sleepers_reaction inv n init, of user] run by auto
  have "\<forall>w \<in> set (filter (\<lambda>w. rel s w \<le> sint n) qs). \<exists>t. w = TaskAction t \<and> OnTime (waiters (tick_forward n (time_lock s)) w) = Some WakeFromSleep"
    using init by (auto simp: sleepers_def)
  from fires_prio [OF s3(2) this, of u] show ?thesis using s3(1) by simp
qed

lemma sleep_prio: "sys_sleep_for (Some t) span s = Some s' \<Longrightarrow> task_priority (tcbs s' u) = task_priority (tcbs s u)"
  by (auto simp: sys_sleep_for_def sched_sleep_for_def park_for_def CriticalGuard_opt_def enqueue_locked_def
      TimerQueue_remove_def TimerQueue_insert_def sched_block_def CriticalGuard_def set_tcb_state_def request_switch_def Let_def
      split: bind_splits if_splits)

lemma try_prio:
  assumes "try_acquire_turn k w d s = Some (v, s')"
  shows "task_priority (tcbs s' u) = task_priority (tcbs s u)"
proof -
  have "task_priority (tcbs s2 u) = task_priority (tcbs s1 u)" if "sys_sleep_for b span s1 = Some s2" for b span and s1 s2 :: "'a wn_scheme"
    using that sleep_prio by (cases b) (auto simp: sys_sleep_for_def sched_sleep_for_def park_for_def)
  then show ?thesis using assms by (auto simp: try_acquire_turn_def sem_remove_def sem_insert_def Let_def split: if_splits bind_splits)
qed

lemma release_prio: "task_priority (tcbs (release k s) u) = task_priority (tcbs s u)"
proof -
  have "task_priority (tcbs (sched_ready b s) u) = task_priority (tcbs s u)" for b and s :: "'a wn_scheme"
    using op_priorities(2) [of "OpReady b" s Done "sched_ready b s"] by simp
  then show ?thesis by (auto simp: release_def release_body_def CriticalGuard_def sys_ready_def Let_def split: option.splits prod.splits)
qed

text \<open>The first half of the story below: a unit is released to a parked task of best priority before its time is up.\<close>

lemma timed_wait_served:
  assumes tk: "tk_inv s qs" and sl: "sleepers T qs s" and t: "t \<in> T" "current s = Some t" "tcb_state (tcbs s t) = Running"
    and best: "\<forall>u \<in> T. u \<noteq> t \<longrightarrow> task_priority (tcbs s t) < task_priority (tcbs s u)" and span: "0 < sint span"
    and k: "sem_holds s k []" "sem_count (semas s k) = 0" and m: "m \<noteq> k"
  shows "\<exists>s1 qs1. try_acquire (\<lambda>s. Some (snd (pick_next (release k s)))) k w span s = Some (Ok, s1) \<and> tk_inv s1 qs1 \<and> sleepers T qs1 s1
    \<and> TaskAction t \<in> set qs1 \<and> rel s1 (TaskAction t) = sint span \<and> current s1 = Some t \<and> tcb_state (tcbs s1 t) = Running
    \<and> (\<forall>u. task_priority (tcbs s1 u) = task_priority (tcbs s u)) \<and> semas s1 m = semas s m
    \<and> (\<forall>y. y \<noteq> w \<longrightarrow> node_next s1 y = node_next s y) \<and> (\<forall>y. y \<noteq> w \<longrightarrow> node_task s1 y = node_task s y)"
proof -
  let ?s = "SemaWaiter_new w (Some t) s" and ?d = "now_tick s + span"
  have ok: "sem_ok T k w t ?s [] qs" by (rule new_node_ok [OF k(1) tk sl t(1)]) simp_all
  have f: "now_tick ?s = now_tick s" "current ?s = Some t" "semas ?s = semas s" "tcbs ?s = tcbs s" "node_task ?s = (node_task s)(w := Some t)"
    "y \<noteq> w \<Longrightarrow> node_next ?s y = node_next s y" for y using t(2) by (simp_all add: SemaWaiter_new_def)
  have run: "tcb_state (tcbs ?s t) = Running" "node_task ?s w = Some t" "sem_count (semas ?s k) = 0" "0 < sint (?d - now_tick ?s)" using t(3) f k(2) span by simp_all
  obtain s1 qs1 where s1: "try_acquire_turn k w ?d ?s = Some (None, s1)" "sem_ok T k w t s1 ([] @ [w]) qs1" "TaskAction t \<in> set qs1"
    "now_tick s1 = now_tick s" "rel s1 = (rel ?s)(TaskAction t := sint span)" "tcb_state (tcbs s1 t) = Blocked" "current s1 = Some t"
    "sem_count (semas s1 k) = 0" "node_task s1 = node_task ?s"
    using try_parks [OF ok f(2) t(1) run(1,2) _ _ run(3,4)] f(1,2) by auto
  have h: "sem_holds ?s k []" using ok by (simp add: sem_ok_def)
  have h1: "sem_holds s1 k [w]" using s1(2) by (simp add: sem_ok_def)
  note o1 = try_turn_other [OF h _ s1(1) m]
  let ?r = "release k s1"
  have ok1: "sem_ok T k w t s1 [w] qs1" using s1(2) by simp
  note r = release_run [OF ok1] and ro = release_other [OF h1 m]
  have p1: "task_priority (tcbs s1 u) = task_priority (tcbs s u)" for u using try_prio [OF s1(1)] f(4) by simp
  have pr: "task_priority (tcbs ?r u) = task_priority (tcbs s u)" for u using release_prio [of k s1 u] p1 by simp
  have okr: "sem_ok T k w t ?r [] qs1" "tcb_state (tcbs ?r t) = Ready" "sem_count (semas ?r k) = 1" using r s1(6,8) release_spec [OF h1] by simp_all
  have bestr: "\<forall>u \<in> T. u \<noteq> t \<longrightarrow> task_priority (tcbs ?r t) < task_priority (tcbs ?r u)" using best pr by simp
  note b = best_picked [OF okr(1) _ bestr]
  let ?p = "snd (pick_next ?r)"
  have "0 < sem_count (semas ?p k) \<or> sint (?d - now_tick ?p) \<le> 0" using b(7) okr(2,3) by simp
  from try_decides [OF b(4) this, of w] okr(2) obtain s2 where s2: "try_acquire_turn k w ?d ?p = Some (Some Ok, s2)" "sem_ok T k w t s2 [] qs1"
    "now_tick s2 = now_tick ?p" "current s2 = current ?p" "waiters s2 = waiters ?p" "tcbs s2 = tcbs ?p" "node_task s2 = node_task ?p"
    using b(7) okr(3) by auto
  have hp: "sem_holds ?p k []" using b(4) okr(2) by (simp add: sem_ok_def)
  note o2 = try_turn_other [OF hp _ s2(1) m]
  have call: "try_acquire (\<lambda>s. Some (snd (pick_next (release k s)))) k w span s = Some (Ok, s2)"
    using try_acquire_unfold [OF t(2)] s1(1) s2(1) by (simp add: try_acquire_loop.simps [of _ k w ?d])
  have same: "task_priority (tcbs s2 u) = task_priority (tcbs s u)" "semas s2 m = semas s m" "y \<noteq> w \<longrightarrow> node_next s2 y = node_next s y"
    "y \<noteq> w \<longrightarrow> node_task s2 y = node_task s y" for u y
    using pr b(7-9,11) okr(2) s2(6,7) o1 o2 ro s1(9) f(3,5,6) by simp_all
  have "rel s2 (TaskAction t) = sint span" using rel_cong [of s2 s1] r(2,3) b(5,6) okr(2) s2(3,5) s1(5) by simp
  then show ?thesis using call s2(2,4,6) s1(3) b(2,3) okr(2) same by (auto simp: sem_ok_def)
qed

section \<open>Properties\<close>


lemma wn_up_sleepers: "sleepers {1} [] wn_up" and wn_up_runs: "tcb_state (tcbs wn_up 1) = Running"
proof -
  let ?a = "a_op OpPick (a_op (OpAdd (Some 1)) asched_new)"
  have r: "refines wn_up ?a" and i: "a_inv ?a" using one_up_state(1,2) by simp_all
  show "sleepers {1} [] wn_up" using sleepersI [OF r i, of "{1}" "[]"] by (simp add: small_run_simps)
  show "tcb_state (tcbs wn_up 1) = Running" using refines_state [OF r, of 1] by (simp add: small_run_simps)
qed


text \<open>C37: an alarm outlives the wait it was set for. A task of best priority calls \<open>try_acquire\<close> with a timeout on an empty semaphore
  \<open>k\<close> and is parked; an interrupt releases a unit, the task is switched back and gets it: \<open>Ok\<close>. Then the task
  waits without a timeout for another semaphore \<open>m\<close>. The alarm of the first wait is still booked: it makes the task
  ready although no unit of \<open>m\<close> was released, the scheduler picks the task, and its next turn inserts its node a second
  time: the node becomes its own successor, and from then on every turn on \<open>m\<close> that finds no unit runs forever.\<close>

theorem stale_alarm_breaks_semaphore:
  assumes tk: "tk_inv s qs" and sl: "sleepers T qs s" and t: "t \<in> T" "current s = Some t" "tcb_state (tcbs s t) = Running"
    and best: "\<forall>u \<in> T. u \<noteq> t \<longrightarrow> task_priority (tcbs s t) < task_priority (tcbs s u)" and span: "0 < sint span"
    and k: "sem_holds s k []" "sem_count (semas s k) = 0" and m: "m \<noteq> k" "sem_holds s m ws" "sem_count (semas s m) = 0"
    and nodes: "w \<notin> set ws" "me \<notin> set ws" "\<forall>y \<in> set ws. \<exists>u \<in> T - {t}. node_task s y = Some u"
  shows "\<exists>s1 s2 s3 s4. try_acquire (\<lambda>s. Some (snd (pick_next (release k s)))) k w span s = Some (Ok, s1)
    \<and> acquire_turn m me (Some t) (SemaWaiter_new me (Some t) s1) = Some (False, s2)
    \<and> on_elapsed (react user) span s2 = Some s3 \<and> tcb_state (tcbs s3 t) = Ready \<and> sem_count (semas s3 m) = 0 \<and> fst (pick_next s3) = t
    \<and> acquire_turn m me (Some t) (snd (pick_next s3)) = Some (False, s4) \<and> node_next s4 me = Some me
    \<and> (\<forall>other task. acquire_turn m other task s4 = None)"
proof -
  obtain s1 qs1 where s1: "try_acquire (\<lambda>s. Some (snd (pick_next (release k s)))) k w span s = Some (Ok, s1)" "tk_inv s1 qs1" "sleepers T qs1 s1"
    "TaskAction t \<in> set qs1" "rel s1 (TaskAction t) = sint span" "current s1 = Some t" "tcb_state (tcbs s1 t) = Running"
    "\<forall>u. task_priority (tcbs s1 u) = task_priority (tcbs s u)" "semas s1 m = semas s m" "\<forall>y. y \<noteq> w \<longrightarrow> node_next s1 y = node_next s y"
    "\<forall>y. y \<noteq> w \<longrightarrow> node_task s1 y = node_task s y"
    using timed_wait_served [OF tk sl t best span k m(1)] by blast
  have m1: "sem_holds s1 m ws" using m(2) s1(9,10) nodes(1) unfolding sem_holds_def by (auto intro: rep_frame)
  have n1: "\<forall>y \<in> set ws. \<exists>u \<in> T - {t}. node_task s1 y = Some u" using nodes(1,3) s1(11) by metis
  let ?s = "SemaWaiter_new me (Some t) s1"
  have ok: "sem_ok T m me t ?s ws qs1" by (rule new_node_ok [OF m1 s1(2,3) t(1) nodes(2) n1])
  have f: "tcbs ?s = tcbs s1" "semas ?s = semas s1" "waiters ?s = waiters s1" "now_tick ?s = now_tick s1" "node_task ?s me = Some t"
    by (simp_all add: SemaWaiter_new_def)
  have h: "sem_holds ?s m ws" using ok by (simp add: sem_ok_def)
  obtain s2 where s2: "acquire_turn m me (Some t) ?s = Some (False, s2)" "sem_count (semas s2 m) = 0"
    using acquire_turn_spec [OF h nodes(2), of t] m(3) s1(9) f(2) by auto
  have run: "tcb_state (tcbs ?s t) = Running" using s1(7) f(1) by simp
  note a = acquire_run [OF ok f(5) t(1) _ run nodes(2) s2(1)]
  have ok2: "sem_ok T m me t s2 (ws @ [me]) qs1" and b2: "tcb_state (tcbs s2 t) = Blocked" using a by simp_all
  have rel2: "rel s2 (TaskAction t) = sint span" using rel_cong [of s2 s1] a(2,3) f(3,4) s1(5) by simp
  have k2: "tk_inv s2 qs1" "sleepers T qs1 s2" using ok2 by (simp_all add: sem_ok_def)
  obtain s3 where s3: "on_elapsed (react user) span s2 = Some s3" using elapse_wakes [OF k2 span, of user] by blast
  note w = tick_run [OF ok2 span s3]
  obtain qs3 where ok3: "sem_ok T m me t s3 (ws @ [me]) qs3" using w(1) by blast
  have rdy: "tcb_state (tcbs s3 t) = Ready" using w(4) s1(4) rel2 b2 by simp
  have p: "task_priority (tcbs s3 u) = task_priority (tcbs s u)" for u
    using acquire_prio [OF s2(1)] elapse_prio [OF k2 span s3] s1(8) f(1) by simp
  have best3: "\<forall>u \<in> T. u \<noteq> t \<longrightarrow> task_priority (tcbs s3 t) < task_priority (tcbs s3 u)" using best p by simp
  note b = best_picked [OF ok3 _ best3]
  have z3: "sem_count (semas s3 m) = 0" using elapse_nodes [OF k2 span s3] s2(2) by simp
  have h4: "sem_holds (snd (pick_next s3)) m (ws @ [me])" "sem_count (semas (snd (pick_next s3)) m) = 0"
    using b(4,7) rdy z3 by (simp_all add: sem_ok_def)
  obtain s4 where "acquire_turn m me (Some t) (snd (pick_next s3)) = Some (False, s4)" "node_next s4 me = Some me"
    "\<forall>other task. acquire_turn m other task s4 = None" using reinsert_turn [OF h4, of t] by blast
  then show ?thesis using s1(1) s2(1) s3 rdy z3 b(1) by auto
qed

text \<open>One task, semaphores 4 and 3, a timeout of five ticks.\<close>

theorem stale_alarm_breaks_semaphore_witness:
  "\<exists>s1 s2 s3 s4. try_acquire (\<lambda>s :: wn. Some (snd (pick_next (release 4 s)))) 4 7 5 wn_up = Some (Ok, s1)
    \<and> acquire_turn 3 8 (Some 1) (SemaWaiter_new 8 (Some 1) s1) = Some (False, s2)
    \<and> on_elapsed (react (\<lambda>f x s. Some s)) 5 s2 = Some s3 \<and> acquire_turn 3 8 (Some 1) (snd (pick_next s3)) = Some (False, s4)
    \<and> (\<forall>other task. acquire_turn 3 other task s4 = None)"
proof -
  have "sem_count (semas wn_up k) = 0" for k by (simp add: Semaphore_new_def)
  then show ?thesis
    using stale_alarm_breaks_semaphore [OF wn_up_sel(5) wn_up_sleepers _ wn_up_sel(2) wn_up_runs _ _ wn_up_sem _ _ wn_up_sem, of 5 4 3 7 8 "\<lambda>f x s. Some s"] by auto
qed

end
