(* ===== verification/Log_Format.thy ===== *)
theory Log_Format
  imports Zeros_Prelude
begin

text \<open>
  The formatter of \<^verbatim>\<open>src/log/format_impl.cpp\<close> and \<^verbatim>\<open>include/ZerOS/log/\<close> (\<^verbatim>\<open>format.hpp\<close>, \<^verbatim>\<open>print.hpp\<close>,
  \<^verbatim>\<open>global_channel.hpp\<close>). The output is a buffer of characters with a cursor; the limit is the buffer's end. A C
  string is the list of its characters before the terminator, and reading at its end gives the terminator. The
  variadic \<open>Args\<close> are a list of a datatype with one constructor per overload of \<open>emit_value\<close>.
\<close>

section \<open>The formatter\<close>

record sink =
  out_buf :: "char list"
  cursor :: nat

datatype arg = Text string | Char char | Hex u32 | Dec u32

definition at_char :: "string \<Rightarrow> nat \<Rightarrow> char" where
  "at_char fmt i = (if i < length fmt then fmt ! i else CHR 0x00)"

definition emit :: "char \<Rightarrow> sink \<Rightarrow> sink" where
  "emit c s = (if cursor s < length (out_buf s) then s\<lparr>out_buf := (out_buf s)[cursor s := c], cursor := cursor s + 1\<rparr> else s)"

primrec emit_text :: "string \<Rightarrow> sink \<Rightarrow> sink" where
  "emit_text [] s = s"
| "emit_text (c # cs) s = emit_text cs (emit c s)"

definition kDigits :: string where "kDigits = ''0123456789ABCDEF''"

fun emit_hex_from :: "nat list \<Rightarrow> u32 \<Rightarrow> sink \<Rightarrow> sink" where
  "emit_hex_from [] v s = s"
| "emit_hex_from (sh # shs) v s = emit_hex_from shs v (emit (kDigits ! unat (drop_bit sh v AND 0xF)) s)"

definition emit_hex :: "u32 \<Rightarrow> sink \<Rightarrow> sink" where
  "emit_hex = emit_hex_from [28, 24, 20, 16, 12, 8, 4, 0]"

text \<open>The two loops of the decimal case: digits go into \<open>tmp\<close> from the lowest, and come out from the highest. A
  store outside \<open>tmp\<close> would be \<open>None\<close>.\<close>

function dec_digits :: "u32 \<Rightarrow> char list \<Rightarrow> nat \<Rightarrow> (char list \<times> nat) option" where
  "dec_digits v tmp n =
     (if n \<ge> length tmp then None
      else let tmp' = tmp[n := char_of (48 + unat (v mod 10))]; v' = v div 10
           in if v' \<noteq> 0 then dec_digits v' tmp' (n + 1) else Some (tmp', n + 1))"
  by pat_completeness auto
termination by (relation "measure (\<lambda>(v, tmp, n). length tmp - n)") auto

primrec emit_back :: "nat \<Rightarrow> char list \<Rightarrow> sink \<Rightarrow> sink" where
  "emit_back 0 tmp s = s"
| "emit_back (Suc n) tmp s = emit_back n tmp (emit (tmp ! n) s)"

definition emit_dec :: "u32 \<Rightarrow> sink \<Rightarrow> sink option" where
  "emit_dec v s = map_option (\<lambda>(tmp, n). emit_back n tmp s) (dec_digits v (replicate 10 CHR 0x00) 0)"

fun emit_value :: "arg \<Rightarrow> sink \<Rightarrow> sink option" where
  "emit_value (Text t) s = Some (emit_text t s)"
| "emit_value (Char c) s = Some (emit c s)"
| "emit_value (Hex v) s = Some (emit_hex v s)"
| "emit_value (Dec v) s = emit_dec v s"

text \<open>The result of \<open>emit_plain\<close>: whether a placeholder was eaten, the format left and the output.\<close>

fun emit_run :: "string \<Rightarrow> sink \<Rightarrow> string \<times> sink" where
  "emit_run [] s = ([], s)"
| "emit_run (c # cs) s = (if c \<noteq> CHR ''{'' then emit_run cs (emit c s) else (c # cs, s))"

definition emit_plain :: "string \<Rightarrow> sink \<Rightarrow> bool \<times> string \<times> sink" where
  "emit_plain fmt s =
     (let (fmt1, s1) = emit_run fmt s
      in if at_char fmt1 0 = CHR ''{'' \<and> at_char fmt1 1 = CHR ''}'' then (True, drop 2 fmt1, s1) else (False, fmt1, s1))"

primrec print_args :: "arg list \<Rightarrow> string \<Rightarrow> sink \<Rightarrow> (string \<times> sink) option" where
  "print_args [] fmt s = Some (fmt, s)"
| "print_args (a # as) fmt s =
     (case emit_plain fmt s of (eaten, fmt1, s1) \<Rightarrow>
        if eaten then (case emit_value a s1 of None \<Rightarrow> None | Some s2 \<Rightarrow> print_args as fmt1 s2)
        else print_args as fmt1 s1)"

definition format_to :: "char list \<Rightarrow> string \<Rightarrow> arg list \<Rightarrow> (nat \<times> char list) option" where
  "format_to out fmt args =
     (case print_args args fmt \<lparr>out_buf = out, cursor = 0\<rparr> of None \<Rightarrow> None
      | Some (fmt1, s1) \<Rightarrow> let s2 = emit_text fmt1 s1 in Some (cursor s2, out_buf s2))"

section \<open>Printing to the registered channel\<close>

text \<open>A channel polls hardware, so it may never return.\<close>

type_synonym 's channel = "string \<Rightarrow> 's \<Rightarrow> (bool \<times> 's) option"

record 's logging =
  the_channel :: "'s channel option"

definition RegisterGlobalChannel :: "'s channel \<Rightarrow> 's logging \<Rightarrow> 's logging" where
  "RegisterGlobalChannel action l = l\<lparr>the_channel := Some action\<rparr>"

definition FetchGlobalChannel :: "'s logging \<Rightarrow> 's channel option" where
  "FetchGlobalChannel l = the_channel l"

definition kLineBuffer :: nat where "kLineBuffer = 128"

text \<open>What a reader of a C string sees of a buffer.\<close>

definition c_string :: "char list \<Rightarrow> string" where
  "c_string buf = takeWhile (\<lambda>c. c \<noteq> CHR 0x00) buf"

text \<open>\<open>line\<close> is the local buffer, with whatever the stack held.\<close>

definition print :: "char list \<Rightarrow> string \<Rightarrow> arg list \<Rightarrow> 's logging \<Rightarrow> 's \<Rightarrow> 's option" where
  "print line fmt args l s =
     (case format_to line fmt args of None \<Rightarrow> None
      | Some (n, line1) \<Rightarrow>
          let line2 = line1[(if n < kLineBuffer then n else kLineBuffer - 1) := CHR 0x00]
          in case FetchGlobalChannel l of None \<Rightarrow> Some s | Some channel \<Rightarrow> map_option snd (channel (c_string line2) s))"

section \<open>What a call means\<close>

text \<open>The text of a value, and of a whole call: plain text up to a placeholder, the value, and so on.\<close>

definition digit :: "nat \<Rightarrow> char" where
  "digit k = char_of (48 + k)"

fun dec_text :: "nat \<Rightarrow> string" where
  "dec_text n = (if n < 10 then [digit n] else dec_text (n div 10) @ [digit (n mod 10)])"

declare dec_text.simps [simp del]

definition hex_text :: "nat \<Rightarrow> string" where
  "hex_text n = map (\<lambda>i. kDigits ! (n div 16 ^ i mod 16)) [7, 6, 5, 4, 3, 2, 1, 0]"

fun arg_text :: "arg \<Rightarrow> string" where
  "arg_text (Text t) = t"
| "arg_text (Char c) = [c]"
| "arg_text (Hex v) = hex_text (unat v)"
| "arg_text (Dec v) = dec_text (unat v)"

primrec render :: "string \<Rightarrow> arg list \<Rightarrow> string" where
  "render fmt [] = fmt"
| "render fmt (a # as) =
     (let p = takeWhile (\<lambda>c. c \<noteq> CHR ''{'') fmt; r = dropWhile (\<lambda>c. c \<noteq> CHR ''{'') fmt
      in if take 2 r = ''{}'' then p @ arg_text a @ render (drop 2 r) as else p @ render r as)"

definition wrote :: "char list \<Rightarrow> string \<Rightarrow> sink" where
  "wrote b t = \<lparr>out_buf = take (length b) t @ drop (length t) b, cursor = min (length t) (length b)\<rparr>"

lemma emit_wrote [simp]: "emit c (wrote b t) = wrote b (t @ [c])"
proof (cases "length t < length b")
  case True
  then have "(t @ drop (length t) b)[length t := c] = (t @ [c]) @ drop (length t + 1) b"
    by (simp add: list_update_append Cons_nth_drop_Suc [symmetric])
  then show ?thesis using True by (simp add: emit_def wrote_def)
next
  case False
  then show ?thesis by (simp add: emit_def wrote_def)
qed

lemma emit_text_wrote [simp]: "emit_text cs (wrote b t) = wrote b (t @ cs)"
  by (induction cs arbitrary: t) simp_all

lemma emit_hex_from_wrote: "emit_hex_from shs v (wrote b t) = wrote b (t @ map (\<lambda>sh. kDigits ! unat (drop_bit sh v AND 0xF)) shs)"
  by (induction shs arbitrary: t) simp_all

lemma nibble: "unat (drop_bit (4 * i) v AND 0xF) = unat v div 16 ^ i mod 16" for v :: u32
proof -
  have "drop_bit (4 * i) v AND 0xF = take_bit 4 (drop_bit (4 * i) v)" by (simp add: take_bit_eq_mask mask_eq_exp_minus_1)
  then have "unat (drop_bit (4 * i) v AND 0xF) = take_bit 4 (drop_bit (4 * i) (unat v))"
    by (simp only: unsigned_take_bit_eq unat_drop_bit_eq)
  then show ?thesis by (simp add: take_bit_eq_mod drop_bit_eq_div power_mult)
qed

lemma emit_hex_wrote [simp]: "emit_hex v (wrote b t) = wrote b (t @ hex_text (unat v))"
  using nibble [of 7 v] nibble [of 6 v] nibble [of 5 v] nibble [of 4 v] nibble [of 3 v] nibble [of 2 v] nibble [of 1 v] nibble [of 0 v]
  by (simp add: emit_hex_def emit_hex_from_wrote hex_text_def)

lemma emit_back_wrote: "n \<le> length tmp \<Longrightarrow> emit_back n tmp (wrote b t) = wrote b (t @ rev (take n tmp))"
  by (induction n arbitrary: t) (simp_all add: take_Suc_conv_app_nth)

lemma dec_text_length: "m < 10 ^ Suc k \<Longrightarrow> length (dec_text m) \<le> Suc k"
proof (induction k arbitrary: m)
  case 0
  then show ?case by (simp add: dec_text.simps)
next
  case (Suc k)
  then have "length (dec_text (m div 10)) \<le> Suc k" by (simp add: less_mult_imp_div_less mult.commute)
  then show ?case by (subst dec_text.simps) simp
qed

lemma dec_digits_spec:
  "n + length (dec_text (unat v)) \<le> length tmp \<Longrightarrow>
   \<exists>tmp'. dec_digits v tmp n = Some (tmp', n + length (dec_text (unat v))) \<and> length tmp' = length tmp
     \<and> take (n + length (dec_text (unat v))) tmp' = take n tmp @ rev (dec_text (unat v))"
proof (induction v tmp n rule: dec_digits.induct)
  case (1 v tmp n)
  have pos: "0 < length (dec_text k)" for k by (subst dec_text.simps) simp
  have n: "n < length tmp" using "1.prems" pos [of "unat v"] by linarith
  let ?tmp = "tmp[n := char_of (48 + unat (v mod 10))]"
  have d: "char_of (48 + unat (v mod 10)) = digit (unat v mod 10)" by (simp add: digit_def unat_mod)
  have take1: "take (Suc n) ?tmp = take n tmp @ [digit (unat v mod 10)]"
    using n d by (simp add: take_Suc_conv_app_nth)
  have q: "unat (v div 10) = unat v div 10" by (simp add: unat_div)
  have z: "v div 10 = 0 \<longleftrightarrow> unat v < 10" using q by (metis div_eq_0_iff unat_eq_zero zero_neq_numeral)
  show ?case
  proof (cases "v div 10 = 0")
    case True
    then have "dec_text (unat v) = [digit (unat v)]" "unat v mod 10 = unat v" using z by (simp_all add: dec_text.simps)
    then show ?thesis using n True take1 by (subst dec_digits.simps) (simp add: Let_def)
  next
    case False
    then have t: "dec_text (unat v) = dec_text (unat (v div 10)) @ [digit (unat v mod 10)]"
      using z q by (subst dec_text.simps) simp
    have "n + 1 + length (dec_text (unat (v div 10))) \<le> length ?tmp" using "1.prems" t by simp
    from "1.IH" [OF _ refl refl False this] n obtain tmp' where tmp':
      "dec_digits (v div 10) ?tmp (n + 1) = Some (tmp', n + 1 + length (dec_text (unat (v div 10))))" "length tmp' = length ?tmp"
      "take (n + 1 + length (dec_text (unat (v div 10)))) tmp' = take (n + 1) ?tmp @ rev (dec_text (unat (v div 10)))"
      by auto
    have "dec_digits v tmp n = dec_digits (v div 10) ?tmp (n + 1)"
      using n False by (subst dec_digits.simps) (simp add: Let_def)
    then show ?thesis using tmp' t take1 by simp
  qed
qed

lemma emit_dec_wrote [simp]: "emit_dec v (wrote b t) = Some (wrote b (t @ dec_text (unat v)))"
proof -
  have "unat v < 10 ^ Suc 9" using unsigned_less [of v, where 'a = nat] by simp
  then have len: "length (dec_text (unat v)) \<le> 10" using dec_text_length [of "unat v" 9] by simp
  then obtain tmp' where "dec_digits v (replicate 10 CHR 0x00) 0 = Some (tmp', length (dec_text (unat v)))" "length tmp' = 10"
    "take (length (dec_text (unat v))) tmp' = rev (dec_text (unat v))"
    using dec_digits_spec [of 0 v "replicate 10 CHR 0x00"] by auto
  then show ?thesis using len by (simp add: emit_dec_def emit_back_wrote)
qed

lemma emit_value_wrote [simp]: "emit_value a (wrote b t) = Some (wrote b (t @ arg_text a))"
  by (cases a) simp_all

lemma emit_run_wrote: "emit_run fmt (wrote b t) =
    (dropWhile (\<lambda>c. c \<noteq> CHR ''{'') fmt, wrote b (t @ takeWhile (\<lambda>c. c \<noteq> CHR ''{'') fmt))"
  by (induction fmt arbitrary: t) simp_all

lemma emit_plain_wrote:
  "emit_plain fmt (wrote b t) =
     (let p = takeWhile (\<lambda>c. c \<noteq> CHR ''{'') fmt; r = dropWhile (\<lambda>c. c \<noteq> CHR ''{'') fmt
      in if take 2 r = ''{}'' then (True, drop 2 r, wrote b (t @ p)) else (False, r, wrote b (t @ p)))"
proof -
  have "(at_char r 0 = CHR ''{'' \<and> at_char r 1 = CHR ''}'') = (take 2 r = ''{}'')" for r
    by (cases r; cases "tl r") (auto simp: at_char_def)
  then show ?thesis by (simp only: emit_plain_def emit_run_wrote Let_def prod.case)
qed

lemma print_args_wrote: "\<exists>fmt' t'. print_args args fmt (wrote b t) = Some (fmt', wrote b t') \<and> t' @ fmt' = t @ render fmt args"
proof (induction args arbitrary: fmt t)
  case (Cons a as)
  let ?p = "takeWhile (\<lambda>c. c \<noteq> CHR ''{'') fmt" and ?r = "dropWhile (\<lambda>c. c \<noteq> CHR ''{'') fmt"
  show ?case
  proof (cases "take 2 ?r = ''{}''")
    case True
    then show ?thesis
      using Cons.IH [of "drop 2 ?r" "t @ ?p @ arg_text a"] by (simp add: emit_plain_wrote Let_def)
  next
    case False
    then show ?thesis using Cons.IH [of ?r "t @ ?p"] by (simp add: emit_plain_wrote Let_def)
  qed
qed simp

lemma format_to_render:
  "format_to out fmt args = Some (min (length (render fmt args)) (length out),
     take (length out) (render fmt args) @ drop (length (render fmt args)) out)"
proof -
  have w0: "\<lparr>out_buf = out, cursor = 0\<rparr> = wrote out []" by (simp add: wrote_def)
  obtain fmt' t' where "print_args args fmt (wrote out []) = Some (fmt', wrote out t')" "t' @ fmt' = render fmt args"
    using print_args_wrote [of args fmt out "[]"] by auto
  then show ?thesis unfolding format_to_def w0 by (simp add: Let_def) (simp add: wrote_def)
qed

section \<open>Properties\<close>

text \<open>A format by its plain pieces, and the text it stands for: values in the holes in order, holes beyond the
  values left as they are, values beyond the holes silent.\<close>

primrec template :: "string \<Rightarrow> string list \<Rightarrow> string" where
  "template p [] = p"
| "template p (q # qs) = p @ ''{}'' @ template q qs"

fun filled :: "string \<Rightarrow> string list \<Rightarrow> arg list \<Rightarrow> string" where
  "filled p [] as = p"
| "filled p (q # qs) [] = p @ ''{}'' @ template q qs"
| "filled p (q # qs) (a # as) = p @ arg_text a @ filled q qs as"

lemma split_plain:
  assumes "CHR ''{'' \<notin> set p"
  shows "takeWhile (\<lambda>c. c \<noteq> CHR ''{'') (p @ CHR ''{'' # r) = p" "dropWhile (\<lambda>c. c \<noteq> CHR ''{'') (p @ CHR ''{'' # r) = CHR ''{'' # r"
    "takeWhile (\<lambda>c. c \<noteq> CHR ''{'') p = p" "dropWhile (\<lambda>c. c \<noteq> CHR ''{'') p = []"
  using assms by (induction p) auto

lemma render_nil: "render [] args = []"
  by (induction args) simp_all

lemma render_template:
  assumes "\<forall>x \<in> set (p # qs). CHR ''{'' \<notin> set x"
  shows "render (template p qs) args = filled p qs args"
  using assms
proof (induction p qs args rule: filled.induct)
  case (1 p as)
  then show ?case by (cases as) (simp_all add: split_plain render_nil)
qed (simp_all add: split_plain Let_def)

text \<open>C29: what \<open>format_to\<close> writes. For a format of plain pieces and placeholders, the buffer receives the pieces
  with the values between them, cut at the buffer's size and never past it; the result is the number of
  characters written, and the rest of the buffer keeps its contents. The call always returns.\<close>

theorem format_to_fills:
  assumes "\<forall>x \<in> set (p # qs). CHR ''{'' \<notin> set x"
  shows "format_to out (template p qs) args =
    (let t = filled p qs args in Some (min (length t) (length out), take (length out) t @ drop (length t) out))"
  using format_to_render [of out "template p qs" args] render_template [OF assms] by (simp add: Let_def)

theorem format_to_fills_witness:
  "format_to ''........'' ''a={} b={}!'' [Dec 407, Text ''xyz''] = Some (8, ''a=407 b='')"
proof -
  have "template ''a='' ['' b='', ''!''] = ''a={} b={}!''" by simp
  moreover have "dec_text 407 = ''407''" by code_simp
  ultimately show ?thesis using format_to_fills [of "''a=''" "['' b='', ''!'']" "''........''" "[Dec 407, Text ''xyz'']"] by simp
qed

definition digit_val :: "char \<Rightarrow> nat" where
  "digit_val c = (if of_char c \<le> (57 :: nat) then of_char c - 48 else of_char c - 55)"

definition read_num :: "nat \<Rightarrow> string \<Rightarrow> nat" where
  "read_num b s = foldl (\<lambda>a c. b * a + digit_val c) 0 s"

lemma digit_val_digit: "k < 10 \<Longrightarrow> digit_val (digit k) = k"
  by (simp add: digit_val_def digit_def)

lemma digit_val_hex: "k < 16 \<Longrightarrow> digit_val (kDigits ! k) = k"
proof -
  have "\<forall>k \<in> set [0..<16]. digit_val (kDigits ! k) = k" by code_simp
  then show "k < 16 \<Longrightarrow> digit_val (kDigits ! k) = k" by simp
qed

lemma read_dec: "read_num 10 (dec_text n) = n"
proof (induction n rule: dec_text.induct)
  case (1 n)
  then show ?case by (subst dec_text.simps) (auto simp: read_num_def digit_val_digit)
qed

lemma read_hex_digits:
  "foldl (\<lambda>a c. 16 * a + digit_val c) x (map (\<lambda>i. kDigits ! (n div 16 ^ i mod 16)) (rev [0..<k])) = x * 16 ^ k + n mod 16 ^ k"
proof (induction k arbitrary: x)
  case (Suc k)
  have "n mod 16 ^ Suc k = 16 ^ k * (n div 16 ^ k mod 16) + n mod 16 ^ k"
    using mod_mult2_eq [of n "16 ^ k" 16] by (simp add: mult.commute)
  then show ?case using Suc by (simp add: digit_val_hex algebra_simps)
qed simp

lemma read_hex: "n < 16 ^ 8 \<Longrightarrow> read_num 16 (hex_text n) = n"
proof -
  have r: "[7, 6, 5, 4, 3, 2, 1, 0 :: nat] = rev [0..<8]" by (simp add: upt_rec)
  show "n < 16 ^ 8 \<Longrightarrow> read_num 16 (hex_text n) = n"
    unfolding read_num_def hex_text_def r read_hex_digits by simp
qed

lemma dec_text_lead: "0 < length (dec_text n) \<and> (dec_text n ! 0 = CHR ''0'' \<longrightarrow> length (dec_text n) = 1)"
proof (induction n rule: dec_text.induct)
  case (1 n)
  show ?case
  proof (cases "n < 10")
    case False
    have "dec_text (n div 10) ! 0 \<noteq> CHR ''0''"
      using False 1 read_dec [of "n div 10"] by (auto simp: length_Suc_conv read_num_def digit_val_def)
    then show ?thesis using False 1 by (subst (1 2 3) dec_text.simps) (simp add: nth_append)
  qed (simp add: dec_text.simps)
qed

text \<open>C30: numbers read back. A printed decimal has at most ten digits, no leading zero, and reads back as the
  number; a printed hexadecimal has exactly eight digits and reads back as the number.\<close>

theorem numbers_read_back:
  assumes "10 \<le> length out"
  shows "(\<exists>n b. format_to out ''{}'' [Dec v] = Some (n, b) \<and> read_num 10 (take n b) = unat v \<and> n \<le> 10
      \<and> (b ! 0 = CHR ''0'' \<longrightarrow> n = 1))
    \<and> (\<exists>b. format_to out ''{}'' [Hex v] = Some (8, b) \<and> read_num 16 (take 8 b) = unat v)"
proof -
  let ?t = "dec_text (unat v)"
  have "unat v < 2 ^ 32" using unsigned_less [of v, where 'a = nat] by simp
  then have len: "length ?t \<le> 10" using dec_text_length [of "unat v" 9] by simp
  have "format_to out ''{}'' [Dec v] = Some (length ?t, ?t @ drop (length ?t) out)"
    using len assms by (simp add: format_to_render)
  moreover have "(?t @ drop (length ?t) out) ! 0 = CHR ''0'' \<longrightarrow> length ?t = 1"
    using dec_text_lead [of "unat v"] by (simp add: nth_append)
  ultimately have "\<exists>n b. format_to out ''{}'' [Dec v] = Some (n, b) \<and> read_num 10 (take n b) = unat v \<and> n \<le> 10
      \<and> (b ! 0 = CHR ''0'' \<longrightarrow> n = 1)"
    using len read_dec by auto
  moreover have "length (hex_text (unat v)) = 8" by (simp add: hex_text_def)
  then have "format_to out ''{}'' [Hex v] = Some (8, hex_text (unat v) @ drop 8 out)" "take 8 (hex_text (unat v) @ drop 8 out) = hex_text (unat v)"
    using assms by (simp_all add: format_to_render)
  ultimately show ?thesis using read_hex [of "unat v"] \<open>unat v < 2 ^ 32\<close> by simp
qed

theorem numbers_read_back_witness:
  "\<exists>n b. format_to (replicate 12 CHR 0x00) ''{}'' [Dec 4294967295] = Some (n, b) \<and> read_num 10 (take n b) = 4294967295"
  using numbers_read_back [of "replicate 12 CHR 0x00" 4294967295] by auto

text \<open>A lone brace silences what follows. A brace that opens no placeholder stops the search for good: the
  format is printed as it stands and every value is dropped, also those with a placeholder behind it.\<close>

theorem lone_brace_drops_values:
  assumes p: "CHR ''{'' \<notin> set p" and c: "c \<noteq> CHR ''}''"
  shows "format_to out (p @ CHR ''{'' # c # r) args =
    (let t = p @ CHR ''{'' # c # r in Some (min (length t) (length out), take (length out) t @ drop (length t) out))"
proof -
  have stuck: "render (CHR ''{'' # c # r) as = CHR ''{'' # c # r" for as using c by (induction as) simp_all
  have "render (p @ CHR ''{'' # c # r) args = p @ CHR ''{'' # c # r"
    by (cases args) (use c in \<open>simp_all add: split_plain [OF p] stuck Let_def\<close>)
  then show ?thesis using format_to_render [of out "p @ CHR ''{'' # c # r" args] by (simp add: Let_def)
qed

theorem lone_brace_drops_values_witness:
  "format_to ''................'' ''set {x} = {}'' [Dec 5] = Some (12, ''set {x} = {}....'')"
  using lone_brace_drops_values [of "''set ''" "CHR ''x''" "''................''" "''} = {}''" "[Dec 5]"] by simp

text \<open>The line a channel is handed.\<close>

lemma print_line:
  assumes "length line = kLineBuffer" and "CHR 0x00 \<notin> set (render fmt args)" and "the_channel l = Some ch"
  shows "print line fmt args l s = map_option snd (ch (take 127 (render fmt args)) s)"
proof -
  let ?t = "render fmt args" and ?k = "if length (render fmt args) < 128 then length (render fmt args) else 127"
  have k: "?k < 128" "take ?k (take 128 ?t @ drop (length ?t) line) = take 127 ?t" "(min (length ?t) 128 < 128) = (length ?t < 128)"
    using assms(1) by (auto simp: min_def)
  have "c_string (b[i := CHR 0x00]) = take i b" if "i < length b" "CHR 0x00 \<notin> set (take i b)" for b i
    using that by (auto simp: c_string_def upd_conv_take_nth_drop takeWhile_append)
  moreover have "CHR 0x00 \<notin> set (take 127 ?t)" using assms(2) by (meson in_set_takeD)
  ultimately have "c_string ((take 128 ?t @ drop (length ?t) line)[?k := CHR 0x00]) = take 127 ?t"
    using k(1,2) assms(1) by (simp only: kLineBuffer_def) (simp add: min_def)
  then show ?thesis
    using assms(1,3) k(3) by (simp add: print_def format_to_render kLineBuffer_def FetchGlobalChannel_def Let_def min_def split: if_splits)
qed

lemma digits_clean: "CHR 0x00 \<notin> set (hex_text n)" "CHR 0x00 \<notin> set (dec_text n)"
proof -
  have "\<forall>c \<in> set kDigits. c \<noteq> CHR 0x00" by (simp add: kDigits_def)
  moreover have "kDigits ! (k mod 16) \<in> set kDigits" for k by (rule nth_mem) (simp add: kDigits_def)
  ultimately have "CHR 0x00 \<noteq> kDigits ! (k mod 16)" for k by metis
  then show "CHR 0x00 \<notin> set (hex_text n)" unfolding hex_text_def by (metis (no_types, lifting) ex_map_conv)
  have "\<forall>k \<in> set [0..<10]. digit k \<noteq> CHR 0x00" by code_simp
  then have d: "digit k \<noteq> CHR 0x00" if "k < 10" for k using that by simp
  show "CHR 0x00 \<notin> set (dec_text n)"
  proof (induction n rule: dec_text.induct)
    case (1 n)
    then show ?case using d [of n] d [of "n mod 10"] by (subst dec_text.simps) auto
  qed
qed

text \<open>\<open>print\<close> hands the registered channel one terminated line, the text cut to the 127 characters the buffer
  holds beside the terminator; with no channel the line is dropped.\<close>

theorem print_sends_line:
  assumes "length line = kLineBuffer" and "CHR 0x00 \<notin> set (render fmt args)"
  shows "print line fmt args (RegisterGlobalChannel ch l) s = map_option snd (ch (take 127 (render fmt args)) s)
    \<and> (the_channel l = None \<longrightarrow> print line fmt args l s = Some s)"
  using print_line [OF assms, of "RegisterGlobalChannel ch l" ch]
  by (simp add: RegisterGlobalChannel_def print_def format_to_render FetchGlobalChannel_def)

theorem print_sends_line_witness:
  "print (replicate 128 CHR ''?'') ''n={}'' [Char (CHR ''7'')] (RegisterGlobalChannel (\<lambda>t s. Some (True, t # s)) \<lparr>the_channel = None\<rparr>) []
    = Some [''n=7'']"
  using print_sends_line [of "replicate 128 CHR ''?''" "''n={}''" "[Char (CHR ''7'')]" "\<lambda>t s. Some (True, t # s)" "\<lparr>the_channel = None\<rparr>" "[]"]
  by (simp add: kLineBuffer_def)

end
