(* ===== verification/Fault_Report.thy ===== *)
theory Fault_Report
  imports Systick_Port Log_Format
begin

text \<open>
  The last words of a dying system: the hard-fault capture of \<^verbatim>\<open>src/arch/arm_cortex_m3/fault.cpp\<close> and the default
  testaments of \<^verbatim>\<open>include/ZerOS/arch/arm_cortex_m3/testaments.hpp\<close>, printed through the registered log channel. A
  handler that ends in an endless \<^verbatim>\<open>wfi\<close> loop is modelled by the state in which it lies down; a failed check, which
  prints nothing, is \<open>None\<close>. Function pointers are addresses; what they point to is a parameter.
\<close>

section \<open>The capture\<close>

record FaultReport =
  fr_r0 :: u32
  fr_r1 :: u32
  fr_r2 :: u32
  fr_r3 :: u32
  fr_r12 :: u32
  fr_lr :: u32
  fr_pc :: u32
  fr_xpsr :: u32
  fr_cfsr :: u32
  fr_hfsr :: u32
  fr_bfar :: u32
  fr_task_name :: "string option"
  fr_task_prio :: u8
  fr_frame :: addr

record fmach = stk +
  msp :: addr
  scb_cfsr :: u32
  scb_hfsr :: u32
  scb_bfar :: u32
  fault_sink :: "addr option"

type_synonym 's fault_sinks = "addr \<Rightarrow> FaultReport \<Rightarrow> 's \<Rightarrow> 's option"

definition capture_report :: "addr \<Rightarrow> 'a fmach_scheme \<Rightarrow> FaultReport" where
  "capture_report frame s =
     (let (name, prio) = (case sys_current_task s of None \<Rightarrow> (Some ''boot'', 0xFF)
                          | Some cur \<Rightarrow> (tcb_name (tcbs s cur), task_priority (tcbs s cur)))
      in \<lparr>fr_r0 = memory s frame, fr_r1 = memory s (frame + 4), fr_r2 = memory s (frame + 8), fr_r3 = memory s (frame + 12),
          fr_r12 = memory s (frame + 16), fr_lr = memory s (frame + 20), fr_pc = memory s (frame + 24),
          fr_xpsr = memory s (frame + 28), fr_cfsr = scb_cfsr s, fr_hfsr = scb_hfsr s, fr_bfar = scb_bfar s,
          fr_task_name = name, fr_task_prio = prio, fr_frame = frame\<rparr>)"

definition hardfault_capture :: "'a fmach_scheme fault_sinks \<Rightarrow> addr \<Rightarrow> 'a fmach_scheme \<Rightarrow> 'a fmach_scheme option" where
  "hardfault_capture sinks frame s = do {
     let r = capture_report frame s;
     s1 \<leftarrow> debug_Check (fault_sink s \<noteq> None) s;
     sinks (the (fault_sink s1)) r s1
   }"

definition HardFault_Handler :: "'a fmach_scheme fault_sinks \<Rightarrow> u32 \<Rightarrow> 'a fmach_scheme \<Rightarrow> 'a fmach_scheme option" where
  "HardFault_Handler sinks lr s = hardfault_capture sinks (if lr AND 4 = 0 then msp s else psp s) s"

section \<open>The default testaments\<close>

definition crlf :: string where "crlf = [CHR 0x0D, CHR 0x0A]"

text \<open>Printing a C string that may be a null pointer: reading through it is no defined value.\<close>

definition text_of :: "string option \<Rightarrow> arg option" where
  "text_of = map_option Text"

definition default_overflow_report ::
  "char list \<Rightarrow> 'a fmach_scheme logging \<Rightarrow> addr \<Rightarrow> nat \<Rightarrow> 'a fmach_scheme \<Rightarrow> 'a fmach_scheme option" where
  "default_overflow_report line l t eaten s = do {
     name \<leftarrow> text_of (tcb_name (tcbs s t));
     print line (''[STACK OVERFLOW] task={} eaten={}'' @ crlf) [name, Dec (of_nat eaten)] l s
   }"

primrec dump_frame :: "nat \<Rightarrow> char list \<Rightarrow> 'a fmach_scheme logging \<Rightarrow> addr \<Rightarrow> 'a fmach_scheme \<Rightarrow> 'a fmach_scheme option" where
  "dump_frame 0 line l p s = Some s"
| "dump_frame (Suc k) line l p s = do {
     s1 \<leftarrow> print line '' {}'' [Hex (memory s p)] l s;
     dump_frame k line l (p + 4) s1
   }"

definition default_fault_sink ::
  "char list \<Rightarrow> 'a fmach_scheme logging \<Rightarrow> FaultReport \<Rightarrow> 'a fmach_scheme \<Rightarrow> 'a fmach_scheme option" where
  "default_fault_sink line l r s = do {
     name \<leftarrow> text_of (fr_task_name r);
     s1 \<leftarrow> print line (crlf @ ''*** HARD FAULT *** task={} prio={}'' @ crlf) [name, Dec (ucast (fr_task_prio r))] l s;
     s2 \<leftarrow> print line (''pc=0x{} lr=0x{} xpsr=0x{}'' @ crlf) [Hex (fr_pc r), Hex (fr_lr r), Hex (fr_xpsr r)] l s1;
     s3 \<leftarrow> print line (''cfsr=0x{} hfsr=0x{} bfar=0x{}'' @ crlf) [Hex (fr_cfsr r), Hex (fr_hfsr r), Hex (fr_bfar r)] l s2;
     s4 \<leftarrow> print line ''stack:'' [] l s3;
     s5 \<leftarrow> dump_frame 8 line l (fr_frame r) s4;
     print line crlf [] l s5
   }"

text \<open>The two lambdas of \<open>install_default_testaments\<close> have the addresses of the pair.\<close>

definition install_default_testaments :: "addr \<times> addr \<Rightarrow> 'a fmach_scheme \<Rightarrow> 'a fmach_scheme" where
  "install_default_testaments fns s = s\<lparr>overflow_reporter := Some (fst fns), fault_sink := Some (snd fns)\<rparr>"

definition default_sinks :: "addr \<times> addr \<Rightarrow> char list \<Rightarrow> 'a fmach_scheme logging \<Rightarrow> 'a fmach_scheme fault_sinks" where
  "default_sinks fns line l f r s = (if f = snd fns then default_fault_sink line l r s else None)"

section \<open>What they say\<close>

primrec says :: "'s channel \<Rightarrow> string list \<Rightarrow> 's \<Rightarrow> 's option" where
  "says ch [] s = Some s"
| "says ch (t # ts) s = map_option snd (ch t s) \<bind> says ch ts"

lemma says_append: "says ch (ts @ us) s = says ch ts s \<bind> says ch us"
proof (induction ts arbitrary: s)
  case (Cons t ts)
  then show ?case by (cases "ch t s") simp_all
qed simp

lemma says_append_fun: "says ch (ts @ us) = (\<lambda>s. says ch ts s \<bind> says ch us)"
  by (simp add: fun_eq_iff says_append)

lemma says_one: "says ch [t] s = map_option snd (ch t s)"
  by (cases "ch t s") simp_all

definition quiet_channel :: "'a fmach_scheme channel \<Rightarrow> bool" where
  "quiet_channel ch \<longleftrightarrow> (\<forall>t s b s'. ch t s = Some (b, s') \<longrightarrow> memory s' = memory s)"

definition testament :: "FaultReport \<Rightarrow> u32 list \<Rightarrow> string list" where
  "testament r frame =
     [take 127 (crlf @ ''*** HARD FAULT *** task='' @ the (fr_task_name r) @ '' prio='' @ dec_text (unat (fr_task_prio r)) @ crlf),
      ''pc=0x'' @ hex_text (unat (fr_pc r)) @ '' lr=0x'' @ hex_text (unat (fr_lr r)) @ '' xpsr=0x'' @ hex_text (unat (fr_xpsr r)) @ crlf,
      ''cfsr=0x'' @ hex_text (unat (fr_cfsr r)) @ '' hfsr=0x'' @ hex_text (unat (fr_hfsr r)) @ '' bfar=0x'' @ hex_text (unat (fr_bfar r)) @ crlf,
      ''stack:''] @ map (\<lambda>w. '' '' @ hex_text (unat w)) frame @ [crlf]"

lemma length_hex [simp]: "length (hex_text n) = 8"
  by (simp add: hex_text_def)

lemma three_hex:
  "render (''pc=0x{} lr=0x{} xpsr=0x{}'' @ crlf) [Hex a, Hex b, Hex c] =
     ''pc=0x'' @ hex_text (unat a) @ '' lr=0x'' @ hex_text (unat b) @ '' xpsr=0x'' @ hex_text (unat c) @ crlf"
  "render (''cfsr=0x{} hfsr=0x{} bfar=0x{}'' @ crlf) [Hex a, Hex b, Hex c] =
     ''cfsr=0x'' @ hex_text (unat a) @ '' hfsr=0x'' @ hex_text (unat b) @ '' bfar=0x'' @ hex_text (unat c) @ crlf"
  "render (crlf @ ''*** HARD FAULT *** task={} prio={}'' @ crlf) [Text nm, Dec d] =
     crlf @ ''*** HARD FAULT *** task='' @ nm @ '' prio='' @ dec_text (unat d) @ crlf"
  "render '' {}'' [Hex a] = '' '' @ hex_text (unat a)"
  by (simp_all add: crlf_def)

lemma dump_frame_says:
  assumes line: "length line = kLineBuffer" and l: "the_channel l = Some ch" and q: "quiet_channel ch"
  shows "dump_frame k line l p s = says ch (map (\<lambda>w. '' '' @ hex_text (unat w)) (read_words p k (memory s))) s"
proof (induction k arbitrary: p s)
  case 0
  then show ?case by (simp add: read_words_def)
next
  case (Suc k)
  have rw: "read_words p (Suc k) m = m p # read_words (p + 4) k m" for m
    by (simp add: read_words_def upt_conv_Cons map_Suc_upt [symmetric] add.assoc del: upt_Suc)
  let ?t = "'' '' @ hex_text (unat (memory s p))"
  have "print line '' {}'' [Hex (memory s p)] l s = map_option snd (ch ?t s)"
    using print_line [OF line _ l, of "'' {}''" "[Hex (memory s p)]" s] digits_clean(1) unfolding three_hex(4) by simp
  then show ?case using Suc.IH q by (cases "ch ?t s") (auto simp: rw quiet_channel_def)
qed

lemma quiet_says: "quiet_channel ch \<Longrightarrow> says ch ts s = Some s' \<Longrightarrow> memory s' = memory s"
proof (induction ts arbitrary: s)
  case (Cons t ts)
  obtain b s1 where s1: "ch t s = Some (b, s1)" "says ch ts s1 = Some s'" using Cons.prems(2) by (auto split: bind_splits)
  have "memory s' = memory s1" by (rule Cons.IH [OF Cons.prems(1) s1(2)])
  then show ?case using Cons.prems(1) s1(1) by (simp add: quiet_channel_def)
qed simp

lemma default_fault_sink_says:
  assumes line: "length line = kLineBuffer" and l: "the_channel l = Some ch" and q: "quiet_channel ch"
    and nm: "fr_task_name r = Some nm" "CHR 0x00 \<notin> set nm"
  shows "default_fault_sink line l r s = says ch (testament r (read_words (fr_frame r) 8 (memory s))) s"
proof -
  note pl = print_line [OF line _ l]
  have prio: "unat (ucast (fr_task_prio r) :: u32) = unat (fr_task_prio r)"
    using unsigned_less [of "fr_task_prio r", where 'a = nat] by (simp add: unsigned_ucast_eq take_bit_nat_eq_self)
  have clean: "CHR 0x00 \<notin> set crlf" by (simp add: crlf_def)
  define t1 where "t1 = take 127 (crlf @ ''*** HARD FAULT *** task='' @ nm @ '' prio='' @ dec_text (unat (fr_task_prio r)) @ crlf)"
  define t2 where "t2 a b c = ''pc=0x'' @ hex_text (unat a) @ '' lr=0x'' @ hex_text (unat b) @ '' xpsr=0x'' @ hex_text (unat c) @ crlf" for a b c :: u32
  define t3 where "t3 a b c = ''cfsr=0x'' @ hex_text (unat a) @ '' hfsr=0x'' @ hex_text (unat b) @ '' bfar=0x'' @ hex_text (unat c) @ crlf" for a b c :: u32
  have p1: "print line (crlf @ ''*** HARD FAULT *** task={} prio={}'' @ crlf) [Text nm, Dec (ucast (fr_task_prio r))] l s = says ch [t1] s" for s
    by (unfold says_one, subst pl; unfold three_hex prio t1_def; use nm(2) clean digits_clean in simp)
  have p2: "print line (''pc=0x{} lr=0x{} xpsr=0x{}'' @ crlf) [Hex a, Hex b, Hex c] l s = says ch [t2 a b c] s" for a b c s
    by (unfold says_one, subst pl; unfold three_hex t2_def; use clean digits_clean in \<open>simp add: crlf_def\<close>)
  have p3: "print line (''cfsr=0x{} hfsr=0x{} bfar=0x{}'' @ crlf) [Hex a, Hex b, Hex c] l s = says ch [t3 a b c] s" for a b c s
    by (unfold says_one, subst pl; unfold three_hex t3_def; use clean digits_clean in \<open>simp add: crlf_def\<close>)
  have p4: "print line ''stack:'' [] l s = says ch [''stack:''] s" "print line crlf [] l s = says ch [crlf] s" for s
    by (unfold says_one, subst pl; simp add: crlf_def)+
  then have p5: "print line crlf [] l = says ch [crlf]" by (simp only: fun_eq_iff) blast
  define ts where "ts = [t1] @ [t2 (fr_pc r) (fr_lr r) (fr_xpsr r)] @ [t3 (fr_cfsr r) (fr_hfsr r) (fr_bfar r)] @ [''stack:'']"
  define us where "us w = map (\<lambda>w. '' '' @ hex_text (unat w)) w" for w :: "u32 list"
  have head: "default_fault_sink line l r s =
      says ch ts s \<bind> (\<lambda>s4. says ch (us (read_words (fr_frame r) 8 (memory s4))) s4 \<bind> says ch [crlf])"
    unfolding default_fault_sink_def ts_def us_def
    by (simp only: text_of_def nm(1) option.map Option.bind.simps p1 p2 p3 p4(1) p5 dump_frame_says [OF line l q]
        says_append_fun Option.bind_assoc)
  have "testament r w = ts @ us w @ [crlf]" for w
    by (simp only: testament_def ts_def us_def t1_def t2_def t3_def nm(1) option.sel append.simps)
  moreover have "says ch ts s \<bind> (\<lambda>s4. says ch (us (read_words (fr_frame r) 8 (memory s4))) s4 \<bind> says ch [crlf])
      = says ch ts s \<bind> (\<lambda>s4. says ch (us (read_words (fr_frame r) 8 (memory s))) s4 \<bind> says ch [crlf])"
    using quiet_says [OF q, of ts s] by (cases "says ch ts s") simp_all
  ultimately show ?thesis unfolding head by (simp only: says_append_fun)
qed

section \<open>Properties\<close>

text \<open>What the core does when a thread on the process stack faults: it stacks the caller-saved registers there.\<close>

definition fault_entry :: "'a fmach_scheme \<Rightarrow> 'a fmach_scheme" where
  "fault_entry s = s\<lparr>memory := write_words (psp s - 32) (ef_words (core s)) (memory s), psp := psp s - 32\<rparr>"

text \<open>C28: the testament of a hard fault. With the default testaments installed and a channel registered, a fault of a
  thread prints, in order and each within one line buffer, the task's name and priority, the thread's own \<open>pc\<close>,
  \<open>lr\<close> and \<open>xpsr\<close> as they were when it faulted, the fault status registers, and the eight stacked words, and then
  lies down. With no sink wired the check fails and nothing is printed.\<close>

theorem fault_testament_told:
  fixes s :: "'a fmach_scheme"
  assumes line: "length line = kLineBuffer" and l: "the_channel l = Some ch" and q: "quiet_channel ch"
    and cur: "current s = Some t" and nm: "tcb_name (tcbs s t) = Some nm" "CHR 0x00 \<notin> set nm"
    and inst: "s = install_default_testaments fns s0" and bit: "lr AND 4 \<noteq> 0"
  shows "\<exists>r. HardFault_Handler (default_sinks fns line l) lr (fault_entry s)
       = says ch (testament r (ef_words (core s))) (fault_entry s)
    \<and> fr_task_name r = Some nm \<and> fr_task_prio r = task_priority (tcbs s t)
    \<and> fr_pc r = ef_pc (core s) \<and> fr_lr r = ef_lr (core s) \<and> fr_xpsr r = ef_xpsr (core s)
    \<and> fr_cfsr r = scb_cfsr s \<and> fr_hfsr r = scb_hfsr s \<and> fr_bfar r = scb_bfar s
    \<and> HardFault_Handler sinks lr ((fault_entry s)\<lparr>fault_sink := None\<rparr>) = None"
proof -
  let ?e = "fault_entry s" and ?f = "psp s - 32"
  define r where "r = capture_report ?f ?e"
  have rw: "read_words ?f 8 (memory ?e) = ef_words (core s)" by (simp add: fault_entry_def read_write_frames)
  then have "\<forall>i < 8. memory ?e (?f + 4 * i) = ef_words (core s) ! i" by (metis read_words_nth)
  then have w: "memory ?e (?f + 20) = ef_lr (core s)" "memory ?e (?f + 24) = ef_pc (core s)" "memory ?e (?f + 28) = ef_xpsr (core s)"
    by (auto simp: ef_words_def dest: spec [of _ 5] spec [of _ 6] spec [of _ 7])
  have e: "current ?e = Some t" "tcbs ?e = tcbs s" "fault_sink ?e = Some (snd fns)" "psp ?e = ?f"
    "scb_cfsr ?e = scb_cfsr s" "scb_hfsr ?e = scb_hfsr s" "scb_bfar ?e = scb_bfar s"
    using cur inst by (simp_all add: fault_entry_def install_default_testaments_def)
  have fr: "fr_task_name r = Some nm" "fr_task_prio r = task_priority (tcbs s t)" "fr_frame r = ?f"
    "fr_pc r = ef_pc (core s)" "fr_lr r = ef_lr (core s)" "fr_xpsr r = ef_xpsr (core s)"
    "fr_cfsr r = scb_cfsr s" "fr_hfsr r = scb_hfsr s" "fr_bfar r = scb_bfar s"
    using w e nm by (simp_all add: r_def capture_report_def sys_current_task_def current_task_def Let_def)
  have "HardFault_Handler (default_sinks fns line l) lr ?e = default_fault_sink line l r ?e"
    using e bit by (simp add: HardFault_Handler_def hardfault_capture_def default_sinks_def debug_Check_def r_def Let_def)
  then have "HardFault_Handler (default_sinks fns line l) lr ?e = says ch (testament r (ef_words (core s))) ?e"
    using default_fault_sink_says [OF line l q fr(1) nm(2)] fr(3) rw by simp
  moreover have "HardFault_Handler sinks lr (?e\<lparr>fault_sink := None\<rparr>) = None"
    by (simp add: HardFault_Handler_def hardfault_capture_def debug_Check_def Let_def)
  ultimately show ?thesis using fr by blast
qed

theorem fault_testament_told_witness:
  "\<exists>s0 :: nat fmach_scheme. \<exists>lines. length lines = 13
    \<and> HardFault_Handler (default_sinks (1, 2) (replicate 128 CHR 0x00) \<lparr>the_channel = Some (\<lambda>t s. Some (True, s))\<rparr>) 0xFFFFFFFD (fault_entry s0)
       = says (\<lambda>t s. Some (True, s)) lines (fault_entry s0)"
proof -
  define b :: "nat fmach_scheme" where "b = stk.extend ((on_chip False sys_new)\<lparr>current := Some 7,
      tcbs := (\<lambda>_. TCB_new\<lparr>tcb_name := Some ''H''\<rparr>)\<rparr>)
    \<lparr>msp = 0, scb_cfsr = 0, scb_hfsr = 0, scb_bfar = 0, fault_sink = None, \<dots> = 0\<rparr>"
  define s0 where "s0 = install_default_testaments (1, 2) b"
  have "length (testament r (ef_words f)) = 13" for r f by (simp add: testament_def)
  moreover have "\<exists>r. HardFault_Handler (default_sinks (1, 2) (replicate 128 CHR 0x00) \<lparr>the_channel = Some (\<lambda>t s. Some (True, s))\<rparr>) 0xFFFFFFFD (fault_entry s0)
       = says (\<lambda>t s. Some (True, s)) (testament r (ef_words (core s0))) (fault_entry s0)"
    using fault_testament_told [of "replicate 128 CHR 0x00" "\<lparr>the_channel = Some (\<lambda>t s. Some (True, s))\<rparr>" "\<lambda>t s. Some (True, s)" s0 7 "''H''" "(1, 2)" b
        "0xFFFFFFFD"]
    by (auto simp: s0_def b_def install_default_testaments_def stk.defs on_chip_def sys.defs kLineBuffer_def quiet_channel_def)
  ultimately show ?thesis by metis
qed

end
