(* ===== verification/Board_Clock.thy ===== *)
theory Board_Clock
  imports Zeros_Prelude
begin

text \<open>
  The clock tree of the Blue Pill board: \<open>clock_init\<close> of \<^verbatim>\<open>src/board/stm32f103_bluepill/clock.hpp\<close>, the vendor's
  \<open>SystemCoreClockUpdate\<close> of \<^verbatim>\<open>system_stm32f1xx.c\<close> in its STM32F103 configuration, the fixed clock of the MPS2
  board, and the cycle counter of \<^verbatim>\<open>dwt.hpp\<close>. Between two reads of a ready bit the hardware moves by the
  parameter \<open>hw\<close>; a polling loop has no bound of its own. The register masks of the vendor header, which is not
  part of the repository, are the parameter record \<open>cmsis\<close>.
\<close>

section \<open>The clock tree\<close>

record clk =
  rcc_cr :: u32
  rcc_cfgr :: u32
  flash_acr :: u32

text \<open>\<^verbatim>\<open>while (!ready) {}\<close>\<close>

partial_function (option) wait_for :: "('s \<Rightarrow> bool) \<Rightarrow> ('s \<Rightarrow> 's) \<Rightarrow> 's \<Rightarrow> 's option" where
  "wait_for ready hw s = (if ready s then Some s else wait_for ready hw (hw s))"

definition clock_init :: "('a clk_scheme \<Rightarrow> 'a clk_scheme) \<Rightarrow> 'a clk_scheme \<Rightarrow> 'a clk_scheme option" where
  "clock_init hw s =
     (if rcc_cr s AND push_bit 17 1 \<noteq> 0 then Some s
      else do {
        let s1 = s\<lparr>rcc_cr := rcc_cr s OR push_bit 16 1\<rparr>;
        s2 \<leftarrow> wait_for (\<lambda>s. rcc_cr s AND push_bit 17 1 \<noteq> 0) hw s1;
        let s3 = s2\<lparr>flash_acr := (flash_acr s2 AND NOT 0x7) OR 0x2\<rparr>;
        let s4 = s3\<lparr>rcc_cfgr := (rcc_cfgr s3 AND NOT (push_bit 4 0xF) AND NOT (push_bit 8 0x7) AND NOT (push_bit 11 0x7)) OR push_bit 8 0x4\<rparr>;
        let s5 = s4\<lparr>rcc_cfgr := (rcc_cfgr s4 AND NOT (push_bit 16 1 OR push_bit 17 1 OR push_bit 18 0xF)) OR push_bit 16 1 OR push_bit 18 0x7\<rparr>;
        let s6 = s5\<lparr>rcc_cr := rcc_cr s5 OR push_bit 24 1\<rparr>;
        s7 \<leftarrow> wait_for (\<lambda>s. rcc_cr s AND push_bit 25 1 \<noteq> 0) hw s6;
        let s8 = s7\<lparr>rcc_cfgr := (rcc_cfgr s7 AND NOT 0x3) OR 0x2\<rparr>;
        wait_for (\<lambda>s. rcc_cfgr s AND push_bit 2 0x3 = push_bit 2 0x2) hw s8
      })"

section \<open>The vendor's reading of it\<close>

record cmsis =
  RCC_CFGR_SWS :: u32
  RCC_CFGR_PLLMULL :: u32
  RCC_CFGR_PLLSRC :: u32
  RCC_CFGR_PLLXTPRE :: u32
  RCC_CFGR_HPRE :: u32

definition HSE_VALUE :: u32 where "HSE_VALUE = 8000000"
definition HSI_VALUE :: u32 where "HSI_VALUE = 8000000"

definition AHBPrescTable :: "nat list" where
  "AHBPrescTable = [0, 0, 0, 0, 0, 0, 0, 0, 1, 2, 3, 4, 6, 7, 8, 9]"

definition SystemCoreClockUpdate :: "cmsis \<Rightarrow> 'a clk_scheme \<Rightarrow> u32" where
  "SystemCoreClockUpdate m s =
     (let tmp = rcc_cfgr s AND RCC_CFGR_SWS m;
          clock =
            (if tmp = 0x00 then HSI_VALUE
             else if tmp = 0x04 then HSE_VALUE
             else if tmp = 0x08 then
               let pllmull = drop_bit 18 (rcc_cfgr s AND RCC_CFGR_PLLMULL m) + 2;
                   pllsource = rcc_cfgr s AND RCC_CFGR_PLLSRC m
               in if pllsource = 0 then drop_bit 1 HSI_VALUE * pllmull
                  else if rcc_cfgr s AND RCC_CFGR_PLLXTPRE m \<noteq> 0 then drop_bit 1 HSE_VALUE * pllmull
                  else HSE_VALUE * pllmull
             else HSI_VALUE)
      in drop_bit (AHBPrescTable ! unat (drop_bit 4 (rcc_cfgr s AND RCC_CFGR_HPRE m))) clock)"

section \<open>The cycle counter\<close>

record dwt =
  demcr :: u32
  dwt_ctrl :: u32
  dwt_cyccnt :: u32

definition dwt_init :: "'a dwt_scheme \<Rightarrow> 'a dwt_scheme" where
  "dwt_init s =
     (let s1 = s\<lparr>demcr := demcr s OR push_bit 24 1\<rparr>;
          s2 = s1\<lparr>dwt_cyccnt := 0\<rparr>
      in s2\<lparr>dwt_ctrl := dwt_ctrl s2 OR 1\<rparr>)"

definition dwt_cycles :: "'a dwt_scheme \<Rightarrow> u32" where
  "dwt_cycles s = dwt_cyccnt s"

text \<open>A difference of two readings is the cycles between them, also across a wrap of the counter.\<close>

lemma dwt_difference:
  assumes "k < 2 ^ 32" and "dwt_cyccnt s' = dwt_cyccnt s + word_of_nat k"
  shows "unat (dwt_cycles s' - dwt_cycles s) = k" "dwt_cycles (dwt_init s) = 0"
  using assms by (simp_all add: dwt_cycles_def dwt_init_def unat_of_nat take_bit_nat_eq_self Let_def)

section \<open>Polling\<close>

lemma wait_for_returns:
  assumes "ready ((hw ^^ n) s)"
  shows "\<exists>k \<le> n. wait_for ready hw s = Some ((hw ^^ k) s) \<and> ready ((hw ^^ k) s)"
  using assms
proof (induction n arbitrary: s)
  case 0
  then show ?case by (simp add: wait_for.simps)
next
  case (Suc n)
  show ?case
  proof (cases "ready s")
    case True
    then show ?thesis by (intro exI [of _ 0]) (simp add: wait_for.simps)
  next
    case False
    have "ready ((hw ^^ n) (hw s))" using Suc.prems by (simp add: funpow_swap1)
    from Suc.IH [OF this] obtain k where "k \<le> n" "wait_for ready hw (hw s) = Some ((hw ^^ k) (hw s))" "ready ((hw ^^ k) (hw s))" by blast
    then show ?thesis using False by (intro exI [of _ "Suc k"]) (simp add: wait_for.simps funpow_swap1)
  qed
qed

text \<open>What a polling loop keeps of the state, step by step of the hardware.\<close>

lemma wait_for_keeps:
  assumes "\<And>s. f (hw s) = f s" and "ready ((hw ^^ n) s)"
  obtains s' where "wait_for ready hw s = Some s'" "ready s'" "f s' = f s"
proof -
  obtain k where k: "wait_for ready hw s = Some ((hw ^^ k) s)" "ready ((hw ^^ k) s)" using wait_for_returns [of ready n hw s] assms(2) by blast
  have "f ((hw ^^ k) s) = f s" by (induction k) (simp_all add: assms(1))
  then show ?thesis using that k by blast
qed

lemma wait_for_frame:
  assumes run: "wait_for ready hw s = Some s'" and keeps: "\<And>s. f (hw s) = f s"
  shows "f s' = f s"
proof -
  have "(\<forall>s. f (hw s) = f s) \<longrightarrow> f s' = f s"
  proof (rule wait_for.raw_induct [of "\<lambda>ready hw s r. (\<forall>s. f (hw s) = f s) \<longrightarrow> f r = f s", OF _ run])
    fix wf ready hw s r
    assume IH: "\<And>ready hw s r. wf ready hw s = Some r \<Longrightarrow> (\<forall>s. f (hw s) = f s) \<longrightarrow> f r = f s"
      and eq: "(if ready s then Some s else wf ready hw (hw s)) = Some r"
    show "(\<forall>s. f (hw s) = f s) \<longrightarrow> f r = f s" using eq IH [of ready hw "hw s" r] by (cases "ready s") auto
  qed
  then show ?thesis using keeps by blast
qed

section \<open>Fields of a register\<close>

lemma field_put: "A AND M = 0 \<Longrightarrow> ((x AND A) OR B) AND M = B AND M" for A B M x :: u32
  by (simp add: bit.conj_disj_distrib2 and.assoc)

lemma field_keep: "A AND M = M \<Longrightarrow> B AND M = 0 \<Longrightarrow> ((x AND A) OR B) AND M = x AND M" for A B M x :: u32
  by (simp add: bit.conj_disj_distrib2 and.assoc)

lemma field_same: "x AND A = y AND A \<Longrightarrow> A AND M = M \<Longrightarrow> x AND M = y AND M" for A M x y :: u32
  by (metis and.assoc)

lemma one_bit: "x AND push_bit n 1 \<noteq> 0 \<longleftrightarrow> bit x n" if "n < 32" for x :: u32
proof -
  have "bit (x AND push_bit n 1) i \<longleftrightarrow> i = n \<and> bit x n" for i
    unfolding bit_and_iff bit_push_bit_iff bit_1_iff using that by auto
  then show ?thesis by (metis bit_0_eq bit_word_eqI bot_apply bot_bool_def)
qed

section \<open>Properties\<close>

text \<open>What the reference manual says of the clock hardware: it drives the ready bits and the clock-switch status
  alone; an oscillator or PLL that is on becomes ready, and a requested switch to the PLL is carried out.\<close>

definition rcc_hw :: "('a clk_scheme \<Rightarrow> 'a clk_scheme) \<Rightarrow> bool" where
  "rcc_hw hw \<longleftrightarrow>
     (\<forall>s. rcc_cfgr (hw s) AND NOT 0xC = rcc_cfgr s AND NOT 0xC \<and> flash_acr (hw s) = flash_acr s
        \<and> (\<forall>i. i \<noteq> 17 \<longrightarrow> i \<noteq> 25 \<longrightarrow> bit (rcc_cr (hw s)) i = bit (rcc_cr s) i))
     \<and> (\<forall>s. bit (rcc_cr s) 16 \<longrightarrow> (\<exists>n. bit (rcc_cr ((hw ^^ n) s)) 17))
     \<and> (\<forall>s. bit (rcc_cr s) 24 \<longrightarrow> (\<exists>n. bit (rcc_cr ((hw ^^ n) s)) 25))
     \<and> (\<forall>s. rcc_cfgr s AND 0x3 = 0x2 \<longrightarrow> (\<exists>n. rcc_cfgr ((hw ^^ n) s) AND 0xC = 0x8))"

text \<open>The masks of the vendor header for the STM32F103.\<close>

definition cmsis_f103 :: "cmsis \<Rightarrow> bool" where
  "cmsis_f103 m \<longleftrightarrow> RCC_CFGR_SWS m = 0xC \<and> RCC_CFGR_PLLMULL m = 0x3C0000 \<and> RCC_CFGR_PLLSRC m = 0x10000
     \<and> RCC_CFGR_PLLXTPRE m = 0x20000 \<and> RCC_CFGR_HPRE m = 0xF0"

lemma pll_reading:
  assumes "cmsis_f103 m" and "c AND 0xC = 0x8" "c AND 0x3C0000 = 0x1C0000" "c AND 0x10000 = 0x10000" "c AND 0x20000 = 0" "c AND 0xF0 = 0"
    and "rcc_cfgr s = c"
  shows "SystemCoreClockUpdate m s = 72000000"
  using assms by (simp add: SystemCoreClockUpdate_def cmsis_f103_def Let_def HSE_VALUE_def AHBPrescTable_def)

lemma clock_comes_up:
  assumes hw: "rcc_hw hw" and m: "cmsis_f103 m" and silicon: "\<not> bit (rcc_cr s) 17"
  shows "\<exists>s'. clock_init hw s = Some s' \<and> SystemCoreClockUpdate m s' = 72000000
    \<and> flash_acr s' AND 0x7 = 0x2 \<and> rcc_cfgr s' AND 0x700 = 0x400 \<and> rcc_cfgr s' AND 0x3800 = 0"
proof -
  define core where "core = (\<lambda>s :: 'a clk_scheme. (rcc_cfgr s AND NOT 0xC, flash_acr s, bit (rcc_cr s) 16, bit (rcc_cr s) 24))"
  have keeps: "core (hw s) = core s" for s using hw by (simp add: core_def rcc_hw_def)
  note laws = hw [unfolded rcc_hw_def, THEN conjunct2]
  have b17: "(rcc_cr s AND push_bit 17 1 \<noteq> 0) = bit (rcc_cr s) 17" and b25: "(rcc_cr s AND push_bit 25 1 \<noteq> 0) = bit (rcc_cr s) 25"
    for s :: "'a clk_scheme" by (rule one_bit; simp)+
  define s1 where "s1 = s\<lparr>rcc_cr := rcc_cr s OR push_bit 16 1\<rparr>"
  have "bit (rcc_cr s1) 16" unfolding s1_def by (simp add: bit_or_iff bit_push_bit_iff)
  then obtain n1 where "bit (rcc_cr ((hw ^^ n1) s1)) 17" using laws by blast
  then obtain s2 where s2: "wait_for (\<lambda>s. bit (rcc_cr s) 17) hw s1 = Some s2"
    by (rule wait_for_keeps [of core hw "\<lambda>s. bit (rcc_cr s) 17", OF keeps])
  define s3 where "s3 = s2\<lparr>flash_acr := (flash_acr s2 AND NOT 0x7) OR 0x2\<rparr>"
  define s4 where "s4 = s3\<lparr>rcc_cfgr := (rcc_cfgr s3 AND NOT (push_bit 4 0xF) AND NOT (push_bit 8 0x7) AND NOT (push_bit 11 0x7)) OR push_bit 8 0x4\<rparr>"
  define s5 where "s5 = s4\<lparr>rcc_cfgr := (rcc_cfgr s4 AND NOT (push_bit 16 1 OR push_bit 17 1 OR push_bit 18 0xF)) OR push_bit 16 1 OR push_bit 18 0x7\<rparr>"
  define s6 where "s6 = s5\<lparr>rcc_cr := rcc_cr s5 OR push_bit 24 1\<rparr>"
  have "bit (rcc_cr s6) 24" unfolding s6_def by (simp add: bit_or_iff bit_push_bit_iff)
  then obtain n2 where "bit (rcc_cr ((hw ^^ n2) s6)) 25" using laws by blast
  then obtain s7 where s7: "wait_for (\<lambda>s. bit (rcc_cr s) 25) hw s6 = Some s7" "core s7 = core s6"
    by (rule wait_for_keeps [of core hw "\<lambda>s. bit (rcc_cr s) 25", OF keeps])
  define s8 where "s8 = s7\<lparr>rcc_cfgr := (rcc_cfgr s7 AND NOT 0x3) OR 0x2\<rparr>"
  have "rcc_cfgr s8 AND 0x3 = 0x2" unfolding s8_def by (simp add: field_put)
  then obtain n3 where "rcc_cfgr ((hw ^^ n3) s8) AND 0xC = 0x8" using laws by blast
  then obtain s9 where s9: "wait_for (\<lambda>s. rcc_cfgr s AND 0xC = 0x8) hw s8 = Some s9" "rcc_cfgr s9 AND 0xC = 0x8" "core s9 = core s8"
    by (rule wait_for_keeps [of core hw "\<lambda>s. rcc_cfgr s AND 0xC = 0x8", OF keeps])
  have sws: "push_bit 2 (0x3 :: u32) = 0xC" "push_bit 2 (0x2 :: u32) = 0x8" by simp_all
  have run: "clock_init hw s = Some s9"
    unfolding clock_init_def b17 b25 sws Let_def s1_def [symmetric]
    using silicon by (simp only: if_False s2 Option.bind.simps s3_def [symmetric] s4_def [symmetric] s5_def [symmetric] s6_def [symmetric]
        s7(1) s8_def [symmetric] s9(1))
  have k9: "rcc_cfgr s9 AND NOT 0xC = rcc_cfgr s8 AND NOT 0xC" "flash_acr s9 = flash_acr s8"
    and k7: "rcc_cfgr s7 AND NOT 0xC = rcc_cfgr s6 AND NOT 0xC" "flash_acr s7 = flash_acr s6"
    using s9(3) s7(2) unfolding core_def prod.inject by blast+
  have sel: "rcc_cfgr s8 = (rcc_cfgr s7 AND NOT 0x3) OR 0x2" "rcc_cfgr s6 = rcc_cfgr s5"
    "rcc_cfgr s5 = (rcc_cfgr s4 AND NOT 0x3F0000) OR 0x1D0000" "rcc_cfgr s4 = (rcc_cfgr s3 AND NOT 0x3FF0) OR 0x400"
    unfolding s8_def s6_def s5_def s4_def by simp_all
  have late: "rcc_cfgr s9 AND M = rcc_cfgr s5 AND M" if "NOT 0xC AND M = M" "NOT 0x3 AND M = M" "0x2 AND M = 0" for M
  proof -
    have "rcc_cfgr s9 AND M = rcc_cfgr s8 AND M" by (rule field_same [OF k9(1) that(1)])
    also have "\<dots> = rcc_cfgr s7 AND M" unfolding sel(1) by (rule field_keep [OF that(2,3)])
    also have "\<dots> = rcc_cfgr s6 AND M" by (rule field_same [OF k7(1) that(1)])
    also have "\<dots> = rcc_cfgr s5 AND M" unfolding sel(2) by (rule refl)
    finally show ?thesis .
  qed
  have c5: "rcc_cfgr s5 AND 0x3C0000 = 0x1C0000" "rcc_cfgr s5 AND 0x10000 = 0x10000" "rcc_cfgr s5 AND 0x20000 = 0"
    unfolding sel(3) by (subst field_put; simp)+
  have c4: "rcc_cfgr s5 AND M = rcc_cfgr s4 AND M" if "NOT 0x3F0000 AND M = M" "0x1D0000 AND M = 0" for M
    unfolding sel(3) by (rule field_keep [OF that])
  have f4: "rcc_cfgr s4 AND 0xF0 = 0" "rcc_cfgr s4 AND 0x700 = 0x400" "rcc_cfgr s4 AND 0x3800 = 0"
    unfolding sel(4) by (subst field_put; simp)+
  have f9: "rcc_cfgr s9 AND 0x3C0000 = 0x1C0000" "rcc_cfgr s9 AND 0x10000 = 0x10000" "rcc_cfgr s9 AND 0x20000 = 0"
    "rcc_cfgr s9 AND 0xF0 = 0" "rcc_cfgr s9 AND 0x700 = 0x400" "rcc_cfgr s9 AND 0x3800 = 0"
    using late [where M = "0x3C0000"] late [where M = "0x10000"] late [where M = "0x20000"] late [where M = "0xF0"]
      late [where M = "0x700"] late [where M = "0x3800"]
      c4 [where M = "0xF0"] c4 [where M = "0x700"] c4 [where M = "0x3800"] c5 f4 by simp_all
  have "SystemCoreClockUpdate m s9 = 72000000" by (rule pll_reading [OF m s9(2) f9(1-4) refl])
  moreover note f9(5,6)
  moreover have "flash_acr s9 = (flash_acr s2 AND NOT 0x7) OR 0x2"
    using k9(2) k7(2) by (simp add: s8_def s6_def s5_def s4_def s3_def)
  then have "flash_acr s9 AND 0x7 = 0x2" by (simp only:) (subst field_put; simp)
  ultimately show ?thesis using run by blast
qed

text \<open>The clock tree comes up at 72 MHz. On silicon (no ready bit before it was asked for) \<open>clock_init\<close> returns, and
  what it leaves in the registers is read by the vendor's own \<open>SystemCoreClockUpdate\<close> as 72 MHz, with two flash wait
  states, the first peripheral bus at half speed and the second at full speed.\<close>

theorem clock_init_72MHz:
  assumes hw: "rcc_hw hw" and m: "cmsis_f103 m" and silicon: "\<not> bit (rcc_cr s) 17"
  shows "\<exists>s'. clock_init hw s = Some s' \<and> SystemCoreClockUpdate m s' = 72000000
    \<and> flash_acr s' AND 0x7 = 0x2 \<and> rcc_cfgr s' AND 0x700 = 0x400 \<and> rcc_cfgr s' AND 0x3800 = 0"
  by (rule clock_comes_up [OF assms])

text \<open>Hardware that answers at once satisfies the laws.\<close>

definition prompt_hw :: "clk \<Rightarrow> clk" where
  "prompt_hw s = s\<lparr>rcc_cr := (rcc_cr s OR (if bit (rcc_cr s) 16 then push_bit 17 1 else 0)) OR (if bit (rcc_cr s) 24 then push_bit 25 1 else 0),
     rcc_cfgr := (rcc_cfgr s AND NOT 0xC) OR push_bit 2 (rcc_cfgr s AND 0x3)\<rparr>"

definition f103_masks :: cmsis where
  "f103_masks = \<lparr>RCC_CFGR_SWS = 0xC, RCC_CFGR_PLLMULL = 0x3C0000, RCC_CFGR_PLLSRC = 0x10000, RCC_CFGR_PLLXTPRE = 0x20000, RCC_CFGR_HPRE = 0xF0\<rparr>"

lemma prompt_hw_laws: "rcc_hw prompt_hw"
proof -
  have w: "push_bit 2 (x AND 0x3) AND NOT 0xC = (0 :: u32)" "push_bit 2 (x AND 0x3) AND 0xC = push_bit 2 (x AND 0x3)" for x :: u32
  proof -
    have e: "push_bit 2 (x AND 0x3) = push_bit 2 x AND 0xC" by (simp add: push_bit_and)
    show "push_bit 2 (x AND 0x3) AND NOT 0xC = (0 :: u32)" "push_bit 2 (x AND 0x3) AND 0xC = push_bit 2 (x AND 0x3)"
      unfolding e and.assoc by simp_all
  qed
  have cf: "rcc_cfgr (prompt_hw s) = (rcc_cfgr s AND NOT 0xC) OR push_bit 2 (rcc_cfgr s AND 0x3)"
    and cr: "rcc_cr (prompt_hw s) = (rcc_cr s OR (if bit (rcc_cr s) 16 then push_bit 17 1 else 0)) OR (if bit (rcc_cr s) 24 then push_bit 25 1 else 0)" for s
    unfolding prompt_hw_def by simp_all
  have "rcc_cfgr (prompt_hw s) AND NOT 0xC = rcc_cfgr s AND NOT 0xC" for s
    unfolding cf by (simp only: bit.conj_disj_distrib2 and.assoc and.idem w(1) or.right_neutral)
  moreover have "rcc_cfgr (prompt_hw s) AND 0xC = 0x8" if "rcc_cfgr s AND 0x3 = 0x2" for s
    unfolding cf by (simp only: that bit.conj_disj_distrib2 and.assoc) simp
  moreover have "bit (rcc_cr (prompt_hw s)) i \<longleftrightarrow> bit (rcc_cr s) i \<or> (i = 17 \<and> bit (rcc_cr s) 16) \<or> (i = 25 \<and> bit (rcc_cr s) 24)" for s i
    unfolding cr by (auto simp only: bit_or_iff bit_push_bit_iff bit_1_iff bit_0_eq split: if_splits) auto
  moreover have "flash_acr (prompt_hw s) = flash_acr s" for s by (simp add: prompt_hw_def)
  ultimately show ?thesis
    unfolding rcc_hw_def by (intro conjI allI impI) (auto intro!: exI [of _ "Suc 0"] simp del: cf cr)
qed

theorem clock_init_72MHz_witness:
  "\<exists>s'. clock_init prompt_hw \<lparr>rcc_cr = 0x83, rcc_cfgr = 0, flash_acr = 0x30\<rparr> = Some s' \<and> SystemCoreClockUpdate f103_masks s' = 72000000"
proof -
  have "cmsis_f103 f103_masks" by (simp add: cmsis_f103_def f103_masks_def)
  then show ?thesis
    using clock_init_72MHz [OF prompt_hw_laws, of f103_masks "\<lparr>rcc_cr = 0x83, rcc_cfgr = 0, flash_acr = 0x30\<rparr>"] by auto
qed

end
