(* ===== verification/Board_Pins.thy ===== *)
theory Board_Pins
  imports Zeros_Prelude
begin

text \<open>
  The pins of the Blue Pill board (\<^verbatim>\<open>src/board/stm32f103_bluepill/gpio.hpp\<close>) and the LED on top of them
  (\<^verbatim>\<open>include/ZerOS/base/gpio_base.hpp\<close>, \<^verbatim>\<open>led.hpp\<close>). The template parameters of \<open>Gpio\<close> are a record, the
  registers of the three ports and of the clock gate are the state. A write to the set/reset register does what
  the chip does with it: the low half sets output bits, the high half resets them.
\<close>

section \<open>The pin\<close>

datatype Direction = Input | Output
datatype Pull = PullNone | PullUp | PullDown
datatype Polarity = ActiveHigh | ActiveLow
datatype GpioPort = PortA | PortB | PortC

record Gpio =
  PORT :: GpioPort
  MASK :: "16 word"
  DIR :: Direction
  PULL :: Pull

record gpio_regs =
  CRL :: u32
  CRH :: u32
  IDR :: u32
  ODR :: u32

record pins =
  rcc_apb2enr :: u32
  ports :: "GpioPort \<Rightarrow> gpio_regs"

definition OFF_CRL :: nat where "OFF_CRL = 0x00"
definition OFF_CRH :: nat where "OFF_CRH = 0x04"
definition OFF_IDR :: nat where "OFF_IDR = 0x08"
definition OFF_ODR :: nat where "OFF_ODR = 0x0C"
definition OFF_BSRR :: nat where "OFF_BSRR = 0x10"

lemmas gpio_offsets = OFF_CRL_def OFF_CRH_def OFF_IDR_def OFF_ODR_def OFF_BSRR_def

definition read_reg :: "Gpio \<Rightarrow> nat \<Rightarrow> pins \<Rightarrow> u32" where
  "read_reg g off s =
     (let p = ports s (PORT g)
      in if off = OFF_CRL then CRL p else if off = OFF_CRH then CRH p else if off = OFF_IDR then IDR p
         else if off = OFF_ODR then ODR p else 0)"

definition write_reg :: "Gpio \<Rightarrow> nat \<Rightarrow> u32 \<Rightarrow> pins \<Rightarrow> pins" where
  "write_reg g off v s =
     (let p = ports s (PORT g);
          p' = (if off = OFF_CRL then p\<lparr>CRL := v\<rparr> else if off = OFF_CRH then p\<lparr>CRH := v\<rparr>
                else if off = OFF_ODR then p\<lparr>ODR := v\<rparr>
                else if off = OFF_BSRR then p\<lparr>ODR := (ODR p AND NOT (drop_bit 16 v)) OR (v AND 0xFFFF)\<rparr> else p)
      in s\<lparr>ports := (ports s)(PORT g := p')\<rparr>)"

definition countr_zero :: "16 word \<Rightarrow> nat" where
  "countr_zero m = length (takeWhile (\<lambda>i. \<not> bit m i) [0..<16])"

definition pin :: "Gpio \<Rightarrow> nat" where
  "pin g = countr_zero (MASK g)"

fun rcc_enable_bit :: "GpioPort \<Rightarrow> u32" where
  "rcc_enable_bit PortA = push_bit 2 1"
| "rcc_enable_bit PortB = push_bit 3 1"
| "rcc_enable_bit PortC = push_bit 4 1"

definition config_bits :: "Gpio \<Rightarrow> u32" where
  "config_bits g =
     (if DIR g = Output then 0b0010
      else if PULL g = PullUp then 0b1000
      else if PULL g = PullDown then 0b1000
      else 0b0100)"

definition gpio_init :: "Gpio \<Rightarrow> pins \<Rightarrow> pins" where
  "gpio_init g s =
     (let s1 = s\<lparr>rcc_apb2enr := rcc_apb2enr s OR rcc_enable_bit (PORT g)\<rparr>;
          cr_offset = (if pin g < 8 then OFF_CRL else OFF_CRH);
          shift = pin g mod 8 * 4;
          clear = push_bit shift 0xF;
          s2 = write_reg g cr_offset ((read_reg g cr_offset s1 AND NOT clear) OR push_bit shift (config_bits g)) s1
      in if DIR g = Input \<and> PULL g \<noteq> PullNone
         then if PULL g = PullUp then write_reg g OFF_ODR (read_reg g OFF_ODR s2 OR ucast (MASK g)) s2
              else write_reg g OFF_ODR (read_reg g OFF_ODR s2 AND NOT (ucast (MASK g))) s2
         else s2)"

definition gpio_set :: "Gpio \<Rightarrow> pins \<Rightarrow> pins" where
  "gpio_set g = write_reg g OFF_BSRR (ucast (MASK g))"

definition gpio_reset :: "Gpio \<Rightarrow> pins \<Rightarrow> pins" where
  "gpio_reset g = write_reg g OFF_BSRR (push_bit 16 (ucast (MASK g)))"

definition gpio_toggle :: "Gpio \<Rightarrow> pins \<Rightarrow> pins" where
  "gpio_toggle g s = write_reg g OFF_ODR (read_reg g OFF_ODR s XOR ucast (MASK g)) s"

definition gpio_level :: "Gpio \<Rightarrow> pins \<Rightarrow> bool" where
  "gpio_level g s = (read_reg g OFF_IDR s AND ucast (MASK g) \<noteq> 0)"

section \<open>The LED\<close>

definition LED_on :: "Polarity \<Rightarrow> Gpio \<Rightarrow> pins \<Rightarrow> pins" where
  "LED_on pol g = (if pol = ActiveHigh then gpio_set g else gpio_reset g)"

definition LED_off :: "Polarity \<Rightarrow> Gpio \<Rightarrow> pins \<Rightarrow> pins" where
  "LED_off pol g = (if pol = ActiveLow then gpio_set g else gpio_reset g)"

definition LED_toggle :: "Polarity \<Rightarrow> Gpio \<Rightarrow> pins \<Rightarrow> pins" where
  "LED_toggle pol g = gpio_toggle g"

section \<open>Single bits\<close>

text \<open>The output bits of a port after each way of driving a pin.\<close>

definition out_bit :: "pins \<Rightarrow> GpioPort \<Rightarrow> nat \<Rightarrow> bool" where
  "out_bit s p i = bit (ODR (ports s p)) i"

lemma mask_bit: "bit (ucast (m :: 16 word) :: u32) i \<longleftrightarrow> bit m i"
  by (auto simp: bit_ucast_iff dest: bit_imp_le_length)

lemma low_bits: "bit (0xFFFF :: int) i \<longleftrightarrow> i < 16" "bit (0xF :: int) i \<longleftrightarrow> i < 4"
proof -
  have "bit (mask 16 :: int) i \<longleftrightarrow> i < 16" "bit (mask 4 :: int) i \<longleftrightarrow> i < 4" unfolding bit_mask_iff by auto
  then show "bit (0xFFFF :: int) i \<longleftrightarrow> i < 16" "bit (0xF :: int) i \<longleftrightarrow> i < 4" by (simp_all add: mask_eq_exp_minus_1)
qed

lemma mask_below: "bit (m :: 16 word) i \<Longrightarrow> i < 16"
  using bit_imp_le_length [of m i] by simp

lemma drive_bits:
  assumes "i < 32"
  shows "out_bit (gpio_set g s) p i = (if p = PORT g \<and> bit (MASK g) i then True else out_bit s p i)"
    "out_bit (gpio_reset g s) p i = (if p = PORT g \<and> bit (MASK g) i then False else out_bit s p i)"
    "out_bit (gpio_toggle g s) p i = (if p = PORT g \<and> bit (MASK g) i then \<not> out_bit s p i else out_bit s p i)"
  using assms mask_below [of "MASK g" i] mask_below [of "MASK g" "16 + i"]
  by (auto simp: out_bit_def gpio_set_def gpio_reset_def gpio_toggle_def write_reg_def read_reg_def gpio_offsets Let_def
      bit_simps mask_bit low_bits)

lemma drive_frame:
  assumes "f \<in> {gpio_set g, gpio_reset g, gpio_toggle g}"
  shows "rcc_apb2enr (f s) = rcc_apb2enr s" "CRL (ports (f s) p) = CRL (ports s p)" "CRH (ports (f s) p) = CRH (ports s p)"
  using assms by (auto simp: gpio_set_def gpio_reset_def gpio_toggle_def write_reg_def gpio_offsets Let_def)

lemma config_small: "bit (config_bits g) j \<Longrightarrow> j < 4"
proof -
  have "config_bits g \<in> {2, 4, 8}" by (simp add: config_bits_def)
  moreover have "(2 :: u32) = push_bit 1 1" "(4 :: u32) = push_bit 2 1" "(8 :: u32) = push_bit 3 1" by simp_all
  ultimately show "bit (config_bits g) j \<Longrightarrow> j < 4"
    by (elim insertE) (simp_all only: bit_push_bit_iff bit_1_iff, auto)
qed

text \<open>A four-bit field of a configuration register, and the field of a pin in its port.\<close>

definition nibble_at :: "nat \<Rightarrow> u32 \<Rightarrow> u32" where
  "nibble_at f r = take_bit 4 (drop_bit (f * 4) r)"

definition cr_field :: "gpio_regs \<Rightarrow> nat \<Rightarrow> u32" where
  "cr_field p k = nibble_at (k mod 8) (if k < 8 then CRL p else CRH p)"

lemma field_write:
  fixes r c :: u32
  assumes "\<And>j. bit c j \<Longrightarrow> j < 4" and "k < 8" "f < 8"
  shows "take_bit 4 (drop_bit (k * 4) ((r AND NOT (push_bit (f * 4) 0xF)) OR push_bit (f * 4) c)) =
    (if k = f then c else take_bit 4 (drop_bit (k * 4) r))"
proof (rule bit_word_eqI)
  fix j assume "j < LENGTH(32)"
  have "f * 4 \<le> k * 4 + j \<and> k * 4 + j < f * 4 + 4 \<longleftrightarrow> k = f" if "j < 4" using that by presburger
  moreover have "k * 4 + j < 32" if "j < 4" using that assms(2) by simp
  moreover have "k * 4 + j - f * 4 < 4 \<and> f * 4 \<le> k * 4 + j \<longrightarrow> k = f" if "j < 4" using that by presburger
  ultimately show "bit (take_bit 4 (drop_bit (k * 4) ((r AND NOT (push_bit (f * 4) 0xF)) OR push_bit (f * 4) c))) j
    = bit (if k = f then c else take_bit 4 (drop_bit (k * 4) r)) j"
    using assms(1) [of j] assms(1) [of "k * 4 + j - f * 4"]
    by (cases "j < 4") (auto simp: bit_take_bit_iff bit_drop_bit_eq bit_or_iff bit_and_iff bit_not_iff low_bits bit_push_bit_iff)
qed

text \<open>Writing a field, by name.\<close>

definition put_field :: "nat \<Rightarrow> u32 \<Rightarrow> u32 \<Rightarrow> u32" where
  "put_field n c r = (r AND NOT (push_bit n 0xF)) OR push_bit n c"

lemma gpio_init_field: "gpio_init g s =
    (let s1 = s\<lparr>rcc_apb2enr := rcc_apb2enr s OR rcc_enable_bit (PORT g)\<rparr>;
         cr_offset = (if pin g < 8 then OFF_CRL else OFF_CRH);
         s2 = write_reg g cr_offset (put_field (pin g mod 8 * 4) (config_bits g) (read_reg g cr_offset s1)) s1
      in if DIR g = Input \<and> PULL g \<noteq> PullNone
         then if PULL g = PullUp then write_reg g OFF_ODR (read_reg g OFF_ODR s2 OR ucast (MASK g)) s2
              else write_reg g OFF_ODR (read_reg g OFF_ODR s2 AND NOT (ucast (MASK g))) s2
         else s2)"
  unfolding gpio_init_def put_field_def Let_def by (rule refl)

lemma gpio_init_cr:
  "CRL (ports (gpio_init g s) p) =
     (if p = PORT g \<and> pin g < 8 then put_field (pin g mod 8 * 4) (config_bits g) (CRL (ports s p)) else CRL (ports s p))"
  "CRH (ports (gpio_init g s) p) =
     (if p = PORT g \<and> \<not> pin g < 8 then put_field (pin g mod 8 * 4) (config_bits g) (CRH (ports s p)) else CRH (ports s p))"
  by (simp_all add: gpio_init_field write_reg_def read_reg_def gpio_offsets Let_def)

lemma pin_of_one: "MASK g = push_bit k 1 \<Longrightarrow> k < 16 \<Longrightarrow> pin g = k"
proof -
  have "\<forall>k \<in> set [0..<16]. countr_zero (push_bit k 1) = k" by code_simp
  then show "MASK g = push_bit k 1 \<Longrightarrow> k < 16 \<Longrightarrow> pin g = k" by (simp add: pin_def)
qed

section \<open>Properties\<close>

fun clock_gate :: "GpioPort \<Rightarrow> nat" where
  "clock_gate PortA = 2"
| "clock_gate PortB = 3"
| "clock_gate PortC = 4"

text \<open>Configuring a pin. \<open>init\<close> of pin \<open>k\<close> opens the port's clock gate and no gate is closed, puts the pin's
  configuration into its own four-bit field and leaves every other field of every port alone, and selects the
  pull of a pulled input in the output register, no other bit of it changing.\<close>

theorem gpio_init_one_pin:
  assumes m: "MASK g = push_bit k 1" and k: "k < 16"
  shows "let s' = gpio_init g s in
    (\<forall>i. bit (rcc_apb2enr s') i \<longleftrightarrow> bit (rcc_apb2enr s) i \<or> i = clock_gate (PORT g))
    \<and> (\<forall>p. \<forall>j < 16. cr_field (ports s' p) j = (if p = PORT g \<and> j = k then config_bits g else cr_field (ports s p) j))
    \<and> (\<forall>p. \<forall>i < 32. out_bit s' p i = (if p = PORT g \<and> i = k \<and> DIR g = Input \<and> PULL g \<noteq> PullNone
         then PULL g = PullUp else out_bit s p i))"
proof -
  have pk: "pin g = k" by (rule pin_of_one [OF m k])
  have mb: "bit (MASK g) i \<longleftrightarrow> i = k" for i using k unfolding m bit_push_bit_iff bit_1_iff by auto
  define s' where "s' = gpio_init g s"
  have gate: "bit (rcc_apb2enr s') i \<longleftrightarrow> bit (rcc_apb2enr s) i \<or> i = clock_gate (PORT g)" for i
  proof -
    have "bit (rcc_enable_bit p) i \<longleftrightarrow> i = clock_gate p" for p
      by (cases p; simp only: rcc_enable_bit.simps clock_gate.simps bit_push_bit_iff bit_1_iff) auto
    moreover have "rcc_apb2enr s' = rcc_apb2enr s OR rcc_enable_bit (PORT g)"
      by (simp add: s'_def gpio_init_field write_reg_def Let_def)
    ultimately show ?thesis by (simp only: bit_or_iff)
  qed
  have cr: "cr_field (ports s' p) j = (if p = PORT g \<and> j = k then config_bits g else cr_field (ports s p) j)" if "j < 16" for p j
  proof -
    have "x mod 8 = (if x < 8 then x else x - 8)" if "x < 16" for x :: nat using that by (simp add: le_mod_geq)
    then have ne: "j mod 8 \<noteq> k mod 8" if "j \<noteq> k" "j < 8 \<longleftrightarrow> k < 8" using that \<open>j < 16\<close> k by (cases "k < 8") auto
    have nb: "nibble_at (j mod 8) (put_field (k mod 8 * 4) (config_bits g) r) =
        (if j mod 8 = k mod 8 then config_bits g else nibble_at (j mod 8) r)" for r
      unfolding put_field_def nibble_at_def by (rule field_write [OF config_small]) simp_all
    show ?thesis
    proof (cases "j = k")
      case True
      then show ?thesis using nb unfolding cr_field_def s'_def gpio_init_cr pk by (cases "k < 8") simp_all
    next
      case False
      then show ?thesis
        using nb ne [OF False] unfolding cr_field_def s'_def gpio_init_cr pk by (cases "j < 8"; cases "k < 8") simp_all
    qed
  qed
  have odr: "out_bit s' p i = (if p = PORT g \<and> i = k \<and> DIR g = Input \<and> PULL g \<noteq> PullNone then PULL g = PullUp else out_bit s p i)"
    if "i < 32" for p i
    using that by (cases "PULL g") (auto simp: out_bit_def s'_def gpio_init_field write_reg_def read_reg_def gpio_offsets Let_def
        bit_or_iff bit_and_iff bit_not_iff mask_bit mb)
  show ?thesis using gate cr odr by (simp add: Let_def s'_def)
qed

text \<open>The board's LED: pin 13 of port C, lit when low.\<close>

definition board_led :: Gpio where
  "board_led = \<lparr>PORT = PortC, MASK = push_bit 13 1, DIR = Output, PULL = PullNone\<rparr>"

theorem gpio_init_one_pin_witness:
  "\<forall>s. cr_field (ports (gpio_init board_led s) PortC) 13 = 0b0010
     \<and> cr_field (ports (gpio_init board_led s) PortC) 12 = cr_field (ports s PortC) 12"
  using gpio_init_one_pin [of board_led 13] by (simp add: board_led_def config_bits_def Let_def)

text \<open>The LED. \<open>on\<close> and \<open>off\<close> drive exactly the pins of the mask, to the level the polarity says, \<open>toggle\<close> inverts
  them, so that after \<open>on\<close> it is the same as \<open>off\<close> and twice is nothing; no other output bit of any port, no
  configuration field and no clock gate changes.\<close>

theorem led_follows_polarity:
  fixes pol g s
  shows "(\<forall>p. \<forall>i < 32. out_bit (LED_on pol g s) p i = (if p = PORT g \<and> bit (MASK g) i then pol = ActiveHigh else out_bit s p i)
      \<and> out_bit (LED_off pol g s) p i = (if p = PORT g \<and> bit (MASK g) i then pol = ActiveLow else out_bit s p i)
      \<and> out_bit (LED_toggle pol g (LED_on pol g s)) p i = out_bit (LED_off pol g s) p i
      \<and> out_bit (LED_toggle pol g (LED_toggle pol g s)) p i = out_bit s p i)
    \<and> (\<forall>f \<in> {LED_on pol g, LED_off pol g, LED_toggle pol g}. rcc_apb2enr (f s) = rcc_apb2enr s
        \<and> (\<forall>p k. cr_field (ports (f s) p) k = cr_field (ports s p) k))"
proof (rule conjI)
  show "\<forall>p. \<forall>i < 32. out_bit (LED_on pol g s) p i = (if p = PORT g \<and> bit (MASK g) i then pol = ActiveHigh else out_bit s p i)
      \<and> out_bit (LED_off pol g s) p i = (if p = PORT g \<and> bit (MASK g) i then pol = ActiveLow else out_bit s p i)
      \<and> out_bit (LED_toggle pol g (LED_on pol g s)) p i = out_bit (LED_off pol g s) p i
      \<and> out_bit (LED_toggle pol g (LED_toggle pol g s)) p i = out_bit s p i"
    by (cases pol) (simp_all add: LED_on_def LED_off_def LED_toggle_def drive_bits)
  show "\<forall>f \<in> {LED_on pol g, LED_off pol g, LED_toggle pol g}. rcc_apb2enr (f s) = rcc_apb2enr s
        \<and> (\<forall>p k. cr_field (ports (f s) p) k = cr_field (ports s p) k)"
    using drive_frame [of "gpio_set g" g s] drive_frame [of "gpio_reset g" g s] drive_frame [of "gpio_toggle g" g s]
    by (cases pol) (auto simp: LED_on_def LED_off_def LED_toggle_def cr_field_def)
qed

theorem led_follows_polarity_witness:
  "out_bit (LED_on ActiveLow board_led \<lparr>rcc_apb2enr = 0, ports = (\<lambda>_. \<lparr>CRL = 0, CRH = 0, IDR = 0, ODR = 0xFFFF\<rparr>)\<rparr>) PortC 13 = False"
  using led_follows_polarity [of ActiveLow board_led "\<lparr>rcc_apb2enr = 0, ports = (\<lambda>_. \<lparr>CRL = 0, CRH = 0, IDR = 0, ODR = 0xFFFF\<rparr>)\<rparr>"]
  by (simp add: board_led_def)

end
