(* ===== verification/Board_Uart.thy ===== *)
theory Board_Uart
  imports Board_Clock Board_Pins Log_Format
begin

text \<open>
  The serial lines the log leaves by: USART1 of the Blue Pill board (\<^verbatim>\<open>src/board/stm32f103_bluepill/uart.cpp\<close>,
  \<^verbatim>\<open>uart_drain.cpp\<close>) and UART0 of the MPS2 board (\<^verbatim>\<open>src/board/mps2_an385/uart.cpp\<close>). Bytes written to a data
  register are collected in \<open>us_sent\<close> and \<open>ua_sent\<close>; between two reads of a status register the hardware moves by
  the parameter \<open>hw\<close>. The register masks of the vendor header are the parameter record \<open>usart_masks\<close>.
\<close>

section \<open>USART1 of the Blue Pill\<close>

record usart_masks =
  RCC_APB2ENR_USART1EN :: u32
  RCC_APB2ENR_IOPAEN :: u32
  GPIO_CRH_MODE9 :: u32
  GPIO_CRH_CNF9 :: u32
  GPIO_CRH_MODE10 :: u32
  GPIO_CRH_CNF10 :: u32
  GPIO_CRH_MODE9_1 :: u32
  GPIO_CRH_CNF9_1 :: u32
  GPIO_CRH_CNF10_0 :: u32
  USART_CR1_UE :: u32
  USART_CR1_TE :: u32
  USART_CR1_RE :: u32
  USART_CR1_RXNEIE :: u32
  USART_SR_TXE :: u32
  USART_SR_RXNE :: u32

record usart =
  us_pins :: pins
  us_sr :: u32
  us_dr :: u32
  us_brr :: u32
  us_cr1 :: u32
  us_sent :: "u8 list"
  nvic_ip :: "nat \<Rightarrow> u8"
  nvic_iser1 :: u32

definition kUsart1Irq :: nat where "kUsart1Irq = 37"

definition uart1_init :: "usart_masks \<Rightarrow> 'a usart_scheme \<Rightarrow> 'a usart_scheme" where
  "uart1_init m s =
     (let p1 = (us_pins s)\<lparr>rcc_apb2enr := rcc_apb2enr (us_pins s) OR (RCC_APB2ENR_USART1EN m OR RCC_APB2ENR_IOPAEN m)\<rparr>;
          a = ports p1 PortA;
          crh = (CRH a AND NOT (GPIO_CRH_MODE9 m OR GPIO_CRH_CNF9 m OR GPIO_CRH_MODE10 m OR GPIO_CRH_CNF10 m))
                OR GPIO_CRH_MODE9_1 m OR GPIO_CRH_CNF9_1 m OR GPIO_CRH_CNF10_0 m;
          p2 = p1\<lparr>ports := (ports p1)(PortA := a\<lparr>CRH := crh\<rparr>)\<rparr>
      in s\<lparr>us_pins := p2, us_brr := 72000000 div 115200,
           us_cr1 := USART_CR1_UE m OR USART_CR1_TE m OR USART_CR1_RE m OR USART_CR1_RXNEIE m,
           nvic_ip := (nvic_ip s)(kUsart1Irq := 0x80), nvic_iser1 := nvic_iser1 s OR push_bit (kUsart1Irq - 32) 1\<rparr>)"

text \<open>Writing the data register takes the transmit-empty flag down; reading it takes the receive flag down.\<close>

definition write_dr :: "usart_masks \<Rightarrow> u8 \<Rightarrow> 'a usart_scheme \<Rightarrow> 'a usart_scheme" where
  "write_dr m b s = s\<lparr>us_sent := us_sent s @ [b], us_sr := us_sr s AND NOT (USART_SR_TXE m)\<rparr>"

definition read_dr :: "usart_masks \<Rightarrow> 'a usart_scheme \<Rightarrow> u32 \<times> 'a usart_scheme" where
  "read_dr m s = (us_dr s, s\<lparr>us_sr := us_sr s AND NOT (USART_SR_RXNE m)\<rparr>)"

definition uart1_putc ::
  "usart_masks \<Rightarrow> ('a usart_scheme \<Rightarrow> 'a usart_scheme) \<Rightarrow> char \<Rightarrow> 'a usart_scheme \<Rightarrow> 'a usart_scheme option" where
  "uart1_putc m hw c s = do {
     s1 \<leftarrow> wait_for (\<lambda>s. us_sr s AND USART_SR_TXE m \<noteq> 0) hw s;
     Some (write_dr m (of_char c) s1)
   }"

definition uart1_getc :: "usart_masks \<Rightarrow> 'a usart_scheme \<Rightarrow> char \<times> 'a usart_scheme" where
  "uart1_getc m s = (case read_dr m s of (v, s') \<Rightarrow> (char_of (unat (v AND 0xFF)), s'))"

text \<open>\<^verbatim>\<open>while (*s != '\0') putc(*s++);\<close>, the loop of both boards' \<open>print\<close> and \<open>channel_body\<close>.\<close>

primrec puts :: "(char \<Rightarrow> 'd \<Rightarrow> 'd option) \<Rightarrow> string \<Rightarrow> 'd \<Rightarrow> 'd option" where
  "puts putc [] d = Some d"
| "puts putc (c # cs) d = do { d1 \<leftarrow> putc c d; puts putc cs d1 }"

definition uart1_print :: "usart_masks \<Rightarrow> ('a usart_scheme \<Rightarrow> 'a usart_scheme) \<Rightarrow> string \<Rightarrow> 'a usart_scheme \<Rightarrow> 'a usart_scheme option" where
  "uart1_print m hw t s = puts (uart1_putc m hw) t s"

definition uart1_channel_body :: "usart_masks \<Rightarrow> ('a usart_scheme \<Rightarrow> 'a usart_scheme) \<Rightarrow> 'a usart_scheme channel" where
  "uart1_channel_body m hw t s = map_option (Pair True) (puts (uart1_putc m hw) t s)"

definition USART1_IRQHandler :: "usart_masks \<Rightarrow> 'a usart_scheme \<Rightarrow> 'a usart_scheme" where
  "USART1_IRQHandler m s = (if us_sr s AND USART_SR_RXNE m \<noteq> 0 then snd (read_dr m s) else s)"

section \<open>UART0 of the MPS2\<close>

record cmsdk_uart =
  ua_state :: u32
  ua_ctrl :: u32
  ua_bauddiv :: u32
  ua_sent :: "u8 list"

definition kStateTxBufferFull :: u32 where "kStateTxBufferFull = push_bit 0 1"
definition kCtrlTxEnable :: u32 where "kCtrlTxEnable = push_bit 0 1"

definition uart0_init :: "'a cmsdk_uart_scheme \<Rightarrow> 'a cmsdk_uart_scheme" where
  "uart0_init s = s\<lparr>ua_bauddiv := 1, ua_ctrl := kCtrlTxEnable\<rparr>"

definition uart0_putc ::
  "('a cmsdk_uart_scheme \<Rightarrow> 'a cmsdk_uart_scheme) \<Rightarrow> char \<Rightarrow> 'a cmsdk_uart_scheme \<Rightarrow> 'a cmsdk_uart_scheme option" where
  "uart0_putc hw c s = do {
     s1 \<leftarrow> wait_for (\<lambda>s. \<not> (ua_state s AND kStateTxBufferFull \<noteq> 0)) hw s;
     Some (s1\<lparr>ua_sent := ua_sent s1 @ [of_char c], ua_state := ua_state s1 OR kStateTxBufferFull\<rparr>)
   }"

definition uart0_print :: "('a cmsdk_uart_scheme \<Rightarrow> 'a cmsdk_uart_scheme) \<Rightarrow> string \<Rightarrow> 'a cmsdk_uart_scheme \<Rightarrow> 'a cmsdk_uart_scheme option" where
  "uart0_print hw t s = puts (uart0_putc hw) t s"

definition uart0_channel_body :: "('a cmsdk_uart_scheme \<Rightarrow> 'a cmsdk_uart_scheme) \<Rightarrow> 'a cmsdk_uart_scheme channel" where
  "uart0_channel_body hw t s = map_option (Pair True) (puts (uart0_putc hw) t s)"

section \<open>A serial line\<close>

text \<open>What a channel needs of a line: while it is live, a character goes out and the line stays live.\<close>

locale serial_line =
  fixes live :: "'d \<Rightarrow> bool" and putc :: "char \<Rightarrow> 'd \<Rightarrow> 'd option" and wire :: "'d \<Rightarrow> u8 list"
  assumes putc_out: "live d \<Longrightarrow> \<exists>d'. putc c d = Some d' \<and> live d' \<and> wire d' = wire d @ [of_char c]"
begin

lemma puts_out: "live d \<Longrightarrow> \<exists>d'. puts putc t d = Some d' \<and> live d' \<and> wire d' = wire d @ map of_char t"
proof (induction t arbitrary: d)
  case (Cons c t)
  obtain d1 where d1: "putc c d = Some d1" "live d1" "wire d1 = wire d @ [of_char c]" using putc_out [OF Cons.prems] by blast
  show ?case using Cons.IH [OF d1(2)] d1 by auto
qed simp

end

text \<open>What the manuals say: an enabled transmitter empties its register, and neither what was sent nor the
  configuration changes by itself.\<close>

definition usart_hw :: "usart_masks \<Rightarrow> ('a usart_scheme \<Rightarrow> 'a usart_scheme) \<Rightarrow> bool" where
  "usart_hw m hw \<longleftrightarrow> (\<forall>s. us_sent (hw s) = us_sent s \<and> us_cr1 (hw s) = us_cr1 s \<and> us_brr (hw s) = us_brr s \<and> nvic_ip (hw s) = nvic_ip s)
     \<and> (\<forall>s. us_cr1 s AND (USART_CR1_UE m OR USART_CR1_TE m) = USART_CR1_UE m OR USART_CR1_TE m
           \<longrightarrow> (\<exists>n. us_sr ((hw ^^ n) s) AND USART_SR_TXE m \<noteq> 0))"

definition cmsdk_hw :: "('a cmsdk_uart_scheme \<Rightarrow> 'a cmsdk_uart_scheme) \<Rightarrow> bool" where
  "cmsdk_hw hw \<longleftrightarrow> (\<forall>s. ua_sent (hw s) = ua_sent s \<and> ua_ctrl (hw s) = ua_ctrl s)
     \<and> (\<forall>s. ua_ctrl s = kCtrlTxEnable \<longrightarrow> (\<exists>n. ua_state ((hw ^^ n) s) AND kStateTxBufferFull = 0))"

text \<open>A line is its masks, its hardware and its registers.\<close>

fun usart_live :: "usart_masks \<times> ('a usart_scheme \<Rightarrow> 'a usart_scheme) \<times> 'a usart_scheme \<Rightarrow> bool" where
  "usart_live (m, hw, s) = (usart_hw m hw
     \<and> us_cr1 s AND (USART_CR1_UE m OR USART_CR1_TE m) = USART_CR1_UE m OR USART_CR1_TE m)"

fun usart_putc :: "char \<Rightarrow> usart_masks \<times> ('a usart_scheme \<Rightarrow> 'a usart_scheme) \<times> 'a usart_scheme
    \<Rightarrow> (usart_masks \<times> ('a usart_scheme \<Rightarrow> 'a usart_scheme) \<times> 'a usart_scheme) option" where
  "usart_putc c (m, hw, s) = map_option (\<lambda>s'. (m, hw, s')) (uart1_putc m hw c s)"

interpretation usart1: serial_line usart_live usart_putc "\<lambda>(m, hw, s). us_sent s"
proof
  fix d :: "usart_masks \<times> ('a usart_scheme \<Rightarrow> 'a usart_scheme) \<times> 'a usart_scheme" and c
  assume live: "usart_live d"
  obtain m hw s where d: "d = (m, hw, s)" by (cases d)
  obtain n where n: "us_sr ((hw ^^ n) s) AND USART_SR_TXE m \<noteq> 0" using live d by (auto simp: usart_hw_def)
  have keeps: "(us_sent (hw s), us_cr1 (hw s)) = (us_sent s, us_cr1 s)" for s using live d by (simp add: usart_hw_def)
  obtain s1 where "wait_for (\<lambda>s. us_sr s AND USART_SR_TXE m \<noteq> 0) hw s = Some s1" "(us_sent s1, us_cr1 s1) = (us_sent s, us_cr1 s)"
    by (rule wait_for_keeps [of "\<lambda>s. (us_sent s, us_cr1 s)" hw "\<lambda>s. us_sr s AND USART_SR_TXE m \<noteq> 0" n s, OF keeps n])
  then show "\<exists>d'. usart_putc c d = Some d' \<and> usart_live d'
      \<and> (case d' of (m, hw, s) \<Rightarrow> us_sent s) = (case d of (m, hw, s) \<Rightarrow> us_sent s) @ [of_char c]"
    using live d by (simp add: uart1_putc_def write_dr_def)
qed

fun cmsdk_live :: "('a cmsdk_uart_scheme \<Rightarrow> 'a cmsdk_uart_scheme) \<times> 'a cmsdk_uart_scheme \<Rightarrow> bool" where
  "cmsdk_live (hw, s) = (cmsdk_hw hw \<and> ua_ctrl s = kCtrlTxEnable)"

fun cmsdk_putc :: "char \<Rightarrow> ('a cmsdk_uart_scheme \<Rightarrow> 'a cmsdk_uart_scheme) \<times> 'a cmsdk_uart_scheme
    \<Rightarrow> (('a cmsdk_uart_scheme \<Rightarrow> 'a cmsdk_uart_scheme) \<times> 'a cmsdk_uart_scheme) option" where
  "cmsdk_putc c (hw, s) = map_option (\<lambda>s'. (hw, s')) (uart0_putc hw c s)"

interpretation uart0: serial_line cmsdk_live cmsdk_putc "\<lambda>(hw, s). ua_sent s"
proof
  fix d :: "('a cmsdk_uart_scheme \<Rightarrow> 'a cmsdk_uart_scheme) \<times> 'a cmsdk_uart_scheme" and c
  assume live: "cmsdk_live d"
  obtain hw s where d: "d = (hw, s)" by (cases d)
  obtain n where n: "\<not> (ua_state ((hw ^^ n) s) AND kStateTxBufferFull \<noteq> 0)" using live d by (auto simp: cmsdk_hw_def)
  have keeps: "(ua_sent (hw s), ua_ctrl (hw s)) = (ua_sent s, ua_ctrl s)" for s using live d by (simp add: cmsdk_hw_def)
  obtain s1 where "wait_for (\<lambda>s. \<not> (ua_state s AND kStateTxBufferFull \<noteq> 0)) hw s = Some s1" "(ua_sent s1, ua_ctrl s1) = (ua_sent s, ua_ctrl s)"
    by (rule wait_for_keeps [of "\<lambda>s. (ua_sent s, ua_ctrl s)" hw "\<lambda>s. \<not> (ua_state s AND kStateTxBufferFull \<noteq> 0)" n s, OF keeps n])
  then show "\<exists>d'. cmsdk_putc c d = Some d' \<and> cmsdk_live d'
      \<and> (case d' of (hw, s) \<Rightarrow> ua_sent s) = (case d of (hw, s) \<Rightarrow> ua_sent s) @ [of_char c]"
    using live d by (simp add: uart0_putc_def)
qed

lemma usart_puts: "puts usart_putc t (m, hw, s) = map_option (\<lambda>s'. (m, hw, s')) (puts (uart1_putc m hw) t s)"
proof (induction t arbitrary: s)
  case (Cons c t)
  then show ?case by (cases "uart1_putc m hw c s") simp_all
qed simp

lemma cmsdk_puts: "puts cmsdk_putc t (hw, s) = map_option (\<lambda>s'. (hw, s')) (puts (uart0_putc hw) t s)"
proof (induction t arbitrary: s)
  case (Cons c t)
  then show ?case by (cases "uart0_putc hw c s") simp_all
qed simp

lemma puts_keeps:
  assumes "puts putc t d = Some d'" and "\<And>c d d'. putc c d = Some d' \<Longrightarrow> f d' = f d"
  shows "f d' = f d"
  using assms(1)
proof (induction t arbitrary: d)
  case (Cons c t)
  obtain d1 where d1: "putc c d = Some d1" "puts putc t d1 = Some d'" using Cons.prems by (auto split: bind_splits)
  show ?case using Cons.IH [OF d1(2)] assms(2) [OF d1(1)] by simp
qed simp

lemma uart1_keeps:
  assumes hw: "usart_hw m hw" and "puts (uart1_putc m hw) t s = Some s'"
  shows "us_brr s' = us_brr s \<and> nvic_ip s' = nvic_ip s"
proof -
  have "(us_brr s', nvic_ip s') = (us_brr s, nvic_ip s)"
  proof (rule puts_keeps [OF assms(2)])
    fix c s s' assume "uart1_putc m hw c s = Some s'"
    then obtain s1 where s1: "wait_for (\<lambda>s. us_sr s AND USART_SR_TXE m \<noteq> 0) hw s = Some s1" "s' = write_dr m (of_char c) s1"
      by (auto simp: uart1_putc_def split: bind_splits)
    have "(us_brr s1, nvic_ip s1) = (us_brr s, nvic_ip s)"
      by (rule wait_for_frame [OF s1(1)]) (use hw in \<open>simp add: usart_hw_def\<close>)
    then show "(us_brr s', nvic_ip s') = (us_brr s, nvic_ip s)" using s1(2) by (simp add: write_dr_def)
  qed
  then show ?thesis by simp
qed

lemma uart1_sends:
  assumes "usart_live (m, hw, s)"
  obtains s' where "puts (uart1_putc m hw) t s = Some s'" "usart_live (m, hw, s')" "us_sent s' = us_sent s @ map of_char t"
  using usart1.puts_out [OF assms, of t] by (auto simp: usart_puts)

lemma uart0_sends:
  assumes "cmsdk_live (hw, s)"
  obtains s' where "puts (uart0_putc hw) t s = Some s'" "cmsdk_live (hw, s')" "ua_sent s' = ua_sent s @ map of_char t"
  using uart0.puts_out [OF assms, of t] by (auto simp: cmsdk_puts)

lemma uart_init_live: "usart_hw m hw \<Longrightarrow> usart_live (m, hw, uart1_init m s)" "cmsdk_hw hw0 \<Longrightarrow> cmsdk_live (hw0, uart0_init s0)"
proof -
  have "(a OR b OR c OR d) AND (a OR b) = a OR b" for a b c d :: u32 by (rule bit_word_eqI) (auto simp: bit_or_iff bit_and_iff)
  then show "usart_hw m hw \<Longrightarrow> usart_live (m, hw, uart1_init m s)" by (simp add: uart1_init_def Let_def)
  show "cmsdk_hw hw0 \<Longrightarrow> cmsdk_live (hw0, uart0_init s0)" by (simp add: uart0_init_def)
qed

lemma uart_init_sent [simp]: "us_sent (uart1_init m s) = us_sent s" "ua_sent (uart0_init s0) = ua_sent s0"
  by (simp_all add: uart1_init_def uart0_init_def Let_def)

section \<open>Properties\<close>

text \<open>The log leaves by the serial line. On both boards, after the line is set up, the channel the log writes to
  returns, reports success, and has sent exactly the bytes of the text in order, behind what was sent before.\<close>

theorem channel_sends_text:
  assumes "usart_hw m hw" and "cmsdk_hw hw0"
  shows "(\<exists>s'. uart1_channel_body m hw t (uart1_init m s) = Some (True, s') \<and> us_sent s' = us_sent s @ map of_char t)
    \<and> (\<exists>s'. uart0_channel_body hw0 t (uart0_init s0) = Some (True, s') \<and> ua_sent s' = ua_sent s0 @ map of_char t)"
proof (rule conjI)
  show "\<exists>s'. uart1_channel_body m hw t (uart1_init m s) = Some (True, s') \<and> us_sent s' = us_sent s @ map of_char t"
    by (rule uart1_sends [OF uart_init_live(1) [OF assms(1)], of t s]) (simp add: uart1_channel_body_def)
  show "\<exists>s'. uart0_channel_body hw0 t (uart0_init s0) = Some (True, s') \<and> ua_sent s' = ua_sent s0 @ map of_char t"
    by (rule uart0_sends [OF uart_init_live(2) [OF assms(2)], of t s0]) (simp add: uart0_channel_body_def)
qed

text \<open>The vendor's masks, and lines that answer at once.\<close>

definition f103_usart :: usart_masks where
  "f103_usart = \<lparr>RCC_APB2ENR_USART1EN = 0x4000, RCC_APB2ENR_IOPAEN = 0x4, GPIO_CRH_MODE9 = 0x30, GPIO_CRH_CNF9 = 0xC0,
     GPIO_CRH_MODE10 = 0x300, GPIO_CRH_CNF10 = 0xC00, GPIO_CRH_MODE9_1 = 0x20, GPIO_CRH_CNF9_1 = 0x80, GPIO_CRH_CNF10_0 = 0x400,
     USART_CR1_UE = 0x2000, USART_CR1_TE = 0x8, USART_CR1_RE = 0x4, USART_CR1_RXNEIE = 0x20, USART_SR_TXE = 0x80, USART_SR_RXNE = 0x20\<rparr>"

definition prompt_usart :: "'a usart_scheme \<Rightarrow> 'a usart_scheme" where
  "prompt_usart s = s\<lparr>us_sr := us_sr s OR 0x80\<rparr>"

definition prompt_cmsdk :: "'a cmsdk_uart_scheme \<Rightarrow> 'a cmsdk_uart_scheme" where
  "prompt_cmsdk s = s\<lparr>ua_state := 0\<rparr>"

lemma prompt_lines: "usart_hw f103_usart prompt_usart" "cmsdk_hw prompt_cmsdk"
proof -
  have "(x OR m) AND m = m" for x m :: u32 by (rule bit_word_eqI) (auto simp: bit_or_iff bit_and_iff)
  from this [of _ "0x80"] show "usart_hw f103_usart prompt_usart"
    by (auto simp: usart_hw_def prompt_usart_def f103_usart_def intro!: exI [of _ "Suc 0"])
  show "cmsdk_hw prompt_cmsdk"
    by (auto simp: cmsdk_hw_def prompt_cmsdk_def intro!: exI [of _ "Suc 0"])
qed

definition usart_off :: usart where
  "usart_off = \<lparr>us_pins = \<lparr>rcc_apb2enr = 0, ports = (\<lambda>_. \<lparr>CRL = 0x44444444, CRH = 0x44444444, IDR = 0, ODR = 0\<rparr>)\<rparr>,
     us_sr = 0xC0, us_dr = 0, us_brr = 0, us_cr1 = 0, us_sent = [], nvic_ip = (\<lambda>_. 0), nvic_iser1 = 0\<rparr>"

theorem channel_sends_text_witness:
  "\<exists>s'. uart1_channel_body f103_usart prompt_usart ''ok'' (uart1_init f103_usart usart_off) = Some (True, s') \<and> us_sent s' = [0x6F, 0x6B]"
  using channel_sends_text [OF prompt_lines, of "''ok''" usart_off "\<lparr>ua_state = 0, ua_ctrl = 0, ua_bauddiv = 0, ua_sent = []\<rparr>"]
  by (simp add: usart_off_def)

end
