(* ===== verification/Board_Boot.thy ===== *)
theory Board_Boot
  imports Fault_Report Board_Uart
begin

text \<open>
  From reset to the first task: \<open>reset_handler\<close>, \<open>memset\<close> and the vector tables of both boards
  (\<^verbatim>\<open>src/board/stm32f103_bluepill/startup.cpp\<close>, \<^verbatim>\<open>src/board/mps2_an385/startup.cpp\<close>), and the \<open>setup\<close> ritual of
  their \<^verbatim>\<open>demo_setup.hpp\<close>, which brings up clock, serial line, log channel, testaments and tick. The addresses
  that the linker script places are the record \<open>layout\<close>; \<open>main\<close> is a parameter.
\<close>

section \<open>Reset\<close>

record layout =
  sidata :: u32
  sdata :: u32
  edata :: u32
  sbss :: u32
  ebss :: u32

partial_function (option) copy_data :: "u32 \<Rightarrow> u32 \<Rightarrow> u32 \<Rightarrow> mem \<Rightarrow> mem option" where
  "copy_data src dst dend m = (if dst < dend then copy_data (src + 4) (dst + 4) dend (m(unat dst := m (unat src))) else Some m)"

partial_function (option) zero_bss :: "u32 \<Rightarrow> u32 \<Rightarrow> mem \<Rightarrow> mem option" where
  "zero_bss b bend m = (if b < bend then zero_bss (b + 4) bend (m(unat b := 0)) else Some m)"

definition reset_memory :: "layout \<Rightarrow> mem \<Rightarrow> mem option" where
  "reset_memory L m = do {
     m1 \<leftarrow> copy_data (sidata L) (sdata L) (edata L) m;
     zero_bss (sbss L) (ebss L) m1
   }"

text \<open>\<open>reset_handler\<close> of the two boards: the Blue Pill's also sets \<open>SystemCoreClock\<close>. The result is what \<open>main\<close>
  leaves, if it returns.\<close>

definition bluepill_reset_handler :: "layout \<Rightarrow> (u32 \<Rightarrow> mem \<Rightarrow> 's option) \<Rightarrow> mem \<Rightarrow> 's option" where
  "bluepill_reset_handler L main m = do { m1 \<leftarrow> reset_memory L m; main 72000000 m1 }"

definition mps2_reset_handler :: "layout \<Rightarrow> (mem \<Rightarrow> 's option) \<Rightarrow> mem \<Rightarrow> 's option" where
  "mps2_reset_handler L main m = do { m1 \<leftarrow> reset_memory L m; main m1 }"

text \<open>\<^verbatim>\<open>while (n-- != 0) *d++ = (unsigned char) value;\<close>, over bytes.\<close>

primrec memset_loop :: "nat \<Rightarrow> nat \<Rightarrow> u8 \<Rightarrow> (nat \<Rightarrow> u8) \<Rightarrow> (nat \<Rightarrow> u8)" where
  "memset_loop 0 d v m = m"
| "memset_loop (Suc n) d v m = memset_loop n (d + 1) v (m(d := v))"

definition memset :: "nat \<Rightarrow> int \<Rightarrow> nat \<Rightarrow> (nat \<Rightarrow> u8) \<Rightarrow> nat \<times> (nat \<Rightarrow> u8)" where
  "memset dst value n m = (dst, memset_loop n dst (word_of_int value) m)"

section \<open>Vectors\<close>

datatype Isr = Isr_estack | Isr_reset | Isr_fault | Isr_HardFault | Isr_SVC | Isr_PendSV | Isr_SysTick | Isr_USART1 | Isr_nullptr

definition core_vectors :: "Isr list" where
  "core_vectors = [Isr_estack, Isr_reset, Isr_fault, Isr_HardFault, Isr_HardFault, Isr_HardFault, Isr_HardFault,
     Isr_nullptr, Isr_nullptr, Isr_nullptr, Isr_nullptr, Isr_SVC, Isr_nullptr, Isr_nullptr, Isr_PendSV, Isr_SysTick]"

definition bluepill_vectors :: "Isr list" where
  "bluepill_vectors = core_vectors @ replicate 37 Isr_fault @ [Isr_USART1]"

definition mps2_vectors :: "Isr list" where
  "mps2_vectors = core_vectors @ replicate 34 Isr_fault"

section \<open>The opening ritual\<close>

record bluepill = fmach +
  clk_tree :: clk
  usart_line :: usart

text \<open>The Blue Pill's channel, on the whole machine.\<close>

definition bluepill_channel :: "usart_masks \<Rightarrow> (usart \<Rightarrow> usart) \<Rightarrow> 'a bluepill_scheme channel" where
  "bluepill_channel mu hwu t s = map_option (\<lambda>(r, u). (r, s\<lparr>usart_line := u\<rparr>)) (uart1_channel_body mu hwu t (usart_line s))"

definition bluepill_register_uart_channel :: "usart_masks \<Rightarrow> (usart \<Rightarrow> usart) \<Rightarrow> 'a bluepill_scheme logging \<Rightarrow> 'a bluepill_scheme logging" where
  "bluepill_register_uart_channel mu hwu l = RegisterGlobalChannel (bluepill_channel mu hwu) l"

definition bluepill_setup ::
  "usart_masks \<Rightarrow> (clk \<Rightarrow> clk) \<Rightarrow> (usart \<Rightarrow> usart) \<Rightarrow> addr \<times> addr \<Rightarrow> char list \<Rightarrow> string \<Rightarrow> bool
    \<Rightarrow> 'a bluepill_scheme logging \<times> 'a bluepill_scheme \<Rightarrow> ('a bluepill_scheme logging \<times> 'a bluepill_scheme) option" where
  "bluepill_setup mu hwc hwu fns line name with_tick ls = do {
     let (l, s) = ls;
     c \<leftarrow> clock_init hwc (clk_tree s);
     let s1 = s\<lparr>clk_tree := c\<rparr>;
     let s2 = s1\<lparr>usart_line := uart1_init mu (usart_line s1)\<rparr>;
     let l1 = bluepill_register_uart_channel mu hwu l;
     s3 \<leftarrow> print line (crlf @ ''ZerOS demo: {}'' @ crlf) [Text name] l1 s2;
     let s4 = install_default_testaments fns s3;
     Some (l1, if with_tick then init_time (72000000 div 1000) s4 else s4)
   }"

definition kCoreClockHz :: u32 where "kCoreClockHz = 25000000"

record mps2 = fmach +
  uart_line :: cmsdk_uart

definition mps2_clock_init :: "'a mps2_scheme \<Rightarrow> 'a mps2_scheme" where
  "mps2_clock_init s = s"

definition mps2_channel :: "(cmsdk_uart \<Rightarrow> cmsdk_uart) \<Rightarrow> 'a mps2_scheme channel" where
  "mps2_channel hwu t s = map_option (\<lambda>(r, u). (r, s\<lparr>uart_line := u\<rparr>)) (uart0_channel_body hwu t (uart_line s))"

definition mps2_register_uart_channel :: "(cmsdk_uart \<Rightarrow> cmsdk_uart) \<Rightarrow> 'a mps2_scheme logging \<Rightarrow> 'a mps2_scheme logging" where
  "mps2_register_uart_channel hwu l = RegisterGlobalChannel (mps2_channel hwu) l"

definition mps2_setup ::
  "(cmsdk_uart \<Rightarrow> cmsdk_uart) \<Rightarrow> addr \<times> addr \<Rightarrow> char list \<Rightarrow> string
    \<Rightarrow> 'a mps2_scheme logging \<times> 'a mps2_scheme \<Rightarrow> ('a mps2_scheme logging \<times> 'a mps2_scheme) option" where
  "mps2_setup hwu fns line name ls = do {
     let (l, s) = ls;
     let s1 = mps2_clock_init s;
     let s2 = s1\<lparr>uart_line := uart0_init (uart_line s1)\<rparr>;
     let l1 = mps2_register_uart_channel hwu l;
     s3 \<leftarrow> print line (crlf @ ''ZerOS demo: {}'' @ crlf) [Text name] l1 s2;
     let s4 = install_default_testaments fns s3;
     Some (l1, init_time (25000000 div 1000) s4)
   }"

text \<open>The fall-back handler of both vector tables: one line, then it lies down.\<close>

definition bluepill_fault_handler :: "usart_masks \<Rightarrow> (usart \<Rightarrow> usart) \<Rightarrow> usart \<Rightarrow> usart option" where
  "bluepill_fault_handler mu hwu s = uart1_print mu hwu (crlf @ ''[FAULT] halted'' @ crlf) s"

definition mps2_fault_handler :: "(cmsdk_uart \<Rightarrow> cmsdk_uart) \<Rightarrow> cmsdk_uart \<Rightarrow> cmsdk_uart option" where
  "mps2_fault_handler hwu s = uart0_print hwu (crlf @ ''[FAULT] halted'' @ crlf) s"

section \<open>The loops\<close>

lemma step4: "unat d + 4 * Suc n = unat e \<Longrightarrow> unat (d + 4) = unat d + 4 \<and> d < e" for d e :: u32
  using unsigned_less [of e, where 'a = nat] by (simp add: unat_word_ariths word_less_nat_alt)

lemma copy_data_spec:
  assumes "unat dst + 4 * n = unat dend" and "unat src + 4 * n < 2 ^ 32"
    and "\<forall>i < n. \<forall>j < n. unat src + 4 * i \<noteq> unat dst + 4 * j"
  shows "\<exists>m'. copy_data src dst dend m = Some m' \<and> (\<forall>i < n. m' (unat dst + 4 * i) = m (unat src + 4 * i))
    \<and> (\<forall>a. (\<forall>i < n. a \<noteq> unat dst + 4 * i) \<longrightarrow> m' a = m a)"
  using assms
proof (induction n arbitrary: src dst m)
  case 0
  then have "dst = dend" by (simp add: word_unat_eq_iff)
  then show ?case by (simp add: copy_data.simps)
next
  case (Suc n)
  have d: "unat (dst + 4) = unat dst + 4" "dst < dend" using step4 Suc.prems(1) by blast+
  have s: "unat (src + 4) = unat src + 4" using Suc.prems(2) by (simp add: unat_word_ariths)
  let ?m = "m(unat dst := m (unat src))"
  have apart: "unat src + 4 * i \<noteq> unat dst + 4 * j" if "i < Suc n" "j < Suc n" for i j using Suc.prems(3) that by blast
  have p1: "unat (dst + 4) + 4 * n = unat dend" using Suc.prems(1) d(1) by simp
  have p2: "unat (src + 4) + 4 * n < 2 ^ 32" using Suc.prems(2) s by simp
  have p3: "\<forall>i < n. \<forall>j < n. unat (src + 4) + 4 * i \<noteq> unat (dst + 4) + 4 * j"
    using apart [of "Suc _" "Suc _"] d(1) s by simp
  obtain m' where m': "copy_data (src + 4) (dst + 4) dend ?m = Some m'"
    "\<forall>i < n. m' (unat (dst + 4) + 4 * i) = ?m (unat (src + 4) + 4 * i)"
    "\<forall>a. (\<forall>i < n. a \<noteq> unat (dst + 4) + 4 * i) \<longrightarrow> m' a = ?m a"
    using Suc.IH [OF p1 p2 p3] by blast
  have "copy_data src dst dend m = Some m'" using m'(1) d(2) by (simp add: copy_data.simps [of src dst])
  moreover have "m' (unat dst + 4 * i) = m (unat src + 4 * i)" if "i < Suc n" for i
  proof (cases i)
    case 0
    then show ?thesis using m'(3) [rule_format, of "unat dst"] d(1) by simp
  next
    case (Suc k)
    then have "m' (unat (dst + 4) + 4 * k) = ?m (unat (src + 4) + 4 * k)" using m'(2) that by simp
    moreover have "unat src + 4 * i \<noteq> unat dst" using apart [OF that, of 0] by simp
    ultimately show ?thesis using Suc d(1) s by (simp add: algebra_simps)
  qed
  moreover have "m' a = m a" if "\<forall>i < Suc n. a \<noteq> unat dst + 4 * i" for a
  proof -
    have "a \<noteq> unat dst" using that [rule_format, of 0] by simp
    moreover have "a \<noteq> unat (dst + 4) + 4 * i" if "i < n" for i
      using \<open>\<forall>i < Suc n. a \<noteq> unat dst + 4 * i\<close> [rule_format, of "Suc i"] that d(1) by simp
    ultimately show ?thesis using m'(3) by simp
  qed
  ultimately show ?case by blast
qed

lemma zero_bss_spec:
  assumes "unat b + 4 * n = unat bend"
  shows "\<exists>m'. zero_bss b bend m = Some m' \<and> (\<forall>i < n. m' (unat b + 4 * i) = 0)
    \<and> (\<forall>a. (\<forall>i < n. a \<noteq> unat b + 4 * i) \<longrightarrow> m' a = m a)"
  using assms
proof (induction n arbitrary: b m)
  case 0
  then have "b = bend" by (simp add: word_unat_eq_iff)
  then show ?case by (simp add: zero_bss.simps)
next
  case (Suc n)
  have d: "unat (b + 4) = unat b + 4" "b < bend" using step4 Suc.prems by blast+
  have "unat (b + 4) + 4 * n = unat bend" using Suc.prems d(1) by simp
  from Suc.IH [OF this] obtain m' where m': "zero_bss (b + 4) bend (m(unat b := 0)) = Some m'" "\<forall>i < n. m' (unat (b + 4) + 4 * i) = 0"
    "\<forall>a. (\<forall>i < n. a \<noteq> unat (b + 4) + 4 * i) \<longrightarrow> m' a = (m(unat b := 0)) a" by blast
  have "zero_bss b bend m = Some m'" using m'(1) d(2) by (simp add: zero_bss.simps [of b])
  moreover have "m' (unat b + 4 * i) = 0" if "i < Suc n" for i
    using that m'(2) [rule_format, of "i - 1"] m'(3) [rule_format, of "unat b"] d(1) by (cases i) (simp_all add: algebra_simps)
  moreover have "m' a = m a" if "\<forall>i < Suc n. a \<noteq> unat b + 4 * i" for a
  proof -
    have "a \<noteq> unat b" using that [rule_format, of 0] by simp
    moreover have "a \<noteq> unat (b + 4) + 4 * i" if "i < n" for i
      using \<open>\<forall>i < Suc n. a \<noteq> unat b + 4 * i\<close> [rule_format, of "Suc i"] that d(1) by simp
    ultimately show ?thesis using m'(3) by simp
  qed
  ultimately show ?case by blast
qed

lemma memset_spec: "memset_loop n d v m = (\<lambda>a. if d \<le> a \<and> a < d + n then v else m a)"
  by (induction n arbitrary: d m) (auto simp: fun_eq_iff)

text \<open>What the linker script promises: sections of whole words, the image of the initialised data apart from the
  data and inside memory, the zeroed data apart from the initialised data.\<close>

definition layout_ok :: "layout \<Rightarrow> nat \<Rightarrow> nat \<Rightarrow> bool" where
  "layout_ok L n k \<longleftrightarrow> unat (sdata L) + 4 * n = unat (edata L) \<and> unat (sbss L) + 4 * k = unat (ebss L)
     \<and> unat (sidata L) + 4 * n < 2 ^ 32
     \<and> (unat (sidata L) + 4 * n \<le> unat (sdata L) \<or> unat (edata L) \<le> unat (sidata L))
     \<and> (unat (edata L) \<le> unat (sbss L) \<or> unat (ebss L) \<le> unat (sdata L))"

section \<open>Properties\<close>

text \<open>C36: reset. Both loops of \<open>reset_handler\<close> end, and \<open>main\<close> starts on a memory in which every word of the data
  section is the word of its image in flash, every word of the zeroed section is zero, and nothing else has changed;
  the Blue Pill hands over with \<open>SystemCoreClock\<close> at 72 MHz.\<close>

theorem reset_initialises_memory:
  assumes L: "layout_ok L n k"
  shows "\<exists>m'. mps2_reset_handler L main m = main m' \<and> bluepill_reset_handler L main' m = main' 72000000 m'
    \<and> (\<forall>i < n. m' (unat (sdata L) + 4 * i) = m (unat (sidata L) + 4 * i))
    \<and> (\<forall>i < k. m' (unat (sbss L) + 4 * i) = 0)
    \<and> (\<forall>a. (\<forall>i < n. a \<noteq> unat (sdata L) + 4 * i) \<longrightarrow> (\<forall>i < k. a \<noteq> unat (sbss L) + 4 * i) \<longrightarrow> m' a = m a)"
proof -
  have img: "\<forall>i < n. \<forall>j < n. unat (sidata L) + 4 * i \<noteq> unat (sdata L) + 4 * j"
  proof (intro allI impI)
    fix i j assume "i < n" "j < n"
    then show "unat (sidata L) + 4 * i \<noteq> unat (sdata L) + 4 * j" using L unfolding layout_ok_def by linarith
  qed
  obtain m1 where m1: "copy_data (sidata L) (sdata L) (edata L) m = Some m1"
    "\<forall>i < n. m1 (unat (sdata L) + 4 * i) = m (unat (sidata L) + 4 * i)"
    "\<forall>a. (\<forall>i < n. a \<noteq> unat (sdata L) + 4 * i) \<longrightarrow> m1 a = m a"
    using copy_data_spec [OF _ _ img, of "edata L"] L unfolding layout_ok_def by blast
  obtain m' where m': "zero_bss (sbss L) (ebss L) m1 = Some m'" "\<forall>i < k. m' (unat (sbss L) + 4 * i) = 0"
    "\<forall>a. (\<forall>i < k. a \<noteq> unat (sbss L) + 4 * i) \<longrightarrow> m' a = m1 a"
    using zero_bss_spec [of "sbss L" k "ebss L"] L unfolding layout_ok_def by blast
  have "m' (unat (sdata L) + 4 * i) = m1 (unat (sdata L) + 4 * i)" if "i < n" for i
  proof -
    have "unat (sdata L) + 4 * i \<noteq> unat (sbss L) + 4 * j" if "j < k" for j
      using that \<open>i < n\<close> L unfolding layout_ok_def by linarith
    then show ?thesis using m'(3) by blast
  qed
  then show ?thesis
    using m1 m' by (intro exI [of _ m']) (simp add: mps2_reset_handler_def bluepill_reset_handler_def reset_memory_def)
qed

theorem reset_initialises_memory_witness:
  "\<exists>m'. mps2_reset_handler \<lparr>sidata = 0x1000, sdata = 0x20000000, edata = 0x20000008, sbss = 0x20000008, ebss = 0x20000010\<rparr> Some
      (\<lambda>a. word_of_nat a) = Some m' \<and> m' 0x20000004 = 0x1004 \<and> m' 0x2000000C = 0"
proof -
  let ?L = "\<lparr>sidata = 0x1000, sdata = 0x20000000, edata = 0x20000008, sbss = 0x20000008, ebss = 0x20000010\<rparr>"
  have "layout_ok ?L 2 2" by (simp add: layout_ok_def)
  from reset_initialises_memory [OF this, of Some "\<lambda>a. word_of_nat a" "\<lambda>_. Some"] obtain m' where
    m': "mps2_reset_handler ?L Some (\<lambda>a. word_of_nat a) = Some m'" "\<forall>i < 2. m' (0x20000000 + 4 * i) = word_of_nat (0x1000 + 4 * i)"
    "\<forall>i < 2. m' (0x20000008 + 4 * i) = 0" by auto
  then show ?thesis using m'(2) [rule_format, of 1] m'(3) [rule_format, of 1] by simp
qed

text \<open>The banner on the wire, the tick and the wiring after the ritual.\<close>

definition banner :: "string \<Rightarrow> string" where
  "banner name = take 127 (crlf @ ''ZerOS demo: '' @ name @ crlf)"

lemma banner_line:
  assumes "length line = kLineBuffer" and "CHR 0x00 \<notin> set name" and "the_channel l = Some ch"
  shows "print line (crlf @ ''ZerOS demo: {}'' @ crlf) [Text name] l s = map_option snd (ch (banner name) s)"
proof -
  have r: "render (crlf @ ''ZerOS demo: {}'' @ crlf) [Text name] = crlf @ ''ZerOS demo: '' @ name @ crlf" by (simp add: crlf_def)
  have clean: "CHR 0x00 \<notin> set (render (crlf @ ''ZerOS demo: {}'' @ crlf) [Text name])" unfolding r using assms(2) by (simp add: crlf_def)
  show ?thesis using print_line [OF assms(1) clean assms(3), of s] unfolding r banner_def .
qed

text \<open>The MPS2 board after its ritual.\<close>

lemma mps2_setup_ready:
  assumes u: "cmsdk_hw hwu" and line: "length line = kLineBuffer" and name: "CHR 0x00 \<notin> set name"
  shows "\<exists>l' s'. mps2_setup hwu fns line name (l, s) = Some (l', s') \<and> the_channel l' = Some (mps2_channel hwu)
    \<and> ua_sent (uart_line s') = ua_sent (uart_line s) @ map of_char (banner name)
    \<and> overflow_reporter s' = Some (fst fns) \<and> fault_sink s' = Some (snd fns)
    \<and> cycles_per_tick s' * 1000 = kCoreClockHz \<and> unat (syst_rvr s') + 1 = 25000"
proof -
  define s2 where "s2 = s\<lparr>uart_line := uart0_init (uart_line s)\<rparr>"
  obtain u2 where u2: "puts (uart0_putc hwu) (banner name) (uart_line s2) = Some u2" "ua_sent u2 = ua_sent (uart_line s2) @ map of_char (banner name)"
    by (rule uart0_sends [OF uart_init_live(2) [OF u], of "banner name" "uart_line s"]) (simp add: s2_def)
  define l' where "l' = RegisterGlobalChannel (mps2_channel hwu) l"
  have l': "the_channel l' = Some (mps2_channel hwu)" by (simp add: l'_def RegisterGlobalChannel_def)
  have "print line (crlf @ ''ZerOS demo: {}'' @ crlf) [Text name] l' s2 = Some (s2\<lparr>uart_line := u2\<rparr>)"
    using banner_line [OF line name l', of s2] u2(1) by (simp add: mps2_channel_def uart0_channel_body_def)
  then have "mps2_setup hwu fns line name (l, s) = Some (l', init_time 25000 (install_default_testaments fns (s2\<lparr>uart_line := u2\<rparr>)))"
    by (simp add: mps2_setup_def mps2_clock_init_def mps2_register_uart_channel_def l'_def s2_def)
  then show ?thesis
    using u2(2) l' by (simp add: init_time_def write_timer_def install_default_testaments_def kCoreClockHz_def s2_def Let_def)
qed

text \<open>The state after the ritual: the clock, the serial line and the two testaments have changed, nothing else.\<close>

lemma bluepill_setup_shape:
  assumes clk: "rcc_hw hwc" "cmsis_f103 m" "\<not> bit (rcc_cr (clk_tree s)) 17" and u: "usart_hw mu hwu"
    and line: "length line = kLineBuffer" and name: "CHR 0x00 \<notin> set name"
  obtains c u2 where "bluepill_setup mu hwc hwu fns line name with_tick (l, s) =
      Some (RegisterGlobalChannel (bluepill_channel mu hwu) l,
        if with_tick then init_time 72000 (install_default_testaments fns (s\<lparr>clk_tree := c, usart_line := u2\<rparr>))
        else install_default_testaments fns (s\<lparr>clk_tree := c, usart_line := u2\<rparr>))"
    "SystemCoreClockUpdate m c = 72000000" "us_brr u2 = 625" "nvic_ip u2 kUsart1Irq = 0x80"
    "us_sent u2 = us_sent (usart_line s) @ map of_char (banner name)"
proof -
  obtain c where c: "clock_init hwc (clk_tree s) = Some c" "SystemCoreClockUpdate m c = 72000000"
    using clock_comes_up [OF clk] by blast
  define u1 where "u1 = uart1_init mu (usart_line s)"
  define s2 where "s2 = s\<lparr>clk_tree := c, usart_line := u1\<rparr>"
  obtain u2 where u2: "puts (uart1_putc mu hwu) (banner name) u1 = Some u2" "us_sent u2 = us_sent u1 @ map of_char (banner name)"
    unfolding u1_def by (rule uart1_sends [OF uart_init_live(1) [OF u]])
  have keep: "us_brr u2 = us_brr u1" "nvic_ip u2 = nvic_ip u1" using uart1_keeps [OF u u2(1)] by simp_all
  have i1: "us_brr u1 = 625" "nvic_ip u1 kUsart1Irq = 0x80" "us_sent u1 = us_sent (usart_line s)"
    by (simp_all add: u1_def uart1_init_def Let_def)
  define l' where "l' = RegisterGlobalChannel (bluepill_channel mu hwu) l"
  have l': "the_channel l' = Some (bluepill_channel mu hwu)" by (simp add: l'_def RegisterGlobalChannel_def)
  have "print line (crlf @ ''ZerOS demo: {}'' @ crlf) [Text name] l' s2 = Some (s2\<lparr>usart_line := u2\<rparr>)"
    using banner_line [OF line name l', of s2] u2(1) by (simp add: bluepill_channel_def uart1_channel_body_def s2_def)
  moreover have "72000000 div 1000 = (72000 :: u32)" by simp
  ultimately have "bluepill_setup mu hwc hwu fns line name with_tick (l, s) =
      Some (l', if with_tick then init_time 72000 (install_default_testaments fns (s\<lparr>clk_tree := c, usart_line := u2\<rparr>))
        else install_default_testaments fns (s\<lparr>clk_tree := c, usart_line := u2\<rparr>))"
    using c(1) by (simp add: bluepill_setup_def bluepill_register_uart_channel_def l'_def s2_def u1_def)
  then show thesis unfolding l'_def by (rule that) (use c(2) u2(2) keep i1 in simp_all)
qed

text \<open>The Blue Pill is up. On silicon the ritual returns with the core at 72 MHz by the vendor's reading, a divider
  that gives exactly 115200 baud, the banner on the wire, the log's channel and both testaments wired, and, when
  the tick is wanted, SysTick reloading every 72000 cycles, one millisecond. The receive interrupt has its slot in
  the vector table and a priority that the kernel's critical sections mask.\<close>

theorem bluepill_setup_ready:
  assumes clk: "rcc_hw hwc" "cmsis_f103 m" "\<not> bit (rcc_cr (clk_tree s)) 17" and u: "usart_hw mu hwu"
    and line: "length line = kLineBuffer" and name: "CHR 0x00 \<notin> set name"
  shows "\<exists>l' s'. bluepill_setup mu hwc hwu fns line name with_tick (l, s) = Some (l', s')
    \<and> SystemCoreClockUpdate m (clk_tree s') = 72000000 \<and> unat (us_brr (usart_line s')) * 115200 = 72000000
    \<and> us_sent (usart_line s') = us_sent (usart_line s) @ map of_char (banner name)
    \<and> the_channel l' = Some (bluepill_channel mu hwu)
    \<and> overflow_reporter s' = Some (fst fns) \<and> fault_sink s' = Some (snd fns)
    \<and> (with_tick \<longrightarrow> cycles_per_tick s' = 72000 \<and> unat (syst_rvr s') + 1 = 72000000 div 1000)
    \<and> kMaskLevel \<le> ucast (nvic_ip (usart_line s') kUsart1Irq) \<and> bluepill_vectors ! (16 + kUsart1Irq) = Isr_USART1"
proof -
  obtain c u2 where r: "bluepill_setup mu hwc hwu fns line name with_tick (l, s) =
      Some (RegisterGlobalChannel (bluepill_channel mu hwu) l,
        if with_tick then init_time 72000 (install_default_testaments fns (s\<lparr>clk_tree := c, usart_line := u2\<rparr>))
        else install_default_testaments fns (s\<lparr>clk_tree := c, usart_line := u2\<rparr>))"
    and f: "SystemCoreClockUpdate m c = 72000000" "us_brr u2 = 625" "nvic_ip u2 kUsart1Irq = 0x80"
    "us_sent u2 = us_sent (usart_line s) @ map of_char (banner name)"
    by (rule bluepill_setup_shape [OF assms])
  have "bluepill_vectors ! (16 + kUsart1Irq) = Isr_USART1"
    by (simp add: bluepill_vectors_def core_vectors_def kUsart1Irq_def nth_append)
  then show ?thesis
    using r f by (auto simp: kMaskLevel_def RegisterGlobalChannel_def install_default_testaments_def init_time_def write_timer_def Let_def)
qed

theorem bluepill_setup_ready_witness:
  "\<forall>s :: bluepill. \<exists>l' s'. bluepill_setup f103_usart prompt_hw prompt_usart (1, 2) (replicate 128 CHR 0x00) ''blink'' True
      (\<lparr>the_channel = None\<rparr>, s\<lparr>clk_tree := \<lparr>rcc_cr = 0x83, rcc_cfgr = 0, flash_acr = 0x30\<rparr>\<rparr>) = Some (l', s')
    \<and> cycles_per_tick s' = 72000 \<and> SystemCoreClockUpdate f103_masks (clk_tree s') = 72000000"
proof
  fix s :: bluepill
  let ?s = "s\<lparr>clk_tree := \<lparr>rcc_cr = 0x83, rcc_cfgr = 0, flash_acr = 0x30\<rparr>\<rparr>"
  have m: "cmsis_f103 f103_masks" by (simp add: cmsis_f103_def f103_masks_def)
  have b: "\<not> bit (rcc_cr (clk_tree ?s)) 17" by simp
  show "\<exists>l' s'. bluepill_setup f103_usart prompt_hw prompt_usart (1, 2) (replicate 128 CHR 0x00) ''blink'' True
      (\<lparr>the_channel = None\<rparr>, ?s) = Some (l', s')
    \<and> cycles_per_tick s' = 72000 \<and> SystemCoreClockUpdate f103_masks (clk_tree s') = 72000000"
    using bluepill_setup_ready [OF prompt_hw_laws m b prompt_lines(1), of "replicate 128 CHR 0x00" "''blink''" "(1, 2)" True
        "\<lparr>the_channel = None\<rparr>"] by (auto simp: kLineBuffer_def)
qed

end
