(* ===== verification/Program_Start.thy ===== *)
theory Program_Start
  imports Machine_Step
begin

text \<open>
  From wiring to running: \<open>launch\<close> called for each task of a program, then \<open>start_scheduler\<close>, as the programs do
  after the board is set up. The lemmas follow the arena, the control blocks, the stacks and the scheduler
  through the launches; the property is that the machine that comes out of \<open>start_scheduler\<close> is in order, so
  that everything the runs of the machine keep holds from the first instruction of the first task on.
\<close>

section \<open>The program\<close>

fun launch_all :: "image \<Rightarrow> Launchable list \<Rightarrow> 'a mach_scheme \<Rightarrow> (addr list \<times> 'a mach_scheme) option" where
  "launch_all im [] s = Some ([], s)"
| "launch_all im (l # ls) s = do {
     (b, s1) \<leftarrow> launch im l s;
     (bs, s2) \<leftarrow> launch_all im ls s1;
     Some (b # bs, s2)
   }"

definition run_program ::
  "image \<Rightarrow> u32 \<Rightarrow> Launchable list \<Rightarrow> addr \<Rightarrow> 'a stk_scheme reporter \<Rightarrow> 'a stk_scheme \<Rightarrow> (addr list \<times> 'a stk_scheme) option" where
  "run_program im cycles specs idle_fn report s = do {
     (bs, s1) \<leftarrow> launch_all im specs (init_time cycles s);
     s2 \<leftarrow> start_scheduler im idle_fn report s1;
     Some (bs, s2)
   }"

fun spec_prio :: "Launchable \<Rightarrow> TaskPriority_t" where "spec_prio (Launchable nm p ws run) = p"
fun spec_words :: "Launchable \<Rightarrow> u32" where "spec_words (Launchable nm p ws run) = ws"

text \<open>What a launch asks of its specification: a real priority, an even number of words with room for a saved context and
  the canary, and a size that does not run over the 32-bit range.\<close>

definition spec_ok :: "Launchable \<Rightarrow> bool" where
  "spec_ok l \<longleftrightarrow> unat (spec_prio l) < 32 \<and> spec_words l mod 2 = 0 \<and> 24 \<le> unat (spec_words l) \<and> unat (spec_words l) < 2 ^ 29"

text \<open>The most that a launch takes off the arena, padding included.\<close>

definition spec_need :: "image \<Rightarrow> Launchable \<Rightarrow> nat" where
  "spec_need im l = unat (tcb_size im) + unat (tcb_align im) + 4 * unat (spec_words l) + 8"

definition image_ok :: "image \<Rightarrow> bool" where
  "image_ok im \<longleftrightarrow> tcb_size im \<noteq> 0 \<and> tcb_align im \<noteq> 0 \<and> unat (tcb_size im) + unat (tcb_align im) < 2 ^ 32"

section \<open>Taking a control block and a stack\<close>

lemma take_slice:
  assumes "req_ok (bytes, align)" and "block_ok a" and "unat bytes + unat align \<le> unat (left a)"
  obtains out a' where "Arena_take bytes align a = (Some out, a')" "unat align dvd unat out" "unat (cursor a) \<le> unat out"
    "unat out + unat bytes = unat (cursor a')" "unat (cursor a') + unat (left a') = unat (cursor a) + unat (left a)"
    "unat (left a) \<le> unat (left a') + unat bytes + unat align" "block_ok a'"
proof -
  obtain out a' where t: "Arena_take bytes align a = (Some out, a')" "unat align dvd unat out" "unat (cursor a) \<le> unat out"
    "unat out + unat bytes = unat (cursor a')" "unat (cursor a') + unat (left a') = unat (cursor a) + unat (left a)"
    by (cases rule: Arena_take_cases [OF assms(1,2)]) (use assms(3) in auto)
  define miss where "miss = (align - (cursor a mod align)) mod align"
  have m: "unat miss < unat align" using arena_miss(1) [of align "cursor a"] assms(1) by (simp add: miss_def req_ok_def)
  have out: "out = cursor a + miss" using t(1) by (auto simp: Arena_take_def miss_def Let_def split: if_splits)
  have "unat out \<le> unat (cursor a) + unat miss" unfolding out by (simp add: unat_word_ariths)
  then have "unat (left a) \<le> unat (left a') + unat bytes + unat align" using t(4,5) m by linarith
  moreover have "block_ok a'" using t(5) assms(2) by (simp add: block_ok_def)
  ultimately show thesis using that t by blast
qed

lemma words_bytes:
  fixes ws :: u32
  assumes "unat ws < 2 ^ 29"
  shows "unat (ws * 4) = 4 * unat ws"
  using assms by (simp add: unat_word_ariths)

section \<open>The wiring\<close>

text \<open>A control block that is not known to the scheduler may be rebuilt.\<close>

lemma construct_refines:
  assumes r: "refines s a" and i: "a_inv a" and b: "box \<notin> a_tasks a" and c: "a_cur a = None"
    and t: "tcb_state t = Ready" "\<not> has_notify t"
  defines "a' \<equiv> a\<lparr>a_state := (a_state a)(box := Ready), a_prio := (a_prio a)(box := task_priority t), a_mail := (a_mail a)(box := None)\<rparr>"
  shows "refines (construct_tcb box t s) a'" "a_inv a'"
proof -
  have q: "box \<notin> set (a_queue a p)" for p using a_inv_queue(1) [OF i] b by auto
  have lv: "levels s (a_queue a)" using r by (simp add: refines_def)
  have "rep (fifo s ! p, (tcb_next s)(box := None)) (a_queue a p)" if "p < 32" for p
    by (rule rep_frame [of _ "tcb_next s"]) (use lv that q [of p] in \<open>auto simp: levels_def\<close>)
  then have "levels (construct_tcb box t s) (a_queue a)" using lv by (simp add: levels_def construct_tcb_def)
  then show "refines (construct_tcb box t s) a'" using r t by (auto simp: refines_def construct_tcb_def a'_def fun_eq_iff mail_of_def)
  have "{u \<in> a_tasks a. a_state a' u = Ready \<and> a_level a' u = p} = {u \<in> a_tasks a. a_state a u = Ready \<and> a_level a u = p}" for p
    using b by (auto simp: a'_def a_level_def)
  moreover have "a_level a' u = a_level a u" "a_state a' u = a_state a u" if "u \<in> a_tasks a" for u
    using that b by (auto simp: a'_def a_level_def)
  ultimately show "a_inv a'" using i c unfolding a_inv_def by (simp add: a'_def)
qed

lemma construct_time:
  "tk_inv (construct_tcb box t s) [] = tk_inv s []" "current (construct_tcb box t s) = current s"
  "memory (construct_tcb box t s) = memory s" "task_arena (construct_tcb box t s) = task_arena s"
  "tcbs (construct_tcb box t s) = (tcbs s)(box := t)" "mach.more (construct_tcb box t s) = mach.more s"
  by (simp_all add: construct_tcb_def tk_inv_def tq_inv_def alarm_inv_def by_rel_def half_circle_def rep_def)

text \<open>The state between two launches: \<open>bs\<close> are the tasks so far, all of their storage lies between \<open>lo\<close> and the arena's
  cursor, and \<open>K\<close> are their first contexts.\<close>

definition first_ctx :: "image \<Rightarrow> 'a sched_scheme \<Rightarrow> addr \<Rightarrow> ctx" where
  "first_ctx im s t = (sf_zero, first_frame im t, stack_top (tcbs s t))"

definition wired :: "nat \<Rightarrow> image \<Rightarrow> addr list \<Rightarrow> 'a mach_scheme \<Rightarrow> bool" where
  "wired lo im bs s \<longleftrightarrow> (\<exists>a. refines s a \<and> a_inv a \<and> a_tasks a = set bs \<and> a_prio a idle_task = kIdlePrio
       \<and> (\<forall>t \<in> set bs. a_state a t = Ready))
     \<and> current s = None \<and> tk_inv s [] \<and> distinct bs \<and> block_ok (task_arena s) \<and> 0 < lo
     \<and> contexts s (first_ctx im s) (set bs) \<and> stacks_ok (tcbs s) (first_ctx im s) (set bs)
     \<and> (\<forall>t \<in> set bs. \<not> fast_check_stack (memory s) (tcbs s t) \<and> lo \<le> t \<and> t < unat (cursor (task_arena s))
          \<and> lo \<le> span_data (stack_view (tcbs s t)) \<and> stack_top (tcbs s t) \<le> unat (cursor (task_arena s)))
     \<and> lo \<le> unat (cursor (task_arena s))"

lemma add_more: "sched.more (sched_add t s) = sched.more s" "task_priority (tcbs (sched_add t s) u) = task_priority (tcbs s u)"
  using op_priorities [of "OpAdd t" s Done "sched_add t s"] by simp_all

lemma mach_of_more:
  assumes "sys.more s' = sys.more s"
  shows "task_arena s' = task_arena s" "mach.more s' = mach.more s" "overflow_reporter s' = overflow_reporter s"
  using assms by (cases s; cases s'; simp)+

lemma spawn_frame:
  "tk_inv (spawn im t s) qs = tk_inv s qs" "task_arena (spawn im t s) = task_arena s" "mach.more (spawn im t s) = mach.more s"
  "task_priority (tcbs (spawn im t s) u) = task_priority (tcbs s u)" "overflow_reporter (spawn im t s) = overflow_reporter s"
proof -
  let ?f = "fabricate_frame im t (s\<lparr>memory := bury_canary (tcbs s t) (memory s)\<rparr>)"
  have f: "waiters ?f = waiters s" "now_tick ?f = now_tick s" "tq ?f = tq s" "w_next ?f = w_next s" "armed ?f = armed s"
    "arm_valid ?f = arm_valid s" "task_arena ?f = task_arena s" "mach.more ?f = mach.more s" "task_priority (tcbs ?f u) = task_priority (tcbs s u)"
    "overflow_reporter ?f = overflow_reporter s" by (simp_all add: fabricate_frame_def set_sp_def Let_def)
  note m = sched_more [OF add_more(1) [of "Some t" ?f]]
  show "tk_inv (spawn im t s) qs = tk_inv s qs" using f m by (intro tk_inv_cong) (simp_all add: spawn_def)
  show "task_arena (spawn im t s) = task_arena s" "mach.more (spawn im t s) = mach.more s" "overflow_reporter (spawn im t s) = overflow_reporter s"
    using mach_of_more [OF m(1)] f by (simp_all add: spawn_def)
  show "task_priority (tcbs (spawn im t s) u) = task_priority (tcbs s u)" using add_more(2) [of "Some t" ?f u] f(9) by (simp add: spawn_def)
qed

lemma contexts_cong: "(\<And>t. t \<in> T \<Longrightarrow> K' t = K t) \<Longrightarrow> contexts s K' T = contexts s K T"
  by (simp add: contexts_def)

lemma stacks_ok_cong:
  "(\<And>t. t \<in> T \<Longrightarrow> K' t = K t \<and> stack_view (tc' t) = stack_view (tc t)) \<Longrightarrow> stacks_ok tc' K' T = stacks_ok tc K T"
  by (simp add: stacks_ok_def in_stack_def)

text \<open>A new stack that lies above all others is apart from them.\<close>

lemma stacks_ok_insert:
  assumes "stacks_ok tc K T" and "\<forall>u \<in> T. stack_top (tc u) \<le> span_data (stack_view (tc t))" and "t \<notin> T"
    and "in_stack (tc t) p"
  shows "stacks_ok tc (K(t := (cf, ef, p))) (insert t T)"
  using assms unfolding stacks_ok_def stack_top_def by auto

lemma spawn_canary:
  assumes "stacks_ok (tcbs s) K (insert t T)" and "u \<in> T" and "u \<noteq> t"
  shows "fast_check_stack (memory (spawn im t s)) (tcbs (spawn im t s) u) = fast_check_stack (memory s) (tcbs s u)"
proof -
  have "span_at (stack_view (tcbs s u)) (kCanarySize - 1) + 4 \<le> span_data (stack_view (tcbs s t))
      \<or> stack_top (tcbs s t) \<le> span_at (stack_view (tcbs s u)) (kCanarySize - 1)" "64 \<le> 4 * span_size (stack_view (tcbs s t))"
    using assms by (force simp: in_stack_def span_at_def kCanarySize_def stacks_ok_def stack_top_def)+
  from first_memory_other [OF this] show ?thesis by (simp add: fast_check_stack_def spawn_state)
qed

section \<open>One launch\<close>

definition built :: "Launchable \<Rightarrow> addr \<Rightarrow> tcb" where
  "built l st = (case l of Launchable nm p ws run \<Rightarrow> \<lparr>stack_pointer = None, task_priority = p, tcb_state = Ready, tcb_name = Some nm,
     task_wrapper = run, stack_view = \<lparr>span_data = st, span_size = unat ws\<rparr>, notify_word = 0, has_notify = False\<rparr>)"

lemma built_sel:
  "tcb_state (built l st) = Ready" "\<not> has_notify (built l st)" "task_priority (built l st) = spec_prio l"
  "stack_view (built l st) = \<lparr>span_data = st, span_size = unat (spec_words l)\<rparr>"
  by (cases l; simp add: built_def)+

text \<open>The storage of a launch.\<close>

lemma launch_storage:
  assumes ok: "image_ok im" "spec_ok l" "block_ok (task_arena s)" and room: "spec_need im l \<le> unat (left (task_arena s))"
  obtains b st ar where "launch im l s = Some (b, spawn im b (construct_tcb b (built l st) (s\<lparr>task_arena := ar\<rparr>)))"
    "unat (cursor (task_arena s)) \<le> b" "b < st" "st + 4 * unat (spec_words l) = unat (cursor ar)" "block_ok ar"
    "unat (left (task_arena s)) \<le> unat (left ar) + spec_need im l"
    "unat (cursor ar) + unat (left ar) = unat (cursor (task_arena s)) + unat (left (task_arena s))"
proof -
  obtain nm p ws run where l: "l = Launchable nm p ws run" by (cases l)
  have ws: "unat (ws * 4) = 4 * unat ws" using ok(2) by (intro words_bytes) (simp add: l spec_ok_def)
  have "req_ok (tcb_size im, tcb_align im)" using ok(1) by (simp add: image_ok_def req_ok_def)
  moreover have "unat (tcb_size im) + unat (tcb_align im) \<le> unat (left (task_arena s))" using room by (simp add: spec_need_def)
  ultimately obtain o1 ar1 where t1: "Arena_take (tcb_size im) (tcb_align im) (task_arena s) = (Some o1, ar1)"
    "unat (cursor (task_arena s)) \<le> unat o1" "unat o1 + unat (tcb_size im) = unat (cursor ar1)"
    "unat (cursor ar1) + unat (left ar1) = unat (cursor (task_arena s)) + unat (left (task_arena s))"
    "unat (left (task_arena s)) \<le> unat (left ar1) + unat (tcb_size im) + unat (tcb_align im)" "block_ok ar1"
    using take_slice [OF _ ok(3)] by metis
  have "req_ok (ws * 4, 8)" using ok(2) ws by (simp add: req_ok_def l spec_ok_def)
  moreover have "unat (ws * 4) + unat (8 :: u32) \<le> unat (left ar1)" using room t1(5) ws by (simp add: spec_need_def l)
  ultimately obtain o2 ar2 where t2: "Arena_take (ws * 4) 8 ar1 = (Some o2, ar2)"
    "unat (cursor ar1) \<le> unat o2" "unat o2 + unat (ws * 4) = unat (cursor ar2)"
    "unat (cursor ar2) + unat (left ar2) = unat (cursor ar1) + unat (left ar1)"
    "unat (left ar1) \<le> unat (left ar2) + unat (ws * 4) + unat (8 :: u32)" "block_ok ar2"
    using take_slice [OF _ t1(6)] by metis
  have tcb: "TCBCreator_spawn_into (entry_stacked (tw_function run) (tw_argument run)
      (builder_stack \<lparr>span_data = unat o2, span_size = unat ws\<rparr> (builder_prio p (named nm)))) = built l (unat o2)"
    by (simp add: built_def l named_def TCB_new_def)
  have even: "ws mod 2 = 0" using ok(2) by (simp add: l spec_ok_def)
  show thesis
  proof (rule that [of "unat o1" "unat o2" ar2])
    show "launch im l s = Some (unat o1, spawn im (unat o1) (construct_tcb (unat o1) (built l (unat o2)) (s\<lparr>task_arena := ar2\<rparr>)))"
      unfolding l launch.simps by (simp add: debug_Check_def even t1(1) t2(1) spawn_creator_def tcb [unfolded l] del: TCBCreator_spawn_into.simps)
    show "unat o1 < unat o2" using t1(3) t2(2) ok(1) by (simp add: image_ok_def unat_gt_0 [symmetric])
    show "unat (left (task_arena s)) \<le> unat (left ar2) + spec_need im l" using t1(5) t2(5) ws by (simp add: spec_need_def l)
  qed (use t1 t2 ws in \<open>simp_all add: l\<close>)
qed

lemma launch_step:
  assumes w: "wired lo im bs s" and ok: "image_ok im" "spec_ok l" and room: "spec_need im l \<le> unat (left (task_arena s))"
  obtains b s' where "launch im l s = Some (b, s')" "wired lo im (bs @ [b]) s'" "task_priority (tcbs s' b) = spec_prio l"
    "\<forall>u. u \<noteq> b \<longrightarrow> task_priority (tcbs s' u) = task_priority (tcbs s u) \<and> stack_view (tcbs s' u) = stack_view (tcbs s u)"
    "unat (left (task_arena s)) \<le> unat (left (task_arena s')) + spec_need im l" "mach.more s' = mach.more s"
    "unat (cursor (task_arena s')) + unat (left (task_arena s')) = unat (cursor (task_arena s)) + unat (left (task_arena s))"
proof -
  obtain a where a: "refines s a" "a_inv a" "a_tasks a = set bs" "a_prio a idle_task = kIdlePrio" "\<forall>t \<in> set bs. a_state a t = Ready"
    and k: "current s = None" "tk_inv s []" "distinct bs" "block_ok (task_arena s)" "0 < lo"
      "contexts s (first_ctx im s) (set bs)" "stacks_ok (tcbs s) (first_ctx im s) (set bs)"
    and bs: "\<forall>t \<in> set bs. \<not> fast_check_stack (memory s) (tcbs s t) \<and> lo \<le> t \<and> t < unat (cursor (task_arena s))
          \<and> lo \<le> span_data (stack_view (tcbs s t)) \<and> stack_top (tcbs s t) \<le> unat (cursor (task_arena s))"
    and lo: "lo \<le> unat (cursor (task_arena s))"
    using w unfolding wired_def by blast
  obtain b st ar where launch: "launch im l s = Some (b, spawn im b (construct_tcb b (built l st) (s\<lparr>task_arena := ar\<rparr>)))"
    and ar: "unat (cursor (task_arena s)) \<le> b" "b < st" "st + 4 * unat (spec_words l) = unat (cursor ar)" "block_ok ar"
    "unat (left (task_arena s)) \<le> unat (left ar) + spec_need im l"
    "unat (cursor ar) + unat (left ar) = unat (cursor (task_arena s)) + unat (left (task_arena s))"
    by (rule launch_storage [OF ok k(4) room])
  define s1 where "s1 = construct_tcb b (built l st) (s\<lparr>task_arena := ar\<rparr>)"
  let ?s' = "spawn im b s1"
  have b: "b \<notin> set bs" "b \<noteq> idle_task" using bs ar(1) lo k(5) by (auto simp: idle_task_def)
  have s1: "current s1 = None" "tk_inv s1 []" "memory s1 = memory s" "task_arena s1 = ar" "tcbs s1 = (tcbs s)(b := built l st)" "mach.more s1 = mach.more s"
    using k(1,2) tk_inv_cong [of "s\<lparr>task_arena := ar\<rparr>" s "[]"] by (simp_all add: s1_def construct_time)
  have view: "stack_view (tcbs s1 b) = \<lparr>span_data = st, span_size = unat (spec_words l)\<rparr>" by (simp add: s1(5) built_sel)
  have top: "stack_top (tcbs s1 b) = unat (cursor ar)" using ar(3) view by (simp add: stack_top_def)
  have size: "24 \<le> unat (spec_words l)" using ok(2) by (simp add: spec_ok_def)
  have others: "tcbs s1 u = tcbs s u" if "u \<in> set bs" for u using that b(1) by (auto simp: s1(5))
  let ?K = "(first_ctx im s)(b := (sf_zero, first_frame im b, stack_top (tcbs s1 b)))"
  have okT: "stacks_ok (tcbs s1) (first_ctx im s) (set bs)" using k(7) stacks_ok_cong [of "set bs" _ _ "tcbs s1" "tcbs s"] others by simp
  have ok1: "stacks_ok (tcbs s1) ?K (insert b (set bs))"
    by (rule stacks_ok_insert [OF okT _ b(1)]) (use bs others view ar size top in \<open>auto simp: in_stack_def kCanarySize_def stack_top_def\<close>)
  have "parked s1 u c = parked s u c" if "u \<in> set bs" for u c using that others s1(3) by (intro parked_cong) simp_all
  then have "contexts s1 (first_ctx im s) (set bs)" using k(1,6) s1(1) by (simp add: contexts_def)
  then have con: "contexts ?s' ?K (insert b (set bs))" by (rule spawn_parks [OF _ ok1 b(1)]) (simp add: s1(1))
  have K: "first_ctx im ?s' u = ?K u" if "u \<in> insert b (set bs)" for u
    using that others by (auto simp: first_ctx_def stack_top_def spawn_state)
  let ?a = "a\<lparr>a_state := (a_state a)(b := Ready), a_prio := (a_prio a)(b := spec_prio l), a_mail := (a_mail a)(b := None)\<rparr>"
  have c: "a_cur a = None" using refines_cur [OF a(1)] k(1) by simp
  have "refines (s\<lparr>task_arena := ar\<rparr>) a" using a(1) by (simp add: refines_def levels_def)
  from construct_refines [OF this a(2) _ c, of b "built l st"] have r1: "refines s1 ?a" "a_inv ?a"
    using b(1) a(3) by (simp_all add: s1_def built_sel)
  have "op_ok (OpAdd (Some b)) ?a" using b a(3) ok(2) by (simp add: a_level_def spec_ok_def)
  note r' = spawn_refines [OF r1 this]
  have a': "a_tasks (a_op (OpAdd (Some b)) ?a) = set (bs @ [b])" "a_prio (a_op (OpAdd (Some b)) ?a) idle_task = kIdlePrio"
    "\<forall>t \<in> set (bs @ [b]). a_state (a_op (OpAdd (Some b)) ?a) t = Ready"
    using a(3-5) b(2) by (simp_all add: a_preempt_def a_enqueue_def)
  have can: "\<not> fast_check_stack (memory ?s') (tcbs ?s' u)" if "u \<in> insert b (set bs)" for u
  proof (cases "u = b")
    case True
    have "24 \<le> span_size (stack_view (tcbs s1 b))" using view size by simp
    from first_memory_canary [OF this] show ?thesis by (simp add: True fast_check_stack_def spawn_state)
  next
    case False
    then have "u \<in> set bs" using that by simp
    then show ?thesis using spawn_canary [OF ok1, of u im] bs others s1(3) False by simp
  qed
  have bnd: "lo \<le> u \<and> u < unat (cursor ar) \<and> lo \<le> span_data (stack_view (tcbs s1 u)) \<and> stack_top (tcbs s1 u) \<le> unat (cursor ar)"
    if "u \<in> insert b (set bs)" for u
  proof (cases "u = b")
    case True
    then show ?thesis using ar(1-3) lo view top by simp
  next
    case False
    then have u: "u \<in> set bs" using that by simp
    have "lo \<le> u" "u < unat (cursor (task_arena s))" "lo \<le> span_data (stack_view (tcbs s u))" "stack_top (tcbs s u) \<le> unat (cursor (task_arena s))"
      using bs u by blast+
    then show ?thesis unfolding others [OF u] using ar(1-3) by linarith
  qed
  have S: "set (bs @ [b]) = insert b (set bs)" by simp
  have con': "contexts ?s' (first_ctx im ?s') (insert b (set bs)) = contexts ?s' ?K (insert b (set bs))"
    by (rule contexts_cong) (rule K)
  have ok': "stacks_ok (tcbs ?s') (first_ctx im ?s') (insert b (set bs)) = stacks_ok (tcbs s1) ?K (insert b (set bs))"
    by (rule stacks_ok_cong) (use K in \<open>simp add: spawn_state\<close>)
  have "wired lo im (bs @ [b]) ?s'"
    unfolding wired_def
  proof (intro conjI)
    show "\<exists>a. refines ?s' a \<and> a_inv a \<and> a_tasks a = set (bs @ [b]) \<and> a_prio a idle_task = kIdlePrio
      \<and> (\<forall>t \<in> set (bs @ [b]). a_state a t = Ready)" using r' a' by blast
    show "contexts ?s' (first_ctx im ?s') (set (bs @ [b]))" unfolding S con' by (rule con)
    show "stacks_ok (tcbs ?s') (first_ctx im ?s') (set (bs @ [b]))"
      unfolding S ok' by (rule ok1)
    show "\<forall>t \<in> set (bs @ [b]). \<not> fast_check_stack (memory ?s') (tcbs ?s' t) \<and> lo \<le> t \<and> t < unat (cursor (task_arena ?s'))
        \<and> lo \<le> span_data (stack_view (tcbs ?s' t)) \<and> stack_top (tcbs ?s' t) \<le> unat (cursor (task_arena ?s'))"
    proof
      show "\<not> fast_check_stack (memory ?s') (tcbs ?s' u) \<and> lo \<le> u \<and> u < unat (cursor (task_arena ?s'))
        \<and> lo \<le> span_data (stack_view (tcbs ?s' u)) \<and> stack_top (tcbs ?s' u) \<le> unat (cursor (task_arena ?s'))" if "u \<in> set (bs @ [b])" for u
        using can [of u] bnd [of u] that by (simp add: spawn_state spawn_frame s1(4) stack_top_def)
    qed
  qed (use k b ar lo s1 in \<open>simp_all add: spawn_state spawn_frame\<close>)
  moreover have "task_priority (tcbs ?s' b) = spec_prio l" by (simp add: spawn_frame s1(5) built_sel)
  moreover have "\<forall>u. u \<noteq> b \<longrightarrow> task_priority (tcbs ?s' u) = task_priority (tcbs s u) \<and> stack_view (tcbs ?s' u) = stack_view (tcbs s u)"
    by (simp add: spawn_frame spawn_state s1(5))
  ultimately show thesis using that launch ar(5,6) s1(4,6) by (simp add: s1_def spawn_frame)
qed

section \<open>All launches\<close>

lemma launch_all_wired:
  assumes "wired lo im bs s" and "image_ok im" and "list_all spec_ok specs" and "sum_list (map (spec_need im) specs) \<le> unat (left (task_arena s))"
  shows "\<exists>bs' s'. launch_all im specs s = Some (bs', s') \<and> wired lo im (bs @ bs') s'
    \<and> map (\<lambda>b. task_priority (tcbs s' b)) bs' = map spec_prio specs \<and> mach.more s' = mach.more s
    \<and> unat (cursor (task_arena s')) + unat (left (task_arena s')) = unat (cursor (task_arena s)) + unat (left (task_arena s))
    \<and> (\<forall>u. u \<notin> set bs' \<longrightarrow> task_priority (tcbs s' u) = task_priority (tcbs s u) \<and> stack_view (tcbs s' u) = stack_view (tcbs s u))"
  using assms
proof (induction specs arbitrary: bs s)
  case (Cons l ls)
  have l: "spec_ok l" "spec_need im l \<le> unat (left (task_arena s))" using Cons.prems(3,4) by simp_all
  obtain b s1 where s1: "launch im l s = Some (b, s1)" "wired lo im (bs @ [b]) s1" "task_priority (tcbs s1 b) = spec_prio l"
    "\<forall>u. u \<noteq> b \<longrightarrow> task_priority (tcbs s1 u) = task_priority (tcbs s u) \<and> stack_view (tcbs s1 u) = stack_view (tcbs s u)"
    "unat (left (task_arena s)) \<le> unat (left (task_arena s1)) + spec_need im l" "mach.more s1 = mach.more s"
    "unat (cursor (task_arena s1)) + unat (left (task_arena s1)) = unat (cursor (task_arena s)) + unat (left (task_arena s))"
    by (rule launch_step [OF Cons.prems(1,2) l])
  have room: "sum_list (map (spec_need im) ls) \<le> unat (left (task_arena s1))" using Cons.prems(4) s1(5) by simp
  have "list_all spec_ok ls" using Cons.prems(3) by simp
  then obtain bs' s' where s': "launch_all im ls s1 = Some (bs', s')" "wired lo im ((bs @ [b]) @ bs') s'"
    "map (\<lambda>b. task_priority (tcbs s' b)) bs' = map spec_prio ls" "mach.more s' = mach.more s1"
    "unat (cursor (task_arena s')) + unat (left (task_arena s')) = unat (cursor (task_arena s1)) + unat (left (task_arena s1))"
    "\<forall>u. u \<notin> set bs' \<longrightarrow> task_priority (tcbs s' u) = task_priority (tcbs s1 u) \<and> stack_view (tcbs s' u) = stack_view (tcbs s1 u)"
    using Cons.IH [OF s1(2) Cons.prems(2) _ room] by blast
  have "b \<notin> set bs'" using s'(2) by (auto simp: wired_def)
  then have "task_priority (tcbs s' b) = spec_prio l" using s'(6) s1(3) by simp
  then show ?case using s1(1,4,6,7) s' by (intro exI [of _ "b # bs'"] exI [of _ s']) auto
qed simp

text \<open>Launching leaves the installed reporter alone.\<close>

lemma launch_reporter: "launch im l s = Some (b, s') \<Longrightarrow> overflow_reporter s' = overflow_reporter s"
  by (cases l) (auto simp: spawn_creator_def spawn_frame(5) construct_tcb_def debug_Check_def Let_def split: if_splits prod.splits bind_splits)

lemma launch_all_reporter: "launch_all im specs s = Some (bs, s') \<Longrightarrow> overflow_reporter s' = overflow_reporter s"
proof (induction specs arbitrary: s bs)
  case (Cons l ls)
  then obtain b s1 bs1 where "launch im l s = Some (b, s1)" "launch_all im ls s1 = Some (bs1, s')" by (auto split: bind_splits)
  then show ?case using Cons.IH launch_reporter by metis
qed simp

section \<open>The start\<close>

lemma start_frame:
  assumes "start_scheduler im idle_fn report s = Some s'"
  shows "tk_inv s' qs = tk_inv s qs" "mach.more s' = mach.more s" "stack_view (tcbs s' u) = stack_view (tcbs s u)"
    "task_priority (tcbs s' u) = task_priority (tcbs s u)" "memory s' = first_memory im idle_task (tcbs s idle_task) (memory s)"
    "overflow_reporter s' = overflow_reporter s"
proof -
  let ?tc = "(tcbs s idle_task)\<lparr>task_wrapper := \<lparr>tw_function = Some idle_fn, tw_argument = None\<rparr>\<rparr>"
  define s1 where "s1 = s\<lparr>tcbs := (tcbs s)(idle_task := ?tc)\<rparr>"
  define s3 where "s3 = (fabricate_frame im idle_task (s1\<lparr>memory := bury_canary ?tc (memory s1)\<rparr>))
     \<lparr>shpr3 := (shpr3 s AND 0xFF00FFFF) OR push_bit 16 0xFF\<rparr>"
  have start: "start_scheduler im idle_fn report s = map_option exception_return
      (case pick_next_locked s3 of (t, s1) \<Rightarrow> load_context (stack_pointer (tcbs s1 t)) s1)"
    by (simp add: start_scheduler_def SVC_Handler_def context_switch_def fetch_idle_task_def s3_def s1_def fabricate_frame_def
        set_sp_def Let_def split: prod.splits)
  obtain cf ef p where s': "s' = (snd (pick_next_locked s3))\<lparr>callee := cf, core := ef, psp := p\<rparr>"
    using assms unfolding start
    by (auto simp: load_context_def exception_return_def split: prod.splits option.splits)
  have f: "waiters s3 = waiters s" "now_tick s3 = now_tick s" "tq s3 = tq s" "w_next s3 = w_next s" "armed s3 = armed s"
    "arm_valid s3 = arm_valid s" "mach.more s3 = mach.more s" "stack_view (tcbs s3 u) = stack_view (tcbs s u)"
    "task_priority (tcbs s3 u) = task_priority (tcbs s u)" "memory s3 = first_memory im idle_task (tcbs s idle_task) (memory s)"
    "overflow_reporter s3 = overflow_reporter s" by (simp_all add: s3_def s1_def fabricate_frame_def set_sp_def Let_def first_memory_def stack_top_def bury_canary_def sf_zero_def)
  note m = sched_more [OF pick_more(1) [of s3]]
  show "tk_inv s' qs = tk_inv s qs" using f m by (intro tk_inv_cong) (simp_all add: s')
  show "mach.more s' = mach.more s" "overflow_reporter s' = overflow_reporter s" using f(7,11) mach_of_more(2,3) [OF m(1)] by (simp_all add: s')
  show "stack_view (tcbs s' u) = stack_view (tcbs s u)" "task_priority (tcbs s' u) = task_priority (tcbs s u)"
    "memory s' = first_memory im idle_task (tcbs s idle_task) (memory s)"
    using f(8-10) pick_keeps(2,3) [of s3] pick_more(2) [of s3] by (simp_all add: s')
qed

lemma stk_of_mach:
  assumes "mach.more s' = mach.more s"
  shows "one_shot_ticks s' = one_shot_ticks s" "cycles_per_tick s' = cycles_per_tick s"
  using assms by (cases s; cases s'; simp)+

text \<open>What the startup code leaves: no task yet, nobody booked, the idle task's stack outside of the arena's block.\<close>

definition fresh_machine :: "'a stk_scheme \<Rightarrow> bool" where
  "fresh_machine s \<longleftrightarrow> refines s asched_new \<and> tk_inv s [] \<and> one_shot_ticks s = 0
     \<and> block_ok (task_arena s) \<and> 0 < unat (cursor (task_arena s)) \<and> 24 \<le> span_size (stack_view (tcbs s idle_task))
     \<and> (stack_top (tcbs s idle_task) \<le> unat (cursor (task_arena s))
        \<or> unat (cursor (task_arena s)) + unat (left (task_arena s)) \<le> span_data (stack_view (tcbs s idle_task)))"

lemma fresh_wired:
  assumes "fresh_machine s"
  shows "wired (unat (cursor (task_arena s))) im [] (init_time cycles s)" "task_arena (init_time cycles s) = task_arena s"
    "tcbs (init_time cycles s) = tcbs s" "one_shot_ticks (init_time cycles s) = 0" "cycles_per_tick (init_time cycles s) = cycles"
proof -
  let ?s = "init_time cycles s"
  show f: "task_arena ?s = task_arena s" "tcbs ?s = tcbs s" "one_shot_ticks ?s = 0" "cycles_per_tick ?s = cycles"
    using assms by (simp_all add: fresh_machine_def init_time_def write_timer_def Let_def)
  have "refines ?s asched_new" using assms by (simp add: fresh_machine_def init_time_def write_timer_def Let_def refines_def levels_def)
  moreover have "tk_inv ?s [] = tk_inv s []" by (rule tk_inv_cong) (simp_all add: init_time_def write_timer_def Let_def)
  moreover have "a_tasks asched_new = {}" "a_prio asched_new idle_task = kIdlePrio" "a_cur asched_new = None" by (simp_all add: asched_new_def)
  ultimately show "wired (unat (cursor (task_arena s))) im [] ?s"
    using assms new_refines(2) refines_cur [of ?s asched_new] f by (auto simp: wired_def fresh_machine_def contexts_def stacks_ok_def)
qed

lemma start_in_order:
  assumes w: "wired lo im bs s" and size: "24 \<le> span_size (stack_view (tcbs s idle_task))"
    and apart: "stack_top (tcbs s idle_task) \<le> lo \<or> unat (cursor (task_arena s)) \<le> span_data (stack_view (tcbs s idle_task))"
    and timer: "0 < cycles_per_tick s" "cycles_per_tick s \<le> 0xFFFFFF" "one_shot_ticks s = 0"
  shows "\<exists>s'. start_scheduler im idle_fn report s = Some s' \<and> good (set bs) (first_ctx im s') [] s'
    \<and> (\<exists>t. current s' = Some t \<and> (if bs = [] then t = idle_task
         else t \<in> set bs \<and> (\<forall>u \<in> set bs. task_priority (tcbs s' t) \<le> task_priority (tcbs s' u))))"
proof -
  obtain a where a: "refines s a" "a_inv a" "a_tasks a = set bs" "a_prio a idle_task = kIdlePrio" "\<forall>t \<in> set bs. a_state a t = Ready"
    and k: "current s = None" "tk_inv s []" "0 < lo" "contexts s (first_ctx im s) (set bs)" "stacks_ok (tcbs s) (first_ctx im s) (set bs)"
    and bs: "\<forall>t \<in> set bs. \<not> fast_check_stack (memory s) (tcbs s t) \<and> lo \<le> t \<and> t < unat (cursor (task_arena s))
          \<and> lo \<le> span_data (stack_view (tcbs s t)) \<and> stack_top (tcbs s t) \<le> unat (cursor (task_arena s))"
    using w unfolding wired_def by blast
  let ?T = "insert idle_task (set bs)" and ?K = "(first_ctx im s)(idle_task := (sf_zero, first_frame im idle_task, stack_top (tcbs s idle_task)))"
  have ni: "idle_task \<notin> set bs" using a_inv_idle [OF a(2)] a(3) by simp
  have K: "?K = first_ctx im s" by (auto simp: first_ctx_def)
  have in_i: "in_stack (tcbs s idle_task) (stack_top (tcbs s idle_task))" using size by (simp add: in_stack_def stack_top_def kCanarySize_def)
  have ok: "stacks_ok (tcbs s) (first_ctx im s) ?T"
  proof -
    have "stack_top (tcbs s idle_task) \<le> span_data (stack_view (tcbs s u)) \<or> stack_top (tcbs s u) \<le> span_data (stack_view (tcbs s idle_task))"
      if "u \<in> set bs" for u using bs that apart by (meson order_trans)
    then show ?thesis using k(5) in_i unfolding stacks_ok_def by (auto simp: stack_top_def first_ctx_def)
  qed
  have c: "contexts s (first_ctx im s) (a_tasks a)" using k(4) a(3) by simp
  have ok': "stacks_ok (tcbs s) ?K (insert idle_task (a_tasks a))" using ok a(3) unfolding K by simp
  obtain s' where s': "start_scheduler im idle_fn report s = Some s'" "contexts s' ?K (insert idle_task (a_tasks a))" "refines s' (a_pick a)"
    "stacks_ok (tcbs s') ?K (insert idle_task (a_tasks a))"
    "\<forall>u \<in> a_tasks a. fast_check_stack (memory s') (tcbs s' u) = fast_check_stack (memory s) (tcbs s u)"
    "\<exists>t. current s' = Some t \<and> (if runnable a = {} then t = idle_task
         else t \<in> runnable a \<and> (\<forall>u \<in> runnable a. task_priority (tcbs s t) \<le> task_priority (tcbs s u)))"
    using start_spec [OF c k(1) a(1,2) ok', of idle_fn report] by blast
  note f = start_frame [OF s'(1)]
  have K': "?K u = first_ctx im s' u" for u by (simp add: first_ctx_def stack_top_def f(3))
  then have K'': "?K = first_ctx im s'" by blast
  have run: "runnable a = set bs" using a(3,5) by (auto simp: runnable_def)
  have i': "a_inv (a_pick a)" by (rule a_inv_pick [OF a(2)])
  have b: "a_prio (a_pick a) = a_prio a" "a_tasks (a_pick a) = set bs"
    using a(3) by (simp_all add: a_pick_def a_requeue_def Let_def split: option.splits)
  have "settled (a_pick a)" using served_pick [OF a(2,4)] a(4) b(1) by (simp add: settled_def)
  moreover have "calm (a_pick a)" using pick_best [OF a(2)] by (auto simp: calm_def cur_runs_def)
  ultimately have crew: "crew (set bs) [] s'" using s'(3) i' b(2) by (auto simp: crew_def)
  have "24 \<le> span_size (stack_view (tcbs s idle_task))" by (rule size)
  from first_memory_canary [OF this, of im idle_task "memory s"]
  have "\<not> fast_check_stack (memory s') (tcbs s' idle_task)" by (simp add: fast_check_stack_def f(3,5))
  then have "homes (set bs) (first_ctx im s') s'" using s'(2,4-6) bs a(3) unfolding K'' homes_def by auto
  then have "good (set bs) (first_ctx im s') [] s'"
    using crew f(1) k(2) stk_of_mach [OF f(2)] timer by (simp add: good_def timer_ok_def)
  then show ?thesis using s'(1,6) unfolding run by (auto simp: f(4))
qed

section \<open>The block and the programs\<close>

definition kTaskArenaBytes :: u32 where "kTaskArenaBytes = 2048"

definition g_task_arena :: "u32 \<Rightarrow> Arena" where
  "g_task_arena g_task_block = Arena_new g_task_block kTaskArenaBytes"

definition task_chain :: "string \<Rightarrow> TaskPriority_t \<Rightarrow> u32 \<Rightarrow> addr \<Rightarrow> addr option \<Rightarrow> Launchable" where
  "task_chain nm p ws f arg = entry_worded (Some f) arg (builder_words ws (builder_prio p (named nm)))"

text \<open>The tasks that the programs launch, in order.\<close>

definition inversion_tasks :: "addr \<Rightarrow> addr \<Rightarrow> addr \<Rightarrow> Launchable list" where
  "inversion_tasks task_holder task_urgent task_bully =
     [task_chain ''L'' 2 96 task_holder None, task_chain ''H'' 0 64 task_urgent None, task_chain ''M'' 1 64 task_bully None]"

definition perf_tasks :: "addr \<Rightarrow> addr \<Rightarrow> addr \<Rightarrow> Launchable list" where
  "perf_tasks reporter ping pong =
     [task_chain ''report'' 0 160 reporter None, task_chain ''ping'' 1 96 ping None, task_chain ''pong'' 1 96 pong None]"

definition watermark_tasks :: "addr \<Rightarrow> addr \<Rightarrow> addr \<Rightarrow> Launchable list" where
  "watermark_tasks deep shallow reporter =
     [task_chain ''deep'' 1 96 deep None, task_chain ''shallow'' 1 64 shallow None, task_chain ''report'' 0 192 reporter None]"

definition testaments_tasks :: "addr \<Rightarrow> addr \<Rightarrow> Launchable list" where
  "testaments_tasks heartbeat terminal = [task_chain ''beat'' 2 64 heartbeat None, task_chain ''term'' 0 96 terminal None]"

definition heartbeat_tasks :: "addr \<Rightarrow> addr \<Rightarrow> addr \<Rightarrow> Launchable list" where
  "heartbeat_tasks heartbeat banner task =
     (let shape = builder_words 64 (builder_prio 1 (named ''HeartBeat''))
      in [entry_worded (Some heartbeat) (Some banner) shape, entry_worded (Some heartbeat) (Some task) shape])"

definition round_robin_tasks :: "addr \<Rightarrow> addr \<Rightarrow> addr \<Rightarrow> Launchable list" where
  "round_robin_tasks spinner rr1 rr2 = [task_chain ''rr1'' 3 64 spinner (Some rr1), task_chain ''rr2'' 3 64 spinner (Some rr2)]"

definition tickless_tasks :: "addr \<Rightarrow> Launchable list" where
  "tickless_tasks napper = [task_chain ''napper'' 1 160 napper None]"

lemmas program_defs = inversion_tasks_def perf_tasks_def watermark_tasks_def testaments_tasks_def heartbeat_tasks_def
  round_robin_tasks_def tickless_tasks_def task_chain_def named_def

text \<open>What a launch takes at least.\<close>

lemma take_shrinks:
  assumes "req_ok (bytes, align)" and "block_ok a" and "Arena_take bytes align a = (Some out, a')"
  shows "unat (left a') + unat bytes \<le> unat (left a)" "block_ok a'"
proof -
  have "unat (left a') + unat bytes \<le> unat (left a) \<and> block_ok a'"
    by (cases rule: Arena_take_cases [OF assms(1,2)]) (use assms(2,3) in \<open>auto simp: block_ok_def\<close>)
  then show "unat (left a') + unat bytes \<le> unat (left a)" "block_ok a'" by simp_all
qed

lemma launch_takes:
  assumes ok: "image_ok im" "spec_ok l" "block_ok (task_arena s)" and run: "launch im l s = Some (b, s')"
  shows "unat (left (task_arena s')) + unat (tcb_size im) + 4 * unat (spec_words l) \<le> unat (left (task_arena s))" "block_ok (task_arena s')"
proof -
  obtain nm p ws f where l: "l = Launchable nm p ws f" by (cases l)
  obtain r1 ar1 where t1: "Arena_take (tcb_size im) (tcb_align im) (task_arena s) = (r1, ar1)" by fastforce
  obtain r2 ar2 where t2: "Arena_take (ws * 4) 8 ar1 = (r2, ar2)" by fastforce
  have "r1 \<noteq> None \<and> r2 \<noteq> None \<and> task_arena s' = ar2"
    using run t1 t2 by (auto simp: l debug_Check_def spawn_creator_def spawn_frame construct_time split: if_splits)
  then obtain o1 o2 where r: "r1 = Some o1" "r2 = Some o2" "task_arena s' = ar2" by auto
  have "req_ok (tcb_size im, tcb_align im)" using ok(1) by (simp add: image_ok_def req_ok_def)
  note 1 = take_shrinks [OF this ok(3) t1 [unfolded r(1)]]
  have ws: "unat (ws * 4) = 4 * unat ws" using ok(2) by (intro words_bytes) (simp add: l spec_ok_def)
  have "req_ok (ws * 4, 8)" using ok(2) ws by (simp add: req_ok_def l spec_ok_def)
  note 2 = take_shrinks [OF this 1(2) t2 [unfolded r(2)]]
  show "unat (left (task_arena s')) + unat (tcb_size im) + 4 * unat (spec_words l) \<le> unat (left (task_arena s))"
    using 1(1) 2(1) ws r(3) by (simp add: l)
  show "block_ok (task_arena s')" using 2(2) r(3) by simp
qed

lemma launch_all_takes:
  assumes "image_ok im" and "list_all spec_ok specs" and "block_ok (task_arena s)" and "launch_all im specs s = Some (bs, s')"
  shows "unat (left (task_arena s')) + sum_list (map (\<lambda>l. unat (tcb_size im) + 4 * unat (spec_words l)) specs) \<le> unat (left (task_arena s))"
  using assms(2-4)
proof (induction specs arbitrary: s bs)
  case (Cons l ls)
  obtain b s1 bs1 where s1: "launch im l s = Some (b, s1)" "launch_all im ls s1 = Some (bs1, s')"
    using Cons.prems(3) by (auto split: bind_splits)
  have l: "spec_ok l" "list_all spec_ok ls" using Cons.prems(1) by simp_all
  note t = launch_takes [OF assms(1) l(1) Cons.prems(2) s1(1)]
  show ?case using Cons.IH [OF l(2) t(2) s1(2)] t(1) by simp
qed simp

lemma program_starts:
  assumes fresh: "fresh_machine s" and cycles: "0 < cycles" "cycles \<le> 0xFFFFFF" and im: "image_ok im"
    and specs: "list_all spec_ok specs" "sum_list (map (spec_need im) specs) \<le> unat (left (task_arena s))"
  shows "\<exists>bs s'. run_program im cycles specs idle_fn report s = Some (bs, s') \<and> length bs = length specs \<and> distinct bs
    \<and> map (\<lambda>b. task_priority (tcbs s' b)) bs = map spec_prio specs \<and> machine_inv (set bs) (first_ctx im s', s')
    \<and> (\<exists>t. current s' = Some t \<and> core s' = first_frame im t \<and> psp s' = stack_top (tcbs s' t)
         \<and> (if specs = [] then t = idle_task else t \<in> set bs \<and> (\<forall>u \<in> set bs. task_priority (tcbs s' t) \<le> task_priority (tcbs s' u))))
    \<and> mach.more s' = mach.more (init_time cycles s) \<and> overflow_reporter s' = overflow_reporter s"
proof -
  let ?s = "init_time cycles s" and ?lo = "unat (cursor (task_arena s))"
  note fw = fresh_wired [OF fresh, where cycles = cycles]
  have room: "sum_list (map (spec_need im) specs) \<le> unat (left (task_arena ?s))" using specs(2) fw(2) by simp
  obtain bs s1 where s1: "launch_all im specs ?s = Some (bs, s1)" "wired ?lo im ([] @ bs) s1"
    "map (\<lambda>b. task_priority (tcbs s1 b)) bs = map spec_prio specs" "mach.more s1 = mach.more ?s"
    "unat (cursor (task_arena s1)) + unat (left (task_arena s1)) = unat (cursor (task_arena ?s)) + unat (left (task_arena ?s))"
    "\<forall>u. u \<notin> set bs \<longrightarrow> task_priority (tcbs s1 u) = task_priority (tcbs ?s u) \<and> stack_view (tcbs s1 u) = stack_view (tcbs ?s u)"
    using launch_all_wired [OF fw(1) im specs(1) room] by blast
  have w: "wired ?lo im bs s1" using s1(2) by simp
  have ni: "idle_task \<notin> set bs" using w fresh by (auto simp: wired_def fresh_machine_def idle_task_def)
  then have view: "stack_view (tcbs s1 idle_task) = stack_view (tcbs s idle_task)" using s1(6) fw(3) by simp
  have size: "24 \<le> span_size (stack_view (tcbs s1 idle_task))" using fresh view by (simp add: fresh_machine_def)
  have apart: "stack_top (tcbs s1 idle_task) \<le> ?lo \<or> unat (cursor (task_arena s1)) \<le> span_data (stack_view (tcbs s1 idle_task))"
    using fresh s1(5) fw(2) view by (auto simp: fresh_machine_def stack_top_def)
  note st = stk_of_mach [OF s1(4)]
  have timer: "0 < cycles_per_tick s1" "cycles_per_tick s1 \<le> 0xFFFFFF" "one_shot_ticks s1 = 0" using st fw(4,5) cycles by simp_all
  obtain s' where s': "start_scheduler im idle_fn report s1 = Some s'" "good (set bs) (first_ctx im s') [] s'"
    "\<exists>t. current s' = Some t \<and> (if bs = [] then t = idle_task
         else t \<in> set bs \<and> (\<forall>u \<in> set bs. task_priority (tcbs s' t) \<le> task_priority (tcbs s' u)))"
    using start_in_order [OF w size apart timer, of idle_fn report] by blast
  have len: "length bs = length specs" using arg_cong [OF s1(3), of length] by simp
  have "core s' = first_frame im t \<and> psp s' = stack_top (tcbs s' t)" if "current s' = Some t" "t \<in> insert idle_task (set bs)" for t
    using s'(2) that by (auto simp: good_def homes_def contexts_def first_ctx_def)
  moreover have "bs = [] \<longleftrightarrow> specs = []" using len by auto
  ultimately have t: "\<exists>t. current s' = Some t \<and> core s' = first_frame im t \<and> psp s' = stack_top (tcbs s' t)
         \<and> (if specs = [] then t = idle_task else t \<in> set bs \<and> (\<forall>u \<in> set bs. task_priority (tcbs s' t) \<le> task_priority (tcbs s' u)))"
    using s'(3) by (metis insertCI)
  have "map (\<lambda>b. task_priority (tcbs s' b)) bs = map spec_prio specs" using s1(3) start_frame(4) [OF s'(1)] by simp
  moreover have "distinct bs" using w by (simp add: wired_def)
  moreover have "run_program im cycles specs idle_fn report s = Some (bs, s')" using s1(1) s'(1) by (simp add: run_program_def)
  moreover have "mach.more s' = mach.more ?s" using s1(4) start_frame(2) [OF s'(1)] by simp
  moreover have "overflow_reporter s' = overflow_reporter s"
    using launch_all_reporter [OF s1(1)] start_frame(6) [OF s'(1)] by (simp add: init_time_def write_timer_def Let_def)
  ultimately show ?thesis using len t s'(2) by (intro exI [of _ bs] exI [of _ s'] conjI) (auto simp: machine_inv_def)
qed

section \<open>Properties\<close>

text \<open>A program starts in order. On a machine as the startup code leaves it, a program whose tasks fit the arena wires all
  of them and starts: every launch returns, the tasks get distinct control blocks and the priorities they ask
  for, the machine that runs is in order, and the processor is about to enter the first context of a task
  of the best priority (of the idle task, if there is none).\<close>

theorem program_starts_in_order:
  assumes fresh: "fresh_machine s" and cycles: "0 < cycles" "cycles \<le> 0xFFFFFF" and im: "image_ok im"
    and specs: "list_all spec_ok specs" "sum_list (map (spec_need im) specs) \<le> unat (left (task_arena s))"
  shows "\<exists>bs s'. run_program im cycles specs idle_fn report s = Some (bs, s') \<and> length bs = length specs \<and> distinct bs
    \<and> map (\<lambda>b. task_priority (tcbs s' b)) bs = map spec_prio specs \<and> machine_inv (set bs) (first_ctx im s', s')
    \<and> (\<exists>t. current s' = Some t \<and> core s' = first_frame im t \<and> psp s' = stack_top (tcbs s' t)
         \<and> (if specs = [] then t = idle_task else t \<in> set bs \<and> (\<forall>u \<in> set bs. task_priority (tcbs s' t) \<le> task_priority (tcbs s' u))))"
  using program_starts [OF assms, of idle_fn report] by blast

text \<open>C34: a program that asks for more than the arena holds does not start: the check of the launch that runs dry stops it.
  So eight tasks of 64 words each never fit the block of 2048 bytes, whatever the size of a control block.\<close>

theorem overfull_program_stops:
  assumes "image_ok im" and "list_all spec_ok specs" and "block_ok (task_arena s)"
    and "unat (left (task_arena s)) < sum_list (map (\<lambda>l. unat (tcb_size im) + 4 * unat (spec_words l)) specs)"
  shows "launch_all im specs s = None"
proof (cases "launch_all im specs s")
  case (Some x)
  then obtain bs s' where "launch_all im specs s = Some (bs, s')" by (cases x) auto
  from launch_all_takes [OF assms(1-3) this] assms(4) show ?thesis by simp
qed simp

text \<open>A fresh machine with the arena's block at \<^verbatim>\<open>0x20000000\<close>, and the idle task's stack behind it.\<close>

definition fresh_chip :: stk where
  "fresh_chip = sys.extend (sys_new\<lparr>tcbs := (\<lambda>t. (tcbs sys_new t)\<lparr>stack_view := \<lparr>span_data = 0x20001000, span_size = 64\<rparr>\<rparr>)\<rparr>)
     \<lparr>memory = (\<lambda>_. 0), psp = 0, callee = sf_zero, core = ef_of (replicate 8 0), shpr3 = 0, overflow_reporter = None,
      task_arena = g_task_arena 0x20000000, syst_csr = 0, syst_rvr = 0, syst_cvr = 0, count_flag = False, systick_pending = False,
      nvic_icpr = [], cycles_per_tick = 0, one_shot_ticks = 0, zeros_tick_periodic = 0, zeros_tick_oneshot = 0\<rparr>"

lemma fresh_chip_ok: "fresh_machine fresh_chip" "task_arena fresh_chip = \<lparr>cursor = 0x20000000, left = 2048\<rparr>"
proof -
  have "refines fresh_chip asched_new"
    using sys_new_refines by (simp add: refines_def levels_def fresh_chip_def sys.defs mail_of_view asched_new_def)
  moreover have "tk_inv fresh_chip []"
    using sys_new_tk by (simp add: fresh_chip_def sys.defs tk_inv_def tq_inv_def alarm_inv_def by_rel_def half_circle_def rep_def)
  moreover show ar: "task_arena fresh_chip = \<lparr>cursor = 0x20000000, left = 2048\<rparr>"
    by (simp add: fresh_chip_def sys.defs g_task_arena_def Arena_new_def kTaskArenaBytes_def)
  moreover have "stack_view (tcbs fresh_chip t) = \<lparr>span_data = 0x20001000, span_size = 64\<rparr>" "one_shot_ticks fresh_chip = 0" for t
    by (simp_all add: fresh_chip_def sys.defs)
  ultimately show "fresh_machine fresh_chip" by (simp add: fresh_machine_def block_ok_def)
qed

theorem program_starts_in_order_witness:
  "\<exists>l h m (s' :: stk). run_program demo_image 72000 (inversion_tasks 0x100 0x200 0x300) 0x400 (\<lambda>f t n s. None) fresh_chip = Some ([l, h, m], s')
     \<and> current s' = Some h \<and> machine_inv {l, h, m} (first_ctx demo_image s', s')"
proof -
  let ?p = "inversion_tasks 0x100 0x200 0x300" and ?r = "\<lambda>f t n s. None"
  have im: "image_ok demo_image" by (simp add: image_ok_def demo_image_def)
  have sp: "list_all spec_ok ?p" by (simp add: program_defs spec_ok_def)
  have room: "sum_list (map (spec_need demo_image) ?p) \<le> unat (left (task_arena fresh_chip))"
    by (simp add: program_defs spec_need_def demo_image_def fresh_chip_ok(2))
  have cy: "0 < (72000 :: u32)" "(72000 :: u32) \<le> 0xFFFFFF" by simp_all
  obtain bs and s' :: stk where r: "run_program demo_image 72000 ?p 0x400 ?r fresh_chip = Some (bs, s')" "length bs = length ?p"
    "map (\<lambda>b. task_priority (tcbs s' b)) bs = map spec_prio ?p" "machine_inv (set bs) (first_ctx demo_image s', s')"
    "\<exists>t. current s' = Some t \<and> t \<in> set bs \<and> (\<forall>u \<in> set bs. task_priority (tcbs s' t) \<le> task_priority (tcbs s' u))"
    using program_starts_in_order [OF fresh_chip_ok(1) cy im sp room, of "0x400" ?r] by (auto simp: inversion_tasks_def)
  obtain l h m where bs: "bs = [l, h, m]" using r(2) by (auto simp: inversion_tasks_def length_Suc_conv)
  have "task_priority (tcbs s' l) = 2" "task_priority (tcbs s' h) = 0" "task_priority (tcbs s' m) = 1"
    using r(3) by (simp_all add: bs program_defs)
  then have "current s' = Some h" using r(5) by (auto simp: bs)
  then show ?thesis using r(1,4) by (auto simp: bs)
qed

theorem overfull_program_stops_witness:
  "launch_all demo_image (replicate 8 (task_chain ''demo'' 1 64 0x100 None)) fresh_chip = None"
  by (rule overfull_program_stops)
     (simp_all add: image_ok_def demo_image_def program_defs spec_ok_def fresh_chip_ok(2) block_ok_def list_all_iff sum_list_replicate)

end
