(* ===== verification/Msg_Queue.thy ===== *)
theory Msg_Queue
  imports Semaphore
begin

text \<open>
  The message queue of \<^verbatim>\<open>include/ZerOS/kernel/sync/msg_queue.hpp\<close>, a ring of a power-of-two number of slots
  between two semaphores (units of data, units of room), and the deferred-work worker of
  \<^verbatim>\<open>include/ZerOS/kernel/sync/user_worker.hpp\<close> on top of it. Queues and workers are stored by address; the two
  semaphores of a queue are semaphores of the store.
\<close>

section \<open>State\<close>

datatype QueueError = QueueOk | QueueTimeout | QueueFull

record 'm mqueue =
  q_data :: addr
  q_room :: addr
  ring :: "'m list"
  q_head :: u32
  q_count :: u32

record worker =
  wk_task :: "addr option"
  wk_queue :: addr
  wk_box :: addr
  wk_stack :: span

record 'm qw = wn +
  queues :: "addr \<Rightarrow> 'm mqueue"
  workers :: "addr \<Rightarrow> worker"

definition capacity :: "'m mqueue \<Rightarrow> u32" where
  "capacity q = of_nat (length (ring q))"

definition power_of_two :: "u32 \<Rightarrow> bool" where
  "power_of_two cap \<longleftrightarrow> cap AND (cap - 1) = 0"

definition kZeroWait :: Milliseconds where "kZeroWait = 0"

text \<open>A new queue: the members' initialisers, with \<open>z\<close> a value-initialised message.\<close>

definition Queue_new :: "addr \<Rightarrow> addr \<Rightarrow> nat \<Rightarrow> 'm \<Rightarrow> 'm mqueue" where
  "Queue_new d r cap z = \<lparr>q_data = d, q_room = r, ring = replicate cap z, q_head = 0, q_count = 0\<rparr>"

section \<open>The queue\<close>

definition set_queue :: "addr \<Rightarrow> 'm mqueue \<Rightarrow> ('m, 'a) qw_scheme \<Rightarrow> ('m, 'a) qw_scheme" where
  "set_queue q v s = s\<lparr>queues := (queues s)(q := v)\<rparr>"

text \<open>Indexing the ring outside of it is undefined behaviour.\<close>

definition pop_ring_body :: "addr \<Rightarrow> ('m, 'a) qw_scheme \<Rightarrow> ('m \<times> ('m, 'a) qw_scheme) option" where
  "pop_ring_body q s =
     (let v = queues s q
      in if unat (q_head v) < length (ring v)
         then Some (ring v ! unat (q_head v),
           release (q_room v) (set_queue q
             (v\<lparr>q_head := (q_head v + 1) AND (capacity v - 1), q_count := q_count v - 1\<rparr>) s))
         else None)"

definition pop_ring :: "addr \<Rightarrow> ('m, 'a) qw_scheme \<Rightarrow> ('m \<times> ('m, 'a) qw_scheme) option" where
  "pop_ring q s = map_option (\<lambda>(out, s'). (out, sys_unlock s')) (pop_ring_body q (sys_lock s))"

text \<open>The part of \<open>post_for\<close> after the slot is reserved.\<close>

definition put_ring_body :: "addr \<Rightarrow> 'm \<Rightarrow> ('m, 'a) qw_scheme \<Rightarrow> ('m, 'a) qw_scheme option" where
  "put_ring_body q x s =
     (let v = queues s q; i = unat ((q_head v + q_count v) AND (capacity v - 1))
      in if i < length (ring v)
         then Some (release (q_data v) (set_queue q (v\<lparr>ring := (ring v)[i := x], q_count := q_count v + 1\<rparr>) s))
         else None)"

definition put_ring :: "addr \<Rightarrow> 'm \<Rightarrow> ('m, 'a) qw_scheme \<Rightarrow> ('m, 'a) qw_scheme option" where
  "put_ring q x = CriticalGuard_opt sys_lock sys_unlock (put_ring_body q x)"

definition receive_one ::
  "(('m, 'a) qw_scheme \<Rightarrow> ('m, 'a) qw_scheme option) \<Rightarrow> addr \<Rightarrow> addr \<Rightarrow> ('m, 'a) qw_scheme \<Rightarrow>
     ((QueueError + 'm) \<times> ('m, 'a) qw_scheme) option" where
  "receive_one world q me s = do {
     s1 \<leftarrow> acquire world (q_data (queues s q)) me s;
     map_option (\<lambda>(x, s'). (Inr x, s')) (pop_ring q s1)
   }"

definition receive_one_for ::
  "(('m, 'a) qw_scheme \<Rightarrow> ('m, 'a) qw_scheme option) \<Rightarrow> addr \<Rightarrow> addr \<Rightarrow> Milliseconds \<Rightarrow> ('m, 'a) qw_scheme \<Rightarrow>
     ((QueueError + 'm) \<times> ('m, 'a) qw_scheme) option" where
  "receive_one_for world q me timeout s = do {
     (v, s1) \<leftarrow> try_acquire world (q_data (queues s q)) me timeout s;
     if v \<noteq> Ok then Some (Inl QueueTimeout, s1)
     else map_option (\<lambda>(x, s'). (Inr x, s')) (pop_ring q s1)
   }"

definition post_for ::
  "(('m, 'a) qw_scheme \<Rightarrow> ('m, 'a) qw_scheme option) \<Rightarrow> addr \<Rightarrow> addr \<Rightarrow> 'm \<Rightarrow> Milliseconds \<Rightarrow> ('m, 'a) qw_scheme \<Rightarrow>
     (QueueError \<times> ('m, 'a) qw_scheme) option" where
  "post_for world q me x timeout s = do {
     (v, s1) \<leftarrow> try_acquire world (q_room (queues s q)) me timeout s;
     if v \<noteq> Ok then Some (if timeout = 0 then QueueFull else QueueTimeout, s1)
     else map_option (Pair QueueOk) (put_ring q x s1)
   }"

definition post ::
  "(('m, 'a) qw_scheme \<Rightarrow> ('m, 'a) qw_scheme option) \<Rightarrow> addr \<Rightarrow> addr \<Rightarrow> 'm \<Rightarrow> ('m, 'a) qw_scheme \<Rightarrow>
     (QueueError \<times> ('m, 'a) qw_scheme) option" where
  "post world q me x s = post_for world q me x kZeroWait s"

section \<open>The worker\<close>

definition set_worker :: "addr \<Rightarrow> worker \<Rightarrow> ('m, 'a) qw_scheme \<Rightarrow> ('m, 'a) qw_scheme" where
  "set_worker w v s = s\<lparr>workers := (workers s)(w := v)\<rparr>"

definition work_defer ::
  "((Callback, 'a) qw_scheme \<Rightarrow> (Callback, 'a) qw_scheme option) \<Rightarrow> addr \<Rightarrow> addr \<Rightarrow> addr option \<Rightarrow> addr option \<Rightarrow>
     (Callback, 'a) qw_scheme \<Rightarrow> (bool \<times> (Callback, 'a) qw_scheme) option" where
  "work_defer world w me func arg s = do {
     s1 \<leftarrow> debug_Check (wk_task (workers s w) \<noteq> None) s;
     (r, s2) \<leftarrow> post world (wk_queue (workers s1 w)) me \<lparr>cb_fn = func, cb_arg = arg\<rparr> s1;
     Some (r = QueueOk, s2)
   }"

text \<open>\<open>loop_fn\<close> is the address of \<open>Loop\<close>.\<close>

definition worker_setup ::
  "addr \<Rightarrow> addr \<Rightarrow> TaskPriority_t \<Rightarrow> string \<Rightarrow> worker \<times> 'a tk_scheme \<Rightarrow> addr \<times> worker \<times> 'a tk_scheme" where
  "worker_setup loop_fn w p nm vs =
     (let (v, s) = vs;
          t = TCBCreator_spawn_into (entry_stacked (Some loop_fn) (Some w) (builder_stack (wk_stack v) (builder_prio p (named nm))))
      in (wk_box v, v\<lparr>wk_task := Some (wk_box v)\<rparr>, construct_tcb (wk_box v) t s))"

definition work_setup :: "addr \<Rightarrow> addr \<Rightarrow> TaskPriority_t \<Rightarrow> string \<Rightarrow> ('m, 'a) qw_scheme \<Rightarrow> addr \<times> ('m, 'a) qw_scheme" where
  "work_setup loop_fn w p nm s =
     (case worker_setup loop_fn w p nm (workers s w, s) of (box, v, s1) \<Rightarrow> (box, set_worker w v s1))"

text \<open>One turn of the endless \<open>Loop\<close>, and its first \<open>n\<close> turns.\<close>

definition Loop_turn ::
  "(Callback, 'a) qw_scheme user \<Rightarrow> ((Callback, 'a) qw_scheme \<Rightarrow> (Callback, 'a) qw_scheme option) \<Rightarrow> addr \<Rightarrow> addr \<Rightarrow>
     (Callback, 'a) qw_scheme \<Rightarrow> (Callback, 'a) qw_scheme option" where
  "Loop_turn user world w me s = do {
     (work, s1) \<leftarrow> receive_one world (wk_queue (workers s w)) me s;
     case work of Inr c \<Rightarrow> Callback_invoke user c s1 | Inl _ \<Rightarrow> Some s1
   }"

primrec Loop_turns ::
  "nat \<Rightarrow> (Callback, 'a) qw_scheme user \<Rightarrow> ((Callback, 'a) qw_scheme \<Rightarrow> (Callback, 'a) qw_scheme option) \<Rightarrow> addr \<Rightarrow> addr \<Rightarrow>
     (Callback, 'a) qw_scheme \<Rightarrow> (Callback, 'a) qw_scheme option" where
  "Loop_turns 0 user world w me s = Some s"
| "Loop_turns (Suc n) user world w me s = do {
     s1 \<leftarrow> Loop_turn user world w me s;
     Loop_turns n user world w me s1
   }"

section \<open>The ring is a list\<close>

lemma power_of_two_nat:
  fixes n :: nat
  assumes "0 < n" and "n AND (n - 1) = 0"
  shows "\<exists>k. n = 2 ^ k"
  using assms
proof (induction n rule: less_induct)
  case (less n)
  show ?case
  proof (cases "even n")
    case True
    then obtain m where m: "n = 2 * m" by blast
    then have pos: "0 < m" using less.prems(1) by simp
    then have "n - 1 = 2 * (m - 1) + 1" using m by simp
    then have "n AND (n - 1) = 2 * (m AND (m - 1))" using m by (simp add: and_nat_rec [of "2 * m"])
    then have "m AND (m - 1) = 0" using less.prems(2) by simp
    then obtain k where "m = 2 ^ k" using less.IH [of m] pos m by auto
    then have "n = 2 ^ Suc k" using m by simp
    then show ?thesis by blast
  next
    case False
    then obtain m where m: "n = 2 * m + 1" using oddE by blast
    then have "n AND (n - 1) = 2 * m" by (simp add: and_nat_rec [of "Suc (2 * m)"])
    then have "n = 2 ^ 0" using less.prems(2) m by simp
    then show ?thesis by blast
  qed
qed

lemma ring_index:
  assumes len: "length (ring v) = 2 ^ k" and k: "k < 32"
  shows "unat (x AND (capacity v - 1)) = unat x mod length (ring v)"
proof -
  have "capacity v - 1 = mask k" using len by (simp add: capacity_def mask_eq_exp_minus_1)
  then have "unat (x AND (capacity v - 1)) = take_bit k (unat x)"
    by (simp add: take_bit_eq_mask [symmetric] unsigned_take_bit_eq)
  then show ?thesis by (simp add: take_bit_eq_mod len)
qed

definition q_ok :: "'m mqueue \<Rightarrow> bool" where
  "q_ok v \<longleftrightarrow> (\<exists>k < 32. length (ring v) = 2 ^ k) \<and> unat (q_head v) < length (ring v) \<and> unat (q_count v) \<le> length (ring v)"

definition contents :: "'m mqueue \<Rightarrow> 'm list" where
  "contents v = map (\<lambda>i. ring v ! ((unat (q_head v) + i) mod length (ring v))) [0..<unat (q_count v)]"

lemma length_contents [simp]: "length (contents v) = unat (q_count v)"
  by (simp add: contents_def)

lemma mod_apart: "i < j \<Longrightarrow> j < n \<Longrightarrow> (h + i) mod n \<noteq> (h + j) mod n" for h i j n :: nat
  using mod_eq_dvd_iff_nat [of "h + i" "h + j" n] by (auto dest: dvd_imp_le)

lemma q_ok_word:
  assumes "q_ok v"
  shows "length (ring v) < 2 ^ 32" "\<exists>d. 2 ^ 32 = d * length (ring v)"
proof -
  obtain k where k: "k < 32" "length (ring v) = 2 ^ k" using assms by (auto simp: q_ok_def)
  show "length (ring v) < 2 ^ 32" using k by (metis power_strict_increasing_iff one_less_numeral_iff semiring_norm(76))
  have "(2::nat) ^ 32 = 2 ^ (32 - k) * 2 ^ k" using k(1) by (subst power_add [symmetric]) simp
  then show "\<exists>d. 2 ^ 32 = d * length (ring v)" using k(2) by metis
qed

lemma put_contents:
  assumes ok: "q_ok v" and room: "unat (q_count v) < length (ring v)"
  defines "i \<equiv> unat ((q_head v + q_count v) AND (capacity v - 1))"
  shows "i < length (ring v)" "q_ok (v\<lparr>ring := (ring v)[i := x], q_count := q_count v + 1\<rparr>)"
    "contents (v\<lparr>ring := (ring v)[i := x], q_count := q_count v + 1\<rparr>) = contents v @ [x]"
proof -
  let ?n = "length (ring v)" and ?h = "unat (q_head v)" and ?c = "unat (q_count v)"
  obtain k where k: "k < 32" "?n = 2 ^ k" using ok by (auto simp: q_ok_def)
  have n: "?n < 2 ^ 32" and dvd: "?n dvd 2 ^ 32" using q_ok_word [OF ok] by (auto simp: dvd_def mult.commute)
  have "unat (q_head v + q_count v) mod ?n = (?h + ?c) mod ?n"
    using dvd by (simp add: unat_word_ariths mod_mod_cancel)
  then have i: "i = (?h + ?c) mod ?n" using ring_index [OF k(2,1), of "q_head v + q_count v"] by (simp add: i_def)
  show lt: "i < ?n" using k i by simp
  have c1: "unat (q_count v + 1) = ?c + 1" using room n by (simp add: unat_word_ariths)
  then show "q_ok (v\<lparr>ring := (ring v)[i := x], q_count := q_count v + 1\<rparr>)" using ok room by (simp add: q_ok_def)
  have "(ring v)[i := x] ! ((?h + j) mod ?n) = ring v ! ((?h + j) mod ?n)" if "j < ?c" for j
    by (rule nth_list_update_neq) (use mod_apart [OF that room, of ?h] i in simp)
  then show "contents (v\<lparr>ring := (ring v)[i := x], q_count := q_count v + 1\<rparr>) = contents v @ [x]"
    using c1 lt by (simp add: contents_def) (simp add: i)
qed

lemma pop_contents:
  assumes ok: "q_ok v" and some: "0 < unat (q_count v)"
  defines "v' \<equiv> v\<lparr>q_head := (q_head v + 1) AND (capacity v - 1), q_count := q_count v - 1\<rparr>"
  shows "q_ok v'" "contents v = ring v ! unat (q_head v) # contents v'"
proof -
  let ?n = "length (ring v)" and ?h = "unat (q_head v)" and ?c = "unat (q_count v)"
  obtain k where k: "k < 32" "?n = 2 ^ k" using ok by (auto simp: q_ok_def)
  have n: "?n < 2 ^ 32" and dvd: "?n dvd 2 ^ 32" using q_ok_word [OF ok] by (auto simp: dvd_def mult.commute)
  have "unat (q_head v + 1) mod ?n = (?h + 1) mod ?n" using dvd by (simp add: unat_word_ariths mod_mod_cancel)
  then have h: "unat (q_head v') = (?h + 1) mod ?n" using ring_index [OF k(2,1), of "q_head v + 1"] by (simp add: v'_def)
  have "q_count v \<noteq> 0" using some by auto
  then have c: "unat (q_count v') = ?c - 1" using unat_minus_one [of "q_count v"] by (simp add: v'_def)
  have r: "ring v' = ring v" by (simp add: v'_def)
  show "q_ok v'" using ok h c r k by (auto simp: q_ok_def)
  have "[0..<?c] = 0 # map Suc [0..<?c - 1]" using some by (simp add: upt_conv_Cons map_Suc_upt)
  moreover have "?h mod ?n = ?h" using ok by (simp add: q_ok_def)
  moreover have "(?h + Suc i) mod ?n = ((?h + 1) mod ?n + i) mod ?n" for i by (simp add: mod_simps)
  ultimately show "contents v = ring v ! ?h # contents v'" by (simp add: contents_def h c r)
qed


section \<open>Frames\<close>

lemma queues_lock [simp]:
  "queues (sys_lock s) = queues s" "queues (sys_unlock s) = queues s" "queues (set_sema m v s) = queues s"
  "queues (sched_ready t s) = queues s" "queues (sched_block t s) = queues s" "semas (set_queue q x s) = semas s"
  "queues (set_queue q x s) = (queues s)(q := x)" "node_next (set_queue q x s) = node_next s"
  "qw.more (sys_lock s) = qw.more s" "qw.more (sys_unlock s) = qw.more s" "qw.more (set_sema m v s) = qw.more s"
  "qw.more (sched_ready t s) = qw.more s" "qw.more (set_queue q x s) = qw.more s"
  by (simp_all add: sys_lock_def sys_unlock_def sched_lock_def sched_unlock_def crit_lock_def crit_unlock_def
      write_basepri_def Let_def set_sema_def set_queue_def sched_ready_def sched_block_def CriticalGuard_def
      sched_push_back_def set_tcb_state_def request_switch_def split: prod.splits option.splits)

lemma queues_time [simp]:
  "queues (time_lock s) = queues s" "queues (time_unlock s) = queues s" "queues (update_alarm s) = queues s"
  by (simp_all add: time_lock_def time_unlock_def crit_lock_def crit_unlock_def write_basepri_def update_alarm_def
      Let_def split: option.splits)

lemma queues_sleep:
  assumes "sys_sleep_for t span s = Some s'"
  shows "queues s' = queues s \<and> semas s' = semas s"
  using assms
  by (auto simp: sys_sleep_for_def sched_sleep_for_def park_for_def CriticalGuard_opt_def enqueue_locked_def
      TimerQueue_remove_def TimerQueue_insert_def Let_def split: bind_splits if_splits option.splits)

text \<open>What one turn on a semaphore does to counters and queues, whatever its waiting list looks like.\<close>

lemma release_counts [simp]:
  "sem_count (semas (release m s) m') = (if m' = m then sem_count (semas s m) + 1 else sem_count (semas s m'))"
  "queues (release m s) = queues s" "qw.more (release m s) = qw.more s"
  by (auto simp: release_def release_body_def CriticalGuard_def sys_ready_def Let_def split: prod.splits option.splits)

definition takes :: "addr \<Rightarrow> bool \<Rightarrow> ('m, 'a) qw_scheme \<Rightarrow> ('m, 'a) qw_scheme \<Rightarrow> bool" where
  "takes m b s s' \<longleftrightarrow> queues s' = queues s \<and> (b \<longrightarrow> 0 < sem_count (semas s m))
     \<and> (\<forall>m'. sem_count (semas s' m') = (if b \<and> m' = m then sem_count (semas s m) - 1 else sem_count (semas s m')))"

lemma acquire_turn_takes: "acquire_turn m me t s = Some (b, s') \<Longrightarrow> takes m b s s'"
  by (auto simp: acquire_turn_def sem_remove_def sem_insert_def takes_def Let_def sys_block_def split: if_splits bind_splits)

lemma try_acquire_turn_takes: "try_acquire_turn m me ddl s = Some (v, s') \<Longrightarrow> takes m (v = Some Ok) s s'"
  by (auto simp: try_acquire_turn_def sem_remove_def sem_insert_def takes_def Let_def dest!: queues_sleep
      split: if_splits bind_splits)


section \<open>Interleavings\<close>

text \<open>
  Every critical section of the queue is one step: a turn on one of its semaphores by some task, storing a
  message by a sender that holds a unit of room, taking one by a receiver that holds a unit of data, or anything else that
  leaves the queue's private members alone. \<open>sent\<close> and \<open>rcvd\<close> are the messages stored and taken so far, in
  this order; \<open>r\<close> and \<open>t\<close> count the receivers and senders between their two critical sections.
\<close>

inductive queue_run :: "addr \<Rightarrow> ('m, 'a) qw_scheme \<Rightarrow> 'm list \<Rightarrow> 'm list \<Rightarrow> nat \<Rightarrow> nat \<Rightarrow> bool" for q where
  start: "queues s q = Queue_new d rm cap z \<Longrightarrow> d \<noteq> rm \<Longrightarrow> semas s d = Semaphore_new 0 \<Longrightarrow>
     semas s rm = Semaphore_new (of_nat cap) \<Longrightarrow> 0 < cap \<Longrightarrow> cap < 2 ^ 32 \<Longrightarrow> power_of_two (of_nat cap) \<Longrightarrow>
     queue_run q s [] [] 0 0"
| get_unit: "queue_run q s sent rcvd r t \<Longrightarrow> acquire_turn (q_data (queues s q)) me task s = Some (b, s') \<Longrightarrow>
     queue_run q s' sent rcvd (if b then Suc r else r) t"
| try_unit: "queue_run q s sent rcvd r t \<Longrightarrow> try_acquire_turn (q_data (queues s q)) me ddl s = Some (v, s') \<Longrightarrow>
     queue_run q s' sent rcvd (if v = Some Ok then Suc r else r) t"
| try_room: "queue_run q s sent rcvd r t \<Longrightarrow> try_acquire_turn (q_room (queues s q)) me ddl s = Some (v, s') \<Longrightarrow>
     queue_run q s' sent rcvd r (if v = Some Ok then Suc t else t)"
| take_out: "queue_run q s sent rcvd (Suc r) t \<Longrightarrow> pop_ring q s = Some (x, s') \<Longrightarrow> queue_run q s' sent (rcvd @ [x]) r t"
| put_in: "queue_run q s sent rcvd r (Suc t) \<Longrightarrow> put_ring q x s = Some s' \<Longrightarrow> queue_run q s' (sent @ [x]) rcvd r t"
| other: "queue_run q s sent rcvd r t \<Longrightarrow> queues s' q = queues s q \<Longrightarrow>
     sem_count (semas s' (q_data (queues s q))) = sem_count (semas s (q_data (queues s q))) \<Longrightarrow>
     sem_count (semas s' (q_room (queues s q))) = sem_count (semas s (q_room (queues s q))) \<Longrightarrow>
     queue_run q s' sent rcvd r t"

definition queue_inv :: "addr \<Rightarrow> ('m, 'a) qw_scheme \<Rightarrow> 'm list \<Rightarrow> nat \<Rightarrow> nat \<Rightarrow> bool" where
  "queue_inv q s xs r t \<longleftrightarrow> q_ok (queues s q) \<and> contents (queues s q) = xs \<and> q_data (queues s q) \<noteq> q_room (queues s q)
     \<and> unat (sem_count (semas s (q_data (queues s q)))) + r = length xs
     \<and> unat (sem_count (semas s (q_room (queues s q)))) + t + length xs = length (ring (queues s q))"

lemma queue_inv_new:
  assumes "queues s q = Queue_new d rm cap z" and "d \<noteq> rm" and "semas s d = Semaphore_new 0"
    and "semas s rm = Semaphore_new (of_nat cap)" and "0 < cap" and "cap < 2 ^ 32" and "power_of_two (of_nat cap)"
  shows "queue_inv q s [] 0 0"
proof -
  have u: "unat (of_nat cap :: u32) = cap" using assms(6) by (simp add: unat_of_nat)
  then have "unat (of_nat cap - 1 :: u32) = cap - 1" using assms(5) unat_minus_one [of "of_nat cap :: u32"] by force
  moreover have "unat (of_nat cap AND (of_nat cap - 1) :: u32) = unat (of_nat cap :: u32) AND unat (of_nat cap - 1 :: u32)"
    by (rule unsigned_and_eq)
  ultimately have "cap AND (cap - 1) = 0" using assms(7) u by (simp add: power_of_two_def)
  then obtain k where k: "cap = 2 ^ k" using power_of_two_nat [OF assms(5)] by blast
  have "k < 32" by (rule power_less_imp_less_exp [of "2::nat"]) (use assms(6) k in \<open>simp_all only: one_less_numeral_iff semiring_norm\<close>)
  then have "q_ok (queues s q)" using k assms(1,5) by (auto simp: q_ok_def Queue_new_def)
  then show ?thesis using assms u by (simp add: queue_inv_def contents_def Queue_new_def Semaphore_new_def)
qed

lemma takes_count: "takes m True s s' \<Longrightarrow> unat (sem_count (semas s' m)) = unat (sem_count (semas s m)) - 1 \<and> 0 < unat (sem_count (semas s m))"
  using unat_minus_one [of "sem_count (semas s m)"] by (auto simp: takes_def unat_gt_0)

lemma queue_inv_unit:
  assumes "queue_inv q s xs r t" and "takes (q_data (queues s q)) b s s'"
  shows "queue_inv q s' xs (if b then Suc r else r) t"
  using assms takes_count [of "q_data (queues s q)" s s'] by (cases b) (auto simp: queue_inv_def takes_def)

lemma queue_inv_room:
  assumes "queue_inv q s xs r t" and "takes (q_room (queues s q)) b s s'"
  shows "queue_inv q s' xs r (if b then Suc t else t)"
  using assms takes_count [of "q_room (queues s q)" s s'] by (cases b) (auto simp: queue_inv_def takes_def)

lemma unat_suc_below: "unat x < n \<Longrightarrow> n < 2 ^ 32 \<Longrightarrow> unat (x + 1) = unat x + 1" for x :: u32
  by (simp add: unat_word_ariths)

lemma queue_inv_pop:
  assumes inv: "queue_inv q s xs (Suc r) t"
  shows "\<exists>s'. pop_ring q s = Some (hd xs, s') \<and> queue_inv q s' (tl xs) r t \<and> xs \<noteq> []"
proof -
  let ?v = "queues s q"
  define v' where "v' = ?v\<lparr>q_head := (q_head ?v + 1) AND (capacity ?v - 1), q_count := q_count ?v - 1\<rparr>"
  have ok: "q_ok ?v" and xs: "contents ?v = xs" and len: "unat (sem_count (semas s (q_data ?v))) + Suc r = length xs"
    and room: "unat (sem_count (semas s (q_room ?v))) + t + length xs = length (ring ?v)" and ne: "q_data ?v \<noteq> q_room ?v"
    using inv by (simp_all add: queue_inv_def)
  have c: "0 < unat (q_count ?v)" using len xs length_contents [of ?v] by simp
  have p: "q_ok v'" "xs = ring ?v ! unat (q_head ?v) # contents v'" using pop_contents [OF ok c] xs by (simp_all add: v'_def)
  have lt: "unat (q_head ?v) < length (ring ?v)" using ok by (simp add: q_ok_def)
  let ?s = "sys_unlock (release (q_room ?v) (set_queue q v' (sys_lock s)))"
  have pop: "pop_ring q s = Some (hd xs, ?s)"
    using lt p(2) by (simp add: pop_ring_def pop_ring_body_def v'_def Let_def)
  have "unat (sem_count (semas s (q_room ?v)) + 1) = unat (sem_count (semas s (q_room ?v))) + 1"
    using room p(2) q_ok_word(1) [OF ok] by (intro unat_suc_below [of _ "length (ring ?v)"]) simp_all
  moreover have "q_data v' = q_data ?v" "q_room v' = q_room ?v" "ring v' = ring ?v" by (simp_all add: v'_def)
  moreover have "contents v' = tl xs" "length xs = Suc (length (tl xs))" using p(2) by (metis list.sel(3)) (use p(2) in simp)
  ultimately have "queue_inv q ?s (tl xs) r t" using p(1) len room ne by (simp add: queue_inv_def)
  then show ?thesis using pop p(2) by blast
qed

lemma queue_inv_put:
  assumes inv: "queue_inv q s xs r (Suc t)"
  shows "\<exists>s'. put_ring q x s = Some s' \<and> queue_inv q s' (xs @ [x]) r t"
proof -
  let ?v = "queues s q"
  define i where "i = unat ((q_head ?v + q_count ?v) AND (capacity ?v - 1))"
  define v' where "v' = ?v\<lparr>ring := (ring ?v)[i := x], q_count := q_count ?v + 1\<rparr>"
  have ok: "q_ok ?v" and xs: "contents ?v = xs" and len: "unat (sem_count (semas s (q_data ?v))) + r = length xs"
    and room: "unat (sem_count (semas s (q_room ?v))) + Suc t + length xs = length (ring ?v)" and ne: "q_data ?v \<noteq> q_room ?v"
    using inv by (simp_all add: queue_inv_def)
  have c: "unat (q_count ?v) < length (ring ?v)" using room xs length_contents [of ?v] by simp
  have p: "i < length (ring ?v)" "q_ok v'" "contents v' = xs @ [x]" using put_contents [OF ok c] xs by (simp_all add: v'_def i_def)
  let ?s = "sys_unlock (release (q_data ?v) (set_queue q v' (sys_lock s)))"
  have put: "put_ring q x s = Some ?s"
    using p(1) by (simp add: put_ring_def put_ring_body_def CriticalGuard_opt_def v'_def i_def Let_def)
  have "unat (sem_count (semas s (q_data ?v)) + 1) = unat (sem_count (semas s (q_data ?v))) + 1"
    using room len q_ok_word(1) [OF ok] by (intro unat_suc_below [of _ "length (ring ?v)"]) simp_all
  moreover have "q_data v' = q_data ?v" "q_room v' = q_room ?v" "length (ring v') = length (ring ?v)" by (simp_all add: v'_def)
  ultimately have "queue_inv q ?s (xs @ [x]) r t" using p(2,3) len room ne by (simp add: queue_inv_def)
  then show ?thesis using put by blast
qed

lemma queue_run_inv: "queue_run q s sent rcvd r t \<Longrightarrow> \<exists>xs. sent = rcvd @ xs \<and> queue_inv q s xs r t"
proof (induction rule: queue_run.induct)
  case (start s d rm cap z)
  then show ?case using queue_inv_new [OF start] by simp
next
  case (get_unit s sent rcvd r t me task b s')
  then obtain xs where xs: "sent = rcvd @ xs" "queue_inv q s xs r t" by blast
  from queue_inv_unit [OF xs(2) acquire_turn_takes [OF get_unit.hyps(2)]] show ?case using xs(1) by blast
next
  case (try_unit s sent rcvd r t me ddl v s')
  then obtain xs where xs: "sent = rcvd @ xs" "queue_inv q s xs r t" by blast
  from queue_inv_unit [OF xs(2) try_acquire_turn_takes [OF try_unit.hyps(2)]] show ?case using xs(1) by blast
next
  case (try_room s sent rcvd r t me ddl v s')
  then obtain xs where xs: "sent = rcvd @ xs" "queue_inv q s xs r t" by blast
  from queue_inv_room [OF xs(2) try_acquire_turn_takes [OF try_room.hyps(2)]] show ?case using xs(1) by blast
next
  case (take_out s sent rcvd r t x s')
  then obtain xs where xs: "sent = rcvd @ xs" "queue_inv q s xs (Suc r) t" by blast
  from queue_inv_pop [OF xs(2)] show ?case using take_out.hyps(2) xs(1) by (intro exI [of _ "tl xs"]) auto
next
  case (put_in s sent rcvd r t x s')
  then obtain xs where xs: "sent = rcvd @ xs" "queue_inv q s xs r (Suc t)" by blast
  from queue_inv_put [OF xs(2), of x] show ?case using put_in.hyps(2) xs(1) by (intro exI [of _ "xs @ [x]"]) auto
next
  case (other s sent rcvd r t s')
  then show ?case by (auto simp: queue_inv_def)
qed


section \<open>One call at a time\<close>

text \<open>A non-blocking attempt decides at once.\<close>

lemma try_acquire_now:
  assumes h: "sem_holds s m ws" and me: "me \<notin> set ws"
  shows "\<exists>s'. (\<forall>world. try_acquire world m me 0 s = Some (if 0 < sem_count (semas s m) then Ok else TimedOut, s'))
    \<and> takes m (0 < sem_count (semas s m)) s s' \<and> qw.more s' = qw.more s"
proof -
  let ?s = "SemaWaiter_new me (sys_current_task s) s"
  define s0 where "s0 = (if 0 < sem_count (semas s m)
     then set_sema m ((semas s m)\<lparr>sem_count := sem_count (semas s m) - 1\<rparr>) (sys_lock ?s) else sys_lock ?s)"
  have sel: "semas ?s = semas s" "queues ?s = queues s" "now_tick ?s = now_tick s" by (simp_all add: SemaWaiter_new_def)
  have "sem_holds ?s m ws" using h me unfolding sem_holds_def SemaWaiter_new_def by (auto intro: rep_frame)
  then have "sem_holds s0 m ws" by (simp add: s0_def sem_holds_def sel)
  then obtain s1 where s1: "sem_remove m me s0 = Some s1" by (rule sem_remove_spec)
  then have "try_acquire_turn m me (now_tick s) ?s = Some (Some (if 0 < sem_count (semas s m) then Ok else TimedOut), sys_unlock s1)"
    by (auto simp: try_acquire_turn_def s0_def sel Let_def sys_now_def time_current_def Clock_current_def)
  then have "\<forall>world. try_acquire world m me 0 s = Some (if 0 < sem_count (semas s m) then Ok else TimedOut, sys_unlock s1)"
    by (simp add: try_acquire_def try_acquire_loop.simps sys_now_def time_current_def Clock_current_def)
  moreover have "takes m (0 < sem_count (semas s m)) s (sys_unlock s1)"
    using s1 by (auto simp: takes_def sem_remove_def s0_def sel)
  moreover have "qw.more (sys_unlock s1) = qw.more s" using s1 by (auto simp: sem_remove_def s0_def SemaWaiter_new_def)
  ultimately show ?thesis by blast
qed

lemma post_now:
  assumes inv: "queue_inv q s xs r t" and h: "sem_holds s (q_room (queues s q)) ws" and me: "me \<notin> set ws"
  shows "\<exists>s'. qw.more s' = qw.more s \<and> (if sem_count (semas s (q_room (queues s q))) = 0
    then (\<forall>world. post world q me x s = Some (QueueFull, s')) \<and> queue_inv q s' xs r t
    else (\<forall>world. post world q me x s = Some (QueueOk, s')) \<and> queue_inv q s' (xs @ [x]) r t)"
proof -
  let ?m = "q_room (queues s q)"
  obtain s1 where s1: "\<forall>world. try_acquire world ?m me 0 s = Some (if 0 < sem_count (semas s ?m) then Ok else TimedOut, s1)"
    "takes ?m (0 < sem_count (semas s ?m)) s s1" "qw.more s1 = qw.more s"
    using try_acquire_now [OF h me] by blast
  have inv1: "queue_inv q s1 xs r (if 0 < sem_count (semas s ?m) then Suc t else t)" by (rule queue_inv_room [OF inv s1(2)])
  show ?thesis
  proof (cases "0 < sem_count (semas s ?m)")
    case True
    then obtain s' where s': "put_ring q x s1 = Some s'" "queue_inv q s' (xs @ [x]) r t"
      using queue_inv_put [of q s1 xs r t x] inv1 by auto
    have "qw.more s' = qw.more s"
      using s'(1) s1(3) by (auto simp: put_ring_def put_ring_body_def CriticalGuard_opt_def Let_def split: if_splits)
    then show ?thesis using True s1(1) s' by (auto simp: post_def post_for_def kZeroWait_def word_neq_0_conv [symmetric])
  next
    case False
    then show ?thesis using s1(1,3) inv1 by (auto simp: post_def post_for_def kZeroWait_def word_neq_0_conv [symmetric])
  qed
qed

lemma receive_now:
  assumes inv: "queue_inv q s xs r t" and h: "sem_holds s (q_data (queues s q)) ws" and me: "me \<notin> set ws"
  shows "\<exists>s'. if sem_count (semas s (q_data (queues s q))) = 0
    then receive_one_for world q me 0 s = Some (Inl QueueTimeout, s') \<and> queue_inv q s' xs r t
    else receive_one_for world q me 0 s = Some (Inr (hd xs), s') \<and> queue_inv q s' (tl xs) r t"
proof -
  let ?m = "q_data (queues s q)"
  obtain s1 where s1: "try_acquire world ?m me 0 s = Some (if 0 < sem_count (semas s ?m) then Ok else TimedOut, s1)"
    "takes ?m (0 < sem_count (semas s ?m)) s s1"
    using try_acquire_now [OF h me] by blast
  have inv1: "queue_inv q s1 xs (if 0 < sem_count (semas s ?m) then Suc r else r) t" by (rule queue_inv_unit [OF inv s1(2)])
  show ?thesis
  proof (cases "0 < sem_count (semas s ?m)")
    case True
    then obtain s' where "pop_ring q s1 = Some (hd xs, s')" "queue_inv q s' (tl xs) r t"
      using queue_inv_pop [of q s1 xs r t] inv1 by auto
    then show ?thesis using True s1(1) by (auto simp: receive_one_for_def word_neq_0_conv [symmetric])
  next
    case False
    then show ?thesis using s1(1) inv1 by (auto simp: receive_one_for_def word_neq_0_conv [symmetric])
  qed
qed

lemma acquire_now:
  assumes h: "sem_holds s m ws" and me: "me \<notin> set ws" and unit: "0 < sem_count (semas s m)"
  shows "\<exists>s'. acquire world m me s = Some s' \<and> takes m True s s'"
proof -
  let ?s = "SemaWaiter_new me (sys_current_task s) s"
  have sel: "semas ?s = semas s" "queues ?s = queues s" by (simp_all add: SemaWaiter_new_def)
  have "sem_holds ?s m ws" using h me unfolding sem_holds_def SemaWaiter_new_def by (auto intro: rep_frame)
  then have "sem_holds (set_sema m ((semas s m)\<lparr>sem_count := sem_count (semas s m) - 1\<rparr>) (sys_lock ?s)) m ws"
    by (simp add: sem_holds_def sel)
  then obtain s1 where "sem_remove m me (set_sema m ((semas s m)\<lparr>sem_count := sem_count (semas s m) - 1\<rparr>) (sys_lock ?s)) = Some s1"
    by (rule sem_remove_spec)
  then have turn: "acquire_turn m me (sys_current_task s) ?s = Some (True, sys_unlock s1)"
    using unit by (simp add: acquire_turn_def sel Let_def)
  then have "acquire world m me s = Some (sys_unlock s1)" by (simp add: acquire_def acquire_loop.simps Let_def)
  moreover have "takes m True s (sys_unlock s1)" using acquire_turn_takes [OF turn] by (simp add: takes_def sel)
  ultimately show ?thesis by blast
qed

section \<open>Properties\<close>

text \<open>C10: the message queue under every interleaving. Whatever senders, receivers and other tasks do between their
  critical sections, the messages taken are, in order, the first ones stored, and the rest is in the ring:
  nothing is lost, doubled or reordered, and the ring never holds more than its capacity. The counters of the
  two semaphores are exact, so a receiver that was given a unit finds a message and a sender that was given
  room finds a free slot.\<close>

theorem queue_is_fifo:
  assumes "queue_run q s sent rcvd r t"
  shows "\<exists>xs. sent = rcvd @ xs \<and> contents (queues s q) = xs \<and> length xs \<le> length (ring (queues s q))
    \<and> unat (sem_count (semas s (q_data (queues s q)))) + r = length xs
    \<and> unat (sem_count (semas s (q_room (queues s q)))) + t + length xs = length (ring (queues s q))
    \<and> (0 < r \<longrightarrow> xs \<noteq> [] \<and> (\<exists>s'. pop_ring q s = Some (hd xs, s')))
    \<and> (0 < t \<longrightarrow> (\<forall>x. \<exists>s'. put_ring q x s = Some s'))"
proof -
  obtain xs where xs: "sent = rcvd @ xs" "queue_inv q s xs r t" using queue_run_inv [OF assms] by blast
  have pop: "xs \<noteq> [] \<and> (\<exists>s'. pop_ring q s = Some (hd xs, s'))" if "0 < r"
    using queue_inv_pop [of q s xs "r - 1" t] xs(2) that by auto
  have put: "\<exists>s'. put_ring q x s = Some s'" if "0 < t" for x
    using queue_inv_put [of q s xs r "t - 1" x] xs(2) that by auto
  show ?thesis using xs pop put by (intro exI [of _ xs]) (auto simp: queue_inv_def)
qed

text \<open>One running task and an empty queue of four slots at address 9.\<close>

definition qw_up :: "nat qw" where
  "qw_up = wn.extend (wn_up\<lparr>semas := (\<lambda>m. if m = 21 then Semaphore_new 4 else Semaphore_new 0)\<rparr>)
     \<lparr>queues = (\<lambda>_. Queue_new 20 21 4 0), workers = (\<lambda>_. \<lparr>wk_task = None, wk_queue = 0, wk_box = 0, wk_stack = \<lparr>span_data = 0, span_size = 0\<rparr>\<rparr>)\<rparr>"

lemma qw_up_run: "queue_run 9 qw_up [] [] 0 0"
  by (rule queue_run.start [where d = 20 and rm = 21 and cap = 4 and z = 0])
     (simp_all add: qw_up_def wn.defs power_of_two_def)

lemma qw_up_holds: "sem_holds qw_up m []"
  by (simp add: sem_holds_def qw_up_def wn.defs Semaphore_new_def rep_new wn_up_def sys.defs)

theorem queue_is_fifo_witness:
  "\<exists>s s' :: nat qw. queue_run 9 s [] [] 0 1 \<and> put_ring 9 5 s = Some s'"
proof -
  have "queue_inv 9 qw_up [] 0 0" using queue_run_inv [OF qw_up_run] by simp
  moreover have m: "q_room (queues qw_up 9) = 21" and c: "sem_count (semas qw_up 21) = 4"
    by (simp_all add: qw_up_def wn.defs Queue_new_def Semaphore_new_def)
  have "sem_holds (sys_lock qw_up) 21 []" using qw_up_holds [of 21] by (simp add: sem_holds_def)
  then have "sem_holds (set_sema 21 ((semas qw_up 21)\<lparr>sem_count := 3\<rparr>) (sys_lock qw_up)) 21 []" by (simp add: sem_holds_def)
  then obtain s1 where s1: "sem_remove 21 8 (set_sema 21 ((semas qw_up 21)\<lparr>sem_count := 3\<rparr>) (sys_lock qw_up)) = Some s1"
    by (rule sem_remove_spec)
  then have "try_acquire_turn (q_room (queues qw_up 9)) 8 0 qw_up = Some (Some Ok, sys_unlock s1)"
    by (simp add: try_acquire_turn_def m c Let_def)
  from queue_run.try_room [OF qw_up_run this] have run: "queue_run 9 (sys_unlock s1) [] [] 0 1" by simp
  then show ?thesis using queue_is_fifo [OF run] by auto
qed

text \<open>Posting and receiving without waiting. \<open>post\<close> puts its message behind the others, or answers
  \<open>Full\<close> exactly when there is no room and leaves the queue as it is; receiving takes the oldest message, or answers
  \<open>Timeout\<close> exactly when there is no unit of data. So what is posted into an empty queue is what is received.\<close>

theorem queue_post_receive:
  assumes inv: "queue_inv q s xs r t"
    and room: "sem_holds s (q_room (queues s q)) ws" and data: "sem_holds s (q_data (queues s q)) ws'" and me: "me \<notin> set ws" "me \<notin> set ws'"
  shows "(\<exists>s'. if sem_count (semas s (q_room (queues s q))) = 0
      then post world q me x s = Some (QueueFull, s') \<and> queue_inv q s' xs r t
      else post world q me x s = Some (QueueOk, s') \<and> queue_inv q s' (xs @ [x]) r t)
    \<and> (\<exists>s'. if sem_count (semas s (q_data (queues s q))) = 0
      then receive_one_for world q me 0 s = Some (Inl QueueTimeout, s') \<and> queue_inv q s' xs r t
      else receive_one_for world q me 0 s = Some (Inr (hd xs), s') \<and> queue_inv q s' (tl xs) r t)"
  using post_now [OF inv room me(1), of x] receive_now [OF inv data me(2), of world] by (auto split: if_splits)

theorem queue_post_receive_witness:
  "\<exists>s'. post (\<lambda>s. None) 9 8 5 qw_up = Some (QueueOk, s') \<and> contents (queues s' 9) = [5]"
proof -
  have i: "queue_inv 9 qw_up [] 0 0" using queue_run_inv [OF qw_up_run] by simp
  have "sem_count (semas qw_up (q_room (queues qw_up 9))) = 4"
    by (simp add: qw_up_def wn.defs Queue_new_def Semaphore_new_def)
  then show ?thesis
    using queue_post_receive [OF i qw_up_holds qw_up_holds, of 8 "\<lambda>s. None" 5] by (auto simp: queue_inv_def)
qed


text \<open>C25: deferred work. Deferring before \<open>setup\<close> never comes back. Afterwards, as long as there is room, it
  appends the work to the worker's queue and reports success; each turn of the worker's loop that has a unit of
  data takes the oldest work out of the queue and runs it.\<close>

theorem deferred_work_runs:
  assumes inv: "queue_inv q s xs r t" and q: "wk_queue (workers s w) = q"
    and room: "sem_holds s (q_room (queues s q)) ws" and data: "sem_holds s (q_data (queues s q)) ws'" and me: "me \<notin> set ws" "me \<notin> set ws'"
  shows "(wk_task (workers s w) = None \<longrightarrow> work_defer world w me f arg s = None)
    \<and> (wk_task (workers s w) \<noteq> None \<and> sem_count (semas s (q_room (queues s q))) \<noteq> 0 \<longrightarrow>
         (\<exists>s'. work_defer world w me f arg s = Some (True, s') \<and> queue_inv q s' (xs @ [\<lparr>cb_fn = f, cb_arg = arg\<rparr>]) r t))
    \<and> (sem_count (semas s (q_data (queues s q))) \<noteq> 0 \<longrightarrow>
         (\<exists>s'. Loop_turn user world w me s = Callback_invoke user (hd xs) s' \<and> queue_inv q s' (tl xs) r t))"
proof (intro conjI impI)
  show "work_defer world w me f arg s = None" if "wk_task (workers s w) = None"
    using that by (simp add: work_defer_def debug_Check_def)
  show "\<exists>s'. work_defer world w me f arg s = Some (True, s') \<and> queue_inv q s' (xs @ [\<lparr>cb_fn = f, cb_arg = arg\<rparr>]) r t"
    if "wk_task (workers s w) \<noteq> None \<and> sem_count (semas s (q_room (queues s q))) \<noteq> 0"
    using that post_now [OF inv room me(1), of "\<lparr>cb_fn = f, cb_arg = arg\<rparr>"] q
    by (auto simp: work_defer_def debug_Check_def)
  assume "sem_count (semas s (q_data (queues s q))) \<noteq> 0"
  then have "0 < sem_count (semas s (q_data (queues s q)))" by (simp add: word_neq_0_conv)
  then obtain s1 where s1: "acquire world (q_data (queues s q)) me s = Some s1" "takes (q_data (queues s q)) True s s1"
    using acquire_now [OF data me(2)] by blast
  have "queue_inv q s1 xs (Suc r) t" using queue_inv_unit [OF inv s1(2)] by simp
  then obtain s' where "pop_ring q s1 = Some (hd xs, s')" "queue_inv q s' (tl xs) r t" using queue_inv_pop by blast
  then show "\<exists>s'. Loop_turn user world w me s = Callback_invoke user (hd xs) s' \<and> queue_inv q s' (tl xs) r t"
    using s1(1) q by (auto simp: Loop_turn_def receive_one_def)
qed

text \<open>A worker at address 5 whose queue, at address 9, has four slots.\<close>

definition worker_up :: "Callback qw" where
  "worker_up = wn.extend (wn_up\<lparr>semas := (\<lambda>m. if m = 21 then Semaphore_new 4 else Semaphore_new 0)\<rparr>)
     \<lparr>queues = (\<lambda>_. Queue_new 20 21 4 \<lparr>cb_fn = None, cb_arg = None\<rparr>),
      workers = (\<lambda>_. \<lparr>wk_task = None, wk_queue = 9, wk_box = 40, wk_stack = \<lparr>span_data = 512, span_size = 128\<rparr>\<rparr>)\<rparr>"

theorem deferred_work_runs_witness:
  "\<exists>s'. work_defer (\<lambda>s. None) 5 8 (Some 7) None (snd (work_setup 6 5 3 ''worker'' worker_up)) = Some (True, s')"
proof -
  let ?s = "snd (work_setup 6 5 3 ''worker'' worker_up)"
  have "queue_run 9 ?s [] [] 0 0"
    by (rule queue_run.start [where d = 20 and rm = 21 and cap = 4 and z = "\<lparr>cb_fn = None, cb_arg = None\<rparr>"])
       (simp_all add: worker_up_def wn.defs power_of_two_def work_setup_def worker_setup_def set_worker_def construct_tcb_def Let_def)
  then have i: "queue_inv 9 ?s [] 0 0" using queue_run_inv by fastforce
  have h: "sem_holds ?s m []" for m
    by (simp add: sem_holds_def worker_up_def work_setup_def worker_setup_def set_worker_def construct_tcb_def Let_def wn.defs Semaphore_new_def rep_new wn_up_def sys.defs)
  have q: "wk_queue (workers ?s 5) = 9" "wk_task (workers ?s 5) \<noteq> None" "sem_count (semas ?s (q_room (queues ?s 9))) \<noteq> 0"
    by (simp_all add: worker_up_def work_setup_def worker_setup_def set_worker_def construct_tcb_def Let_def wn.defs Queue_new_def Semaphore_new_def)
  show ?thesis
    using deferred_work_runs [OF i q(1) h h, of 8 "\<lambda>s. None" "Some 7" None "\<lambda>f x s. Some s"] q(2,3) by auto
qed

end
