(* ===== verification/Demo_Programs.thy ===== *)
theory Demo_Programs
  imports Board_Boot Program_Start Msg_Queue
begin

text \<open>
  The \<open>main\<close> functions of the example programs (\<^verbatim>\<open>src/board/stm32f103_bluepill/example\<close> and
  \<^verbatim>\<open>src/board/mps2_an385/example\<close>): the opening ritual of the board, the launches, the timers that are armed before
  the start, and \<open>start_scheduler\<close>. The addresses of the task functions, of the timers and of the callbacks are
  arguments; what the hardware does, the linker's image and the testament functions are the record \<open>board_env\<close>.
  The theorem puts the ritual and the start together: from a fresh chip, a program that only launches tasks comes up
  with its banner on the wire and a machine in order.
\<close>

section \<open>The programs\<close>

record 's board_env =
  env_masks :: usart_masks
  env_rcc :: "clk \<Rightarrow> clk"
  env_usart :: "usart \<Rightarrow> usart"
  env_fns :: "addr \<times> addr"
  env_line :: "char list"
  env_image :: image
  env_idle :: addr
  env_report :: "'s reporter"

type_synonym 'a bp = "'a bluepill_scheme"
type_synonym 'a bp_env = "'a bluepill_scheme board_env"
type_synonym 'a bp_state = "'a bluepill_scheme logging \<times> 'a bluepill_scheme"

definition demo_setup :: "'a bp_env \<Rightarrow> string \<Rightarrow> bool \<Rightarrow> 'a bp_state \<Rightarrow> 'a bp_state option" where
  "demo_setup E name with_tick = bluepill_setup (env_masks E) (env_rcc E) (env_usart E) (env_fns E) (env_line E) name with_tick"

definition demo_start :: "'a bp_env \<Rightarrow> 'a bp \<Rightarrow> 'a bp option" where
  "demo_start E = start_scheduler (env_image E) (env_idle E) (env_report E)"

text \<open>The programs that launch their tasks and start.\<close>

definition launch_program :: "'a bp_env \<Rightarrow> string \<Rightarrow> bool \<Rightarrow> Launchable list \<Rightarrow> 'a bp_state \<Rightarrow> (addr list \<times> 'a bp_state) option" where
  "launch_program E name with_tick specs ls = do {
     (l, s1) \<leftarrow> demo_setup E name with_tick ls;
     (bs, s2) \<leftarrow> launch_all (env_image E) specs s1;
     s3 \<leftarrow> demo_start E s2;
     Some (bs, l, s3)
   }"

definition inversion_main :: "'a bp_env \<Rightarrow> addr \<Rightarrow> addr \<Rightarrow> addr \<Rightarrow> 'a bp_state \<Rightarrow> (addr list \<times> 'a bp_state) option" where
  "inversion_main E task_holder task_urgent task_bully =
     launch_program E ''priority inheritance'' True (inversion_tasks task_holder task_urgent task_bully)"

definition watermark_main :: "'a bp_env \<Rightarrow> addr \<Rightarrow> addr \<Rightarrow> addr \<Rightarrow> 'a bp_state \<Rightarrow> (addr list \<times> 'a bp_state) option" where
  "watermark_main E deep shallow reporter = launch_program E ''stack watermark'' True (watermark_tasks deep shallow reporter)"

definition testaments_main :: "'a bp_env \<Rightarrow> addr \<Rightarrow> addr \<Rightarrow> 'a bp_state \<Rightarrow> (addr list \<times> 'a bp_state) option" where
  "testaments_main E heartbeat terminal =
     launch_program E ''testaments (inject 'x' or 'y')'' True (testaments_tasks heartbeat terminal)"

definition heartbeat_main :: "'a bp_env \<Rightarrow> addr \<Rightarrow> addr \<Rightarrow> addr \<Rightarrow> 'a bp_state \<Rightarrow> (addr list \<times> 'a bp_state) option" where
  "heartbeat_main E heartbeat hello task = launch_program E ''heartbeat'' True (heartbeat_tasks heartbeat hello task)"

definition round_robin_main :: "'a bp_env \<Rightarrow> addr \<Rightarrow> addr \<Rightarrow> addr \<Rightarrow> 'a bp_state \<Rightarrow> (addr list \<times> 'a bp_state) option" where
  "round_robin_main E spinner rr1 rr2 = launch_program E ''round robin'' True (round_robin_tasks spinner rr1 rr2)"

definition tickless_main :: "'a bp_env \<Rightarrow> addr \<Rightarrow> 'a bp_state \<Rightarrow> (addr list \<times> 'a bp_state) option" where
  "tickless_main E napper = launch_program E ''tickless'' True (tickless_tasks napper)"

text \<open>\<open>perf\<close> also starts the cycle counter; \<open>no_tick\<close> is its build switch \<^verbatim>\<open>ZEROS_PERF_NO_TICK\<close>. The first of the boxes is \<open>g_reporter\<close>.\<close>

definition perf_main ::
  "bool \<Rightarrow> 'a bp_env \<Rightarrow> addr \<Rightarrow> addr \<Rightarrow> addr \<Rightarrow> dwt \<times> 'a bp_state \<Rightarrow> (addr list \<times> dwt \<times> 'a bp_state) option" where
  "perf_main no_tick E reporter ping pong dls = do {
     let (d, ls) = dls;
     (l, s1) \<leftarrow> (if no_tick then demo_setup E ''performance (no tick)'' False ls else demo_setup E ''performance'' True ls);
     let d1 = dwt_init d;
     (bs, s2) \<leftarrow> launch_all (env_image E) (perf_tasks reporter ping pong) s1;
     s3 \<leftarrow> demo_start E s2;
     Some (bs, d1, l, s3)
   }"

text \<open>\<open>blink\<close> sets up the pin of the LED, PC13.\<close>

definition LedPin :: Gpio where
  "LedPin = \<lparr>PORT = PortC, MASK = push_bit 13 1, DIR = Output, PULL = PullNone\<rparr>"

definition blink_main :: "'a bp_env \<Rightarrow> addr \<Rightarrow> pins \<times> 'a bp_state \<Rightarrow> (addr list \<times> pins \<times> 'a bp_state) option" where
  "blink_main E blinker pls = do {
     let (p, ls) = pls;
     (l, s1) \<leftarrow> demo_setup E ''blink'' True ls;
     let p1 = gpio_init LedPin p;
     (bs, s2) \<leftarrow> launch_all (env_image E) [task_chain ''blink'' 1 64 blinker None] s1;
     s3 \<leftarrow> demo_start E s2;
     Some (bs, p1, l, s3)
   }"

text \<open>The programs that arm timers before they start.\<close>

definition timers_main :: "'a bp_env \<Rightarrow> addr \<times> addr \<Rightarrow> addr \<times> addr \<Rightarrow> 'a bp_state \<Rightarrow> 'a bp_state option" where
  "timers_main E tms fns ls = do {
     let (g_oneshot, g_periodic) = tms;
     let (once, beat) = fns;
     (l, s1) \<leftarrow> demo_setup E ''software timers'' True ls;
     s2 \<leftarrow> Timer_oneshot g_oneshot 300 (Some once) None s1;
     s3 \<leftarrow> Timer_periodic g_periodic 250 (Some beat) None s2;
     s4 \<leftarrow> demo_start E s3;
     Some (l, s4)
   }"

definition event_stream_main :: "'a bp_env \<Rightarrow> addr \<Rightarrow> addr \<Rightarrow> addr \<Rightarrow> 'a bp_state \<Rightarrow> (addr \<times> 'a bp_state) option" where
  "event_stream_main E g_feeder consumer drop_one ls = do {
     (l, s1) \<leftarrow> demo_setup E ''event stream'' True ls;
     (b, s2) \<leftarrow> launch (env_image E) (task_chain ''consumer'' 1 96 consumer None) s1;
     s3 \<leftarrow> Timer_periodic g_feeder 500 (Some drop_one) None s2;
     s4 \<leftarrow> demo_start E s3;
     Some (b, l, s4)
   }"

definition events_notify_main ::
  "'a bp_env \<Rightarrow> addr \<times> addr \<times> addr \<Rightarrow> addr \<times> addr \<Rightarrow> addr \<times> addr \<times> addr \<Rightarrow> 'a bp_state \<Rightarrow> (addr list \<times> 'a bp_state) option" where
  "events_notify_main E tms tasks fns ls = do {
     let (g_hand_a, g_hand_b, g_postman) = tms;
     let (key_waiter, mailbox_task) = tasks;
     let (press_a, press_b, drop_letter) = fns;
     (l, s1) \<leftarrow> demo_setup E ''events and notify'' True ls;
     (bs, s2) \<leftarrow> launch_all (env_image E) [task_chain ''waiter'' 1 96 key_waiter None, task_chain ''reader'' 1 96 mailbox_task None] s1;
     s3 \<leftarrow> Timer_oneshot g_hand_a 400 (Some press_a) None s2;
     s4 \<leftarrow> Timer_oneshot g_hand_b 900 (Some press_b) None s3;
     s5 \<leftarrow> Timer_oneshot g_postman 600 (Some drop_letter) None s4;
     s6 \<leftarrow> demo_start E s5;
     Some (bs, l, s6)
   }"

definition bottom_half_main ::
  "'a bp_env \<Rightarrow> addr \<times> addr \<Rightarrow> addr \<Rightarrow> addr \<Rightarrow> worker \<times> 'a bp_state \<Rightarrow> (worker \<times> 'a bp_state) option" where
  "bottom_half_main E objs loop_fn drop_job vls = do {
     let (g_worker, g_interrupt) = objs;
     let (v, ls) = vls;
     (l, s1) \<leftarrow> demo_setup E ''bottom half'' True ls;
     let (b, v1, s2) = worker_setup loop_fn g_worker 2 ''worker'' (v, s1);
     let s3 = spawn (env_image E) b s2;
     s4 \<leftarrow> Timer_periodic g_interrupt 1000 (Some drop_job) None s3;
     s5 \<leftarrow> demo_start E s4;
     Some (v1, l, s5)
   }"

text \<open>The MPS2 board has one program.\<close>

definition mps2_heartbeat_main ::
  "(cmsdk_uart \<Rightarrow> cmsdk_uart) \<Rightarrow> addr \<times> addr \<Rightarrow> char list \<Rightarrow> image \<Rightarrow> addr \<Rightarrow> 'a mps2_scheme reporter \<Rightarrow> addr \<Rightarrow> addr \<Rightarrow> addr
    \<Rightarrow> 'a mps2_scheme logging \<times> 'a mps2_scheme \<Rightarrow> (addr list \<times> 'a mps2_scheme logging \<times> 'a mps2_scheme) option" where
  "mps2_heartbeat_main hwu fns line im idle_fn report heartbeat hello task ls = do {
     (l, s1) \<leftarrow> mps2_setup hwu fns line ''heartbeat (mps2)'' ls;
     (bs, s2) \<leftarrow> launch_all im (heartbeat_tasks heartbeat hello task) s1;
     s3 \<leftarrow> start_scheduler im idle_fn report s2;
     Some (bs, l, s3)
   }"

section \<open>From reset to the first task\<close>

definition env_ok :: "cmsis \<Rightarrow> 'a bp_env \<Rightarrow> 'a bp \<Rightarrow> bool" where
  "env_ok m E s \<longleftrightarrow> rcc_hw (env_rcc E) \<and> cmsis_f103 m \<and> \<not> bit (rcc_cr (clk_tree s)) 17 \<and> usart_hw (env_masks E) (env_usart E)
     \<and> length (env_line E) = kLineBuffer \<and> image_ok (env_image E)"

lemma fresh_setup: "fresh_machine (install_default_testaments fns (s\<lparr>clk_tree := c, usart_line := u\<rparr>)) = fresh_machine s"
  by (simp add: fresh_machine_def install_default_testaments_def refines_def levels_def tk_inv_def tq_inv_def alarm_inv_def
      by_rel_def half_circle_def rep_def)

lemma launch_program_run:
  assumes "demo_setup E name True (l, s) = Some (l1, init_time 72000 s1)"
  shows "launch_program E name True specs (l, s) =
    map_option (\<lambda>(bs, s'). (bs, l1, s')) (run_program (env_image E) 72000 specs (env_idle E) (env_report E) s1)"
  using assms by (simp add: launch_program_def demo_start_def run_program_def map_option_case split: bind_splits option.splits)

text \<open>What the chip's registers and the serial line keep over the start.\<close>

lemma board_of_mach:
  fixes s s' :: "'a bp"
  assumes "mach.more s' = mach.more s"
  shows "clk_tree s' = clk_tree s" "usart_line s' = usart_line s" "fault_sink s' = fault_sink s"
  using assms by (cases s; cases s'; simp)+

section \<open>Properties\<close>

text \<open>Every program that is shipped fits the block of the launch arena, as long as a control block with its alignment takes
  at most 205 bytes; and every one of its launches asks for a real level, an even number of words and room for a
  context and the canary.\<close>

theorem shipped_programs_fit:
  assumes "unat (tcb_size im) + unat (tcb_align im) \<le> 205"
    and "p \<in> {inversion_tasks f g h, perf_tasks f g h, watermark_tasks f g h, testaments_tasks f g, heartbeat_tasks f g h,
      round_robin_tasks f g h, tickless_tasks f, [task_chain ''blink'' 1 64 f None], [task_chain ''consumer'' 1 96 f None],
      [task_chain ''waiter'' 1 96 f None, task_chain ''reader'' 1 96 g None]}"
  shows "list_all spec_ok p \<and> sum_list (map (spec_need im) p) \<le> unat kTaskArenaBytes"
  using assms by (auto simp: program_defs spec_ok_def spec_need_def kTaskArenaBytes_def)

theorem shipped_programs_fit_witness: "sum_list (map (spec_need demo_image) (perf_tasks 1 2 3)) \<le> 2048"
  using shipped_programs_fit [of demo_image "perf_tasks 1 2 3" 1 2 3] by (simp add: demo_image_def kTaskArenaBytes_def)

text \<open>C8: a demo comes up. On a board whose clocks and serial line answer, with the memory as the startup code leaves it, every
  program that sets up, launches tasks that fit and starts the scheduler gets to its first task: the core runs at
  72 MHz, the banner has gone out on the wire, log and testaments are wired, every task has its control
  block, the machine is in order and a task of the best priority is about to be entered.\<close>

theorem demo_boots:
  assumes env: "env_ok m E s" and fresh: "fresh_machine s" and name: "CHR 0x00 \<notin> set name" and specs: "list_all spec_ok specs"
    and room: "sum_list (map (spec_need (env_image E)) specs) \<le> unat (left (task_arena s))"
  shows "\<exists>bs l' s' t. launch_program E name True specs (l, s) = Some (bs, l', s') \<and> length bs = length specs \<and> distinct bs
    \<and> machine_inv (set bs) (first_ctx (env_image E) s', s') \<and> current s' = Some t \<and> core s' = first_frame (env_image E) t
    \<and> (if specs = [] then t = idle_task else t \<in> set bs \<and> (\<forall>u \<in> set bs. task_priority (tcbs s' t) \<le> task_priority (tcbs s' u)))
    \<and> SystemCoreClockUpdate m (clk_tree s') = 72000000 \<and> us_sent (usart_line s') = us_sent (usart_line s) @ map of_char (banner name)
    \<and> the_channel l' = Some (bluepill_channel (env_masks E) (env_usart E))
    \<and> overflow_reporter s' = Some (fst (env_fns E)) \<and> fault_sink s' = Some (snd (env_fns E))"
proof -
  have e: "rcc_hw (env_rcc E)" "cmsis_f103 m" "\<not> bit (rcc_cr (clk_tree s)) 17" "usart_hw (env_masks E) (env_usart E)"
    "length (env_line E) = kLineBuffer" and im: "image_ok (env_image E)" using env by (simp_all add: env_ok_def)
  let ?l = "RegisterGlobalChannel (bluepill_channel (env_masks E) (env_usart E)) l"
  obtain c u where u: "demo_setup E name True (l, s) =
      Some (?l, init_time 72000 (install_default_testaments (env_fns E) (s\<lparr>clk_tree := c, usart_line := u\<rparr>)))"
    "SystemCoreClockUpdate m c = 72000000" "us_sent u = us_sent (usart_line s) @ map of_char (banner name)"
    using bluepill_setup_shape [OF e name, of "env_fns E" True l] unfolding demo_setup_def by (metis (full_types))
  define s1 where "s1 = install_default_testaments (env_fns E) (s\<lparr>clk_tree := c, usart_line := u\<rparr>)"
  have s1: "clk_tree s1 = c" "usart_line s1 = u" "fault_sink s1 = Some (snd (env_fns E))" "task_arena s1 = task_arena s"
    "overflow_reporter s1 = Some (fst (env_fns E))" by (simp_all add: s1_def install_default_testaments_def)
  have init: "clk_tree (init_time 72000 s1) = clk_tree s1" "usart_line (init_time 72000 s1) = usart_line s1"
    "fault_sink (init_time 72000 s1) = fault_sink s1" by (simp_all add: init_time_def write_timer_def Let_def)
  have f: "fresh_machine s1" using fresh by (simp add: s1_def fresh_setup)
  have r: "sum_list (map (spec_need (env_image E)) specs) \<le> unat (left (task_arena s1))" using room s1(4) by simp
  obtain bs s' where p: "run_program (env_image E) 72000 specs (env_idle E) (env_report E) s1 = Some (bs, s')" "length bs = length specs"
      "distinct bs" "machine_inv (set bs) (first_ctx (env_image E) s', s')" "mach.more s' = mach.more (init_time 72000 s1)"
      "overflow_reporter s' = overflow_reporter s1"
    and t: "\<exists>t. current s' = Some t \<and> core s' = first_frame (env_image E) t \<and> psp s' = stack_top (tcbs s' t)
      \<and> (if specs = [] then t = idle_task else t \<in> set bs \<and> (\<forall>u \<in> set bs. task_priority (tcbs s' t) \<le> task_priority (tcbs s' u)))"
    using program_starts [OF f, of 72000, OF _ _ im specs r, of "env_idle E" "env_report E"] by auto
  have "launch_program E name True specs (l, s) = Some (bs, ?l, s')"
    using launch_program_run [OF u(1) [folded s1_def]] p(1) by simp
  then show ?thesis
    using p t board_of_mach [OF p(5)] u(2,3) s1 init by (auto simp: RegisterGlobalChannel_def)
qed

text \<open>The board of the witness: \<open>inversion\<close> on a fresh chip, its tasks at made-up addresses.\<close>

definition fresh_board :: bluepill where
  "fresh_board = stk.extend fresh_chip \<lparr>msp = 0, scb_cfsr = 0, scb_hfsr = 0, scb_bfar = 0, fault_sink = None,
     clk_tree = \<lparr>rcc_cr = 0x83, rcc_cfgr = 0, flash_acr = 0x30\<rparr>, usart_line = usart_off\<rparr>"

definition demo_env :: "bluepill board_env" where
  "demo_env = \<lparr>env_masks = f103_usart, env_rcc = prompt_hw, env_usart = prompt_usart, env_fns = (1, 2),
     env_line = replicate 128 CHR 0x00, env_image = demo_image, env_idle = 0x400, env_report = (\<lambda>f t n s. None)\<rparr>"

lemma fresh_extend: "fresh_machine (stk.extend s e) = fresh_machine s"
  by (cases s) (simp add: stk.defs fresh_machine_def refines_def levels_def tk_inv_def tq_inv_def alarm_inv_def by_rel_def half_circle_def rep_def)

lemma arena_extend: "task_arena (stk.extend s e) = task_arena s"
  by (cases s) (simp add: stk.defs)

lemma fresh_board_ok: "fresh_machine fresh_board" "env_ok f103_masks demo_env fresh_board" "unat (left (task_arena fresh_board)) = 2048"
proof -
  show "fresh_machine fresh_board" using fresh_chip_ok(1) by (simp add: fresh_board_def fresh_extend)
  have "clk_tree fresh_board = \<lparr>rcc_cr = 0x83, rcc_cfgr = 0, flash_acr = 0x30\<rparr>" by (simp add: fresh_board_def stk.defs)
  then show "env_ok f103_masks demo_env fresh_board"
    using prompt_hw_laws prompt_lines(1)
    by (simp add: env_ok_def demo_env_def cmsis_f103_def f103_masks_def kLineBuffer_def image_ok_def demo_image_def)
  show "unat (left (task_arena fresh_board)) = 2048" by (simp add: fresh_board_def arena_extend fresh_chip_ok(2))
qed

theorem demo_boots_witness:
  "\<exists>bs l' s'. inversion_main demo_env 0x100 0x200 0x300 (\<lparr>the_channel = None\<rparr>, fresh_board) = Some (bs, l', s')
     \<and> length bs = 3 \<and> machine_inv (set bs) (first_ctx demo_image s', s') \<and> SystemCoreClockUpdate f103_masks (clk_tree s') = 72000000"
proof -
  let ?p = "inversion_tasks 0x100 0x200 0x300"
  have n: "CHR 0x00 \<notin> set ''priority inheritance''" by simp
  have sp: "list_all spec_ok ?p" by (simp add: program_defs spec_ok_def)
  have room: "sum_list (map (spec_need (env_image demo_env)) ?p) \<le> unat (left (task_arena fresh_board))"
    by (simp add: program_defs spec_need_def demo_env_def demo_image_def fresh_board_ok(3))
  have im: "env_image demo_env = demo_image" by (simp add: demo_env_def)
  obtain bs l' s' where r: "launch_program demo_env ''priority inheritance'' True ?p (\<lparr>the_channel = None\<rparr>, fresh_board) = Some (bs, l', s')"
    "length bs = length ?p" "machine_inv (set bs) (first_ctx demo_image s', s')" "SystemCoreClockUpdate f103_masks (clk_tree s') = 72000000"
    using demo_boots [OF fresh_board_ok(2,1) n sp room, of "\<lparr>the_channel = None\<rparr>"] unfolding im by blast
  moreover have "length ?p = 3" by (simp add: inversion_tasks_def)
  ultimately show ?thesis by (auto simp: inversion_main_def)
qed

end
