(* ===== verification/Demo_Time.thy ===== *)
theory Demo_Time
  imports Demo_Programs Mutex
begin

text \<open>
  The task functions of the example programs that live by the clock: \<open>heartbeat\<close>, \<open>blink\<close>, \<open>round_robin\<close>, \<open>inversion\<close>, \<open>tickless\<close>
  and \<open>watermark\<close> under \<^verbatim>\<open>src/board/stm32f103_bluepill/example\<close>. One round of an endless loop is one definition. What
  the rest of the system does while a task is off the processor, or between two turns of a loop that spins, is the
  parameter \<open>world\<close>; the log's line buffer and channel are arguments. The locale \<open>log_out\<close> is what the tasks rely on of the
  channel: a line goes out, and the kernel's state does not change. Both boards' channels meet it.
\<close>

section \<open>The tasks\<close>

text \<open>A loop over a list of inputs.\<close>

primrec each :: "('x \<Rightarrow> 's \<Rightarrow> 's option) \<Rightarrow> 'x list \<Rightarrow> 's \<Rightarrow> 's option" where
  "each f [] s = Some s"
| "each f (x # xs) s = do { s1 \<leftarrow> f x s; each f xs s1 }"

subsection \<open>heartbeat, testaments, blink\<close>

record HeartBeatPackage =
  sleepy :: Milliseconds
  hb_banner :: string

definition hello_package :: HeartBeatPackage where
  "hello_package = \<lparr>sleepy = 500, hb_banner = ''Hello! ZerOS'' @ crlf\<rparr>"

definition task_package :: HeartBeatPackage where
  "task_package = \<lparr>sleepy = 500, hb_banner = ''A heartbeat example!'' @ crlf\<rparr>"

definition heartbeat_round ::
  "('a tk_scheme \<Rightarrow> 'a tk_scheme option) \<Rightarrow> char list \<Rightarrow> 'a tk_scheme logging \<Rightarrow> HeartBeatPackage \<Rightarrow> 'a tk_scheme \<Rightarrow> 'a tk_scheme option" where
  "heartbeat_round world buf l package s = do {
     s1 \<leftarrow> print buf (hb_banner package) [] l s;
     s2 \<leftarrow> ThisTask_sleep_for (sleepy package) s1;
     world s2
   }"

definition alive_round ::
  "('a tk_scheme \<Rightarrow> 'a tk_scheme option) \<Rightarrow> char list \<Rightarrow> 'a tk_scheme logging \<Rightarrow> 'a tk_scheme \<Rightarrow> 'a tk_scheme option" where
  "alive_round world buf l s = do {
     s1 \<leftarrow> print buf (''alive'' @ crlf) [] l s;
     s2 \<leftarrow> ThisTask_sleep_for 500 s1;
     world s2
   }"

definition blinker_round ::
  "('a tk_scheme \<Rightarrow> 'a tk_scheme option) \<Rightarrow> pins \<times> 'a tk_scheme \<Rightarrow> (pins \<times> 'a tk_scheme) option" where
  "blinker_round world ps = do {
     let (p, s) = ps;
     let p1 = LED_toggle ActiveLow LedPin p;
     s1 \<leftarrow> ThisTask_sleep_for 1000 s;
     s2 \<leftarrow> world s1;
     Some (p1, s2)
   }"

subsection \<open>round_robin\<close>

partial_function (option) spinner_loop ::
  "('a tk_scheme \<Rightarrow> 'a tk_scheme option) \<Rightarrow> char list \<Rightarrow> 'a tk_scheme logging \<Rightarrow> string \<Rightarrow> tick \<Rightarrow> tick \<Rightarrow> 'a tk_scheme \<Rightarrow> 'a tk_scheme option" where
  "spinner_loop world buf l line ddl next_report s =
     (let now = ThisTask_now s
      in if now \<ge> ddl then Some s
         else if now \<ge> next_report
         then do {
           s1 \<leftarrow> print buf line [] l s;
           s2 \<leftarrow> world s1;
           spinner_loop world buf l line ddl (next_report + 500) s2
         }
         else do { s2 \<leftarrow> world s; spinner_loop world buf l line ddl next_report s2 })"

definition spinner ::
  "('a tk_scheme \<Rightarrow> 'a tk_scheme option) \<Rightarrow> char list \<Rightarrow> 'a tk_scheme logging \<Rightarrow> string \<Rightarrow> 'a tk_scheme \<Rightarrow> 'a tk_scheme option" where
  "spinner world buf l line s = do {
     let ddl = ThisTask_now s + 3000;
     s0 \<leftarrow> world s;
     let next_report = ThisTask_now s0;
     s1 \<leftarrow> spinner_loop world buf l line ddl next_report s0;
     s2 \<leftarrow> print buf (''spinner done'' @ crlf) [] l s1;
     Some (ThisTask_block s2)
   }"

subsection \<open>inversion\<close>

text \<open>\<open>spin\<close> is what happens between two looks at the clock of the loop that holds the lock.\<close>

definition task_holder_round ::
  "('a wn_scheme \<Rightarrow> 'a wn_scheme option) \<Rightarrow> ('a wn_scheme \<Rightarrow> 'a wn_scheme) \<Rightarrow> char list \<Rightarrow> 'a wn_scheme logging \<Rightarrow> addr \<Rightarrow> addr
    \<Rightarrow> 'a wn_scheme \<Rightarrow> 'a wn_scheme option" where
  "task_holder_round world spin buf l g_theater me s = do {
     s1 \<leftarrow> ThisTask_sleep_for 2000 s;
     s2 \<leftarrow> world s1;
     (e, s3) \<leftarrow> mutex_lock world g_theater me s2;
     if e \<noteq> MutexOk then Some s3
     else do {
       s4 \<leftarrow> print buf (''L: locked, busy 300ms'' @ crlf) [] l s3;
       let until = ThisTask_now s4 + 300;
       s5 \<leftarrow> wait_for (\<lambda>s. \<not> ThisTask_now s < until) spin s4;
       s6 \<leftarrow> print buf (''L: unlocked'' @ crlf) [] l s5;
       map_option snd (mutex_unlock g_theater s6)
     }
   }"

definition task_urgent_round ::
  "('a wn_scheme \<Rightarrow> 'a wn_scheme option) \<Rightarrow> char list \<Rightarrow> 'a wn_scheme logging \<Rightarrow> addr \<Rightarrow> addr \<Rightarrow> 'a wn_scheme \<Rightarrow> 'a wn_scheme option" where
  "task_urgent_round world buf l g_theater me s = do {
     s1 \<leftarrow> ThisTask_sleep_for 2100 s;
     s2 \<leftarrow> world s1;
     s3 \<leftarrow> print buf (''H: wants the lock'' @ crlf) [] l s2;
     (e, s4) \<leftarrow> mutex_lock world g_theater me s3;
     if e = MutexOk
     then do {
       s5 \<leftarrow> print buf (''H: LOCKED (inheritance paid off)'' @ crlf) [] l s4;
       map_option snd (mutex_unlock g_theater s5)
     }
     else Some s4
   }"

definition task_bully_round ::
  "('a tk_scheme \<Rightarrow> 'a tk_scheme option) \<Rightarrow> char list \<Rightarrow> 'a tk_scheme logging \<Rightarrow> 'a tk_scheme \<Rightarrow> 'a tk_scheme option" where
  "task_bully_round world buf l s = do {
     s1 \<leftarrow> print buf (''M: running'' @ crlf) [] l s;
     s2 \<leftarrow> ThisTask_sleep_for 100 s1;
     world s2
   }"

subsection \<open>tickless\<close>

definition kNaps :: u32 where "kNaps = 4"

definition nap ::
  "('a stk_scheme \<Rightarrow> 'a stk_scheme option) \<Rightarrow> char list \<Rightarrow> 'a stk_scheme logging \<Rightarrow> u32 \<Rightarrow> 'a stk_scheme \<Rightarrow> 'a stk_scheme option" where
  "nap world buf l i s = do {
     s1 \<leftarrow> ThisTask_sleep_for 500 s;
     s2 \<leftarrow> world s1;
     print buf (''nap {} woke @ {}ms'' @ crlf) [Dec i, Dec (ThisTask_now s2)] l s2
   }"

text \<open>\<open>ZEROS_TICKLESS\<close> is the build switch.\<close>

definition napper ::
  "bool \<Rightarrow> ('a stk_scheme \<Rightarrow> 'a stk_scheme option) \<Rightarrow> char list \<Rightarrow> 'a stk_scheme logging \<Rightarrow> 'a stk_scheme \<Rightarrow> 'a stk_scheme option" where
  "napper ZEROS_TICKLESS world buf l s = do {
     s1 \<leftarrow> each (nap world buf l) (map word_of_nat [1..<unat kNaps + 1]) s;
     s2 \<leftarrow> print buf (''tickless: witnessed'' @ crlf) [] l s1;
     s3 \<leftarrow> print buf ((if ZEROS_TICKLESS then ''mode: tickless idle (one-shot to next deadline)''
                       else ''mode: periodic 1kHz (ZEROS_TICKLESS off)'') @ crlf) [] l s2;
     s4 \<leftarrow> print buf (''periodic ticks: {}'' @ crlf) [Dec (zeros_tick_periodic s3)] l s3;
     s5 \<leftarrow> print buf (''one-shot fires: {}'' @ crlf) [Dec (zeros_tick_oneshot s4)] l s4;
     Some (ThisTask_block s5)
   }"

subsection \<open>watermark\<close>

text \<open>The ballast of \<open>deep\<close>: the words it writes in a round and the sum it reads back.\<close>

definition ballast :: "u32 \<Rightarrow> u32 list" where
  "ballast r = map (\<lambda>i. r + word_of_nat i) [0..<32]"

definition deep_round :: "('a tk_scheme \<Rightarrow> 'a tk_scheme option) \<Rightarrow> u32 \<Rightarrow> 'a tk_scheme \<Rightarrow> (u32 \<times> 'a tk_scheme) option" where
  "deep_round world r s = do {
     let sum = fold (\<lambda>b n. n + b) (ballast r) 0;
     s1 \<leftarrow> ThisTask_sleep_for 100 s;
     s2 \<leftarrow> world s1;
     Some (r + 1, s2)
   }"

definition shallow_round :: "('a tk_scheme \<Rightarrow> 'a tk_scheme option) \<Rightarrow> 'a tk_scheme \<Rightarrow> 'a tk_scheme option" where
  "shallow_round world s = do { s1 \<leftarrow> ThisTask_sleep_for 100 s; world s1 }"

definition report_one :: "char list \<Rightarrow> 'a mach_scheme logging \<Rightarrow> string \<Rightarrow> addr \<Rightarrow> 'a mach_scheme \<Rightarrow> 'a mach_scheme option" where
  "report_one buf l name t s = (let cap = word_of_nat (capacity_words (tcbs s t)); free = word_of_nat (watermark_free_words (memory s) (tcbs s t))
     in print buf (''  {}: {} cap, {} free, {} used at deepest'' @ crlf) [Text name, Dec cap, Dec free, Dec (cap - free)] l s)"

definition watermark_reporter ::
  "('a mach_scheme \<Rightarrow> 'a mach_scheme option) \<Rightarrow> char list \<Rightarrow> 'a mach_scheme logging \<Rightarrow> addr \<Rightarrow> addr \<Rightarrow> 'a mach_scheme \<Rightarrow> 'a mach_scheme option" where
  "watermark_reporter world buf l g_deep g_shallow s = do {
     s1 \<leftarrow> ThisTask_sleep_for 1000 s;
     s2 \<leftarrow> world s1;
     s3 \<leftarrow> print buf (''watermark: read'' @ crlf) [] l s2;
     s4 \<leftarrow> print buf (''  (words, canary's 8 excluded)'' @ crlf) [] l s3;
     s5 \<leftarrow> report_one buf l ''deep'' g_deep s4;
     s6 \<leftarrow> report_one buf l ''shallow'' g_shallow s5;
     Some (ThisTask_block s6)
   }"

section \<open>A channel that lets lines out\<close>

locale log_out =
  fixes up :: "'a tk_scheme \<Rightarrow> bool" and say :: "'a tk_scheme channel" and wire :: "'a tk_scheme \<Rightarrow> u8 list"
  assumes say_out: "up s \<Longrightarrow> \<exists>s'. say t s = Some (True, s') \<and> up s' \<and> wire s' = wire s @ map of_char t \<and> tk.truncate s' = tk.truncate s"
begin

lemma print_out:
  assumes "up s" and "length buf = kLineBuffer" and "CHR 0x00 \<notin> set (render fmt args)" and "the_channel l = Some say"
  obtains s' where "print buf fmt args l s = Some s'" "up s'" "wire s' = wire s @ map of_char (take 127 (render fmt args))"
    "now_tick s' = now_tick s" "tcbs s' = tcbs s" "current s' = current s"
proof -
  obtain s' where s': "say (take 127 (render fmt args)) s = Some (True, s')" "up s'"
    "wire s' = wire s @ map of_char (take 127 (render fmt args))" "tk.truncate s' = tk.truncate s" using say_out [OF assms(1)] by blast
  have "now_tick s' = now_tick s" "tcbs s' = tcbs s" "current s' = current s" using s'(4) by (cases s; cases s'; simp add: tk.defs)+
  then show thesis using that s'(1-3) print_line [OF assms(2-4), of s] by simp
qed

text \<open>The loop of \<open>spinner\<close>, as long as the clock moves on by at most 500 ticks from one turn to the next and does not wrap:
  \<open>c\<close> is the next report's tick. After \<open>m\<close> lines the next one would have been due at \<open>c + 500 * m\<close>.\<close>

lemma spinner_loop_lines:
  fixes world :: "'a tk_scheme \<Rightarrow> 'a tk_scheme option"
  assumes buf: "length buf = kLineBuffer" and l: "the_channel l = Some say" and line: "CHR 0x00 \<notin> set line" "length line \<le> 127"
    and world: "\<And>s. up s \<Longrightarrow> \<exists>s' d. world s = Some s' \<and> up s' \<and> wire s' = wire s \<and> 1 \<le> d \<and> d \<le> 500
      \<and> now_tick s' = now_tick s + word_of_nat d"
    and room: "unat D + 1000 < 2 ^ 32"
  shows "up s \<Longrightarrow> unat (now_tick s) < unat c + 500 \<Longrightarrow> unat c < unat D + 500 \<Longrightarrow> unat (now_tick s) < unat D + 500 \<Longrightarrow>
    \<exists>s' m. spinner_loop world buf l line D c s = Some s' \<and> up s' \<and> wire s' = wire s @ concat (replicate m (map of_char line))
      \<and> (m = 0 \<or> unat c + 500 * (m - 1) < unat D) \<and> unat D < unat c + 500 * (m + 1)"
proof (induction "unat D - unat (now_tick s)" arbitrary: s c rule: less_induct)
  case less
  let ?loop = "spinner_loop world buf l line D"
  have now: "ThisTask_now s = now_tick s" by (simp add: ThisTask_defs sys_now_def time_current_def Clock_current_def)
  show ?case
  proof (cases "D \<le> now_tick s")
    case True
    then have "unat D \<le> unat (now_tick s)" by (simp add: word_le_nat_alt)
    then show ?thesis
      using True less.prems by (intro exI [of _ s] exI [of _ 0]) (simp add: spinner_loop.simps now)
  next
    case False
    then have d: "unat (now_tick s) < unat D" by (simp add: word_le_nat_alt)
    have go: "\<exists>s2. world s1 = Some s2 \<and> up s2 \<and> wire s2 = wire s1 \<and> unat (now_tick s) < unat (now_tick s2)
        \<and> unat (now_tick s2) \<le> unat (now_tick s) + 500" if s1: "up s1" "now_tick s1 = now_tick s" for s1
    proof -
      obtain s2 k where s2: "world s1 = Some s2" "up s2" "wire s2 = wire s1" "1 \<le> k" "k \<le> 500" "now_tick s2 = now_tick s1 + word_of_nat k"
        using world [OF s1(1)] by blast
      have "unat (now_tick s2) = unat (now_tick s) + k"
        using s2(5,6) s1(2) d room by (simp add: unat_word_ariths unat_of_nat)
      then show ?thesis using s2 by auto
    qed
    show ?thesis
    proof (cases "c \<le> now_tick s")
      case True
      then have c: "unat c \<le> unat (now_tick s)" by (simp add: word_le_nat_alt)
      have c5: "unat (c + 500) = unat c + 500" using c d room by (simp add: unat_word_ariths)
      have clean: "CHR 0x00 \<notin> set (render line [])" using line(1) by simp
      obtain s1 where s1: "print buf line [] l s = Some s1" "up s1" "wire s1 = wire s @ map of_char line" "now_tick s1 = now_tick s"
        using line(2) by (auto intro: print_out [OF less.prems(1) buf clean l])
      obtain s2 where s2: "world s1 = Some s2" "up s2" "wire s2 = wire s1" "unat (now_tick s) < unat (now_tick s2)"
        "unat (now_tick s2) \<le> unat (now_tick s) + 500" using go [OF s1(2,4)] by blast
      have a: "unat (now_tick s2) < unat (c + 500) + 500" using s2(5) c5 less.prems(2) by simp
      have b: "unat (c + 500) < unat D + 500" "unat (now_tick s2) < unat D + 500" using c5 c d s2(5) by simp_all
      have sm: "unat D - unat (now_tick s2) < unat D - unat (now_tick s)" using s2(4) d by simp
      obtain s' m where r: "?loop (c + 500) s2 = Some s'" "up s'" "wire s' = wire s2 @ concat (replicate m (map of_char line))"
        "m = 0 \<or> unat (c + 500) + 500 * (m - 1) < unat D" "unat D < unat (c + 500) + 500 * (m + 1)"
        using less.hyps [OF sm s2(2) a b] by blast
      have "?loop c s = Some s'" using False True s1(1) s2(1) r(1) by (simp add: spinner_loop.simps [of _ _ _ _ _ _ s] now)
      moreover have "wire s' = wire s @ concat (replicate (Suc m) (map of_char line))" using r(3) s2(3) s1(3) by simp
      moreover have "unat c + 500 * (Suc m - 1) < unat D" using r(4) c5 c d by (cases m) auto
      moreover have "unat D < unat c + 500 * (Suc m + 1)" using r(5) c5 by simp
      ultimately show ?thesis using r(2) by (intro exI [of _ s'] exI [of _ "Suc m"]) simp
    next
      case c: False
      then have c': "unat (now_tick s) < unat c" by (simp add: word_le_nat_alt)
      obtain s2 where s2: "world s = Some s2" "up s2" "wire s2 = wire s" "unat (now_tick s) < unat (now_tick s2)"
        "unat (now_tick s2) \<le> unat (now_tick s) + 500" using go [OF less.prems(1)] by blast
      have a: "unat (now_tick s2) < unat c + 500" "unat (now_tick s2) < unat D + 500" using s2(5) c' d by simp_all
      have sm: "unat D - unat (now_tick s2) < unat D - unat (now_tick s)" using s2(4) d by simp
      have "?loop c s = ?loop c s2" using False c s2(1) by (simp add: spinner_loop.simps [of _ _ _ _ _ _ s] now)
      then show ?thesis using less.hyps [OF sm s2(2) a(1) less.prems(3) a(2)] s2(3) by simp
    qed
  qed
qed

end

text \<open>The channels of both boards let lines out while their serial line is up.\<close>

interpretation blue: log_out "\<lambda>s. usart_live (mu, hwu, usart_line s)" "bluepill_channel mu hwu" "\<lambda>s. us_sent (usart_line s)" for mu hwu
proof
  fix s :: "'a bluepill_scheme" and t
  assume "usart_live (mu, hwu, usart_line s)"
  then obtain u where u: "puts (uart1_putc mu hwu) t (usart_line s) = Some u" "usart_live (mu, hwu, u)"
    "us_sent u = us_sent (usart_line s) @ map of_char t" by (rule uart1_sends)
  have "tk.truncate (s\<lparr>usart_line := u\<rparr>) = tk.truncate s" by (cases s) (simp add: tk.defs)
  then show "\<exists>s'. bluepill_channel mu hwu t s = Some (True, s') \<and> usart_live (mu, hwu, usart_line s')
      \<and> us_sent (usart_line s') = us_sent (usart_line s) @ map of_char t \<and> tk.truncate s' = tk.truncate s"
    using u by (auto simp: bluepill_channel_def uart1_channel_body_def)
qed

interpretation mps: log_out "\<lambda>s. cmsdk_live (hwu, uart_line s)" "mps2_channel hwu" "\<lambda>s. ua_sent (uart_line s)" for hwu
proof
  fix s :: "'a mps2_scheme" and t
  assume "cmsdk_live (hwu, uart_line s)"
  then obtain u where u: "puts (uart0_putc hwu) t (uart_line s) = Some u" "cmsdk_live (hwu, u)"
    "ua_sent u = ua_sent (uart_line s) @ map of_char t" by (rule uart0_sends)
  have "tk.truncate (s\<lparr>uart_line := u\<rparr>) = tk.truncate s" by (cases s) (simp add: tk.defs)
  then show "\<exists>s'. mps2_channel hwu t s = Some (True, s') \<and> cmsdk_live (hwu, uart_line s')
      \<and> ua_sent (uart_line s') = ua_sent (uart_line s) @ map of_char t \<and> tk.truncate s' = tk.truncate s"
    using u by (auto simp: mps2_channel_def uart0_channel_body_def)
qed

section \<open>Properties\<close>

lemma ThisTask_now_tick: "ThisTask_now s = now_tick s"
  by (simp add: ThisTask_defs sys_now_def time_current_def Clock_current_def)

lemma block_more: "sched.more (ThisTask_block s) = sched.more s"
  using op_priorities [of "OpBlock (current_task s)" s Done] by (simp add: ThisTask_defs sys_block_def sys_current_task_def)

lemma board_of_sched:
  fixes s s' :: "'a bluepill_scheme"
  assumes "sched.more s' = sched.more s"
  shows "usart_line s' = usart_line s"
  using assms by (cases s; cases s'; simp)

text \<open>A spinner ends by itself and is heard. On the Blue Pill, with the clock moving on by one to 500 ticks from one turn of
  the loop to the next, nobody else printing, and no wrap of the clock ahead, \<open>spinner\<close> returns, and what
  it has put on the wire is its line five or six times and then \<open>spinner done\<close>.\<close>

theorem spinner_five_or_six:
  fixes s :: "'a bluepill_scheme"
  assumes up: "usart_live (mu, hwu, usart_line s)" and buf: "length buf = kLineBuffer"
    and l: "the_channel l = Some (bluepill_channel mu hwu)" and line: "CHR 0x00 \<notin> set line" "length line \<le> 127"
    and world: "\<And>s. usart_live (mu, hwu, usart_line s) \<Longrightarrow> \<exists>s' d. world s = Some s' \<and> usart_live (mu, hwu, usart_line s')
      \<and> us_sent (usart_line s') = us_sent (usart_line s) \<and> 1 \<le> d \<and> d \<le> 500 \<and> now_tick s' = now_tick s + word_of_nat d"
    and nowrap: "unat (now_tick s) + 4000 < 2 ^ 32"
  shows "\<exists>s' m. spinner world buf l line s = Some s' \<and> m \<in> {5, 6}
    \<and> us_sent (usart_line s') = us_sent (usart_line s) @ concat (replicate m (map of_char line)) @ map of_char (''spinner done'' @ crlf)"
proof -
  define D where "D = now_tick s + 3000"
  have D: "unat D = unat (now_tick s) + 3000" using nowrap by (simp add: D_def unat_word_ariths)
  obtain s0 d where s0: "world s = Some s0" "usart_live (mu, hwu, usart_line s0)" "us_sent (usart_line s0) = us_sent (usart_line s)"
    "1 \<le> d" "d \<le> 500" "now_tick s0 = now_tick s + word_of_nat d" using world [OF up] by blast
  have n0: "unat (now_tick s0) = unat (now_tick s) + d" using s0(5,6) nowrap by (simp add: unat_word_ariths unat_of_nat)
  obtain s1 m where s1: "spinner_loop world buf l line D (now_tick s0) s0 = Some s1" "usart_live (mu, hwu, usart_line s1)"
    "us_sent (usart_line s1) = us_sent (usart_line s0) @ concat (replicate m (map of_char line))"
    "m = 0 \<or> unat (now_tick s0) + 500 * (m - 1) < unat D" "unat D < unat (now_tick s0) + 500 * (m + 1)"
    using blue.spinner_loop_lines [OF buf l line world _ s0(2), of D "now_tick s0"] D n0 s0(5) nowrap by auto
  have m: "m \<in> {5, 6}" using s1(4,5) D n0 s0(4,5) by auto
  have clean: "CHR 0x00 \<notin> set (render (''spinner done'' @ crlf) [])" by (simp add: crlf_def)
  obtain s2 where s2: "print buf (''spinner done'' @ crlf) [] l s1 = Some s2"
    "us_sent (usart_line s2) = us_sent (usart_line s1) @ map of_char (''spinner done'' @ crlf)"
    by (rule blue.print_out [OF s1(2) buf clean l]) (simp add: crlf_def)
  have "us_sent (usart_line (ThisTask_block s2)) = us_sent (usart_line s2)"
    by (simp add: board_of_sched [OF block_more])
  moreover have "spinner world buf l line s = Some (ThisTask_block s2)"
    using s0(1) s1(1) s2(1) by (simp add: spinner_def ThisTask_now_tick D_def)
  ultimately show ?thesis using m s0(3) s1(3) s2(2) by (intro exI [of _ "ThisTask_block s2"] exI [of _ m]) simp
qed

text \<open>The spinner on the board after \<open>uart1_init\<close>, the clock moving on by one tick a turn.\<close>

theorem spinner_five_or_six_witness:
  "\<exists>s' m. spinner (\<lambda>s. Some (s\<lparr>now_tick := now_tick s + 1\<rparr>)) (replicate 128 CHR 0x00)
      \<lparr>the_channel = Some (bluepill_channel f103_usart prompt_usart)\<rparr> ''rr1 alive''
      (fresh_board\<lparr>usart_line := uart1_init f103_usart usart_off\<rparr>) = Some s' \<and> m \<in> {5, 6}
    \<and> us_sent (usart_line s') = concat (replicate m (map of_char ''rr1 alive'')) @ map of_char (''spinner done'' @ crlf)"
proof -
  let ?s = "fresh_board\<lparr>usart_line := uart1_init f103_usart usart_off\<rparr>"
  have up: "usart_live (f103_usart, prompt_usart, usart_line ?s)" using uart_init_live(1) [OF prompt_lines(1), of usart_off] by simp
  have w: "\<exists>s' d. Some (s\<lparr>now_tick := now_tick s + 1\<rparr>) = Some s' \<and> usart_live (f103_usart, prompt_usart, usart_line s')
      \<and> us_sent (usart_line s') = us_sent (usart_line s) \<and> 1 \<le> d \<and> d \<le> 500 \<and> now_tick s' = now_tick s + word_of_nat d"
    if "usart_live (f103_usart, prompt_usart, usart_line s)" for s :: bluepill
    using that by (intro exI [of _ "s\<lparr>now_tick := now_tick s + 1\<rparr>"] exI [of _ 1]) simp
  have n: "unat (now_tick ?s) + 4000 < 2 ^ 32" by (simp add: fresh_board_def fresh_chip_def sys_new_def tk_new_def stk.defs sys.defs tk.defs sched.defs)
  have "us_sent (usart_line ?s) = []" by (simp add: usart_off_def)
  then show ?thesis
    using spinner_five_or_six [OF up _ _ _ _ w n, of "replicate 128 CHR 0x00" "\<lparr>the_channel = Some (bluepill_channel f103_usart prompt_usart)\<rparr>"
        "''rr1 alive''"] by (simp add: kLineBuffer_def)
qed

text \<open>When the clock is about to wrap, \<open>spinner\<close> and the busy loop of \<open>task_holder\<close> compare ticks that lie on both sides of the
  wrap, and end at once: no line is printed, and the lock is not held for its 300 ms.\<close>

lemma spinner_at_the_wrap:
  assumes wrap: "2 ^ 32 \<le> unat (now_tick s) + 3000" and world: "world s = Some s0" "now_tick s \<le> now_tick s0"
  shows "spinner_loop world buf l line (ThisTask_now s + 3000) (ThisTask_now s0) s0 = Some s0"
proof -
  have "unat (now_tick s + 3000) < 3000" using wrap unsigned_less [of "now_tick s", where 'a = nat] by (simp add: unat_word_ariths le_mod_geq)
  then have "now_tick s + 3000 \<le> now_tick s0" using wrap world(2) by (simp add: word_le_nat_alt)
  then show ?thesis by (simp add: spinner_loop.simps ThisTask_now_tick)
qed

lemma holder_at_the_wrap:
  assumes "2 ^ 32 \<le> unat (now_tick s) + 300"
  shows "wait_for (\<lambda>s'. \<not> ThisTask_now s' < ThisTask_now s + 300) spin s = Some s"
proof -
  have "unat (now_tick s + 300) < 300" using assms unsigned_less [of "now_tick s", where 'a = nat] by (simp add: unat_word_ariths le_mod_geq)
  then have "\<not> now_tick s < now_tick s + 300" using assms by (simp add: word_less_nat_alt)
  then show ?thesis by (simp add: wait_for.simps ThisTask_now_tick)
qed

text \<open>Away from the wrap the lock is held until the clock has gone on by 300.\<close>

lemma holder_holds:
  assumes "unat (now_tick s) + 300 < 2 ^ 32" and "\<And>s. now_tick (spin s) = now_tick s + 1"
  shows "\<exists>s'. wait_for (\<lambda>s'. \<not> ThisTask_now s' < ThisTask_now s + 300) spin s = Some s' \<and> now_tick s' = now_tick s + 300"
proof -
  have step: "now_tick ((spin ^^ k) s) = now_tick s + word_of_nat k" for k by (induction k) (simp_all add: assms(2))
  have u: "unat (now_tick ((spin ^^ k) s)) = unat (now_tick s) + k" if "k \<le> 300" for k
    using that assms(1) by (simp add: step unat_word_ariths unat_of_nat)
  have e: "unat (now_tick s + 300) = unat (now_tick s) + 300" using assms(1) by (simp add: unat_word_ariths)
  let ?done = "\<lambda>s'. \<not> ThisTask_now s' < ThisTask_now s + 300"
  have "?done ((spin ^^ 300) s)" by (simp add: ThisTask_now_tick step)
  then obtain k where k: "k \<le> 300" "wait_for ?done spin s = Some ((spin ^^ k) s)" "?done ((spin ^^ k) s)"
    using wait_for_returns [of ?done 300 spin s] by blast
  have "k = 300" using k(1,3) u [OF k(1)] e by (simp add: ThisTask_now_tick word_less_nat_alt)
  then show ?thesis using k(2) step [of 300] by simp
qed

text \<open>The line of \<open>report_one\<close> adds up: the words never used are at most the capacity, and the last number is their difference.\<close>

lemma report_one_adds_up:
  fixes s :: "'a bluepill_scheme"
  assumes up: "usart_live (mu, hwu, usart_line s)" and buf: "length buf = kLineBuffer" and l: "the_channel l = Some (bluepill_channel mu hwu)"
    and name: "CHR 0x00 \<notin> set name" and size: "span_size (stack_view (tcbs s t)) < 2 ^ 32"
  shows "\<exists>s' cap free. report_one buf l name t s = Some s' \<and> cap = capacity_words (tcbs s t) \<and> free = watermark_free_words (memory s) (tcbs s t)
    \<and> free \<le> cap \<and> us_sent (usart_line s') = us_sent (usart_line s) @ map of_char (take 127 (''  '' @ name @ '': '' @ dec_text cap @ '' cap, ''
        @ dec_text free @ '' free, '' @ dec_text (cap - free) @ '' used at deepest'' @ crlf))"
proof -
  let ?cap = "capacity_words (tcbs s t)" and ?free = "watermark_free_words (memory s) (tcbs s t)"
  let ?args = "[Text name, Dec (word_of_nat ?cap), Dec (word_of_nat ?free), Dec (word_of_nat ?cap - word_of_nat ?free)]"
  let ?fmt = "''  {}: {} cap, {} free, {} used at deepest'' @ crlf"
  have le: "?free \<le> ?cap" using watermark_loop_le [of "memory s" "stack_view (tcbs s t)" kCanarySize 0]
    by (auto simp: watermark_free_words_def capacity_words_def)
  have cap: "?cap < 2 ^ 32" using size by (auto simp: capacity_words_def)
  then have u: "unat (word_of_nat ?cap :: u32) = ?cap" "unat (word_of_nat ?free :: u32) = ?free" using le by (simp_all add: unat_of_nat)
  have "(word_of_nat ?free :: u32) \<le> word_of_nat ?cap" using le u by (simp add: word_le_nat_alt)
  then have d: "unat (word_of_nat ?cap - word_of_nat ?free :: u32) = ?cap - ?free" using u by (simp add: unat_sub)
  have r: "render ?fmt ?args = ''  '' @ name @ '': '' @ dec_text ?cap @ '' cap, '' @ dec_text ?free @ '' free, ''
      @ dec_text (?cap - ?free) @ '' used at deepest'' @ crlf" using u d by (simp add: crlf_def)
  have clean: "CHR 0x00 \<notin> set (render ?fmt ?args)" unfolding r using name digits_clean by (simp add: crlf_def)
  obtain s' where s': "print buf ?fmt ?args l s = Some s'"
    "us_sent (usart_line s') = us_sent (usart_line s) @ map of_char (take 127 (render ?fmt ?args))"
    by (rule blue.print_out [OF up buf clean l])
  then have "report_one buf l name t s = Some s'" by (simp only: report_one_def Let_def)
  then show ?thesis using s'(2) le unfolding r by blast
qed

end
