(* ===== verification/Event_Group.thy ===== *)
theory Event_Group
  imports Semaphore
begin

text \<open>
  The event group of \<^verbatim>\<open>include/ZerOS/kernel/sync/event_group.hpp\<close>: a word of bits, waits for any or all bits of a
  mask, and a setter that wakes every waiter and leaves the judgement to them. One turn of each
  waiting loop is one definition. In the untimed wait the node is built anew in every turn.
\<close>

section \<open>The operations\<close>

definition EventGroup_new :: event_group where
  "EventGroup_new = \<lparr>ev_bits = 0, ev_waiters = SelfList_new\<rparr>"

definition EventWaiter_new :: "addr \<Rightarrow> addr option \<Rightarrow> 'a wn_scheme \<Rightarrow> 'a wn_scheme" where
  "EventWaiter_new me task s = s\<lparr>node_next := (node_next s)(me := None), node_task := (node_task s)(me := task)\<rparr>"

definition set_event :: "addr \<Rightarrow> event_group \<Rightarrow> 'a wn_scheme \<Rightarrow> 'a wn_scheme" where
  "set_event m v s = s\<lparr>events := (events s)(m := v)\<rparr>"

definition ev_insert :: "addr \<Rightarrow> addr \<Rightarrow> 'a wn_scheme \<Rightarrow> 'a wn_scheme option" where
  "ev_insert m me s = map_option
     (\<lambda>(l, nx). set_event m ((events s m)\<lparr>ev_waiters := l\<rparr>) (s\<lparr>node_next := nx\<rparr>))
     (SelfList_insert AlwaysFalse me (ev_waiters (events s m), node_next s))"

definition ev_remove :: "addr \<Rightarrow> addr \<Rightarrow> 'a wn_scheme \<Rightarrow> 'a wn_scheme option" where
  "ev_remove m me s = map_option
     (\<lambda>(_, l, nx). set_event m ((events s m)\<lparr>ev_waiters := l\<rparr>) (s\<lparr>node_next := nx\<rparr>))
     (SelfList_remove me (ev_waiters (events s m), node_next s))"

definition satisfied_or :: "event_group \<Rightarrow> u32 \<Rightarrow> bool \<Rightarrow> SyncError + u32" where
  "satisfied_or g wanted all_of =
     (let hit = ev_bits g AND wanted
      in if hit \<noteq> 0 \<and> (\<not> all_of \<or> hit = wanted) then Inr hit else Inl TimedOut)"

text \<open>One turn of the untimed wait: the bits hit, or none yet and the caller is blocked.\<close>

definition ev_wait_turn :: "addr \<Rightarrow> addr \<Rightarrow> u32 \<Rightarrow> bool \<Rightarrow> 'a wn_scheme \<Rightarrow> (u32 option \<times> 'a wn_scheme) option" where
  "ev_wait_turn m me wanted all_of s =
     (let s0 = sys_lock s
      in case satisfied_or (events s0 m) wanted all_of of
           Inr hit \<Rightarrow> Some (Some hit, sys_unlock s0)
         | Inl _ \<Rightarrow> do {
             s1 \<leftarrow> ev_insert m me (EventWaiter_new me (sys_current_task s0) s0);
             Some (None, sys_unlock (sys_block (sys_current_task s1) s1))
           })"

partial_function (option) ev_wait ::
  "('a wn_scheme \<Rightarrow> 'a wn_scheme option) \<Rightarrow> addr \<Rightarrow> addr \<Rightarrow> u32 \<Rightarrow> bool \<Rightarrow> 'a wn_scheme \<Rightarrow> (u32 \<times> 'a wn_scheme) option" where
  "ev_wait world m me wanted all_of s =
     (case ev_wait_turn m me wanted all_of s of None \<Rightarrow> None
      | Some (verdict, s1) \<Rightarrow>
          (case verdict of Some hit \<Rightarrow> Some (hit, s1)
           | None \<Rightarrow> (case world s1 of None \<Rightarrow> None | Some s2 \<Rightarrow> ev_wait world m me wanted all_of s2)))"

text \<open>One turn of the timed wait.\<close>

definition ev_timed_turn ::
  "addr \<Rightarrow> addr \<Rightarrow> u32 \<Rightarrow> bool \<Rightarrow> tick \<Rightarrow> 'a wn_scheme \<Rightarrow> ((SyncError + u32) option \<times> 'a wn_scheme) option" where
  "ev_timed_turn m me wanted all_of ddl s =
     (let s0 = sys_lock s
      in case satisfied_or (events s0 m) wanted all_of of
           Inr hit \<Rightarrow> do { s1 \<leftarrow> ev_remove m me s0; Some (Some (Inr hit), sys_unlock s1) }
         | Inl _ \<Rightarrow>
             let left = sint (ddl - sys_now s0)
             in if left \<le> 0
                then do { s1 \<leftarrow> ev_remove m me s0; Some (Some (Inl TimedOut), sys_unlock s1) }
                else do {
                  s1 \<leftarrow> ev_insert m me s0;
                  s2 \<leftarrow> sys_sleep_for (sys_current_task s1) (word_of_int left) s1;
                  Some (None, sys_unlock s2)
                })"

partial_function (option) ev_timed_loop ::
  "('a wn_scheme \<Rightarrow> 'a wn_scheme option) \<Rightarrow> addr \<Rightarrow> addr \<Rightarrow> u32 \<Rightarrow> bool \<Rightarrow> tick \<Rightarrow> 'a wn_scheme \<Rightarrow>
     ((SyncError + u32) \<times> 'a wn_scheme) option" where
  "ev_timed_loop world m me wanted all_of ddl s =
     (case ev_timed_turn m me wanted all_of ddl s of None \<Rightarrow> None
      | Some (verdict, s1) \<Rightarrow>
          (case verdict of Some v \<Rightarrow> Some (v, s1)
           | None \<Rightarrow> (case world s1 of None \<Rightarrow> None | Some s2 \<Rightarrow> ev_timed_loop world m me wanted all_of ddl s2)))"

definition ev_wait_for ::
  "('a wn_scheme \<Rightarrow> 'a wn_scheme option) \<Rightarrow> addr \<Rightarrow> addr \<Rightarrow> u32 \<Rightarrow> bool \<Rightarrow> Milliseconds \<Rightarrow> 'a wn_scheme \<Rightarrow>
     ((SyncError + u32) \<times> 'a wn_scheme) option" where
  "ev_wait_for world m me wanted all_of timeout s =
     ev_timed_loop world m me wanted all_of (sys_now s + timeout) (EventWaiter_new me (sys_current_task s) s)"

partial_function (option) wake_all :: "addr \<Rightarrow> 'a wn_scheme \<Rightarrow> 'a wn_scheme option" where
  "wake_all m s =
     (case SelfList_pop_head (ev_waiters (events s m), node_next s) of
        (None, l, nx) \<Rightarrow> Some s
      | (Some w, l, nx) \<Rightarrow>
          wake_all m (sys_ready (node_task s w) (set_event m ((events s m)\<lparr>ev_waiters := l\<rparr>) (s\<lparr>node_next := nx\<rparr>))))"

definition ev_set :: "addr \<Rightarrow> u32 \<Rightarrow> 'a wn_scheme \<Rightarrow> 'a wn_scheme option" where
  "ev_set m bits = CriticalGuard_opt sys_lock sys_unlock (\<lambda>s.
     wake_all m (set_event m ((events s m)\<lparr>ev_bits := ev_bits (events s m) OR bits\<rparr>) s))"

definition ev_clear :: "addr \<Rightarrow> u32 \<Rightarrow> 'a wn_scheme \<Rightarrow> 'a wn_scheme" where
  "ev_clear m bits = CriticalGuard sys_lock sys_unlock (\<lambda>s.
     set_event m ((events s m)\<lparr>ev_bits := ev_bits (events s m) AND NOT bits\<rparr>) s)"

section \<open>Waiting lists\<close>

lemma set_event_sel [simp]:
  "events (set_event m v s) = (events s)(m := v)" "node_next (set_event m v s) = node_next s"
  "node_task (set_event m v s) = node_task s" "tcbs (set_event m v s) = tcbs s" "current (set_event m v s) = current s"
  "now_tick (set_event m v s) = now_tick s" "waiters (set_event m v s) = waiters s" "tq (set_event m v s) = tq s"
  "w_next (set_event m v s) = w_next s" "armed (set_event m v s) = armed s" "arm_valid (set_event m v s) = arm_valid s"
  "refines (set_event m v s) a = refines s a" "refines (s\<lparr>node_next := nx\<rparr>) a = refines s a"
  "refines (sys_lock s) a = refines s a" "refines (sys_unlock s) a = refines s a"
  by (simp_all add: set_event_def refines_def levels_def sys_lock_def sys_unlock_def crit_lock_def crit_unlock_def
      write_basepri_def Let_def)

definition ev_holds :: "'a wn_scheme \<Rightarrow> addr \<Rightarrow> addr list \<Rightarrow> bool" where
  "ev_holds s m ws \<longleftrightarrow> rep (ev_waiters (events s m), node_next s) ws"

lemma ev_insert_spec:
  assumes "ev_holds s m ws" and "me \<notin> set ws"
  obtains s' where "ev_insert m me s = Some s'" "ev_holds s' m (ws @ [me])" "ev_bits (events s' m) = ev_bits (events s m)"
    "node_task s' = node_task s" "tcbs s' = tcbs s" "current s' = current s" "now_tick s' = now_tick s"
    "\<forall>qs. tk_inv s' qs = tk_inv s qs" "\<forall>a. refines s' a = refines s a"
proof -
  have r: "rep (ev_waiters (events s m), node_next s) ws" using assms(1) by (simp add: ev_holds_def)
  obtain l nx where i: "SelfList_insert AlwaysFalse me (ev_waiters (events s m), node_next s) = Some (l, nx)"
    "rep (l, nx) (ws @ [me])"
    using sl.holds_sorted_in [OF r assms(2), of AlwaysFalse] by (auto simp: ins_by_AlwaysFalse)
  let ?s = "set_event m ((events s m)\<lparr>ev_waiters := l\<rparr>) (s\<lparr>node_next := nx\<rparr>)"
  have "tk_inv ?s qs = tk_inv s qs" for qs by (rule tk_inv_cong) simp_all
  then show thesis using that [of ?s] i by (simp add: ev_insert_def ev_holds_def)
qed

lemma ev_remove_spec:
  assumes "ev_holds s m ws"
  obtains s' where "ev_remove m me s = Some s'" "ev_holds s' m (remove1 me ws)" "ev_bits (events s' m) = ev_bits (events s m)"
    "current s' = current s" "now_tick s' = now_tick s" "\<forall>qs. tk_inv s' qs = tk_inv s qs"
proof -
  have r: "rep (ev_waiters (events s m), node_next s) ws" using assms(1) by (simp add: ev_holds_def)
  obtain l nx where i: "SelfList_remove me (ev_waiters (events s m), node_next s) = Some (me \<in> set ws, (l, nx))"
    "rep (l, nx) (remove1 me ws)"
    using sl.holds_unlink [OF r, of me] by auto
  let ?s = "set_event m ((events s m)\<lparr>ev_waiters := l\<rparr>) (s\<lparr>node_next := nx\<rparr>)"
  have "tk_inv ?s qs = tk_inv s qs" for qs by (rule tk_inv_cong) simp_all
  then show thesis using that [of ?s] i by (simp add: ev_remove_def ev_holds_def)
qed

lemma ev_new_node: "ev_holds s m ws \<Longrightarrow> me \<notin> set ws \<Longrightarrow> ev_holds (EventWaiter_new me t s) m ws"
  unfolding ev_holds_def EventWaiter_new_def by (auto intro: rep_frame)

text \<open>The broadcast makes every waiting task runnable, first come first.\<close>

lemma a_wakes_state:
  "a_state (fold a_wake us a) u = (if u \<in> set us \<and> a_state a u = Blocked then Ready else a_state a u)"
  by (induction us arbitrary: a) (auto simp: a_wake_def a_enqueue_def a_preempt_def)

lemma wake_all_spec:
  assumes "ev_holds s m ws" and "refines s a" and "a_inv a" and "\<forall>w \<in> set ws. \<exists>u \<in> a_tasks a. node_task s w = Some u"
  shows "\<exists>s'. wake_all m s = Some s' \<and> ev_holds s' m [] \<and> ev_bits (events s' m) = ev_bits (events s m)
    \<and> refines s' (fold a_wake (map (\<lambda>w. the (node_task s w)) ws) a)
    \<and> a_inv (fold a_wake (map (\<lambda>w. the (node_task s w)) ws) a)"
  using assms
proof (induction ws arbitrary: s a)
  case Nil
  then have "rep (ev_waiters (events s m), node_next s) []" by (simp add: ev_holds_def)
  then have "SelfList_pop_head (ev_waiters (events s m), node_next s) = (None, (ev_waiters (events s m), node_next s))"
    using sl.holds_deq_Nil by blast
  then show ?case using Nil by (subst wake_all.simps) simp
next
  case (Cons w ws)
  have "rep (ev_waiters (events s m), node_next s) (w # ws)" using Cons.prems(1) by (simp add: ev_holds_def)
  then obtain l nx where p: "SelfList_pop_head (ev_waiters (events s m), node_next s) = (Some w, (l, nx))" "rep (l, nx) ws"
    using sl.holds_deq [of _ w ws] by fastforce
  obtain u where u: "u \<in> a_tasks a" "node_task s w = Some u" using Cons.prems(4) by auto
  let ?s1 = "set_event m ((events s m)\<lparr>ev_waiters := l\<rparr>) (s\<lparr>node_next := nx\<rparr>)"
  let ?s2 = "sched_ready (Some u) ?s1"
  have h: "ev_holds ?s2 m ws" using p(2) by (simp add: ev_holds_def)
  have "op_ok (OpReady (Some u)) a" using u by simp
  then have r: "refines ?s2 (a_wake u a)" using sim_ready [of ?s1 a "Some u"] Cons.prems(2,3) by simp
  have i: "a_inv (a_wake u a)" by (rule a_inv_wake [OF Cons.prems(3) u(1)])
  have t: "\<forall>w \<in> set ws. \<exists>v \<in> a_tasks (a_wake u a). node_task ?s2 w = Some v"
    using Cons.prems(4) by (simp add: a_wake_def a_preempt_def a_enqueue_def)
  have "wake_all m s = wake_all m ?s2" using p(1) u by (subst wake_all.simps) (simp add: sys_ready_def)
  then show ?case using Cons.IH [OF h r i t] u by simp
qed

section \<open>Timed waits\<close>

lemma sys_sleep_ev:
  assumes "sys_sleep_for (Some t) span s = Some s'"
  shows "events s' = events s"
  using assms
  by (auto simp: sys_sleep_for_def sched_sleep_for_def park_for_def CriticalGuard_opt_def enqueue_locked_def
      TimerQueue_remove_def TimerQueue_insert_def Let_def split: bind_splits if_splits)

lemma ev_timed_turn_spec:
  assumes h: "ev_holds s m ws" and k: "tk_inv s qs" and c: "current s = Some t"
    and me: "me \<in> set ws \<longrightarrow> sint (ddl - now_tick s) \<le> 0"
  shows "\<exists>v s' qs' ws'. ev_timed_turn m me wanted all_of ddl s = Some (v, s') \<and> tk_inv s' qs' \<and> ev_holds s' m ws'
    \<and> now_tick s' = now_tick s \<and> ev_bits (events s' m) = ev_bits (events s m)
    \<and> v = (case satisfied_or (events s m) wanted all_of of Inr hit \<Rightarrow> Some (Inr hit)
           | Inl _ \<Rightarrow> if sint (ddl - now_tick s) \<le> 0 then Some (Inl TimedOut) else None)
    \<and> (v \<noteq> None \<longrightarrow> ws' = remove1 me ws \<and> me \<notin> set ws') \<and> (v = None \<longrightarrow> ws' = ws @ [me])"
proof (cases "isl (satisfied_or (events s m) wanted all_of) \<and> 0 < sint (ddl - now_tick s)")
  case False
  have d: "distinct ws" using h rep_distinct by (auto simp: ev_holds_def)
  have h0: "ev_holds (sys_lock s) m ws" using h by (simp add: ev_holds_def)
  obtain s1 where s1: "ev_remove m me (sys_lock s) = Some s1" "ev_holds s1 m (remove1 me ws)"
    "ev_bits (events s1 m) = ev_bits (events s m)" "now_tick s1 = now_tick s" "\<forall>q. tk_inv s1 q = tk_inv (sys_lock s) q"
    using h0 by (rule ev_remove_spec [where me = me]) simp_all
  then show ?thesis
    using False k d
    by (intro exI [of _ "case satisfied_or (events s m) wanted all_of of Inr hit \<Rightarrow> Some (Inr hit) | Inl _ \<Rightarrow> Some (Inl TimedOut)"]
          exI [of _ "sys_unlock s1"] exI [of _ qs] exI [of _ "remove1 me ws"])
       (auto simp: ev_timed_turn_def Let_def sys_now_def time_current_def Clock_current_def ev_holds_def split: sum.splits)
next
  case True
  let ?left = "word_of_int (sint (ddl - now_tick s)) :: tick"
  have h0: "ev_holds (sys_lock s) m ws" using h by (simp add: ev_holds_def)
  have fresh: "me \<notin> set ws" using me True by auto
  obtain s1 where s1: "ev_insert m me (sys_lock s) = Some s1" "ev_holds s1 m (ws @ [me])" "current s1 = Some t"
    "ev_bits (events s1 m) = ev_bits (events s m)" "now_tick s1 = now_tick s" "\<forall>q. tk_inv s1 q = tk_inv (sys_lock s) q"
    using h0 fresh by (rule ev_insert_spec) (simp_all add: c)
  have k1: "tk_inv s1 qs" using k s1(6) by simp
  have span: "0 \<le> sint ?left" using True by simp
  obtain s2 qs2 where s2: "sys_sleep_for (Some t) ?left s1 = Some s2" "tk_inv s2 qs2" "now_tick s2 = now_tick s"
    using sleep_tk [OF k1 span, of t "Some WakeFromSleep"] s1(5) by (auto simp: sys_sleep_for_def)
  have "node_next s2 = node_next s1" "events s2 = events s1" using sys_sleep_wn(2) sys_sleep_ev s2(1) by blast+
  then show ?thesis
    using True s1 s2
    by (intro exI [of _ None] exI [of _ "sys_unlock s2"] exI [of _ qs2] exI [of _ "ws @ [me]"])
       (auto simp: ev_timed_turn_def Let_def sys_now_def time_current_def Clock_current_def ev_holds_def
         sys_current_task_def current_task_def split: sum.splits)
qed


text \<open>What a timed wait needs of the rest of the system, as for the semaphore.\<close>

definition ev_resumes :: "addr \<Rightarrow> addr \<Rightarrow> addr \<Rightarrow> tick \<Rightarrow> ('a wn_scheme \<Rightarrow> 'a wn_scheme option) \<Rightarrow> bool" where
  "ev_resumes t m me ddl world \<longleftrightarrow> (\<forall>s qs ws. tk_inv s qs \<longrightarrow> ev_holds s m ws \<longrightarrow>
     (\<exists>s' qs' ws'. world s = Some s' \<and> tk_inv s' qs' \<and> ev_holds s' m ws' \<and> current s' = Some t
        \<and> 0 < sint (now_tick s' - now_tick s) \<and> (me \<in> set ws' \<longrightarrow> sint (ddl - now_tick s') \<le> 0)))"

interpretation waiting_bits: timed_wait "ev_timed_turn m me wanted all_of ddl" "\<lambda>w. ev_timed_loop w m me wanted all_of ddl"
  now_tick ddl
  "\<lambda>s. \<exists>qs ws. ev_holds s m ws \<and> tk_inv s qs \<and> current s = Some t \<and> (me \<in> set ws \<longrightarrow> sint (ddl - now_tick s) \<le> 0)"
  "\<lambda>s. \<exists>qs ws. ev_holds s m ws \<and> tk_inv s qs"
  "\<lambda>v s. \<exists>ws. ev_holds s m ws \<and> me \<notin> set ws
     \<and> v = satisfied_or (events s m) wanted all_of \<and> (isl v \<longrightarrow> sint (ddl - now_tick s) \<le> 0)" for m me wanted all_of ddl t
proof
  fix s :: "'a wn_scheme"
  show "ev_timed_loop world m me wanted all_of ddl s = (case ev_timed_turn m me wanted all_of ddl s of None \<Rightarrow> None
      | Some (v, s1) \<Rightarrow> (case v of Some r \<Rightarrow> Some (r, s1)
          | None \<Rightarrow> (case world s1 of None \<Rightarrow> None | Some s2 \<Rightarrow> ev_timed_loop world m me wanted all_of ddl s2)))" for world
    by (rule ev_timed_loop.simps)
  assume "\<exists>qs ws. ev_holds s m ws \<and> tk_inv s qs \<and> current s = Some t \<and> (me \<in> set ws \<longrightarrow> sint (ddl - now_tick s) \<le> 0)"
  then obtain qs ws where h: "ev_holds s m ws" "tk_inv s qs" "current s = Some t" "me \<in> set ws \<longrightarrow> sint (ddl - now_tick s) \<le> 0"
    by blast
  obtain v s1 qs1 ws1 where 1: "ev_timed_turn m me wanted all_of ddl s = Some (v, s1)" "tk_inv s1 qs1" "ev_holds s1 m ws1"
    "now_tick s1 = now_tick s" "ev_bits (events s1 m) = ev_bits (events s m)"
    "v = (case satisfied_or (events s m) wanted all_of of Inr hit \<Rightarrow> Some (Inr hit)
           | Inl _ \<Rightarrow> if sint (ddl - now_tick s) \<le> 0 then Some (Inl TimedOut) else None)"
    "v \<noteq> None \<longrightarrow> ws1 = remove1 me ws \<and> me \<notin> set ws1"
    using ev_timed_turn_spec [OF h, of wanted all_of] by blast
  then have "case v of Some r \<Rightarrow> \<exists>ws. ev_holds s1 m ws \<and> me \<notin> set ws
      \<and> r = satisfied_or (events s1 m) wanted all_of \<and> (isl r \<longrightarrow> sint (ddl - now_tick s1) \<le> 0)
    | None \<Rightarrow> (\<exists>qs ws. ev_holds s1 m ws \<and> tk_inv s1 qs) \<and> 0 < sint (ddl - now_tick s)"
    by (auto simp: satisfied_or_def Let_def split: option.splits if_splits sum.splits)
  with 1(1,4) show "\<exists>v s1. ev_timed_turn m me wanted all_of ddl s = Some (v, s1) \<and> now_tick s1 = now_tick s
      \<and> (case v of Some r \<Rightarrow> \<exists>ws. ev_holds s1 m ws \<and> me \<notin> set ws
            \<and> r = satisfied_or (events s1 m) wanted all_of \<and> (isl r \<longrightarrow> sint (ddl - now_tick s1) \<le> 0)
         | None \<Rightarrow> (\<exists>qs ws. ev_holds s1 m ws \<and> tk_inv s1 qs) \<and> 0 < sint (ddl - now_tick s))"
    by blast
qed

text \<open>When bits satisfy a wait, said bit by bit.\<close>

definition lit :: "u32 \<Rightarrow> u32 \<Rightarrow> bool \<Rightarrow> bool" where
  "lit bits wanted all_of \<longleftrightarrow> wanted \<noteq> 0
     \<and> (if all_of then \<forall>n. bit wanted n \<longrightarrow> bit bits n else \<exists>n. bit wanted n \<and> bit bits n)"

lemma word_nonzero_bit: "x \<noteq> 0 \<longleftrightarrow> (\<exists>n. bit x n)" for x :: u32
proof
  show "\<exists>n. bit x n" if "x \<noteq> 0" using that by (auto simp: bit_eq_iff)
qed auto

lemma satisfied_or_lit:
  "satisfied_or g wanted all_of = (if lit (ev_bits g) wanted all_of then Inr (ev_bits g AND wanted) else Inl TimedOut)"
proof -
  have any: "ev_bits g AND wanted \<noteq> 0 \<longleftrightarrow> (\<exists>n. bit wanted n \<and> bit (ev_bits g) n)"
    by (auto simp: word_nonzero_bit bit_and_iff)
  have all: "ev_bits g AND wanted = wanted \<longleftrightarrow> (\<forall>n. bit wanted n \<longrightarrow> bit (ev_bits g) n)"
    by (auto intro: bit_word_eqI simp: bit_and_iff) (metis bit_and_iff)
  show ?thesis unfolding satisfied_or_def Let_def any all lit_def using word_nonzero_bit [of wanted] by auto
qed

section \<open>Properties\<close>

text \<open>C20: the broadcast. Setting bits lights them, empties the waiting list and makes every task that waited
  runnable, in the order in which they came; no other task changes its state. Afterwards every wait
  whose bits are among those set, for any or for all of them, returns them at its next turn; clearing
  puts exactly the given bits out.\<close>

theorem event_set_wakes_everyone:
  assumes h: "ev_holds s m ws" and r: "refines s a" and i: "a_inv a"
    and ws: "\<forall>w \<in> set ws. \<exists>u \<in> a_tasks a. node_task s w = Some u"
  shows "\<exists>s'. ev_set m bits s = Some s' \<and> ev_holds s' m [] \<and> ev_bits (events s' m) = ev_bits (events s m) OR bits
    \<and> refines s' (fold a_wake (map (\<lambda>w. the (node_task s w)) ws) a)
    \<and> (\<forall>u. tcb_state (tcbs s' u) = (if (\<exists>w \<in> set ws. node_task s w = Some u) \<and> tcb_state (tcbs s u) = Blocked
         then Ready else tcb_state (tcbs s u)))
    \<and> (\<forall>me wanted all_of. wanted \<noteq> 0 \<and> wanted AND bits = wanted \<longrightarrow>
         (\<exists>s''. ev_wait_turn m me wanted all_of s' = Some (Some wanted, s'')))
    \<and> ev_bits (events (ev_clear m bits s') m) = ev_bits (events s m) AND NOT bits"
proof -
  let ?s0 = "set_event m ((events s m)\<lparr>ev_bits := ev_bits (events s m) OR bits\<rparr>) (sys_lock s)"
  let ?us = "map (\<lambda>w. the (node_task s w)) ws"
  have "ev_holds ?s0 m ws" "refines ?s0 a" "\<forall>w \<in> set ws. \<exists>u \<in> a_tasks a. node_task ?s0 w = Some u"
    using h r ws by (simp_all add: ev_holds_def)
  then obtain s1 where s1: "wake_all m ?s0 = Some s1" "ev_holds s1 m []" "ev_bits (events s1 m) = ev_bits (events s m) OR bits"
    "refines s1 (fold a_wake ?us a)"
    using wake_all_spec [of ?s0 m ws a] i by auto
  have set: "ev_set m bits s = Some (sys_unlock s1)" using s1(1) by (simp add: ev_set_def CriticalGuard_opt_def)
  have mem: "u \<in> set ?us \<longleftrightarrow> (\<exists>w \<in> set ws. node_task s w = Some u)" for u using ws by force
  have st: "tcb_state (tcbs s1 u) = (if (\<exists>w \<in> set ws. node_task s w = Some u) \<and> tcb_state (tcbs s u) = Blocked
         then Ready else tcb_state (tcbs s u))" for u
    using refines_state [OF s1(4), of u] refines_state [OF r, of u] a_wakes_state [of ?us a u] unfolding mem by metis
  have "(ev_bits (events s m) OR bits) AND wanted = wanted" if "wanted AND bits = wanted" for wanted
    by (subst bit.conj_disj_distrib2, subst (2) and.commute, subst that) (simp add: word_ao_absorbs)
  then have "\<exists>s''. ev_wait_turn m me wanted all_of (sys_unlock s1) = Some (Some wanted, s'')"
    if "wanted \<noteq> 0 \<and> wanted AND bits = wanted" for me wanted all_of
    using that s1(3) by (simp add: ev_wait_turn_def satisfied_or_def Let_def)
  moreover have "ev_bits (events (ev_clear m bits (sys_unlock s1)) m) = ev_bits (events s m) AND NOT bits"
    using s1(3) by (simp add: ev_clear_def CriticalGuard_def bit.conj_disj_distrib2)
  ultimately show ?thesis using set s1 st by (intro exI [of _ "sys_unlock s1"]) (simp add: ev_holds_def)
qed

theorem event_set_wakes_everyone_witness:
  "\<exists>s'. ev_set 3 6 wn_up = Some s' \<and> ev_bits (events s' 3) = 6 \<and> (\<exists>s''. ev_wait_turn 3 8 2 True s' = Some (Some 2, s''))"
proof -
  have "ev_holds wn_up 3 []" by (simp add: ev_holds_def wn_up_def sys.defs rep_new)
  moreover have "refines wn_up (a_op OpPick (a_op (OpAdd (Some 1)) asched_new))" using one_up_state(1) by simp
  ultimately obtain s' where s': "ev_set 3 6 wn_up = Some s'" "ev_bits (events s' 3) = ev_bits (events wn_up 3) OR 6"
    "\<forall>me wanted all_of. wanted \<noteq> 0 \<and> wanted AND 6 = wanted \<longrightarrow> (\<exists>s''. ev_wait_turn 3 me wanted all_of s' = Some (Some wanted, s''))"
    using event_set_wakes_everyone [OF _ _ one_up_state(2), of wn_up 3 "[]" 6] by auto
  then show ?thesis by (auto simp: wn_up_def sys.defs)
qed

text \<open>Waiting for bits. A turn of the untimed wait returns the lit bits of the mask as soon as one of them,
  or all of them when all are asked for, is lit; otherwise it queues the caller behind the others and
  blocks it. An empty mask is never satisfied.\<close>

theorem event_wait_turns:
  assumes h: "ev_holds s m ws" and me: "me \<notin> set ws" and c: "current s = Some t"
  shows "\<exists>s'. if lit (ev_bits (events s m)) wanted all_of
      then ev_wait_turn m me wanted all_of s = Some (Some (ev_bits (events s m) AND wanted), s')
        \<and> ev_holds s' m ws \<and> tcbs s' = tcbs s
      else ev_wait_turn m me wanted all_of s = Some (None, s')
        \<and> ev_holds s' m (ws @ [me]) \<and> tcb_state (tcbs s' t) = Blocked \<and> node_task s' me = Some t"
proof (cases "lit (ev_bits (events s m)) wanted all_of")
  case True
  then have "ev_wait_turn m me wanted all_of s = Some (Some (ev_bits (events s m) AND wanted), sys_unlock (sys_lock s))"
    by (simp add: ev_wait_turn_def satisfied_or_lit)
  then show ?thesis using True h by (auto simp: ev_holds_def)
next
  case False
  have h0: "ev_holds (EventWaiter_new me (Some t) (sys_lock s)) m ws"
    by (rule ev_new_node [OF _ me]) (use h in \<open>simp add: ev_holds_def\<close>)
  obtain s1 where s1: "ev_insert m me (EventWaiter_new me (Some t) (sys_lock s)) = Some s1" "ev_holds s1 m (ws @ [me])"
    "node_task s1 me = Some t" "current s1 = Some t"
    using h0 me by (rule ev_insert_spec) (simp add: EventWaiter_new_def c)
  then have "ev_wait_turn m me wanted all_of s = Some (None, sys_unlock (sched_block (Some t) s1))"
    using False c by (simp add: ev_wait_turn_def satisfied_or_lit sys_current_task_def current_task_def sys_block_def)
  then show ?thesis using False s1 by (auto simp: ev_holds_def)
qed

theorem event_wait_turns_witness:
  "\<exists>s'. ev_wait_turn 3 8 5 False wn_up = Some (None, s') \<and> tcb_state (tcbs s' 1) = Blocked"
proof -
  have "ev_holds wn_up 3 []" by (simp add: ev_holds_def wn_up_def sys.defs rep_new)
  moreover have "ev_bits (events wn_up 3) = 0" by (simp add: wn_up_def sys.defs)
  ultimately show ?thesis using event_wait_turns [of wn_up 3 "[]" 8 1 5 False] by (auto simp: lit_def)
qed

text \<open>Waiting for bits with a timeout always returns, with the verdict the bits give at that moment: the lit
  bits of the mask, or \<open>TimedOut\<close> only when they do not satisfy it and the deadline has passed. In both
  cases the caller's node is out of the list.\<close>

theorem event_timed_wait_returns:
  assumes w: "ev_resumes t m me (now_tick s + timeout) world" and h: "ev_holds s m ws" and k: "tk_inv s qs"
    and c: "current s = Some t" and me: "me \<notin> set ws"
  shows "\<exists>v s' ws'. ev_wait_for world m me wanted all_of timeout s = Some (v, s') \<and> ev_holds s' m ws' \<and> me \<notin> set ws'
    \<and> v = satisfied_or (events s' m) wanted all_of \<and> (isl v \<longrightarrow> sint (now_tick s + timeout - now_tick s') \<le> 0)"
proof -
  let ?s = "EventWaiter_new me (Some t) s" and ?ddl = "now_tick s + timeout"
  have now: "now_tick ?s = now_tick s" "current ?s = Some t" using c by (simp_all add: EventWaiter_new_def)
  have h': "ev_holds ?s m ws" by (rule ev_new_node [OF h me])
  have k': "tk_inv ?s qs" using k by (subst tk_inv_cong [of _ s]) (simp_all add: EventWaiter_new_def)
  have call: "ev_wait_for world m me wanted all_of timeout s = ev_timed_loop world m me wanted all_of ?ddl ?s"
    using c by (simp add: ev_wait_for_def sys_now_def time_current_def Clock_current_def sys_current_task_def current_task_def)
  have "\<forall>s. (\<exists>qs ws. ev_holds s m ws \<and> tk_inv s qs) \<longrightarrow> (\<exists>s'. world s = Some s'
      \<and> (\<exists>qs ws. ev_holds s' m ws \<and> tk_inv s' qs \<and> current s' = Some t \<and> (me \<in> set ws \<longrightarrow> sint (?ddl - now_tick s') \<le> 0))
      \<and> 0 < sint (now_tick s' - now_tick s))"
    using w unfolding ev_resumes_def by blast
  from waiting_bits.turns_return [OF this, of ?s wanted all_of] show ?thesis using h' k' now me call by auto
qed

theorem event_timed_wait_returns_witness:
  "\<exists>v s'. ev_wait_for (\<lambda>s. Some (wn_up\<lparr>now_tick := now_tick s + 1\<rparr>)) 3 8 4 True 20 wn_up = Some (v, s')
     \<and> v = satisfied_or (events s' 3) 4 True"
proof -
  have "tk_inv (wn_up\<lparr>now_tick := n\<rparr>) []" for n
    using wn_up_sel(5) by (simp add: tk_inv_def tq_inv_def alarm_inv_def by_rel_def half_circle_def)
  moreover have h: "ev_holds (wn_up\<lparr>now_tick := n\<rparr>) 3 []" "ev_holds wn_up 3 []" for n
    by (simp_all add: ev_holds_def wn_up_def sys.defs rep_new)
  ultimately have w: "ev_resumes 1 3 8 ddl (\<lambda>s. Some (wn_up\<lparr>now_tick := now_tick s + 1\<rparr>))" for ddl
    by (fastforce simp: ev_resumes_def)
  from event_timed_wait_returns [OF w h(2) wn_up_sel(5,2), where timeout = 20 and wanted = 4 and all_of = True] show ?thesis by auto
qed

end
