(* ===== verification/Demo_Sync.thy ===== *)
theory Demo_Sync
  imports Demo_Time Event_Group
begin

text \<open>
  The task functions and callbacks of the example programs that wait for each other: \<open>event_stream\<close>, \<open>events_notify\<close>,
  \<open>bottom_half\<close>, \<open>timers\<close> and \<open>testaments\<close> under \<^verbatim>\<open>src/board/stm32f103_bluepill/example\<close>. The file-scope variables of a program
  are fields that extend the kernel's state. Callbacks of timers and interrupt handlers run without a \<open>world\<close> of their
  own: what they post must not wait, which is a theorem here.
\<close>

section \<open>event_stream\<close>

record stream = "char qw" +
  g_next :: char

definition drop_one ::
  "('a stream_scheme \<Rightarrow> 'a stream_scheme option) \<Rightarrow> addr \<Rightarrow> addr \<Rightarrow> 'a stream_scheme \<Rightarrow> 'a stream_scheme option" where
  "drop_one world g_stream me s = do {
     (_, s1) \<leftarrow> post world g_stream me (g_next s) s;
     let s2 = s1\<lparr>g_next := char_of (of_char (g_next s1) + 1 :: nat)\<rparr>;
     Some (if of_char (g_next s2) > (of_char (CHR ''f'') :: nat) then s2\<lparr>g_next := CHR ''a''\<rparr> else s2)
   }"

definition consumer_round ::
  "((char, 'a) qw_scheme \<Rightarrow> (char, 'a) qw_scheme option) \<Rightarrow> char list \<Rightarrow> (char, 'a) qw_scheme logging \<Rightarrow> addr \<Rightarrow> addr
    \<Rightarrow> (char, 'a) qw_scheme \<Rightarrow> (char, 'a) qw_scheme option" where
  "consumer_round world buf l g_stream me s = do {
     (got, s1) \<leftarrow> receive_one world g_stream me s;
     case got of Inr c \<Rightarrow> print buf (''got '' @ [CHR 0x27] @ ''{}'' @ [CHR 0x27] @ crlf) [Char c] l s1 | Inl _ \<Rightarrow> Some s1
   }"

text \<open>The strong interrupt handler of \<open>event_stream\<close> and, with another queue, of \<open>testaments\<close>.\<close>

definition stream_USART1_IRQHandler ::
  "((char, 'a) qw_scheme \<Rightarrow> (char, 'a) qw_scheme option) \<Rightarrow> usart_masks \<Rightarrow> addr \<Rightarrow> addr \<Rightarrow> usart \<times> (char, 'a) qw_scheme
    \<Rightarrow> (usart \<times> (char, 'a) qw_scheme) option" where
  "stream_USART1_IRQHandler world m g_stream me us =
     (let (u, s) = us
      in if us_sr u AND USART_SR_RXNE m \<noteq> 0
         then case uart1_getc m u of (c, u1) \<Rightarrow> map_option (\<lambda>(_, s1). (u1, s1)) (post world g_stream me c s)
         else Some (u, s))"

section \<open>events_notify\<close>

record keys = wn +
  g_owner :: "addr option"

definition press_a :: "addr \<Rightarrow> 'a wn_scheme \<Rightarrow> 'a wn_scheme option" where
  "press_a g_keys = ev_set g_keys (push_bit 0 1)"

definition press_b :: "addr \<Rightarrow> 'a wn_scheme \<Rightarrow> 'a wn_scheme option" where
  "press_b g_keys = ev_set g_keys (push_bit 1 1)"

definition drop_letter :: "'a keys_scheme \<Rightarrow> 'a keys_scheme" where
  "drop_letter s = snd (sys_notify (g_owner s) 42 s)"

definition key_waiter ::
  "('a wn_scheme \<Rightarrow> 'a wn_scheme option) \<Rightarrow> char list \<Rightarrow> 'a wn_scheme logging \<Rightarrow> addr \<Rightarrow> addr \<Rightarrow> 'a wn_scheme \<Rightarrow> 'a wn_scheme option" where
  "key_waiter world buf l g_keys me s = do {
     (got, s1) \<leftarrow> ev_wait world g_keys me 3 True s;
     s2 \<leftarrow> print buf (''evt: both keys in (bits=0x{})'' @ crlf) [Hex got] l s1;
     Some (ThisTask_block s2)
   }"

definition mailbox_task ::
  "('a keys_scheme \<Rightarrow> 'a keys_scheme option) \<Rightarrow> char list \<Rightarrow> 'a keys_scheme logging \<Rightarrow> 'a keys_scheme \<Rightarrow> 'a keys_scheme option" where
  "mailbox_task world buf l s = do {
     let s1 = s\<lparr>g_owner := sys_current_task s\<rparr>;
     (letter, s2) \<leftarrow> ThisTask_wait_notify world 2000 s1;
     s3 \<leftarrow> (case letter of Inr v \<Rightarrow> print buf (''nt: letter says {}'' @ crlf) [Dec v] l s2
           | Inl _ \<Rightarrow> print buf (''nt: mailbox stayed empty'' @ crlf) [] l s2);
     Some (ThisTask_block s3)
   }"

section \<open>bottom_half, timers\<close>

record jobs = "Callback qw" +
  g_job_count :: u32

definition heavy_job ::
  "('a jobs_scheme \<Rightarrow> 'a jobs_scheme option) \<Rightarrow> char list \<Rightarrow> 'a jobs_scheme logging \<Rightarrow> 'a jobs_scheme \<Rightarrow> 'a jobs_scheme option" where
  "heavy_job world buf l s = do {
     let s1 = s\<lparr>g_job_count := g_job_count s + 1\<rparr>;
     s2 \<leftarrow> print buf (''worker: job #{} in, napping 200ms'' @ crlf) [Dec (g_job_count s1)] l s1;
     s3 \<leftarrow> ThisTask_sleep_for 200 s2;
     s4 \<leftarrow> world s3;
     print buf (''worker: job #{} done'' @ crlf) [Dec (g_job_count s4)] l s4
   }"

definition drop_job ::
  "((Callback, 'a) qw_scheme \<Rightarrow> (Callback, 'a) qw_scheme option) \<Rightarrow> addr \<Rightarrow> addr \<Rightarrow> addr \<Rightarrow> (Callback, 'a) qw_scheme \<Rightarrow> (Callback, 'a) qw_scheme option" where
  "drop_job world g_worker me heavy_fn s = map_option snd (work_defer world g_worker me (Some heavy_fn) None s)"

record beats = sys +
  g_beats :: u32

definition timers_once :: "char list \<Rightarrow> 's logging \<Rightarrow> 's \<Rightarrow> 's option" where
  "timers_once buf l s = print buf (''one-shot: fired, going cold'' @ crlf) [] l s"

definition timers_beat :: "char list \<Rightarrow> 'a beats_scheme logging \<Rightarrow> 'a beats_scheme \<Rightarrow> 'a beats_scheme option" where
  "timers_beat buf l s = (let s1 = s\<lparr>g_beats := g_beats s + 1\<rparr> in print buf (''beat #{}'' @ crlf) [Dec (g_beats s1)] l s1)"

section \<open>testaments\<close>

text \<open>The memory is an argument of its own, so that the terminal can have a queue beside it.\<close>

definition smash_canary :: "'a sched_scheme \<Rightarrow> mem \<Rightarrow> mem option" where
  "smash_canary s m = (case current_task s of None \<Rightarrow> None
     | Some cur \<Rightarrow> let view = stack_view (tcbs s cur) in Some (m(span_at view 7 := 0, span_at view 6 := 0)))"

record terminal = "char qw" +
  term_memory :: mem

text \<open>\<open>udf\<close> is what the undefined instruction brings: the hard fault, which does not come back.\<close>

definition terminal_round ::
  "('a terminal_scheme \<Rightarrow> 'a terminal_scheme option) \<Rightarrow> ('a terminal_scheme \<Rightarrow> 'a terminal_scheme option) \<Rightarrow> char list \<Rightarrow> 'a terminal_scheme logging
    \<Rightarrow> addr \<Rightarrow> addr \<Rightarrow> 'a terminal_scheme \<Rightarrow> 'a terminal_scheme option" where
  "terminal_round world udf buf l g_terminal me s = do {
     (got, s1) \<leftarrow> receive_one world g_terminal me s;
     case got of Inl _ \<Rightarrow> Some s1
     | Inr c \<Rightarrow>
         if c = CHR ''x'' then do {
           s2 \<leftarrow> print buf (''term: executing an undefined instruction, goodbye'' @ crlf) [] l s1;
           udf s2
         }
         else if c = CHR ''y'' then do {
           s2 \<leftarrow> print buf (''term: smashing my canary'' @ crlf) [] l s1;
           m \<leftarrow> smash_canary s2 (term_memory s2);
           s3 \<leftarrow> ThisTask_sleep_for 2 (s2\<lparr>term_memory := m\<rparr>);
           world s3
         }
         else print buf (''term: '' @ [CHR 0x27] @ ''{}'' @ [CHR 0x27] @ crlf) [Char c] l s1
   }"

section \<open>Properties\<close>

definition next_in_cycle :: "char \<Rightarrow> char" where
  "next_in_cycle c = (case find (\<lambda>(x, y). x = c) (zip ''abcdef'' ''bcdefa'') of Some (x, y) \<Rightarrow> y | None \<Rightarrow> c)"

lemma next_letter:
  assumes "c \<in> set ''abcdef''"
  shows "(let d = char_of (of_char c + 1 :: nat) in if of_char d > (of_char (CHR ''f'') :: nat) then CHR ''a'' else d) = next_in_cycle c"
    "next_in_cycle c \<in> set ''abcdef''"
proof -
  have n: "char_of (98 :: nat) = CHR ''b''" "char_of (99 :: nat) = CHR ''c''" "char_of (100 :: nat) = CHR ''d''" "char_of (101 :: nat) = CHR ''e''"
    "char_of (102 :: nat) = CHR ''f''" "char_of (103 :: nat) = CHR ''g''"
    by (simp_all add: char_of_def bit_Suc_0_iff)
  have c: "c = CHR ''a'' \<or> c = CHR ''b'' \<or> c = CHR ''c'' \<or> c = CHR ''d'' \<or> c = CHR ''e'' \<or> c = CHR ''f''" using assms by simp
  show "(let d = char_of (of_char c + 1 :: nat) in if of_char d > (of_char (CHR ''f'') :: nat) then CHR ''a'' else d) = next_in_cycle c"
    by (rule c [THEN disjE]; (elim disjE)?; simp add: next_in_cycle_def n)
  show "next_in_cycle c \<in> set ''abcdef''"
    by (rule c [THEN disjE]; (elim disjE)?; simp add: next_in_cycle_def)
qed

text \<open>C26: the feeder never waits. Whatever the rest of the system would do, a drop from the tick interrupt returns at once:
  it stores the next letter if there is room and drops it otherwise, and in both cases the letter goes on in the
  cycle from a to f; the queue stays exact.\<close>

theorem feeder_never_waits:
  assumes inv: "queue_inv q s xs r t" and h: "sem_holds s (q_room (queues s q)) ws" and me: "me \<notin> set ws"
    and letter: "g_next s \<in> set ''abcdef''"
  shows "\<exists>s'. (\<forall>world. drop_one world q me s = Some s')
    \<and> queue_inv q s' (if sem_count (semas s (q_room (queues s q))) = 0 then xs else xs @ [g_next s]) r t
    \<and> g_next s' = next_in_cycle (g_next s) \<and> g_next s' \<in> set ''abcdef''"
proof -
  obtain s1 e where s1: "qw.more s1 = qw.more s" "\<forall>world. post world q me (g_next s) s = Some (e, s1)"
    "queue_inv q s1 (if sem_count (semas s (q_room (queues s q))) = 0 then xs else xs @ [g_next s]) r t"
    using post_now [OF inv h me, of "g_next s"] by (auto split: if_splits)
  have g: "g_next s1 = g_next s" using s1(1) by (cases s; cases s1; simp)
  let ?s = "s1\<lparr>g_next := next_in_cycle (g_next s)\<rparr>"
  have "drop_one world q me s = Some ?s" for world
    using s1(2) g next_letter(1) [OF letter] by (auto simp: drop_one_def Let_def split: if_splits)
  moreover have "queue_inv q ?s ys r t = queue_inv q s1 ys r t" for ys by (simp add: queue_inv_def)
  ultimately show ?thesis using s1(3) next_letter(2) [OF letter] by (intro exI [of _ ?s]) simp
qed

text \<open>The witness: an empty stream of sixteen slots, at address 9, between the semaphores 1 and 2.\<close>

definition stream_up :: stream where
  "stream_up = wn.extend (wn_up\<lparr>semas := (\<lambda>m. if m = 1 then Semaphore_new 0 else Semaphore_new 16)\<rparr>)
     \<lparr>queues = (\<lambda>_. Queue_new 1 2 16 CHR 0x00), workers = (\<lambda>_. \<lparr>wk_task = None, wk_queue = 0, wk_box = 0, wk_stack = \<lparr>span_data = 0, span_size = 0\<rparr>\<rparr>),
      g_next = CHR ''f''\<rparr>"

theorem feeder_never_waits_witness:
  "\<exists>s'. (\<forall>world. drop_one world 9 8 stream_up = Some s') \<and> contents (queues s' 9) = ''f'' \<and> g_next s' = CHR ''a''"
proof -
  have q: "queue_inv 9 stream_up [] 0 0"
    by (rule queue_inv_new [where d = 1 and rm = 2 and cap = 16 and z = "CHR 0x00"]) (simp_all add: stream_up_def wn.defs power_of_two_def)
  have h: "sem_holds stream_up (q_room (queues stream_up 9)) []"
    by (simp add: sem_holds_def stream_up_def wn.defs Queue_new_def Semaphore_new_def rep_new)
  have g: "g_next stream_up = CHR ''f''" "sem_count (semas stream_up (q_room (queues stream_up 9))) = 16"
    by (simp_all add: stream_up_def wn.defs Queue_new_def Semaphore_new_def)
  show ?thesis using feeder_never_waits [OF q h, of 8] g by (auto simp: queue_inv_def next_in_cycle_def)
qed

text \<open>Presses of the two keys, \<open>True\<close> for the first.\<close>

definition press :: "addr \<Rightarrow> bool \<Rightarrow> 'a wn_scheme \<Rightarrow> 'a wn_scheme option" where
  "press k b = (if b then press_a k else press_b k)"

definition key_bits :: "bool list \<Rightarrow> u32" where
  "key_bits ps = (if True \<in> set ps then 1 else 0) OR (if False \<in> set ps then 2 else 0)"

lemma press_spec:
  assumes "ev_holds s k ws" and "refines s a" and "a_inv a" and "\<forall>w \<in> set ws. \<exists>u \<in> a_tasks a. node_task s w = Some u"
  shows "\<exists>s' a'. press k b s = Some s' \<and> ev_holds s' k [] \<and> ev_bits (events s' k) = ev_bits (events s k) OR key_bits [b]
    \<and> refines s' a' \<and> a_inv a' \<and> (\<forall>w \<in> set ws. \<forall>u. node_task s w = Some u \<longrightarrow> tcb_state (tcbs s' u) \<noteq> Blocked)"
proof -
  let ?s0 = "set_event k ((events s k)\<lparr>ev_bits := ev_bits (events s k) OR key_bits [b]\<rparr>) (sys_lock s)"
  let ?a = "fold a_wake (map (\<lambda>w. the (node_task s w)) ws) a"
  have "ev_holds ?s0 k ws" "refines ?s0 a" "\<forall>w \<in> set ws. \<exists>u \<in> a_tasks a. node_task ?s0 w = Some u"
    using assms(1,2,4) by (simp_all add: ev_holds_def)
  then obtain s1 where s1: "wake_all k ?s0 = Some s1" "ev_holds s1 k []" "ev_bits (events s1 k) = ev_bits (events s k) OR key_bits [b]"
    "refines s1 ?a" "a_inv ?a" using wake_all_spec [of ?s0 k ws a] assms(3) by auto
  have "tcb_state (tcbs s1 u) \<noteq> Blocked" if "w \<in> set ws" "node_task s w = Some u" for w u
  proof -
    have "u \<in> set (map (\<lambda>w. the (node_task s w)) ws)" using that by force
    then show ?thesis using refines_state [OF s1(4), of u] a_wakes_state [of "map (\<lambda>w. the (node_task s w)) ws" a u]
      by (auto split: if_splits)
  qed
  moreover have "press k b s = Some (sys_unlock s1)"
    using s1(1) by (cases b) (simp_all add: press_def press_a_def press_b_def key_bits_def ev_set_def CriticalGuard_opt_def)
  ultimately show ?thesis using s1 by (intro exI [of _ "sys_unlock s1"] exI [of _ ?a]) (auto simp: ev_holds_def)
qed

lemma presses_spec:
  assumes "ev_holds s k ws" and "refines s a" and "a_inv a" and "\<forall>w \<in> set ws. \<exists>u \<in> a_tasks a. node_task s w = Some u"
  shows "\<exists>s'. each (press k) ps s = Some s' \<and> ev_bits (events s' k) = ev_bits (events s k) OR key_bits ps"
  using assms
proof (induction ps arbitrary: s ws a)
  case Nil
  then show ?case by (simp add: key_bits_def)
next
  case (Cons b ps)
  obtain s1 a1 where s1: "press k b s = Some s1" "ev_holds s1 k []" "ev_bits (events s1 k) = ev_bits (events s k) OR key_bits [b]"
    "refines s1 a1" "a_inv a1" using press_spec [OF Cons.prems, of b] by blast
  have "key_bits (b # ps) = key_bits [b] OR key_bits ps" by (cases b) (auto simp: key_bits_def or.assoc or.left_commute)
  then show ?case using Cons.IH [OF s1(2,4,5)] s1(1,3) by (auto simp: or.assoc)
qed

lemma both_keys: "lit (key_bits ps) 3 True \<longleftrightarrow> {True, False} \<subseteq> set ps" "{True, False} \<subseteq> set ps \<Longrightarrow> key_bits ps AND 3 = 3"
proof -
  let ?g = "\<lparr>ev_bits = key_bits ps, ev_waiters = SelfList_new\<rparr>"
  have "lit (key_bits ps) 3 True \<longleftrightarrow> satisfied_or ?g 3 True \<noteq> Inl TimedOut" using satisfied_or_lit [of ?g 3 True] by auto
  also have "\<dots> \<longleftrightarrow> {True, False} \<subseteq> set ps" by (auto simp: satisfied_or_def key_bits_def Let_def)
  finally show "lit (key_bits ps) 3 True \<longleftrightarrow> {True, False} \<subseteq> set ps" .
  show "key_bits ps AND 3 = 3" if "{True, False} \<subseteq> set ps" using that by (simp add: key_bits_def)
qed

text \<open>The two-key interlock. Whatever the order and number of the presses, every press returns; when the waiter gets its turn
  afterwards, its wait for both keys returns both bits if each key has been pressed, and otherwise it queues and
  blocks again.\<close>

theorem two_keys_needed:
  assumes h: "ev_holds s k ws" and r: "refines s a" and i: "a_inv a" and ws: "\<forall>w \<in> set ws. \<exists>u \<in> a_tasks a. node_task s w = Some u"
    and dark: "ev_bits (events s k) = 0"
  shows "\<exists>s'. each (press k) ps s = Some s' \<and>
    (\<forall>s'' vs me t. ev_bits (events s'' k) = ev_bits (events s' k) \<and> ev_holds s'' k vs \<and> me \<notin> set vs \<and> current s'' = Some t \<longrightarrow>
       (if {True, False} \<subseteq> set ps then \<exists>s3. \<forall>world. ev_wait world k me 3 True s'' = Some (3, s3)
        else \<exists>s3. ev_wait_turn k me 3 True s'' = Some (None, s3) \<and> ev_holds s3 k (vs @ [me]) \<and> tcb_state (tcbs s3 t) = Blocked))"
proof -
  obtain s' where s': "each (press k) ps s = Some s'" "ev_bits (events s' k) = key_bits ps"
    using presses_spec [OF h r i ws, of ps] dark by auto
  have "if {True, False} \<subseteq> set ps then \<exists>s3. \<forall>world. ev_wait world k me 3 True s'' = Some (3, s3)
      else \<exists>s3. ev_wait_turn k me 3 True s'' = Some (None, s3) \<and> ev_holds s3 k (vs @ [me]) \<and> tcb_state (tcbs s3 t) = Blocked"
    if w: "ev_bits (events s'' k) = ev_bits (events s' k)" "ev_holds s'' k vs" "me \<notin> set vs" "current s'' = Some t" for s'' vs me t
    using event_wait_turns [OF w(2-4), of 3 True] both_keys [of ps] w(1) s'(2) by (auto simp: ev_wait.simps [of _ k me 3 True s''])
  then show ?thesis using s'(1) by blast
qed

theorem two_keys_needed_witness:
  "\<exists>s'. each (press 3) [True, False] wn_up = Some s' \<and>
    (\<exists>s3. \<forall>world. ev_wait world 3 8 3 True (wn_up\<lparr>events := (\<lambda>_. \<lparr>ev_bits = ev_bits (events s' 3), ev_waiters = SelfList_new\<rparr>)\<rparr>) = Some (3, s3))"
proof -
  let ?w = "\<lambda>b. wn_up\<lparr>events := (\<lambda>_. \<lparr>ev_bits = b, ev_waiters = SelfList_new\<rparr>)\<rparr>"
  have h: "ev_holds wn_up 3 []" "ev_bits (events wn_up 3) = 0" by (simp_all add: ev_holds_def wn_up_def sys.defs rep_new)
  have c: "ev_holds (?w b) 3 []" "current (?w b) = Some 1" "ev_bits (events (?w b) 3) = b" for b
    using one_up_state by (simp_all add: ev_holds_def rep_new)
  have r: "refines wn_up (a_op OpPick (a_op (OpAdd (Some 1)) asched_new))" using one_up_state(1) by simp
  obtain s' where s': "each (press 3) [True, False] wn_up = Some s'"
    "\<forall>(s'' :: wn) vs me t. ev_bits (events s'' 3) = ev_bits (events s' 3) \<and> ev_holds s'' 3 vs \<and> me \<notin> set vs \<and> current s'' = Some t \<longrightarrow>
       (\<exists>s3. \<forall>world. ev_wait world 3 me 3 True s'' = Some (3, s3))"
    using two_keys_needed [OF h(1) r one_up_state(2) _ h(2), of "[True, False]"] by auto
  show ?thesis using s'(1) s'(2) [rule_format, of "?w (ev_bits (events s' 3))" "[]" 8 1] c by auto
qed

text \<open>C27: a smashed canary is reported. When a task whose sentinel was whole has smashed its canary as the terminal does, and
  its stack pointer is clear of the sentinel by the two frames of a switch, the next switch calls the installed reporter
  before anything else, with that task and exactly two eaten words.\<close>

theorem smashed_canary_reported:
  assumes cur: "current s = Some t" and whole: "eaten_length (memory s) (tcbs s t) = 0"
    and sp: "span_data (stack_view (tcbs s t)) + 4 * kCanarySize + 64 \<le> psp s" and smash: "smash_canary s (memory s) = Some m"
    and f: "overflow_reporter s = Some f"
  shows "\<exists>s1 k. current s1 = Some t \<and> (\<forall>report. take_PendSV report (s\<lparr>memory := m\<rparr>) = Option.bind (report f t 2 s1) k)"
proof -
  let ?v = "stack_view (tcbs s t)"
  let ?e = "exception_entry (s\<lparr>memory := m\<rparr>)"
  define m1 where "m1 = write_words (psp s - 64) (sf_words (callee s)) (write_words (psp s - 32) (ef_words (core s)) m)"
  have m: "m = (memory s)(span_at ?v 7 := 0, span_at ?v 6 := 0)" using smash cur by (simp add: smash_canary_def current_task_def Let_def)
  have w: "\<forall>i < kCanarySize. memory s (span_at ?v i) = kCanaryWord" using whole by (simp add: eaten_length_card)
  have at: "m1 (span_at ?v i) = m (span_at ?v i)" if "i < kCanarySize" for i
    using that sp unfolding m1_def by (subst write_words_other, force simp: span_at_def kCanarySize_def,
      subst write_words_other, force simp: span_at_def kCanarySize_def, simp)
  have v: "m (span_at ?v i) = (if i = 6 \<or> i = 7 then 0 else kCanaryWord)" if "i < kCanarySize" for i
    using that w by (auto simp: m span_at_def)
  have "{i. i < kCanarySize \<and> m1 (span_at ?v i) \<noteq> kCanaryWord} = {6, 7}"
    using at v by (auto simp: kCanarySize_def kCanaryWord_def split: if_splits)
  then have e: "eaten_length m1 (tcbs s t) = 2" by (simp add: eaten_length_card)
  have c: "fast_check_stack m1 (tcbs s t)" using at [of 7] v [of 7] by (simp add: fast_check_stack_def kCanarySize_def kCanaryWord_def)
  let ?s1 = "set_sp t (Some (psp s - 64)) (?e\<lparr>memory := m1\<rparr>)"
  let ?k = "\<lambda>s2. case pick_next_locked s2 of (u, s3) \<Rightarrow> map_option exception_return (load_context (stack_pointer (tcbs s3 u)) s3)"
  have p: "psp s - 32 \<noteq> 0" "psp s - 32 - 32 = psp s - 64" using sp by (simp_all add: kCanarySize_def)
  have "take_PendSV report (s\<lparr>memory := m\<rparr>) = Option.bind (report f t 2 ?s1) ?k" for report
    using cur f e c p
    by (simp add: take_PendSV_def PendSV_Handler_def exception_entry_def context_switch_def current_task_def set_sp_def m1_def
        eaten_length_def fast_check_stack_def Let_def map_option_bind comp_def case_prod_beta)
  moreover have "current ?s1 = Some t" using cur by (simp add: set_sp_def exception_entry_def)
  ultimately show ?thesis by blast
qed

definition at_terminal :: mach where
  "at_terminal = (mach_new two_stacks)\<lparr>current := Some 7, memory := bury_canary (tcbs (mach_new two_stacks) 7) (\<lambda>_. 0), psp := 2200, overflow_reporter := Some 5\<rparr>"

theorem smashed_canary_reported_witness:
  "\<exists>m s1 k. smash_canary at_terminal (memory at_terminal) = Some m \<and> m 2028 = 0 \<and> current s1 = Some 7
     \<and> (\<forall>report. take_PendSV report (at_terminal\<lparr>memory := m\<rparr>) = Option.bind (report 5 7 2 s1) k)"
proof -
  let ?s = "at_terminal"
  have v: "stack_view (tcbs ?s 7) = \<lparr>span_data = 2000, span_size = 64\<rparr>"
    by (simp add: at_terminal_def mach_new_refines two_stacks_def idle_task_def)
  have "memory ?s (span_at (stack_view (tcbs ?s 7)) i) = kCanaryWord" if "i < kCanarySize" for i
    using that v by (auto simp: at_terminal_def bury_canary_at mach_new_refines kCanarySize_def dest: spec [of _ i])
  then have e: "eaten_length (memory ?s) (tcbs ?s 7) = 0" by (simp add: eaten_length_card)
  have c: "current ?s = Some 7" "overflow_reporter ?s = Some 5" "psp ?s = 2200" by (simp_all add: at_terminal_def)
  have sp: "span_data (stack_view (tcbs ?s 7)) + 4 * kCanarySize + 64 \<le> psp ?s" using v c(3) by (simp add: kCanarySize_def)
  obtain m where m: "smash_canary ?s (memory ?s) = Some m" "m 2028 = 0"
    using c(1) v by (simp add: smash_canary_def current_task_def span_at_def)
  show ?thesis using smashed_canary_reported [OF c(1) e sp m(1) c(2)] m by blast
qed

end
