(* ===== verification/Demo_Perf.thy ===== *)
theory Demo_Perf
  imports Demo_Time
begin

text \<open>
  The measuring program \<^verbatim>\<open>src/board/stm32f103_bluepill/example/perf/main.cpp\<close>: two tasks that hand the processor to each other a
  thousand times and a third that reports the minimum, the average and the maximum of the cycles a switch took. The
  file-scope variables extend the kernel's state. \<open>spin\<close> is what happens between two looks of a spinning task at the turn
  flag, \<open>world\<close> what happens while a task is off the processor. The handler's probe exists only in some builds
  (\<^verbatim>\<open>ZEROS_MEASURE_PENDSV\<close>): \<open>probe\<close> is the difference of its two stamps, if it is built.
\<close>

section \<open>The program\<close>

definition kRounds :: u32 where "kRounds = 1000"
definition kProbeOverhead :: u32 where "kProbeOverhead = 24"
definition kOutlierSlack :: u32 where "kOutlierSlack = 128"
definition kWaitForPong :: Milliseconds where "kWaitForPong = 600000"

record perf = tk +
  perf_dwt :: dwt
  g_t0 :: u32
  g_ping_turn :: bool
  g_reporter :: "addr option"
  g_yield_max :: u32
  g_yield_min :: u32
  g_yield_sum :: u32
  g_outliers :: u32
  g_pendsv_max :: u32
  g_pendsv_min :: u32
  g_pendsv_sum :: u32

definition tally :: "u32 \<Rightarrow> u32 \<Rightarrow> u32 \<Rightarrow> u32 \<Rightarrow> u32 \<times> u32 \<times> u32" where
  "tally mn mx sm v = (if v < mn then v else mn, if v > mx then v else mx, sm + v)"

definition ping_round :: "('a perf_scheme \<Rightarrow> 'a perf_scheme) \<Rightarrow> ('a perf_scheme \<Rightarrow> 'a perf_scheme option) \<Rightarrow> u32 \<Rightarrow> 'a perf_scheme \<Rightarrow> 'a perf_scheme option" where
  "ping_round spin world i s = do {
     s1 \<leftarrow> wait_for g_ping_turn spin s;
     let s2 = s1\<lparr>g_t0 := dwt_cycles (perf_dwt s1)\<rparr>;
     let s3 = s2\<lparr>g_ping_turn := False\<rparr>;
     world (ThisTask_yield s3)
   }"

definition ping :: "('a perf_scheme \<Rightarrow> 'a perf_scheme) \<Rightarrow> ('a perf_scheme \<Rightarrow> 'a perf_scheme option) \<Rightarrow> 'a perf_scheme \<Rightarrow> 'a perf_scheme option" where
  "ping spin world = each (ping_round spin world) (map word_of_nat [0..<unat kRounds])"

definition pong_round ::
  "('a perf_scheme \<Rightarrow> u32) option \<Rightarrow> ('a perf_scheme \<Rightarrow> 'a perf_scheme) \<Rightarrow> ('a perf_scheme \<Rightarrow> 'a perf_scheme option)
    \<Rightarrow> u32 \<Rightarrow> 'a perf_scheme \<Rightarrow> 'a perf_scheme option" where
  "pong_round probe spin world i s = do {
     s1 \<leftarrow> wait_for (\<lambda>s. \<not> g_ping_turn s) spin s;
     let elapsed = dwt_cycles (perf_dwt s1) - g_t0 s1;
     let (mn, mx, sm) = tally (g_yield_min s1) (g_yield_max s1) (g_yield_sum s1) elapsed;
     let s2 = s1\<lparr>g_yield_min := mn, g_yield_max := mx, g_yield_sum := sm\<rparr>;
     let s3 = (if elapsed > g_yield_sum s2 div (i + 1) + kOutlierSlack then s2\<lparr>g_outliers := g_outliers s2 + 1\<rparr> else s2);
     let s4 = (case probe of None \<Rightarrow> s3
               | Some handler \<Rightarrow> (case tally (g_pendsv_min s3) (g_pendsv_max s3) (g_pendsv_sum s3) (handler s3) of (a, b, c) \<Rightarrow>
                   s3\<lparr>g_pendsv_min := a, g_pendsv_max := b, g_pendsv_sum := c\<rparr>));
     let s5 = s4\<lparr>g_ping_turn := True\<rparr>;
     world (ThisTask_yield s5)
   }"

definition pong ::
  "('a perf_scheme \<Rightarrow> u32) option \<Rightarrow> ('a perf_scheme \<Rightarrow> 'a perf_scheme) \<Rightarrow> ('a perf_scheme \<Rightarrow> 'a perf_scheme option)
    \<Rightarrow> 'a perf_scheme \<Rightarrow> 'a perf_scheme option" where
  "pong probe spin world s = do {
     s1 \<leftarrow> each (pong_round probe spin world) (map word_of_nat [0..<unat kRounds]) s;
     Some (snd (sys_notify (g_reporter s1) 1 s1))
   }"

definition sat_sub :: "u32 \<Rightarrow> u32 \<Rightarrow> u32" where
  "sat_sub v by = (if v > by then v - by else 0)"

text \<open>The dash in the last line, in UTF-8.\<close>

definition em_dash :: string where "em_dash = [CHR 0xE2, CHR 0x80, CHR 0x94]"

text \<open>The lines of the report, each with its values as they are when it is printed.\<close>

definition yield_lines :: "bool \<Rightarrow> u32 \<Rightarrow> ('a perf_scheme \<Rightarrow> string \<times> arg list) list" where
  "yield_lines no_tick avg =
     [\<lambda>s. (crlf @ ''=== ZerOS Performance @ 72MHz ==='' @ crlf, []),
      \<lambda>s. (''rounds: {}'' @ crlf, [Dec kRounds])]
     @ (if no_tick then [\<lambda>s. (''tick: OFF (no SysTick)'' @ crlf, [])] else [])
     @ [\<lambda>s. (crlf @ ''[1] yield full path (external DWT):'' @ crlf, []),
        \<lambda>s. (''    min: {} cycles (~{}us)'' @ crlf, [Dec (g_yield_min s), Dec (g_yield_min s div 72)]),
        \<lambda>s. (''    avg: {} cycles (~{}us)'' @ crlf, [Dec avg, Dec (avg div 72)]),
        \<lambda>s. (''    max: {} cycles (~{}us)'' @ crlf, [Dec (g_yield_max s), Dec (g_yield_max s div 72)]),
        \<lambda>s. (''    outliers(>avg+{}): {} of {}'' @ crlf, [Dec kOutlierSlack, Dec (g_outliers s), Dec kRounds])]"

definition pendsv_lines :: "u32 \<Rightarrow> u32 \<Rightarrow> u32 \<Rightarrow> ('a perf_scheme \<Rightarrow> string \<times> arg list) list" where
  "pendsv_lines avg_yield avg_raw avg_net =
     [\<lambda>s. (crlf @ ''[2] PendSV handler (probe, {} cycles subtracted):'' @ crlf, [Dec kProbeOverhead]),
      \<lambda>s. (''    net min: {} cycles (~{}us)'' @ crlf,
            [Dec (sat_sub (g_pendsv_min s) kProbeOverhead), Dec (sat_sub (g_pendsv_min s) kProbeOverhead div 72)]),
      \<lambda>s. (''    net avg: {} cycles (~{}us)  budget: 72 = 1us'' @ crlf, [Dec avg_net, Dec (avg_net div 72)]),
      \<lambda>s. (''    net max: {} cycles (~{}us)'' @ crlf,
            [Dec (sat_sub (g_pendsv_max s) kProbeOverhead), Dec (sat_sub (g_pendsv_max s) kProbeOverhead div 72)]),
      \<lambda>s. (''    raw avg: {} cycles'' @ crlf, [Dec avg_raw]),
      \<lambda>s. (crlf @ ''[3] accounting: yield[1] - handler[2] = {} cycles'' @ crlf, [Dec (sat_sub avg_yield avg_net)]),
      \<lambda>s. (''    (API + queue + pend + exception entry/exit + waker prologue)'' @ crlf, [])]"

definition print_lines :: "char list \<Rightarrow> 's logging \<Rightarrow> ('s \<Rightarrow> string \<times> arg list) list \<Rightarrow> 's \<Rightarrow> 's option" where
  "print_lines buf l = each (\<lambda>line s. case line s of (fmt, args) \<Rightarrow> print buf fmt args l s)"

definition perf_reporter ::
  "bool \<Rightarrow> bool \<Rightarrow> ('a perf_scheme \<Rightarrow> 'a perf_scheme option) \<Rightarrow> char list \<Rightarrow> 'a perf_scheme logging \<Rightarrow> 'a perf_scheme \<Rightarrow> 'a perf_scheme option" where
  "perf_reporter no_tick probe_built world buf l s = do {
     (letter, s1) \<leftarrow> ThisTask_wait_notify world kWaitForPong s;
     s2 \<leftarrow> (case letter of Inr _ \<Rightarrow> Some s1
           | Inl _ \<Rightarrow> do { s' \<leftarrow> print buf (''perf: reporter timed out'' @ crlf) [] l s1; world (ThisTask_block s') });
     let avg_yield = g_yield_sum s2 div kRounds;
     s3 \<leftarrow> print_lines buf l (yield_lines no_tick avg_yield) s2;
     s4 \<leftarrow> (if g_pendsv_max s3 > 0
           then (let avg_raw = g_pendsv_sum s3 div kRounds; avg_net = sat_sub avg_raw kProbeOverhead
                 in print_lines buf l (pendsv_lines avg_yield avg_raw avg_net) s3)
           else print buf ((if probe_built then crlf @ ''[2] PendSV handler: probe built, CYCCNT reads zero''
                            else crlf @ ''[2] PendSV handler: probe not built (ZEROS_MEASURE_PENDSV off)'') @ crlf) [] l s3);
     s5 \<leftarrow> print buf (crlf @ ''D12 verdict: see [1] avg '' @ em_dash @ '' that's the number users feel'' @ crlf) [] l s4;
     Some (ThisTask_block s5)
   }"

section \<open>Statistics\<close>

lemma unat_sat_sub: "unat (sat_sub v by) = unat v - unat by"
  by (auto simp: sat_sub_def word_less_nat_alt unat_sub word_le_nat_alt)

definition stats :: "'a perf_scheme \<Rightarrow> u32 \<times> u32 \<times> u32" where
  "stats s = (g_yield_min s, g_yield_max s, g_yield_sum s)"

definition tallied :: "u32 list \<Rightarrow> u32 \<times> u32 \<times> u32 \<Rightarrow> u32 \<times> u32 \<times> u32" where
  "tallied = fold (\<lambda>v (mn, mx, sm). tally mn mx sm v)"

lemma tallied_exact:
  "tallied vs (mn, mx, sm) = (mn', mx', sm') \<Longrightarrow> sm' = sm + sum_list vs \<and> mn' \<le> mn \<and> mx \<le> mx' \<and> (\<forall>v \<in> set vs. mn' \<le> v \<and> v \<le> mx')
    \<and> (mn' = mn \<or> mn' \<in> set vs) \<and> (mx' = mx \<or> mx' \<in> set vs)"
proof (induction vs arbitrary: mn mx sm)
  case (Cons v vs)
  have "tallied vs (if v < mn then v else mn, if v > mx then v else mx, sm + v) = (mn', mx', sm')"
    using Cons.prems by (simp add: tallied_def tally_def)
  from Cons.IH [OF this] show ?case by (auto simp: add.assoc split: if_splits)
qed (simp add: tallied_def)

text \<open>From the start values of the file: the extremes of the samples.\<close>

lemma tallied_start:
  assumes "tallied vs (0xFFFFFFFF, 0, 0) = (mn, mx, sm)" and "vs \<noteq> []"
  shows "sm = sum_list vs" "mn = Min (set vs)" "mx = Max (set vs)"
proof -
  note t = tallied_exact [OF assms(1)]
  have top: "v \<le> 0xFFFFFFFF" for v :: u32 using unsigned_less [of v, where 'a = nat] by (simp add: word_le_nat_alt)
  obtain v where v: "v \<in> set vs" using assms(2) by (cases vs) auto
  have "mn \<in> set vs" using t v top [of v] by (metis order_antisym)
  moreover have "mx \<in> set vs" using t v word_zero_le [of v] by (metis order_antisym)
  ultimately show "mn = Min (set vs)" "mx = Max (set vs)" using t by (auto intro: Min_eqI [symmetric] Max_eqI [symmetric])
  show "sm = sum_list vs" using t by simp
qed

lemma average_between:
  fixes vs :: "u32 list"
  assumes "vs \<noteq> []" and "sum_list (map unat vs) < 2 ^ 32" and len: "length vs < 2 ^ 32"
  shows "Min (set vs) \<le> sum_list vs div word_of_nat (length vs) \<and> sum_list vs div word_of_nat (length vs) \<le> Max (set vs)"
proof -
  let ?n = "length vs" and ?S = "sum_list (map unat vs)"
  have n: "0 < ?n" using assms(1) by simp
  have S: "unat (sum_list ws) = sum_list (map unat ws)" if "sum_list (map unat ws) < 2 ^ 32" for ws :: "u32 list"
    using that by (induction ws) (simp_all add: unat_word_ariths)
  have d: "unat (sum_list vs div word_of_nat ?n) = ?S div ?n" using S [OF assms(2)] len by (simp add: unat_div unat_of_nat)
  have b: "unat (Min (set vs)) \<le> x \<and> x \<le> unat (Max (set vs))" if x: "x \<in> set (map unat vs)" for x
  proof -
    obtain v where v: "v \<in> set vs" "x = unat v" using x by auto
    then have "Min (set vs) \<le> v" "v \<le> Max (set vs)" by simp_all
    then show ?thesis using v(2) by (simp add: word_le_nat_alt)
  qed
  have lo: "length ws * l \<le> sum_list ws" if "\<forall>x \<in> set ws. l \<le> x" for ws :: "nat list" and l using that by (induction ws) auto
  have hi: "sum_list ws \<le> length ws * h" if "\<forall>x \<in> set ws. x \<le> h" for ws :: "nat list" and h using that by (induction ws) auto
  have "?n * unat (Min (set vs)) \<le> ?S" using lo [of "map unat vs" "unat (Min (set vs))"] b by simp
  moreover have "?S \<le> ?n * unat (Max (set vs))" using hi [of "map unat vs" "unat (Max (set vs))"] b by simp
  ultimately have "unat (Min (set vs)) \<le> ?S div ?n" "?S div ?n \<le> unat (Max (set vs))"
    using n div_le_mono [of ?S "?n * unat (Max (set vs))" ?n] by (simp_all add: less_eq_div_iff_mult_less_eq mult.commute)
  then show ?thesis using d by (simp add: word_le_nat_alt)
qed

lemma stats_of_sched:
  fixes s s' :: "'a perf_scheme"
  assumes "sched.more s' = sched.more s"
  shows "stats s' = stats s"
  using assms by (cases s; cases s'; simp add: stats_def)

lemma yield_stats [simp]: "stats (ThisTask_yield s) = stats s"
  using op_priorities [of OpYield s Done] by (intro stats_of_sched) (simp add: ThisTask_defs sys_yield_def)

lemma round_tallies:
  assumes spin: "\<And>s. stats (spin s) = stats s" "\<And>s. \<exists>n. \<not> g_ping_turn ((spin ^^ n) s)"
    and world: "\<And>s. \<exists>s'. world s = Some s' \<and> stats s' = stats s"
  shows "\<exists>s' v. pong_round probe spin world i s = Some s' \<and> stats s' = tallied [v] (stats s)"
proof -
  obtain n where "\<not> g_ping_turn ((spin ^^ n) s)" using spin(2) by blast
  then obtain s1 where s1: "wait_for (\<lambda>s. \<not> g_ping_turn s) spin s = Some s1" "stats s1 = stats s"
    by (rule wait_for_keeps [of stats spin "\<lambda>s. \<not> g_ping_turn s", OF spin(1)])
  let ?v = "dwt_cycles (perf_dwt s1) - g_t0 s1"
  obtain mn mx sm where t: "tally (g_yield_min s1) (g_yield_max s1) (g_yield_sum s1) ?v = (mn, mx, sm)" by (cases "tally (g_yield_min s1) (g_yield_max s1) (g_yield_sum s1) ?v")
  define s3 where "s3 = (let s2 = s1\<lparr>g_yield_min := mn, g_yield_max := mx, g_yield_sum := sm\<rparr>
    in if ?v > g_yield_sum s2 div (i + 1) + kOutlierSlack then s2\<lparr>g_outliers := g_outliers s2 + 1\<rparr> else s2)"
  define s5 where "s5 = (case probe of None \<Rightarrow> s3
     | Some handler \<Rightarrow> (case tally (g_pendsv_min s3) (g_pendsv_max s3) (g_pendsv_sum s3) (handler s3) of (a, b, c) \<Rightarrow>
         s3\<lparr>g_pendsv_min := a, g_pendsv_max := b, g_pendsv_sum := c\<rparr>))\<lparr>g_ping_turn := True\<rparr>"
  have "stats s5 = (mn, mx, sm)" by (auto simp: s5_def s3_def stats_def Let_def split: option.splits prod.splits)
  moreover have "tallied [?v] (stats s) = (mn, mx, sm)" using t s1(2) by (simp add: tallied_def stats_def)
  moreover obtain s' where s': "world (ThisTask_yield s5) = Some s'" "stats s' = stats s5" using world [of "ThisTask_yield s5"] by auto
  moreover have "pong_round probe spin world i s = world (ThisTask_yield s5)"
    by (simp only: pong_round_def s5_def s3_def Let_def s1(1) t Option.bind.simps prod.case)
  ultimately show ?thesis by (intro exI [of _ s'] exI [of _ ?v]) simp
qed

text \<open>The statistics are those of the samples. When the other task gives the turn back and the rest of the system leaves
  the counters alone, the rounds of \<open>pong\<close> return, and there is one sample per round such that the minimum, the
  maximum and the sum are those of the samples, the sum as a 32-bit number; as long as the sum of the samples
  fits 32 bits, the average that is reported lies between minimum and maximum.\<close>

theorem pong_statistics:
  assumes spin: "\<And>s. stats (spin s) = stats s" "\<And>s. \<exists>n. \<not> g_ping_turn ((spin ^^ n) s)"
    and world: "\<And>s. \<exists>s'. world s = Some s' \<and> stats s' = stats s" and start: "stats s = (0xFFFFFFFF, 0, 0)"
  shows "\<exists>s' vs. each (pong_round probe spin world) (map word_of_nat [0..<unat kRounds]) s = Some s' \<and> length vs = 1000
    \<and> g_yield_min s' = Min (set vs) \<and> g_yield_max s' = Max (set vs) \<and> g_yield_sum s' = sum_list vs
    \<and> (sum_list (map unat vs) < 2 ^ 32 \<longrightarrow> g_yield_min s' \<le> g_yield_sum s' div kRounds \<and> g_yield_sum s' div kRounds \<le> g_yield_max s')"
proof -
  have run: "\<exists>s' vs. each (pong_round probe spin world) js x = Some s' \<and> length vs = length js \<and> stats s' = tallied vs (stats x)" for js x
  proof (induction js arbitrary: x)
    case (Cons j js)
    obtain s1 v where s1: "pong_round probe spin world j x = Some s1" "stats s1 = tallied [v] (stats x)"
      using round_tallies [OF assms(1-3)] by blast
    obtain s' vs where s': "each (pong_round probe spin world) js s1 = Some s'" "length vs = length js" "stats s' = tallied vs (stats s1)"
      using Cons.IH by blast
    have "stats s' = tallied (v # vs) (stats x)" using s'(3) s1(2) by (simp add: tallied_def)
    then show ?case using s1(1) s'(1,2) by (intro exI [of _ s'] exI [of _ "v # vs"]) simp
  qed (simp add: tallied_def)
  have k: "unat kRounds = 1000" by (simp add: kRounds_def)
  obtain s' vs where s': "each (pong_round probe spin world) (map word_of_nat [0..<unat kRounds]) s = Some s'" "length vs = 1000"
    "stats s' = tallied vs (0xFFFFFFFF, 0, 0)"
    using run [of "map word_of_nat [0..<unat kRounds]" s] start k by auto
  have ne: "vs \<noteq> []" using s'(2) by auto
  have "tallied vs (0xFFFFFFFF, 0, 0) = (g_yield_min s', g_yield_max s', g_yield_sum s')" using s'(3) by (simp add: stats_def)
  note f = tallied_start [OF this ne]
  have "kRounds = word_of_nat (length vs)" using s'(2) by (simp add: kRounds_def)
  then show ?thesis using s'(1,2) f average_between [OF ne] by (intro exI [of _ s'] exI [of _ vs]) simp
qed

definition perf_up :: perf where
  "perf_up = tk.extend tk_new \<lparr>perf_dwt = \<lparr>demcr = 0, dwt_ctrl = 0, dwt_cyccnt = 0\<rparr>, g_t0 = 0, g_ping_turn = True, g_reporter = None,
     g_yield_max = 0, g_yield_min = 0xFFFFFFFF, g_yield_sum = 0, g_outliers = 0, g_pendsv_max = 0, g_pendsv_min = 0xFFFFFFFF, g_pendsv_sum = 0\<rparr>"

theorem pong_statistics_witness:
  "\<exists>s' vs. each (pong_round None (\<lambda>s. s\<lparr>g_ping_turn := False\<rparr>) Some) (map word_of_nat [0..<unat kRounds]) perf_up = Some s'
     \<and> length vs = 1000 \<and> g_yield_min s' = Min (set vs) \<and> g_yield_max s' = Max (set vs)"
proof -
  let ?spin = "\<lambda>s :: perf. s\<lparr>g_ping_turn := False\<rparr>"
  have t: "\<exists>n. \<not> g_ping_turn ((?spin ^^ n) s)" for s by (rule exI [of _ 1]) simp
  have p: "stats (?spin s) = stats s" for s by (simp add: stats_def)
  have "stats perf_up = (0xFFFFFFFF, 0, 0)" by (simp add: stats_def perf_up_def tk.defs)
  from pong_statistics [of ?spin Some, OF p t _ this, of None] show ?thesis by auto
qed

end
