(* ===== verification/Timer_Rhythm.thy ===== *)
theory Timer_Rhythm
  imports System_Face
begin

text \<open>
  Periodic timers over whole runs of the clock: the timer of \<^verbatim>\<open>kernel/clock/timer.hpp\<close> booked with a period, the tick
  interrupt reporting one tick at a time (\<open>on_elapsed\<close>), whatever other timers are booked beside it. Each firing books
  the timer again from the tick at which it fires, so it never drifts: after \<open>n\<close> ticks its function has been called
  \<open>n div p\<close> times. The user functions count the calls they get, in the part of the state that extends the system's.
\<close>

section \<open>Counting calls\<close>

type_synonym counted = "(addr \<Rightarrow> nat) sys_scheme"

definition count_call :: "counted user" where
  "count_call f x s = Some (s\<lparr>sys.more := (sys.more s)(f := sys.more s f + 1)\<rparr>)"

definition ticking :: "nat \<Rightarrow> counted \<Rightarrow> counted option" where
  "ticking n = ((\<lambda>r. Option.bind r (on_elapsed (react count_call) 1)) ^^ n) \<circ> Some"

lemma ticking_0 [simp]: "ticking 0 s = Some s"
  by (simp add: ticking_def)

lemma ticking_Suc [simp]: "ticking (Suc n) s = Option.bind (ticking n s) (on_elapsed (react count_call) 1)"
  by (simp add: ticking_def)

section \<open>Frames\<close>

lemma enqueue_frame:
  assumes "enqueue_locked w span None s = Some s'"
  shows "OnTime (waiters s' x) = OnTime (waiters s x)" "tk.more s' = tk.more s"
  using assms by (auto simp: enqueue_locked_def TimerQueue_remove_def TimerQueue_insert_def update_alarm_def Let_def
      split: bind_splits option.splits if_splits)

lemma filter_ins_by: "\<not> P x \<Longrightarrow> filter P (ins_by lt x xs) = filter P xs"
proof -
  assume "\<not> P x"
  then have "filter P (ins_by lt x xs) = filter P (takeWhile (\<lambda>y. \<not> lt x y) xs @ dropWhile (\<lambda>y. \<not> lt x y) xs)"
    by (simp add: ins_by_def del: takeWhile_dropWhile_id)
  then show ?thesis by simp
qed

lemma sys_of_tk: "tk.more s' = tk.more s \<Longrightarrow> sys.more s' = sys.more s \<and> timers s' = timers s"
  by (cases s; cases s'; simp)

lemma lock_sys:
  "sys.more (time_lock s) = sys.more s" "timers (time_lock s) = timers s" "sys.more (time_unlock s) = sys.more s" "timers (time_unlock s) = timers s"
  by (simp_all add: time_lock_def time_unlock_def crit_lock_def crit_unlock_def write_basepri_def Let_def)

lemma tq_inv_frame:
  assumes "waiters s' = waiters s" and "now_tick s' = now_tick s" and "tq s' = tq s" and "w_next s' = w_next s"
  shows "tq_inv s' qs = tq_inv s qs" "rel s' = rel s"
proof -
  show r: "rel s' = rel s" by (rule rel_cong [OF assms(1,2)])
  show "tq_inv s' qs = tq_inv s qs" using assms(3,4) by (simp add: tq_inv_def by_rel_def half_circle_def r)
qed

section \<open>One firing\<close>

lemma fired_spec:
  assumes inv: "tq_inv s qs" and u: "TimerWaiter u \<notin> set qs" and near: "\<forall>x \<in> set qs. - 1 \<le> rel s x"
    and p: "0 \<le> sint (period (timers s u))" "sint (period (timers s u)) < 2 ^ 31 - 1"
  shows "\<exists>s' qs'. Timer_fired count_call (TimerWaiter u) s = Some s' \<and> tq_inv s' qs' \<and> now_tick s' = now_tick s
    \<and> filter (due s') qs' = filter (due s) qs
    \<and> (if period (timers s u) = 0 then set qs' = set qs \<and> rel s' = rel s
       else set qs' = insert (TimerWaiter u) (set qs) \<and> rel s' = (rel s)(TimerWaiter u := sint (period (timers s u))))
    \<and> (\<forall>x. OnTime (waiters s' x) = OnTime (waiters s x))
    \<and> (\<forall>v. t_call (timers s' v) = t_call (timers s v) \<and> period (timers s' v) = period (timers s v))
    \<and> sys.more s' = (case cb_fn (t_call (timers s u)) of None \<Rightarrow> sys.more s | Some g \<Rightarrow> (sys.more s)(g := sys.more s g + 1))"
proof -
  let ?w = "TimerWaiter u" and ?p = "period (timers s u)"
  let ?m = "case cb_fn (t_call (timers s u)) of None \<Rightarrow> sys.more s | Some g \<Rightarrow> (sys.more s)(g := sys.more s g + 1)"
  define s2 where "s2 = (set_timer u ((timers s u)\<lparr>t_running := False\<rparr>) s)\<lparr>sys.more := ?m\<rparr>"
  have s2: "Callback_invoke count_call (t_call (timers s u)) (set_timer u ((timers s u)\<lparr>t_running := False\<rparr>) s) = Some s2"
    by (cases s) (simp add: s2_def Callback_invoke_def count_call_def set_timer_def split: option.splits)
  have f2: "waiters s2 = waiters s" "now_tick s2 = now_tick s" "tq s2 = tq s" "w_next s2 = w_next s" "sys.more s2 = ?m"
    "timers s2 = (timers s)(u := (timers s u)\<lparr>t_running := False\<rparr>)" by (simp_all add: s2_def set_timer_def)
  note i2 = tq_inv_frame [OF f2(1-4)]
  show ?thesis
  proof (cases "?p = 0")
    case True
    then have "Timer_fired count_call ?w s = Some s2" using s2 f2(6) by (simp add: Timer_fired_def set_timer_def)
    moreover have "filter (due s2) qs = filter (due s) qs" by (simp add: due_def i2(2) cong: filter_cong)
    ultimately show ?thesis using True inv i2 f2 by (intro exI [of _ s2] exI [of _ qs]) simp
  next
    case False
    define s3 where "s3 = time_lock (set_timer u ((timers s2 u)\<lparr>t_running := True\<rparr>) s2)"
    have f3: "waiters s3 = waiters s" "now_tick s3 = now_tick s" "tq s3 = tq s" "w_next s3 = w_next s"
      using f2 by (simp_all add: s3_def set_timer_def)
    note i3 = tq_inv_frame [OF f3]
    have "tq_inv s3 qs" using inv i3(1) by simp
    moreover have "sint ?p - rel s3 x < 2 ^ 31" if "x \<in> set qs" for x using p(2) near that i3(2) by fastforce
    ultimately obtain s4 where s4: "enqueue_locked ?w ?p None s3 = Some s4" "rel s4 = (rel s3)(?w := sint ?p)"
      "tq_inv s4 (ins_rel s4 ?w (remove1 ?w qs))" "now_tick s4 = now_tick s3"
      using enqueue_spec [OF _ p(1), of s3 qs ?w None] by blast
    have run: "Timer_fired count_call ?w s = Some (time_unlock s4)"
      using s2 f2(6) False s4(1) by (simp add: Timer_fired_def arm_timer_def call_after_span_def CriticalGuard_opt_def s3_def set_timer_def)
    let ?q = "ins_rel s4 ?w qs"
    have "sint ?p \<noteq> 0" using False by (metis signed_0 signed_word_eqI)
    then have pos: "0 < sint ?p" using p(1) by simp
    then have nd: "\<not> due s4 ?w" by (simp add: due_def s4(2))
    have "filter (due s4) ?q = filter (due s4) qs" unfolding ins_rel_def by (rule filter_ins_by [of "due s4" ?w, OF nd])
    also have "\<dots> = filter (due s) qs" by (rule filter_cong) (use u s4(2) i3(2) in \<open>auto simp: due_def\<close>)
    finally have fl: "filter (due s4) ?q = filter (due s) qs" .
    have "sys.more s4 = ?m \<and> timers s4 = (timers s)(u := (timers s u)\<lparr>t_running := True\<rparr>)"
      using sys_of_tk [OF enqueue_frame(2) [OF s4(1)]] f2(5,6) by (simp add: s3_def set_timer_def lock_sys)
    moreover have "OnTime (waiters s4 x) = OnTime (waiters s x)" for x using enqueue_frame(1) [OF s4(1)] f3(1) by simp
    moreover have "due (time_unlock s4) = due s4" by (simp add: due_def rel_def fun_eq_iff)
    moreover have "remove1 ?w qs = qs" using u by (rule remove1_idem)
    moreover have "set ?q = insert ?w (set qs)" by (simp add: ins_rel_def)
    moreover have "sys.more (time_unlock s4) = sys.more s4" "timers (time_unlock s4) = timers s4"
      by (simp_all add: lock_sys)
    moreover have "rel (time_unlock s4) = rel s4" by (rule rel_cong) simp_all
    ultimately show ?thesis
      using run fl False s4(2-4) i3(2) f3(2) by (intro exI [of _ "time_unlock s4"] exI [of _ ?q]) simp
  qed
qed

section \<open>One tick\<close>

text \<open>What holds of all booked timers and of the timer \<open>t\<close> with function \<open>f\<close> and period \<open>p\<close>.\<close>

definition timers_in :: "addr \<Rightarrow> addr \<Rightarrow> tick \<Rightarrow> waiter list \<Rightarrow> counted \<Rightarrow> bool" where
  "timers_in f t p ws s \<longleftrightarrow> (\<forall>w \<in> set ws. (\<exists>u. w = TimerWaiter u) \<and> OnTime (waiters s w) = Some TimerFired)
     \<and> (\<forall>u. 0 \<le> sint (period (timers s u)) \<and> sint (period (timers s u)) < 2 ^ 31 - 1)
     \<and> (\<forall>u. cb_fn (t_call (timers s u)) = Some f \<longleftrightarrow> u = t) \<and> period (timers s t) = p \<and> TimerWaiter t \<in> set ws"

text \<open>Between two ticks \<open>r\<close> ticks are left and \<open>c\<close> calls are made; during a tick the timer has not fired yet or has been booked again.\<close>

definition steady :: "addr \<Rightarrow> addr \<Rightarrow> tick \<Rightarrow> int \<Rightarrow> nat \<Rightarrow> waiter list \<Rightarrow> counted \<Rightarrow> bool" where
  "steady f t p r c qs s \<longleftrightarrow> tk_inv s qs \<and> timers_in f t p qs s \<and> rel s (TimerWaiter t) = r \<and> sys.more s f = c"

definition midway :: "addr \<Rightarrow> addr \<Rightarrow> tick \<Rightarrow> int \<Rightarrow> nat \<Rightarrow> waiter list \<Rightarrow> counted \<Rightarrow> bool" where
  "midway f t p r c ws s \<longleftrightarrow> timers_in f t p ws s \<and> (\<forall>w \<in> set ws. - 1 \<le> rel s w)
     \<and> (rel s (TimerWaiter t) = r - 1 \<and> sys.more s f = c \<or> r = 1 \<and> rel s (TimerWaiter t) = sint p \<and> sys.more s f = c + 1)"

lemma midway_reaction:
  assumes p: "0 < sint p" and r: "1 \<le> r"
  shows "reaction_ok (midway f t p r c) (react count_call)"
  unfolding reaction_ok_def
proof (intro conjI allI impI)
  show "midway f t p r c ws (s\<lparr>tq := l, w_next := nx\<rparr>)" if "midway f t p r c ws s" for ws s l nx
    using that by (simp add: midway_def timers_in_def rel_def)
  fix w s qs
  assume I: "midway f t p r c (w # qs) s" and inv: "tq_inv s qs" and w: "w \<notin> set qs" and d: "due s w"
  obtain u where u: "w = TimerWaiter u" "OnTime (waiters s w) = Some TimerFired" using I by (auto simp: midway_def timers_in_def)
  have near: "\<forall>x \<in> set qs. - 1 \<le> rel s x" and pu: "0 \<le> sint (period (timers s u))" "sint (period (timers s u)) < 2 ^ 31 - 1"
    using I by (simp_all add: midway_def timers_in_def)
  have nq: "TimerWaiter u \<notin> set qs" using w u(1) by simp
  obtain s' qs' where s': "Timer_fired count_call w s = Some s'" "tq_inv s' qs'" "now_tick s' = now_tick s"
    "filter (due s') qs' = filter (due s) qs"
    "if period (timers s u) = 0 then set qs' = set qs \<and> rel s' = rel s
       else set qs' = insert w (set qs) \<and> rel s' = (rel s)(w := sint (period (timers s u)))"
    "\<forall>x. OnTime (waiters s' x) = OnTime (waiters s x)"
    "\<forall>v. t_call (timers s' v) = t_call (timers s v) \<and> period (timers s' v) = period (timers s v)"
    "sys.more s' = (case cb_fn (t_call (timers s u)) of None \<Rightarrow> sys.more s | Some g \<Rightarrow> (sys.more s)(g := sys.more s g + 1))"
    using fired_spec [OF inv nq near pu] unfolding u(1) by blast
  have sub: "set qs' \<subseteq> insert w (set qs)" and low: "\<forall>x \<in> set qs'. - 1 \<le> rel s' x"
    using s'(5) near pu(1) by (auto split: if_splits)
  have fn: "cb_fn (t_call (timers s u)) = Some f \<longleftrightarrow> u = t" "period (timers s t) = p" using I by (simp_all add: midway_def timers_in_def)
  have "p \<noteq> 0" using p by auto
  have here: "TimerWaiter t \<in> set qs'"
    using I s'(5) fn(2) \<open>p \<noteq> 0\<close> u(1) by (cases "u = t") (auto simp: midway_def timers_in_def split: if_splits)
  have tin: "timers_in f t p qs' s'"
    using I s'(6,7) sub here unfolding midway_def timers_in_def by auto
  have "rel s' (TimerWaiter t) = r - 1 \<and> sys.more s' f = c \<or> r = 1 \<and> rel s' (TimerWaiter t) = sint p \<and> sys.more s' f = c + 1"
  proof (cases "u = t")
    case True
    then have "r = 1" "sys.more s f = c" using I d p r u(1) by (auto simp: midway_def due_def)
    then show ?thesis using True s'(5,8) fn \<open>p \<noteq> 0\<close> u(1) by simp
  next
    case False
    have "sys.more s' f = sys.more s f" using s'(8) fn(1) False by (auto split: option.splits)
    moreover have "rel s' (TimerWaiter t) = rel s (TimerWaiter t)" using s'(5) False u(1) by (simp split: if_splits)
    ultimately show ?thesis using I by (simp add: midway_def)
  qed
  then have "midway f t p r c qs' s'" using tin low by (simp add: midway_def)
  moreover have "react count_call w s = Some s'" using s'(1) u by (simp add: react_def)
  ultimately show "\<exists>s' qs'. react count_call w s = Some s' \<and> tq_inv s' qs' \<and> now_tick s' = now_tick s
      \<and> filter (due s') qs' = filter (due s) qs \<and> midway f t p r c qs' s'" using s'(2-4) by blast
qed

lemma tick_steady:
  assumes st: "steady f t p r c qs s" and p: "0 < sint p" and r: "1 \<le> r"
  shows "\<exists>s' qs'. on_elapsed (react count_call) 1 s = Some s'
    \<and> steady f t p (if r = 1 then sint p else r - 1) (if r = 1 then c + 1 else c) qs' s'"
proof -
  let ?s = "tick_forward 1 (time_lock s)"
  have inv: "tk_inv s qs" using st by (simp add: steady_def)
  have one: "sint (1 :: tick) = 1" by simp
  have fr: "waiters ?s = waiters s" "timers ?s = timers s" "sys.more ?s = sys.more s"
    by (simp_all add: tick_forward_def lock_sys)
  have rel: "rel ?s w = rel s w - 1" if "w \<in> set qs" for w
    using tick_forward_inv(2) [of "time_lock s" qs 1 w] tk_invD(1,3) [OF inv] that by simp
  have tin: "timers_in f t p qs ?s" using st fr by (simp add: steady_def timers_in_def)
  then have "rel ?s (TimerWaiter t) = r - 1" using rel [of "TimerWaiter t"] st by (simp add: steady_def timers_in_def)
  moreover have "\<forall>w \<in> set qs. - 1 \<le> rel ?s w" using rel tk_invD(3) [OF inv] by fastforce
  ultimately have I: "midway f t p r c qs ?s" using tin fr(3) st by (simp add: midway_def steady_def)
  obtain s1 s' qs' where s': "on_elapsed (react count_call) 1 s = Some s'" "tk_inv s' qs'" "\<forall>w \<in> set qs'. 0 < rel s' w"
    "s' = time_unlock (update_alarm s1)" "midway f t p r c qs' s1"
    using on_elapsed_spec [where I = "midway f t p r c", OF midway_reaction [OF p r] inv _ I] one by auto
  have f: "waiters s' = waiters s1" "now_tick s' = now_tick s1" "timers s' = timers s1" "sys.more s' = sys.more s1"
    by (simp_all add: s'(4) lock_sys update_alarm_def Let_def split: option.splits)
  have rel': "rel s' = rel s1" by (rule rel_cong [OF f(1,2)])
  have tin': "timers_in f t p qs' s'" using s'(5) f by (simp add: midway_def timers_in_def)
  then have "0 < rel s' (TimerWaiter t)" using s'(3) by (simp add: timers_in_def)
  then have "rel s' (TimerWaiter t) = (if r = 1 then sint p else r - 1) \<and> sys.more s' f = (if r = 1 then c + 1 else c)"
    using s'(5) rel' f(4) by (auto simp: midway_def)
  then show ?thesis using s'(1,2) tin' by (auto simp: steady_def)
qed

section \<open>Any number of ticks\<close>

lemma ticks_steady:
  assumes p: "0 < sint p" and st: "steady f t p (sint p) c qs s"
  shows "\<exists>s' qs'. ticking n s = Some s' \<and> steady f t p (sint p - int n mod sint p) (c + nat (int n div sint p)) qs' s'"
proof (induction n)
  case 0
  then show ?case using st by auto
next
  case (Suc n)
  let ?p = "sint p"
  obtain s1 qs1 where s1: "ticking n s = Some s1" "steady f t p (?p - int n mod ?p) (c + nat (int n div ?p)) qs1 s1" using Suc.IH by blast
  have r: "1 \<le> ?p - int n mod ?p" using p pos_mod_bound [of ?p "int n"] by linarith
  obtain s' qs' where s': "on_elapsed (react count_call) 1 s1 = Some s'" "steady f t p
      (if ?p - int n mod ?p = 1 then ?p else ?p - int n mod ?p - 1)
      (if ?p - int n mod ?p = 1 then c + nat (int n div ?p) + 1 else c + nat (int n div ?p)) qs' s'"
    using tick_steady [OF s1(2) p r] by blast
  have "(if ?p - int n mod ?p = 1 then ?p else ?p - int n mod ?p - 1) = ?p - int (Suc n) mod ?p
     \<and> (if ?p - int n mod ?p = 1 then c + nat (int n div ?p) + 1 else c + nat (int n div ?p)) = c + nat (int (Suc n) div ?p)"
  proof -
    obtain k where k: "?p = int k" "0 < k" using p by (metis nat_0_iff not_less pos_int_cases)
    have e: "int m mod int k = int (m mod k)" "int m div int k = int (m div k)" for m by (simp_all only: zmod_int zdiv_int)
    have "int k - int (n mod k) = 1 \<longleftrightarrow> Suc (n mod k) = k" by linarith
    then show ?thesis unfolding k(1) e nat_int by (simp add: mod_Suc div_Suc)
  qed
  then show ?case using s1(1) s' by auto
qed

lemma arm_me_frame:
  assumes "arm_me t p span c s = Some s'"
  shows "OnTime (waiters s' x) = OnTime (waiters s x)" "sys.more s' = sys.more s"
proof -
  let ?s = "time_lock (set_timer t \<lparr>t_call = c, period = p, t_running = True\<rparr> (sys_lock s))"
  obtain s4 where s4: "enqueue_locked (TimerWaiter t) span None ?s = Some s4" "s' = sys_unlock (time_unlock s4)"
    using assms by (auto simp: arm_me_def arm_timer_def call_after_span_def CriticalGuard_opt_def)
  have l: "waiters (sys_lock s) = waiters s" "sys.more (sys_lock s) = sys.more s" "waiters (sys_unlock x) = waiters x" "sys.more (sys_unlock x) = sys.more x" for x
    by (simp_all add: sys_lock_def sys_unlock_def crit_lock_def crit_unlock_def write_basepri_def Let_def)
  show "OnTime (waiters s' x) = OnTime (waiters s x)" using enqueue_frame(1) [OF s4(1)] by (simp add: s4(2) l set_timer_def)
  show "sys.more s' = sys.more s" using sys_of_tk [OF enqueue_frame(2) [OF s4(1)]] by (simp add: s4(2) l lock_sys set_timer_def)
qed

section \<open>Properties\<close>

text \<open>C7: a periodic timer never drifts. Whatever other timers are booked, periodic or not, from the moment \<open>periodic\<close> is called every
  number \<open>n\<close> of reported ticks returns, and the timer's function has been called exactly \<open>n div p\<close> times: at the ticks
  \<open>p\<close>, \<open>2 * p\<close>, \<open>3 * p\<close> and so on, also across wraps of the tick counter.\<close>

theorem periodic_never_drifts:
  assumes inv: "tk_inv s qs" and ts: "\<forall>w \<in> insert (TimerWaiter t) (set qs). (\<exists>u. w = TimerWaiter u) \<and> OnTime (waiters s w) = Some TimerFired"
    and ps: "\<forall>u. 0 \<le> sint (period (timers s u)) \<and> sint (period (timers s u)) < 2 ^ 31 - 1"
    and fs: "\<forall>u. u \<noteq> t \<longrightarrow> cb_fn (t_call (timers s u)) \<noteq> Some f" and p: "0 < sint p" "sint p < 2 ^ 31 - 1"
  shows "\<exists>s1. Timer_periodic t p (Some f) arg s = Some s1
    \<and> (\<forall>n. \<exists>s'. ticking n s1 = Some s' \<and> sys.more s' f = sys.more s f + n div unat p)"
proof -
  let ?c = "\<lparr>cb_fn = Some f, cb_arg = arg\<rparr>"
  obtain s1 qs1 where s1: "arm_me t p p ?c s = Some s1" "tk_inv s1 qs1" "set qs1 = insert (TimerWaiter t) (set qs)"
    "rel s1 = (rel s)(TimerWaiter t := sint p)" "timers s1 = (timers s)(t := \<lparr>t_call = ?c, period = p, t_running = True\<rparr>)"
    using arm_me_spec [OF inv, of p t p ?c] p(1) by auto
  note f = arm_me_frame [OF s1(1)]
  have "timers_in f t p qs1 s1" using ts ps fs p s1(3,5) f(1) by (auto simp: timers_in_def)
  then have st: "steady f t p (sint p) (sys.more s f) qs1 s1" using s1(2,4) f(2) by (simp add: steady_def)
  have "uint p = sint p" using uint_sint [of p] p by (simp add: take_bit_int_eq_self)
  then have "unat p = nat (sint p)" by (metis nat_uint_eq)
  then have u: "nat (int n div sint p) = n div unat p" for n by (simp add: nat_div_distrib)
  have "\<exists>s'. ticking n s1 = Some s' \<and> sys.more s' f = sys.more s f + n div unat p" for n
    using ticks_steady [OF p(1) st, of n] u by (auto simp: steady_def)
  then show ?thesis using s1(1) by (auto simp: Timer_periodic_def)
qed

text \<open>The periodic timer of the \<open>timers\<close> program, 250 ticks, alone on the books.\<close>

definition no_calls :: counted where
  "no_calls = tk.extend (tk_new\<lparr>waiters := (\<lambda>_. \<lparr>deadline = 0, OnTime = Some TimerFired\<rparr>)\<rparr>) \<lparr>sys_guard = crit_new, timers = (\<lambda>_. Timer_new), \<dots> = (\<lambda>_. 0)\<rparr>"

theorem periodic_never_drifts_witness:
  "\<exists>s1 s'. Timer_periodic 9 250 (Some 7) None no_calls = Some s1 \<and> ticking 1000 s1 = Some s' \<and> sys.more s' 7 = 4"
proof -
  have i: "tk_inv no_calls []"
    using tk_new_inv by (simp add: no_calls_def tk.defs tk_inv_def tq_inv_def alarm_inv_def by_rel_def half_circle_def tk_new_def sched.defs)
  have c: "waiters no_calls w = \<lparr>deadline = 0, OnTime = Some TimerFired\<rparr>" "timers no_calls u = Timer_new" "sys.more no_calls g = 0" for w u g
    by (simp_all add: no_calls_def tk.defs)
  have "\<exists>s1. Timer_periodic 9 250 (Some 7) None no_calls = Some s1
      \<and> (\<forall>n. \<exists>s'. ticking n s1 = Some s' \<and> sys.more s' 7 = sys.more no_calls 7 + n div unat (250 :: tick))"
    by (rule periodic_never_drifts [OF i]) (simp_all add: c Timer_new_def)
  then obtain s1 where s1: "Timer_periodic 9 250 (Some 7) None no_calls = Some s1"
    "\<exists>s'. ticking 1000 s1 = Some s' \<and> sys.more s' 7 = sys.more no_calls 7 + 1000 div unat (250 :: tick)" by blast
  then show ?thesis by (auto simp: c)
qed

end
