(* ===== verification/Spec2Isabelle.thy ===== *)
theory Spec2Isabelle
  imports Memory_Pool Machine_Run Mutex_Inherit Semaphore_Run Demo_Sync Demo_Perf Timer_Rhythm
begin

text \<open>
  ZerOS, a small real-time kernel in C++ for the Cortex-M3: a verification library.

  \<^bold>\<open>The program.\<close> ZerOS is a preemptive kernel for one core. Tasks have a fixed control block and a stack cut from an
  arena; a scheduler with 32 priorities, one intrusive list each, says who runs; a time kernel keeps a queue of deadlines
  and fires reactions as ticks are reported to it; the system face puts the two together and the synchronisation
  objects (semaphore, mutex, event group, message queue, deferred-work worker, timer) stand on the face. Below,
  the Cortex-M3 port switches contexts in PendSV, enters the first task through SVC, counts ticks in SysTick and
  stops the tick while nobody is runnable. Two boards (Blue Pill and MPS2) bring clocks, pins, serial lines
  and start-up code, and example programs use it all. Components interact by direct calls under a guard that raises
  BASEPRI, by the shared control blocks, by the pending bits of the two kernel exceptions and by function pointers: the
  reaction \<open>OnTime\<close> of a waiter, the function of a timer, the overflow reporter, the fault sink.

  \<^bold>\<open>Conventions.\<close> All paths are relative to the repository's \<^verbatim>\<open>src\<close>. A C++ integer is a word of its width, so
  wrap-around is the code's. An object is an address (\<open>addr\<close>), and what the code reaches through a pointer is a
  field of the state that maps addresses to records; the nodes of all intrusive lists share one store of next pointers, so
  linking a node twice does to the model what it does to the program. The state is a record that grows from component
  to component: \<open>cpu\<close> (BASEPRI, \<open>Critical_Section\<close>), \<open>sched\<close> (\<open>Ready_Queue\<close>), \<open>tk\<close> (\<open>Timer_Queue\<close>), \<open>sys\<close> (\<open>System_Face\<close>); on
  top of it on one side \<open>wn\<close> (\<open>Semaphore\<close>: the stores of the synchronisation objects) and \<open>qw\<close> (\<open>Msg_Queue\<close>), on
  the other \<open>mach\<close> (\<open>Switch_Port\<close>: registers, memory, process stack), \<open>stk\<close> (\<open>Systick_Port\<close>), \<open>fmach\<close> (\<open>Fault_Report\<close>) and the two boards
  \<open>bluepill\<close> and \<open>mps2\<close> (\<open>Board_Boot\<close>). Operations work on every extension of the record they need, and
  so apply unchanged to the whole machine.

  An operation that may run forever or have no defined result returns an \<open>option\<close>, \<open>None\<close> meaning exactly that;
  error codes of the source are values (\<open>SyncError\<close>, \<open>MutexError\<close>, and so on). Loops over pointers, loops that
  wait for hardware and loops that wait for other tasks are \<open>partial_function (option)\<close>, with no fuel and no bound
  on the number of turns; that they return is proved, from the invariants for the pointer loops, from a clock that
  moves for the timed waits, from hardware that answers for the polling loops. A call that waits is cut into turns: one
  definition per turn, up to the point where the task gives the processor away; what the rest of the system does until the
  task is back is the parameter \<open>world\<close> of the loop.

  \<^bold>\<open>Parameters.\<close> \<open>world\<close> (above); \<open>user\<close>, the functions of timers and callbacks; \<open>report\<close> and the fault sinks, what an installed
  hook does; \<open>wfi\<close>, what happens while the core sleeps; the \<open>image\<close>, sizes and addresses the linker and the compiler choose; the hardware
  readers of the clock and serial registers and the masks of the vendor's headers (\<open>cmsis\<close>, \<open>usart_masks\<close>), which are not part
  of the repository; the cycle stamps of the probe in the perf program. Each theorem that needs something of a parameter
  says so in a hypothesis, and its witness gives a concrete one.

  \<^bold>\<open>Theories.\<close>

  \<^item> \<open>Zeros_Prelude\<close>: machine types, the collections \<open>op_simps\<close>, \<open>inv_intros\<close> and \<open>frame_simps\<close>, generic lemmas.

  \<^item> \<open>Bitmap\<close> (\<^verbatim>\<open>include/ZerOS/base/bitmap.hpp\<close>): words, both searches, the two branches of \<open>ctz\<close>, the compile-time self
  checks. Locale \<open>flag_map\<close>; the searches are exact and never report a padding bit.

  \<^item> \<open>Self_List\<close> (\<^verbatim>\<open>base/self_list.hpp\<close>): the intrusive list on the shared store, \<open>rep\<close> the list it represents. Locale
  \<open>intrusive_list\<close>; every operation does to the represented list what it should, and what a second insertion breaks.

  \<^item> \<open>Memory_Pool\<close> (\<^verbatim>\<open>kernel/mem\<close>): the two-level block pool and the typed pool. Locale \<open>block_pool\<close>; two-level search equals
  the flat one; over every run the addresses handed out are kept in an account: none is handed out twice, blocks
  never overlap; every branch of allocation and release.

  \<^item> \<open>Task_Model\<close> (\<^verbatim>\<open>kernel/sched\<close>: control block, task chain, stack, canary, watermark, arena; \<^verbatim>\<open>base/callback.hpp\<close>), \<open>Critical_Section\<close>
  (\<^verbatim>\<open>kernel/irq\<close>, \<^verbatim>\<open>cm3_irq.hpp\<close>): slices are disjoint, the canary and the watermark measure, guards restore BASEPRI.

  \<^item> \<open>Ready_Queue\<close>, \<open>Scheduler\<close>, \<open>Scheduler_Props\<close> (\<^verbatim>\<open>kernel/sched/scheduler.hpp\<close>): the lists with their bitmap (locale \<open>ready_ring\<close>), every
  public operation, an abstract scheduler \<open>asched\<close> with one plain queue per priority and the simulation between them; strict
  priority, round robin, no missed switch, the mailbox, balanced guards.

  \<^item> \<open>Timer_Queue\<close>, \<open>Time_Kernel\<close> (\<^verbatim>\<open>kernel/clock\<close>): ticks modulo 2 to the 32, the deadline queue ordered by distance, booking,
  cancelling, firing, the alarm. Locale \<open>time_keeper\<close>; exactly the due waiters fire, in order, and the loop ends.

  \<^item> \<open>Timed_Wait\<close>: the locale \<open>timed_wait\<close> of all waits with a deadline, interpreted by the letter box (\<open>System_Face\<close>), the
  semaphore (\<open>Semaphore_Run\<close>) and the event group (\<open>Event_Group\<close>).

  \<^item> \<open>System_Face\<close> (\<^verbatim>\<open>src/arch/arm_cortex_m3/system.cpp\<close>, \<^verbatim>\<open>this_task.cpp\<close>, \<^verbatim>\<open>kernel/clock/timer.hpp\<close>) and \<open>Timer_Rhythm\<close>: sleeping, waiting
  for a letter, timers; a periodic timer never drifts, over any number of ticks and among any other timers.

  \<^item> \<open>Semaphore\<close>, \<open>Mutex\<close>, \<open>Event_Group\<close>, \<open>Msg_Queue\<close> (\<^verbatim>\<open>kernel/sync\<close>): turns of the waits, hand-over, wake-ups, the queue as a
  first-in first-out buffer under any interleaving, the worker.

  \<^item> \<open>Semaphore_Run\<close>: a task parked in \<open>try_acquire\<close> while the rest of the system goes on (\<open>env_step\<close>: releases, turns of other
  tasks, sleeps, ticks, scheduler calls). The wait returns and leaves no node behind as long as nobody readies or notifies the
  waiting task itself; what its forgotten alarm does to a later wait. \<open>Mutex_Inherit\<close>: runs over any number of mutexes (\<open>mtx_step\<close>); the owner
  outranks the waiters, outside the cases listed there, one of which is shown to break it.

  \<^item> \<open>Switch_Port\<close> (\<^verbatim>\<open>switch.cpp\<close>, \<^verbatim>\<open>launch.cpp\<close>, \<^verbatim>\<open>arch.hpp\<close>), \<open>Systick_Port\<close> (\<^verbatim>\<open>time_kernel_cm3.cpp\<close>): frames on the stack, PendSV, SVC,
  \<open>launch\<close> and \<open>spawn\<close>; SysTick, its handler, tickless idle. A switch keeps all contexts, a one-shot is exact.

  \<^item> \<open>Machine_Step\<close>, \<open>Machine_Run\<close>, \<open>Program_Start\<close>: scheduler, time kernel, switch and tick composed into one step
  relation \<open>mstep\<close> with its invariant \<open>machine_inv\<close>; tasks stay apart, nothing gets stuck, a sleeper of best
  priority is back in time; launching and starting a program establishes the invariant.

  \<^item> \<open>Log_Format\<close> (\<^verbatim>\<open>src/log\<close>, \<^verbatim>\<open>include/ZerOS/log\<close>), \<open>Fault_Report\<close> (\<^verbatim>\<open>fault.cpp\<close>, \<^verbatim>\<open>testaments.hpp\<close>): formatting never
  leaves the buffer, numbers read back; the testament of a hard fault.

  \<^item> \<open>Board_Clock\<close>, \<open>Board_Pins\<close>, \<open>Board_Uart\<close>, \<open>Board_Boot\<close> (\<^verbatim>\<open>src/board\<close>): clock set-up and \<open>SystemCoreClockUpdate\<close> on the
  STM32F103, pins and LED, both serial lines (locale \<open>serial_line\<close>), reset handlers, vector tables, the demo set-up.

  \<^item> \<open>Demo_Programs\<close>, \<open>Demo_Time\<close>, \<open>Demo_Sync\<close>, \<open>Demo_Perf\<close> (\<^verbatim>\<open>src/board/stm32f103_bluepill/example\<close> and the heartbeat of the
  MPS2): each \<open>main\<close>, task round, callback and interrupt hook. A program boots from reset values to its
  first task with the machine in order; all shipped programs fit the arena; what the tasks print (locale \<open>log_out\<close> over
  both boards), how the feeder, the two keys, the smashed canary and the statistics behave.

  \<^bold>\<open>Flaws shown.\<close> Some theorems state behaviour that cannot be meant: the alarm of a satisfied timed wait that stays booked
  and makes a semaphore's list cyclic (\<open>Semaphore_Run\<close>), the inheritance lost with a second mutex (\<open>Mutex_Inherit\<close>), the tick counted twice
  and the raced one-shot (\<open>Systick_Port\<close>), too few arena bytes for the eight tasks the comment promises (\<open>Program_Start\<close>), tick
  comparisons that do not survive the wrap (\<open>Demo_Time\<close>), and the smaller ones beside the operations they concern.

  \<^bold>\<open>Not modelled.\<close> The compile-time concepts, the non-owning pointer and the macros have no behaviour at run time; the laws
  the concepts stand for are the locales. The branches of \<^verbatim>\<open>system_stm32f1xx.c\<close> for other chips, \<open>SystemInit\<close>
  and \<open>SystemInit_ExtMemCtl\<close> are compiled out or empty on this board. The naked assembly of the handlers is
  modelled by its effect on registers, stack and stack pointer, with the exception entry and return of the architecture
  around it, not instruction by instruction. In the whole-machine run only sleepers stand in the deadline queue; timers and the
  timed waits have their own runs (\<open>Timer_Rhythm\<close>, the theories of the synchronisation objects). The host tests test the components
  above and are not themselves modelled.
\<close>

end
